(* ===== verification/Prelude.thy ===== *)
theory Prelude
  imports Main
begin

text \<open>
  What every component of the development shares: JavaScript strings as lists of
  characters, the string operations of the JavaScript standard library the source calls,
  a failing computation as a sum, and the lemmas about them.

  A JavaScript string is a sequence of UTF-16 code units. The model carries the units
  below 256, one \<^typ>\<open>char\<close> each, so \<^const>\<open>length\<close> is the source's \<open>.length\<close>.
\<close>

type_synonym js_string = string

named_theorems js_simps \<open>evaluation rules for the string operations\<close>

section \<open>Characters\<close>

abbreviation TAB :: char where "TAB \<equiv> CHR 0x09"
abbreviation NL :: char where "NL \<equiv> CHR 0x0A"
abbreviation CR :: char where "CR \<equiv> CHR 0x0D"
abbreviation SP :: char where "SP \<equiv> CHR 0x20"
abbreviation DQ :: char where "DQ \<equiv> CHR 0x22"
abbreviation SQ :: char where "SQ \<equiv> CHR 0x27"
abbreviation BS :: char where "BS \<equiv> CHR 0x5C"
abbreviation BT :: char where "BT \<equiv> CHR 0x60"

text \<open>
  The one character above 255 the modelled code writes is the ellipsis U+2026; it is
  written with the position it has in Windows-1252, so that it stays one unit long.
\<close>

abbreviation ELLIPSIS :: char where "ELLIPSIS \<equiv> CHR 0x85"

definition in_range :: "nat \<Rightarrow> nat \<Rightarrow> char \<Rightarrow> bool" where
  "in_range lo hi c \<longleftrightarrow> lo \<le> of_char c \<and> of_char c \<le> hi"

definition is_digit :: "char \<Rightarrow> bool" where
  "is_digit c \<longleftrightarrow> in_range 48 57 c"

definition is_upper :: "char \<Rightarrow> bool" where
  "is_upper c \<longleftrightarrow> in_range 65 90 c"

definition is_lower :: "char \<Rightarrow> bool" where
  "is_lower c \<longleftrightarrow> in_range 97 122 c"

definition is_name_start :: "char \<Rightarrow> bool" where
  "is_name_start c \<longleftrightarrow> is_upper c \<or> is_lower c \<or> c = CHR ''_''"

definition is_name_char :: "char \<Rightarrow> bool" where
  "is_name_char c \<longleftrightarrow> is_name_start c \<or> is_digit c"

text \<open>The class \<open>\s\<close> and what \<open>trim\<close> removes: in this range the two agree.\<close>

definition is_space :: "char \<Rightarrow> bool" where
  "is_space c \<longleftrightarrow> in_range 9 13 c \<or> c = SP \<or> c = CHR 0xA0"

text \<open>Case: \<open>toLowerCase\<close> on the whole range, \<open>toUpperCase\<close> on ASCII.\<close>

definition lower_char :: "char \<Rightarrow> char" where
  "lower_char c =
     (if is_upper c \<or> (in_range 192 222 c \<and> c \<noteq> CHR 0xD7) then char_of (of_char c + 32 :: nat) else c)"

definition upper_char :: "char \<Rightarrow> char" where
  "upper_char c = (if is_lower c then char_of (of_char c - 32 :: nat) else c)"

definition lower :: "js_string \<Rightarrow> js_string" where
  "lower = map lower_char"

definition upper :: "js_string \<Rightarrow> js_string" where
  "upper = map upper_char"

section \<open>Strings\<close>

definition starts_with :: "js_string \<Rightarrow> js_string \<Rightarrow> bool" where
  "starts_with s p \<longleftrightarrow> take (length p) s = p"

definition ends_with :: "js_string \<Rightarrow> js_string \<Rightarrow> bool" where
  "ends_with s p \<longleftrightarrow> length p \<le> length s \<and> drop (length s - length p) s = p"

fun contains :: "js_string \<Rightarrow> js_string \<Rightarrow> bool" where
  "contains [] p \<longleftrightarrow> p = []"
| "contains (c # s) p \<longleftrightarrow> starts_with (c # s) p \<or> contains s p"

text \<open>\<open>s.split(c)\<close> for a one-character separator: never the empty list.\<close>

fun split_on :: "char \<Rightarrow> js_string \<Rightarrow> js_string list" where
  "split_on d [] = [[]]"
| "split_on d (c # s) =
     (if c = d then [] # split_on d s
      else (case split_on d s of [] \<Rightarrow> [[c]] | w # ws \<Rightarrow> (c # w) # ws))"

text \<open>\<open>s.split(/\s+/)\<close>: a maximal run of white space is one separator.\<close>

function split_ws :: "js_string \<Rightarrow> js_string list" where
  "split_ws s =
     (let w = takeWhile (\<lambda>c. \<not> is_space c) s; r = dropWhile (\<lambda>c. \<not> is_space c) s
      in if r = [] then [w] else w # split_ws (dropWhile is_space r))"
  by pat_completeness auto
termination
proof (relation "measure length", simp, goal_cases)
  case (1 s w r)
  obtain c r' where r: "r = c # r'"
    using 1(3) list.exhaust by blast
  have "is_space c"
    using 1(2) r hd_dropWhile [of "\<lambda>c. \<not> is_space c" s] by (metis list.distinct(1) list.sel(1))
  then have "length (dropWhile is_space r) < length r"
    by (simp add: r le_imp_less_Suc length_dropWhile_le)
  also have "length r \<le> length s"
    using 1(2) by (simp add: length_dropWhile_le)
  finally show ?case by simp
qed

declare split_ws.simps [simp del]

fun join :: "js_string \<Rightarrow> js_string list \<Rightarrow> js_string" where
  "join sep [] = []"
| "join sep [x] = x"
| "join sep (x # y # xs) = x @ sep @ join sep (y # xs)"

definition trim_left :: "js_string \<Rightarrow> js_string" where
  "trim_left = dropWhile is_space"

definition trim_right :: "js_string \<Rightarrow> js_string" where
  "trim_right s = rev (dropWhile is_space (rev s))"

definition trim :: "js_string \<Rightarrow> js_string" where
  "trim s = trim_right (trim_left s)"

text \<open>\<open>s.slice(0, -1)\<close> of an array is \<^const>\<open>butlast\<close>; \<open>xs.at(i)\<close> is the optional element.\<close>

definition at :: "'a list \<Rightarrow> nat \<Rightarrow> 'a option" where
  "at xs i = (if i < length xs then Some (xs ! i) else None)"

section \<open>Errors\<close>

text \<open>An error stops what follows it.\<close>

definition seq_sum :: "'e + 'a \<Rightarrow> ('a \<Rightarrow> 'e + 'b) \<Rightarrow> 'e + 'b" where
  "seq_sum m k = (case m of Inl e \<Rightarrow> Inl e | Inr a \<Rightarrow> k a)"

lemma seq_sum_simps [simp]: "seq_sum (Inl e) k = Inl e" "seq_sum (Inr a) k = k a"
  by (simp_all add: seq_sum_def)

lemma seq_sum_Inr [simp]: "seq_sum m k = Inr b \<longleftrightarrow> (\<exists>a. m = Inr a \<and> k a = Inr b)"
  by (cases m) auto

lemma seq_sum_cong [fundef_cong]:
  "m = m' \<Longrightarrow> (\<And>a. m' = Inr a \<Longrightarrow> k a = k' a) \<Longrightarrow> seq_sum m k = seq_sum m' k'"
  by (cases m') auto

section \<open>Lemmas\<close>

lemma is_space_SP [simp]: "is_space SP"
  by (simp add: is_space_def)

lemma starts_with_Nil [simp]: "starts_with s []"
  by (simp add: starts_with_def)

lemma starts_with_append [simp]: "starts_with (p @ s) p"
  by (simp add: starts_with_def)

lemma starts_withE: "starts_with s p \<Longrightarrow> \<exists>t. s = p @ t"
  by (metis append_take_drop_id starts_with_def)

lemma at_simps [simp]: "at [] i = None" "at (x # xs) 0 = Some x" "at (x # xs) (Suc i) = at xs i"
  by (simp_all add: at_def)

lemma at_SomeD: "at xs i = Some x \<Longrightarrow> i < length xs \<and> xs ! i = x"
  by (simp add: at_def split: if_splits)

lemma at_None_iff: "at xs i = None \<longleftrightarrow> length xs \<le> i"
  by (auto simp: at_def)

lemma split_on_ne [simp]: "split_on d s \<noteq> []"
  by (induction s) (auto split: list.splits)

lemma split_on_no_sep: "d \<notin> set s \<Longrightarrow> split_on d s = [s]"
  by (induction s) auto

lemma split_on_app: "d \<notin> set w \<Longrightarrow> split_on d (w @ d # s) = w # split_on d s"
  by (induction w) auto

text \<open>Splitting undoes joining when no part holds the separator.\<close>

lemma split_on_join:
  "ws \<noteq> [] \<Longrightarrow> \<forall>w \<in> set ws. d \<notin> set w \<Longrightarrow> split_on d (join [d] ws) = ws"
  by (induction "[d]" ws rule: join.induct) (auto simp: split_on_no_sep split_on_app)

lemma join_split_on: "join [d] (split_on d s) = s"
proof (induction s)
  case (Cons c s)
  obtain w ws where ws: "split_on d s = w # ws"
    by (cases "split_on d s") auto
  then show ?case
    using Cons by (cases ws) auto
qed simp

definition no_space :: "js_string \<Rightarrow> bool" where
  "no_space w \<longleftrightarrow> list_all (\<lambda>c. \<not> is_space c) w"

lemma split_ws_single: "no_space w \<Longrightarrow> split_ws w = [w]"
  by (subst split_ws.simps) (simp add: no_space_def list_all_iff Let_def)

lemma split_ws_step:
  assumes "no_space w" "s \<noteq> []" "\<not> is_space (hd s)"
  shows "split_ws (w @ SP # s) = w # split_ws s"
proof -
  have w: "takeWhile (\<lambda>c. \<not> is_space c) (w @ SP # s) = w"
    "dropWhile (\<lambda>c. \<not> is_space c) (w @ SP # s) = SP # s"
    using assms(1) by (auto simp: no_space_def list_all_iff takeWhile_append)
  have "dropWhile is_space (SP # s) = s"
    using assms(2,3) by (cases s) auto
  then show ?thesis
    by (subst split_ws.simps) (simp add: w Let_def)
qed

definition wordlike :: "js_string \<Rightarrow> bool" where
  "wordlike w \<longleftrightarrow> w \<noteq> [] \<and> no_space w"

lemma wordlike_hd: "wordlike w \<Longrightarrow> \<not> is_space (hd w)"
  by (cases w) (auto simp: wordlike_def no_space_def)

lemma join_hd: "ws \<noteq> [] \<Longrightarrow> hd ws \<noteq> [] \<Longrightarrow> join sep ws \<noteq> [] \<and> hd (join sep ws) = hd (hd ws)"
  by (cases "(sep, ws)" rule: join.cases) auto

lemma split_ws_join:
  "ws \<noteq> [] \<Longrightarrow> list_all wordlike ws \<Longrightarrow> split_ws (join [SP] ws) = ws"
proof (induction "[SP]" ws rule: join.induct)
  case (2 x)
  then show ?case by (simp add: split_ws_single wordlike_def)
next
  case (3 x y xs)
  have "join [SP] (y # xs) \<noteq> [] \<and> hd (join [SP] (y # xs)) = hd y"
    using "3.prems" join_hd [of "y # xs" "[SP]"] by (simp add: wordlike_def)
  moreover have "\<not> is_space (hd y)"
    using "3.prems" by (simp add: wordlike_hd)
  ultimately show ?case
    using "3" by (simp add: split_ws_step wordlike_def)
qed simp

lemma trim_left_id: "s \<noteq> [] \<Longrightarrow> \<not> is_space (hd s) \<Longrightarrow> trim_left s = s"
  by (cases s) (auto simp: trim_left_def)

lemma trim_right_id: "s \<noteq> [] \<Longrightarrow> \<not> is_space (last s) \<Longrightarrow> trim_right s = s"
  by (cases s rule: rev_cases) (auto simp: trim_right_def)

lemma join_last: "ws \<noteq> [] \<Longrightarrow> last ws \<noteq> [] \<Longrightarrow> last (join sep ws) = last (last ws) \<and> join sep ws \<noteq> []"
  by (induction sep ws rule: join.induct) (auto simp: join_hd)

lemma trim_join:
  assumes "ws \<noteq> []" "list_all wordlike ws"
  shows "trim (join [SP] ws) = join [SP] ws"
proof -
  have "wordlike (hd ws)" "wordlike (last ws)"
    using assms by (auto simp: list_all_iff)
  then have h: "hd ws \<noteq> []" "\<not> is_space (hd (hd ws))" "last ws \<noteq> []" "\<not> is_space (last (last ws))"
    by (auto simp: wordlike_def wordlike_hd no_space_def list_all_iff)
  show ?thesis
    unfolding trim_def
    using join_hd [OF assms(1) h(1), of "[SP]"] join_last [OF assms(1) h(3), of "[SP]"] h
    by (simp add: trim_left_id trim_right_id)
qed

lemmas js_defs = starts_with_def ends_with_def at_def trim_def trim_left_def trim_right_def

end
