(* ===== verification/BashParse.thy ===== *)
theory BashParse
  imports Prelude
begin

text \<open>
  The conservative shell parser of \<open>permissions/bash/parse.ts\<close>: a command line becomes the
  simple commands that will run, or a reason why it cannot be judged.

  The parser object's cursor \<open>i\<close> is the unread suffix of the source text, so a slice between
  two positions is the difference of two suffixes. A thrown \<open>Unparseable\<close> is \<open>PFail\<close>. The
  source's loops call each other, so the model spends one unit of fuel per call and loop
  turn; running out is \<open>PFuel\<close>, and \<open>parse_run_not_fuel\<close> shows that the fuel
  \<open>parse_fuel\<close> gives is always enough.
\<close>

section \<open>Data\<close>

record word =
  w_text :: js_string
  dynamic :: bool
  glob :: bool
  quoted :: bool

record redirect =
  op :: js_string
  fd :: "js_string option"
  target :: word

record segment =
  assignments :: "word list"
  argv :: "word list"
  redirects :: "redirect list"
  seg_text :: js_string

record heredoc =
  delimiter :: js_string
  h_quoted :: bool
  strip_tabs :: bool

record pstate =
  rest :: js_string
  heredocs :: "heredoc list"
  segs :: "segment list"

datatype parse_result = ParseOk "segment list" | ParseBad js_string

datatype 'a pres = PFuel | PFail js_string | POk 'a pstate

fun pbind :: "'a pres \<Rightarrow> ('a \<Rightarrow> pstate \<Rightarrow> 'b pres) \<Rightarrow> 'b pres" where
  "pbind PFuel f = PFuel"
| "pbind (PFail e) f = PFail e"
| "pbind (POk a s) f = f a s"

definition MAX_COMMAND_CHARS :: nat where
  "MAX_COMMAND_CHARS = 16384"

definition MAX_NESTING :: nat where
  "MAX_NESTING = 8"

definition RESERVED :: "js_string list" where
  "RESERVED =
    [''if'', ''then'', ''else'', ''elif'', ''fi'', ''for'', ''while'', ''until'', ''do'', ''done'',
     ''case'', ''esac'', ''select'', ''function'', ''{'', ''}'', ''[['', '']]'', ''coproc'', ''eval'']"

text \<open>\<open>ASSIGNMENT.test\<close>: a name followed by \<open>=\<close>.\<close>

definition is_assignment :: "js_string \<Rightarrow> bool" where
  "is_assignment raw \<longleftrightarrow>
     (case raw of [] \<Rightarrow> False
      | c # cs \<Rightarrow> is_name_start c \<and> starts_with (dropWhile is_name_char cs) ''='')"

section \<open>Cursor\<close>

definition peek :: "pstate \<Rightarrow> nat \<Rightarrow> char option" where
  "peek s k = at (rest s) k"

definition adv :: "nat \<Rightarrow> pstate \<Rightarrow> pstate" where
  "adv k s = s\<lparr>rest := drop k (rest s)\<rparr>"

definition slice :: "pstate \<Rightarrow> pstate \<Rightarrow> js_string" where
  "slice s s' = take (length (rest s) - length (rest s')) (rest s)"

fun skip_blanks_str :: "js_string \<Rightarrow> js_string" where
  "skip_blanks_str (c # d # cs) =
     (if c = SP \<or> c = TAB then skip_blanks_str (d # cs)
      else if c = BS \<and> d = NL then skip_blanks_str cs
      else c # d # cs)"
| "skip_blanks_str [c] = (if c = SP \<or> c = TAB then [] else [c])"
| "skip_blanks_str [] = []"

definition skip_blanks :: "pstate \<Rightarrow> pstate" where
  "skip_blanks s = s\<lparr>rest := skip_blanks_str (rest s)\<rparr>"

definition skip_comment :: "pstate \<Rightarrow> pstate" where
  "skip_comment s = s\<lparr>rest := dropWhile (\<lambda>c. c \<noteq> NL) (rest s)\<rparr>"

definition is_operator_start :: "char option \<Rightarrow> char option \<Rightarrow> bool" where
  "is_operator_start c tm \<longleftrightarrow>
     (case c of None \<Rightarrow> True
      | Some c \<Rightarrow> c = NL \<or> c \<in> set '';&|)('' \<or> (tm = Some BT \<and> c = BT))"

text \<open>
  \<open>redirectFd\<close>: \<^const>\<open>None\<close> where no redirect starts here, \<open>Some None\<close> for an operator with
  no descriptor, \<open>Some (Some ds)\<close> for one written after the digits \<open>ds\<close>.
\<close>

definition redirect_fd :: "pstate \<Rightarrow> js_string option option" where
  "redirect_fd s =
     (let ds = takeWhile is_digit (rest s)
      in case dropWhile is_digit (rest s) of
           c # _ \<Rightarrow> if c = CHR ''>'' \<or> c = CHR ''<'' then Some (if ds = [] then None else Some ds) else None
         | [] \<Rightarrow> None)"

text \<open>The operator at the cursor, longest first; \<^const>\<open>None\<close> is process substitution.\<close>

definition redirect_op :: "js_string \<Rightarrow> js_string option" where
  "redirect_op r =
     (if starts_with r ''&>>'' then Some ''&>>''
      else if starts_with r ''&>'' then Some ''&>''
      else if starts_with r ''<<<'' then Some ''<<<''
      else if starts_with r ''<<-'' then Some ''<<-''
      else if starts_with r ''<<'' then Some ''<<''
      else if starts_with r ''<('' \<or> starts_with r ''>('' then None
      else if starts_with r ''>>'' then Some ''>>''
      else if starts_with r ''>|'' then Some ''>|''
      else if starts_with r ''>&'' then Some ''>&''
      else if starts_with r ''<&'' then Some ''<&''
      else if starts_with r ''<>'' then Some ''<>''
      else Some (take 1 r))"

section \<open>Heredoc bodies\<close>

definition after_line :: "js_string \<Rightarrow> js_string" where
  "after_line r = drop (Suc (length (takeWhile (\<lambda>x. x \<noteq> NL) r))) r"

definition heredoc_line :: "heredoc \<Rightarrow> js_string \<Rightarrow> js_string" where
  "heredoc_line doc r =
     (let raw = takeWhile (\<lambda>x. x \<noteq> NL) r
      in if strip_tabs doc then dropWhile (\<lambda>x. x = TAB) raw else raw)"

function read_body :: "heredoc \<Rightarrow> js_string \<Rightarrow> js_string + js_string" where
  "read_body doc [] = Inl ''unterminated heredoc''"
| "read_body doc (c # cs) =
     (let line = heredoc_line doc (c # cs) in
      if line = delimiter doc then Inr (after_line (c # cs))
      else if \<not> h_quoted doc \<and> (contains line ''$('' \<or> contains line [BT])
        then Inl ''substitution in a heredoc''
      else read_body doc (after_line (c # cs)))"
  by pat_completeness auto
termination
  by (relation "measure (\<lambda>(doc, s). length s)") (auto simp: after_line_def)

fun read_bodies :: "heredoc list \<Rightarrow> js_string \<Rightarrow> js_string + js_string" where
  "read_bodies [] s = Inr s"
| "read_bodies (doc # docs) s =
     (case read_body doc s of Inl e \<Rightarrow> Inl e | Inr s' \<Rightarrow> read_bodies docs s')"

definition read_heredoc_bodies :: "pstate \<Rightarrow> unit pres" where
  "read_heredoc_bodies s =
     (case read_bodies (heredocs s) (rest s) of
        Inl e \<Rightarrow> PFail e
      | Inr r \<Rightarrow> POk () (s\<lparr>rest := r, heredocs := []\<rparr>))"

section \<open>Words, redirects, commands and lists\<close>

definition empty_word :: word where
  "empty_word = \<lparr>w_text = [], dynamic = False, glob = False, quoted = False\<rparr>"

definition empty_segment :: segment where
  "empty_segment = \<lparr>assignments = [], argv = [], redirects = [], seg_text = []\<rparr>"

definition add_text :: "word \<Rightarrow> js_string \<Rightarrow> word" where
  "add_text w t = w\<lparr>w_text := w_text w @ t\<rparr>"

definition add_dynamic :: "word \<Rightarrow> js_string \<Rightarrow> word" where
  "add_dynamic w t = w\<lparr>w_text := w_text w @ t, dynamic := True\<rparr>"

definition add_quoted :: "word \<Rightarrow> js_string \<Rightarrow> word" where
  "add_quoted w t = w\<lparr>w_text := w_text w @ t, quoted := True\<rparr>"

definition add_char :: "word \<Rightarrow> char \<Rightarrow> bool \<Rightarrow> word" where
  "add_char w c first =
     w\<lparr>w_text := w_text w @ [c], glob := glob w \<or> c \<in> set ''*?[{'' \<or> (c = CHR ''~'' \<and> first)\<rparr>"

definition add_redirects :: "redirect list \<Rightarrow> segment \<Rightarrow> segment" where
  "add_redirects rs seg = seg\<lparr>redirects := redirects seg @ rs\<rparr>"

definition add_argv :: "word \<Rightarrow> segment \<Rightarrow> segment" where
  "add_argv w seg = seg\<lparr>argv := argv seg @ [w]\<rparr>"

definition add_assignment :: "word \<Rightarrow> segment \<Rightarrow> segment" where
  "add_assignment w seg = seg\<lparr>assignments := assignments seg @ [w]\<rparr>"

definition SPECIAL_PARAMS :: js_string where
  "SPECIAL_PARAMS = ''@*#?$!-''"

text \<open>The body of \<open>${\<dots>}\<close> the parser understands: a name, or one digit or special parameter.\<close>

definition plain_parameter :: "js_string \<Rightarrow> bool" where
  "plain_parameter b \<longleftrightarrow>
     (case b of [] \<Rightarrow> False
      | c # cs \<Rightarrow> (is_name_start c \<and> list_all is_name_char cs)
               \<or> (cs = [] \<and> (is_digit c \<or> c \<in> set SPECIAL_PARAMS)))"

type_synonym list_parser = "char option \<Rightarrow> nat \<Rightarrow> pstate \<Rightarrow> unit pres"

text \<open>
  Every reader below takes as \<open>pl\<close> the parser of a nested command list (the recursive call
  \<open>this.parseList\<close> of the source) and, where it loops, the fuel of its loop.
\<close>

definition read_expansion :: "list_parser \<Rightarrow> nat \<Rightarrow> word \<Rightarrow> pstate \<Rightarrow> word pres" where
  "read_expansion pl d w s =
     (case peek s 1 of
        None \<Rightarrow> POk (add_text w ''$'') (adv 1 s)
      | Some nx \<Rightarrow>
          if nx = CHR ''('' then
            (if peek s 2 = Some (CHR ''('') then PFail ''arithmetic''
             else pbind (pl (Some (CHR '')'')) (Suc d) (adv 2 s))
               (\<lambda>_ s'. POk (add_dynamic w (''$('' @ [ELLIPSIS] @ '')'')) s'))
          else if nx = CHR ''{'' then
            (let after = drop 2 (rest s); body = takeWhile (\<lambda>x. x \<noteq> CHR ''}'') after in
             if CHR ''}'' \<notin> set after then PFail ''unterminated ${''
             else if \<not> plain_parameter body then PFail ''parameter expansion with an operator''
             else POk (add_dynamic w (take (length body + 3) (rest s))) (adv (length body + 3) s))
          else if is_name_start nx then
            (let name = takeWhile is_name_char (drop 1 (rest s)) in
             POk (add_dynamic w (CHR ''$'' # name)) (adv (Suc (length name)) s))
          else if is_digit nx \<or> nx \<in> set SPECIAL_PARAMS then
            POk (add_dynamic w (take 2 (rest s))) (adv 2 s)
          else if nx = SQ \<or> nx = DQ then
            PFail ([CHR ''$'', SQ, ELLIPSIS, SQ] @ '' or $'' @ [DQ, ELLIPSIS, DQ] @ '' quoting'')
          else POk (add_text w ''$'') (adv 1 s))"

primrec read_double_quoted :: "list_parser \<Rightarrow> nat \<Rightarrow> nat \<Rightarrow> word \<Rightarrow> pstate \<Rightarrow> word pres" where
  "read_double_quoted pl 0 d w s = PFuel"
| "read_double_quoted pl (Suc n) d w s =
     (case rest s of
        [] \<Rightarrow> PFail ''unterminated double quote''
      | c # cs \<Rightarrow>
          if c = DQ then POk w (adv 1 s)
          else if c = BS then
            (case cs of
               [] \<Rightarrow> PFail ''unterminated double quote''
             | nx # _ \<Rightarrow>
                 read_double_quoted pl n d
                   (add_text w (if nx \<in> {CHR ''$'', BT, DQ, BS} then [nx]
                                else if nx \<noteq> NL then [c, nx] else []))
                   (adv 2 s))
          else if c = CHR ''$'' then
            pbind (read_expansion pl d w s) (\<lambda>w' s'. read_double_quoted pl n d w' s')
          else if c = BT then
            pbind (pl (Some BT) (Suc d) (adv 1 s))
              (\<lambda>_ s'. read_double_quoted pl n d (add_dynamic w [BT, ELLIPSIS, BT]) s')
          else read_double_quoted pl n d (add_text w [c]) (adv 1 s))"

primrec read_word :: "list_parser \<Rightarrow> nat \<Rightarrow> char option \<Rightarrow> nat \<Rightarrow> word \<Rightarrow> bool \<Rightarrow> pstate \<Rightarrow> word pres" where
  "read_word pl 0 tm d w first s = PFuel"
| "read_word pl (Suc n) tm d w first s =
     (case rest s of
        [] \<Rightarrow> POk w s
      | c # cs \<Rightarrow>
          if c = SP \<or> c = TAB \<or> c = CHR ''<'' \<or> c = CHR ''>'' then POk w s
          else if is_operator_start (Some c) tm then POk w s
          else if c = BS then
            (case cs of
               [] \<Rightarrow> PFail ''trailing backslash''
             | nx # _ \<Rightarrow>
                 if nx = BT \<and> tm = Some BT then PFail ''nested backticks''
                 else read_word pl n tm d (add_quoted w (if nx \<noteq> NL then [nx] else [])) False (adv 2 s))
          else if c = SQ then
            (if SQ \<notin> set cs then PFail ''unterminated single quote''
             else (let body = takeWhile (\<lambda>x. x \<noteq> SQ) cs in
               read_word pl n tm d (add_quoted w body) False (adv (length body + 2) s)))
          else if c = DQ then
            pbind (read_double_quoted pl (Suc n) d (add_quoted w []) (adv 1 s))
              (\<lambda>w' s'. read_word pl n tm d w' False s')
          else if c = CHR ''$'' then
            pbind (read_expansion pl d w s) (\<lambda>w' s'. read_word pl n tm d w' False s')
          else if c = BT then
            pbind (pl (Some BT) (Suc d) (adv 1 s))
              (\<lambda>_ s'. read_word pl n tm d (add_dynamic w [BT, ELLIPSIS, BT]) False s')
          else
            read_word pl n tm d (add_char w c first) False (adv 1 s))"

definition read_redirect :: "list_parser \<Rightarrow> nat \<Rightarrow> js_string option \<Rightarrow> nat \<Rightarrow> pstate \<Rightarrow> redirect pres" where
  "read_redirect pl n f d s =
     (let s1 = (case f of None \<Rightarrow> s | Some ds \<Rightarrow> adv (length ds) s) in
      case redirect_op (take 3 (rest s1)) of
        None \<Rightarrow> PFail ''process substitution''
      | Some opr \<Rightarrow>
          (let s2 = skip_blanks (adv (length opr) s1) in
           if is_operator_start (peek s2 0) None then PFail (opr @ '' without a target'')
           else pbind (read_word pl n None d empty_word True s2) (\<lambda>w s3.
             if opr = ''<<'' \<or> opr = ''<<-'' then
               (if dynamic w then PFail ''heredoc delimiter with an expansion''
                else POk \<lparr>op = opr, fd = f, target = w\<rparr>
                  (s3\<lparr>heredocs := heredocs s3 @
                      [\<lparr>delimiter = w_text w, h_quoted = quoted w, strip_tabs = (opr = ''<<-'')\<rparr>]\<rparr>))
             else POk \<lparr>op = opr, fd = f, target = w\<rparr> s3)))"

primrec read_trailing :: "list_parser \<Rightarrow> nat \<Rightarrow> nat \<Rightarrow> redirect list \<Rightarrow> pstate \<Rightarrow> redirect list pres" where
  "read_trailing pl 0 d acc s0 = PFuel"
| "read_trailing pl (Suc n) d acc s0 =
     (let s = skip_blanks s0 in
      if peek s 0 = Some (CHR ''&'') \<and> peek s 1 = Some (CHR ''>'') then
        pbind (read_redirect pl (Suc n) None d s) (\<lambda>r s'. read_trailing pl n d (acc @ [r]) s')
      else case redirect_fd s of
        None \<Rightarrow> POk acc s
      | Some f \<Rightarrow> pbind (read_redirect pl (Suc n) f d s) (\<lambda>r s'. read_trailing pl n d (acc @ [r]) s'))"

primrec simple_loop :: "list_parser \<Rightarrow> nat \<Rightarrow> char option \<Rightarrow> nat \<Rightarrow> segment \<Rightarrow> pstate \<Rightarrow> segment pres" where
  "simple_loop pl 0 tm d seg s0 = PFuel"
| "simple_loop pl (Suc n) tm d seg s0 =
     (let s = skip_blanks s0 in
      if peek s 0 = Some (CHR ''&'') \<and> peek s 1 = Some (CHR ''>'') then
        pbind (read_redirect pl (Suc n) None d s) (\<lambda>r s'. simple_loop pl n tm d (add_redirects [r] seg) s')
      else if is_operator_start (peek s 0) tm then
        (if peek s 0 = Some (CHR ''('') then PFail ''( inside a command'' else POk seg s)
      else if peek s 0 = Some (CHR ''#'') then POk seg (skip_comment s)
      else case redirect_fd s of
        Some f \<Rightarrow> pbind (read_redirect pl (Suc n) f d s) (\<lambda>r s'. simple_loop pl n tm d (add_redirects [r] seg) s')
      | None \<Rightarrow>
          pbind (read_word pl (Suc n) tm d empty_word True s) (\<lambda>w s'.
            if argv seg = [] \<and> \<not> quoted w \<and> \<not> dynamic w \<and> w_text w \<in> set RESERVED
              then PFail ([BT] @ w_text w @ [BT])
            else if argv seg = [] \<and> \<not> quoted w \<and> w_text w = ''!'' then simple_loop pl n tm d seg s'
            else if argv seg = [] \<and> is_assignment (slice s s')
              then simple_loop pl n tm d (add_assignment w seg) s'
            else simple_loop pl n tm d (add_argv w seg) s'))"

definition parse_simple :: "list_parser \<Rightarrow> nat \<Rightarrow> char option \<Rightarrow> nat \<Rightarrow> pstate \<Rightarrow> unit pres" where
  "parse_simple pl n tm d s =
     pbind (simple_loop pl n tm d empty_segment s) (\<lambda>seg s'.
       POk () (if argv seg \<noteq> [] \<or> assignments seg \<noteq> [] \<or> redirects seg \<noteq> []
               then s'\<lparr>segs := segs s' @ [seg\<lparr>seg_text := trim (slice s s')\<rparr>]\<rparr>
               else s'))"

primrec list_loop :: "list_parser \<Rightarrow> nat \<Rightarrow> char option \<Rightarrow> nat \<Rightarrow> pstate \<Rightarrow> unit pres" where
  "list_loop pl 0 tm d s0 = PFuel"
| "list_loop pl (Suc n) tm d s0 =
     (let s = skip_blanks s0 in
      case peek s 0 of
        None \<Rightarrow>
          if tm \<noteq> None
          then PFail (if tm = Some (CHR '')'') then ''unterminated ( or $('' else ''unterminated backtick'')
          else if heredocs s \<noteq> [] then PFail ''unterminated heredoc''
          else POk () s
      | Some c \<Rightarrow>
          if tm = Some c then POk () (adv 1 s)
          else if c = CHR '')'' \<or> c = BT then PFail (''unexpected '' @ [c])
          else if c = NL then pbind (read_heredoc_bodies (adv 1 s)) (\<lambda>_ s'. list_loop pl n tm d s')
          else if c = CHR '';'' then
            (if peek s 1 = Some (CHR '';'') then PFail ''case syntax'' else list_loop pl n tm d (adv 1 s))
          else if c = CHR ''&'' \<and> peek s 1 \<noteq> Some (CHR ''>'') then
            list_loop pl n tm d (adv (if peek s 1 = Some (CHR ''&'') then 2 else 1) s)
          else if c = CHR ''|'' then
            list_loop pl n tm d
              (adv (if peek s 1 = Some (CHR ''|'') \<or> peek s 1 = Some (CHR ''&'') then 2 else 1) s)
          else if c = CHR ''#'' then list_loop pl n tm d (skip_comment s)
          else if c = CHR ''('' then
            (if peek s 1 = Some (CHR ''('') then PFail ''arithmetic''
             else pbind (pl (Some (CHR '')'')) (Suc d) (adv 1 s)) (\<lambda>_ s1.
               pbind (read_trailing pl (Suc n) d [] s1) (\<lambda>rs s2.
                 list_loop pl n tm d
                   (s2\<lparr>segs := take (length (segs s)) (segs s2)
                              @ map (add_redirects rs) (drop (length (segs s)) (segs s2))\<rparr>))))
          else pbind (parse_simple pl (Suc n) tm d s) (\<lambda>_ s'. list_loop pl n tm d s'))"

primrec parse_list :: "nat \<Rightarrow> list_parser" where
  "parse_list 0 tm d s = PFuel"
| "parse_list (Suc n) tm d s =
     (if d > MAX_NESTING then PFail ''nested too deeply'' else list_loop (parse_list n) (Suc n) tm d s)"

definition parse_fuel :: "js_string \<Rightarrow> nat" where
  "parse_fuel command = Suc (length command)"

definition init_pstate :: "js_string \<Rightarrow> pstate" where
  "init_pstate command = \<lparr>rest = command, heredocs = [], segs = []\<rparr>"

definition parse_run :: "js_string \<Rightarrow> unit pres" where
  "parse_run command = parse_list (parse_fuel command) None 0 (init_pstate command)"

definition head_computed :: "segment \<Rightarrow> bool" where
  "head_computed seg \<longleftrightarrow>
     (case argv seg of [] \<Rightarrow> False | w # _ \<Rightarrow> dynamic w \<or> glob w)"

definition parse_command :: "js_string \<Rightarrow> parse_result" where
  "parse_command command =
     (if length command > MAX_COMMAND_CHARS then ParseBad ''too long to check''
      else case parse_run command of
        PFuel \<Rightarrow> ParseBad ''out of fuel''
      | PFail reason \<Rightarrow> ParseBad reason
      | POk _ s \<Rightarrow>
          if list_ex head_computed (segs s) then ParseBad ''a command name that is computed''
          else ParseOk (segs s))"

end
