(* ===== verification/BashParseTotal.thy ===== *)
theory BashParseTotal
  imports BashParse
begin

text \<open>
  The parser of \<open>permissions/bash/parse.ts\<close> always answers: every reader consumes what it
  must, so the fuel of \<^const>\<open>parse_fuel\<close> (one more than the length of the command) never
  runs out, and the model's \<^const>\<open>PFuel\<close> is unreachable.
\<close>

section \<open>The fuel is enough\<close>

text \<open>
  \<open>progress k s r\<close>: the reader did not run out of fuel and, where it succeeded, left at
  least \<open>k\<close> characters fewer than there were in \<open>s\<close>.
\<close>

declare One_nat_def [simp del]

definition progress :: "nat \<Rightarrow> pstate \<Rightarrow> 'a pres \<Rightarrow> bool" where
  "progress k s r \<longleftrightarrow>
     (case r of PFuel \<Rightarrow> False | PFail _ \<Rightarrow> True
      | POk _ s' \<Rightarrow> length (rest s') + k \<le> length (rest s))"

definition pl_ok :: "list_parser \<Rightarrow> nat \<Rightarrow> bool" where
  "pl_ok pl m \<longleftrightarrow> (\<forall>tm d s. length (rest s) < m \<longrightarrow> progress 0 s (pl tm d s))"

lemma progress_simps [simp]:
  "\<not> progress k s PFuel" "progress k s (PFail e)"
  "progress k s (POk a s') \<longleftrightarrow> length (rest s') + k \<le> length (rest s)"
  by (simp_all add: progress_def)

lemma progress_shift:
  "progress j s' r \<Longrightarrow> length (rest s') + i \<le> length (rest s) \<Longrightarrow> k \<le> i + j \<Longrightarrow> progress k s r"
  by (auto simp: progress_def split: pres.splits)

lemma progress_mono: "progress j s r \<Longrightarrow> k \<le> j \<Longrightarrow> progress k s r"
  by (rule progress_shift [where i = 0]) auto

lemma progress_bind:
  assumes "progress i s m"
    and "\<And>a s'. length (rest s') + i \<le> length (rest s) \<Longrightarrow> progress k s (f a s')"
  shows "progress k s (pbind m f)"
  using assms by (cases m) auto

lemmas progress_bind1 = progress_bind [where i = 1]

lemma progress_if:
  "(b \<Longrightarrow> progress k s x) \<Longrightarrow> (\<not> b \<Longrightarrow> progress k s y) \<Longrightarrow> progress k s (if b then x else y)"
  by simp

lemma progress_list_case:
  "(r = [] \<Longrightarrow> progress k s x) \<Longrightarrow> (\<And>c cs. r = c # cs \<Longrightarrow> progress k s (f c cs)) \<Longrightarrow>
   progress k s (case r of [] \<Rightarrow> x | c # cs \<Rightarrow> f c cs)"
  by (cases r) auto

lemma progress_option_case:
  "(r = None \<Longrightarrow> progress k s x) \<Longrightarrow> (\<And>c. r = Some c \<Longrightarrow> progress k s (f c)) \<Longrightarrow>
   progress k s (case r of None \<Rightarrow> x | Some c \<Rightarrow> f c)"
  by (cases r) auto

lemmas progress_intros = progress_if progress_list_case progress_option_case progress_bind1

lemma skip_blanks_str_le: "length (skip_blanks_str r) \<le> length r"
  by (induction r rule: skip_blanks_str.induct) auto

lemma skip_blanks_le [simp]: "length (rest (skip_blanks s)) \<le> length (rest s)"
  by (simp add: skip_blanks_def skip_blanks_str_le)

lemma rest_adv [simp]: "rest (adv k s) = drop k (rest s)"
  by (simp add: adv_def)

lemma pl_okD: "pl_ok pl m \<Longrightarrow> length (rest s) < m \<Longrightarrow> progress 0 s (pl tm d s)"
  by (simp add: pl_ok_def)

lemma nested_progress:
  assumes "pl_ok pl m" "length (rest s) \<le> m" "0 < j" "j \<le> length (rest s)"
  shows "progress 1 s (pl tm d (adv j s))"
proof -
  have "progress 0 (adv j s) (pl tm d (adv j s))"
    using assms by (intro pl_okD) auto
  then show ?thesis
    by (rule progress_shift [where i = j]) (use assms in auto)
qed

lemma progress_read_expansion:
  assumes "pl_ok pl m" "length (rest s) \<le> m" "rest s \<noteq> []"
  shows "progress 1 s (read_expansion pl d w s)"
proof -
  obtain c cs where r: "rest s = c # cs" using assms(3) by (cases "rest s") auto
  have *: "cs \<noteq> [] \<Longrightarrow> progress 1 s (pl tm d' (adv 2 s))" for tm d'
    using assms r by (intro nested_progress) (auto simp: Suc_le_eq One_nat_def)
  show ?thesis
    unfolding read_expansion_def peek_def at_def
    by (auto simp: r Let_def intro!: progress_bind [where i = 1] *)
qed

lemma progress_read_double_quoted:
  assumes "pl_ok pl m"
  shows "length (rest s) \<le> m \<Longrightarrow> length (rest s) < n \<Longrightarrow> progress 0 s (read_double_quoted pl n d w s)"
proof (induction n arbitrary: s w)
  case (Suc n)
  have IH: "progress 0 s (read_double_quoted pl n d w' s')"
    if h: "length (rest s') + 1 \<le> length (rest s)" for s' w'
    by (rule progress_shift [OF Suc.IH h]) (use Suc.prems h in auto)
  show ?case
  proof (cases "rest s")
    case Nil
    then show ?thesis by simp
  next
    case (Cons c cs)
    have ne: "progress 1 s (pl tm d' (adv 1 s))" "progress 1 s (read_expansion pl d w' s)" for tm d' w'
      using Suc.prems Cons by (auto intro: nested_progress [OF assms] progress_read_expansion [OF assms])
    show ?thesis
      by (auto simp: Cons split: list.split intro!: progress_bind1 ne IH)
  qed
qed simp

definition word_break :: "char option \<Rightarrow> js_string \<Rightarrow> bool" where
  "word_break tm r \<longleftrightarrow>
     (case r of [] \<Rightarrow> True
      | c # _ \<Rightarrow> c = SP \<or> c = TAB \<or> c = CHR ''<'' \<or> c = CHR ''>'' \<or> is_operator_start (Some c) tm)"

lemma progress_read_word:
  assumes "pl_ok pl m"
  shows "length (rest s) \<le> m \<Longrightarrow> length (rest s) < n \<Longrightarrow>
    progress (if word_break tm (rest s) then 0 else 1) s (read_word pl n tm d w first s)"
proof (induction n arbitrary: s w first)
  case (Suc n)
  have IH: "progress 1 s (read_word pl n tm d w' f' s')"
    if h: "length (rest s') + 1 \<le> length (rest s)" for s' w' f'
    by (rule progress_shift [OF progress_mono [OF Suc.IH, where k = 0] h]) (use Suc.prems h in auto)
  have dq: "progress 1 s (read_double_quoted pl (Suc n) d w' (adv 1 s))" if ne: "rest s \<noteq> []" for w'
  proof -
    have l: "length (rest (adv 1 s)) + 1 \<le> length (rest s)"
      using ne by (cases "rest s") auto
    show ?thesis
      by (rule progress_shift [OF progress_read_double_quoted [OF assms] l]) (use Suc.prems l in auto)
  qed
  show ?case
  proof (cases "word_break tm (rest s)")
    case True
    then show ?thesis by (auto simp: word_break_def split: list.splits)
  next
    case False
    then obtain c cs where r: "rest s = c # cs"
      by (auto simp: word_break_def split: list.splits)
    have ne: "progress 1 s (pl tm' d' (adv 1 s))" "progress 1 s (read_expansion pl d w' s)" for tm' d' w'
      using Suc.prems r by (auto intro: nested_progress [OF assms] progress_read_expansion [OF assms])
    show ?thesis
      unfolding read_word.simps Let_def r
      by (simp only: list.case, intro progress_intros ne dq) (use False r in \<open>simp_all add: word_break_def IH\<close>)
  qed
qed simp

lemma redirect_op_length: "redirect_op r = Some p \<Longrightarrow> r \<noteq> [] \<Longrightarrow> 0 < length p"
  by (auto simp: redirect_op_def split: if_splits)

lemma redirect_fd_length:
  assumes "redirect_fd s = Some f"
  shows "(case f of None \<Rightarrow> 0 | Some ds \<Rightarrow> length ds) < length (rest s)"
proof -
  have "length (takeWhile is_digit (rest s)) + length (dropWhile is_digit (rest s)) = length (rest s)"
    by (metis length_append takeWhile_dropWhile_id)
  then show ?thesis
    using assms by (auto simp: redirect_fd_def Let_def split: list.splits if_splits)
qed

lemma progress_read_redirect:
  assumes "pl_ok pl m" "length (rest s) \<le> m" "length (rest s) \<le> n"
    and "(case f of None \<Rightarrow> 0 | Some ds \<Rightarrow> length ds) < length (rest s)"
  shows "progress 1 s (read_redirect pl n f d s)"
proof -
  define s1 where "s1 = (case f of None \<Rightarrow> s | Some ds \<Rightarrow> adv (length ds) s)"
  have ne: "rest s1 \<noteq> []" and le1: "length (rest s1) \<le> length (rest s)"
    using assms(4) by (auto simp: s1_def split: option.splits)
  have w: "progress 1 s (read_word pl n None d empty_word True (skip_blanks (adv (length p) s1)))"
    if "redirect_op (take 3 (rest s1)) = Some p" for p
  proof -
    have "0 < length p" using redirect_op_length [OF that] ne by simp
    then have "length (rest (adv (length p) s1)) < length (rest s1)"
      using ne by (cases "rest s1") auto
    then have lt: "length (rest (skip_blanks (adv (length p) s1))) < length (rest s)"
      using skip_blanks_le [of "adv (length p) s1"] le1 by linarith
    show ?thesis
      by (rule progress_shift [OF progress_mono [OF progress_read_word [OF assms(1)], of _ _ 0]])
        (use lt assms in auto)
  qed
  show ?thesis
    unfolding read_redirect_def s1_def [symmetric]
    by (auto simp: Let_def split: option.splits intro!: progress_bind [OF w])
qed

lemma progress_read_trailing:
  assumes "pl_ok pl m"
  shows "length (rest s) \<le> m \<Longrightarrow> length (rest s) < n \<Longrightarrow> progress 0 s (read_trailing pl n d acc s)"
proof (induction n arbitrary: s acc)
  case (Suc n)
  let ?s = "skip_blanks s"
  have le: "length (rest ?s) \<le> length (rest s)" by simp
  have IH: "progress 0 s (read_trailing pl n d acc' s')"
    if h: "length (rest s') + 1 \<le> length (rest ?s)" for s' acc'
    by (rule progress_shift [OF Suc.IH [of s'], where i = 1]) (use Suc.prems h le in \<open>auto simp del: skip_blanks_le\<close>)
  have rd: "progress 1 ?s (read_redirect pl (Suc n) f d ?s)"
    if "(case f of None \<Rightarrow> 0 | Some ds \<Rightarrow> length ds) < length (rest ?s)" for f
    by (rule progress_read_redirect [OF assms]) (use Suc.prems le that in \<open>auto simp del: skip_blanks_le\<close>)
  have b: "progress 0 s (pbind (read_redirect pl (Suc n) f d ?s) (\<lambda>r s'. read_trailing pl n d (acc @ [r]) s'))"
    if "(case f of None \<Rightarrow> 0 | Some ds \<Rightarrow> length ds) < length (rest ?s)" for f
    using rd [OF that] by (cases "read_redirect pl (Suc n) f d ?s") (auto intro!: IH)
  show ?case
  proof (cases "peek ?s 0 = Some (CHR ''&'') \<and> peek ?s 1 = Some (CHR ''>'')")
    case True
    then have "0 < length (rest ?s)"
      by (auto simp: peek_def dest: at_SomeD)
    with True show ?thesis
      using b [of None] by (simp add: Let_def)
  next
    case False
    then show ?thesis
      using b [OF redirect_fd_length] le by (auto simp: Let_def split: option.split)
  qed
qed simp

lemma skip_blanks_str_idem: "skip_blanks_str (skip_blanks_str r) = skip_blanks_str r"
  by (induction r rule: skip_blanks_str.induct) auto

lemma skip_blanks_idem [simp]: "skip_blanks (skip_blanks s) = skip_blanks s"
  by (simp add: skip_blanks_def skip_blanks_str_idem)

lemma skip_blanks_str_hd: "skip_blanks_str r = c # cs \<Longrightarrow> c \<noteq> SP \<and> c \<noteq> TAB"
  by (induction r rule: skip_blanks_str.induct) (auto split: if_splits)

lemma skip_comment_le [simp]: "length (rest (skip_comment s)) \<le> length (rest s)"
  by (simp add: skip_comment_def length_dropWhile_le)

lemma not_word_break:
  assumes "redirect_fd (skip_blanks s) = None" "\<not> is_operator_start (peek (skip_blanks s) 0) tm"
  shows "\<not> word_break tm (rest (skip_blanks s))"
proof (cases "rest (skip_blanks s)")
  case Nil
  then show ?thesis using assms(2) by (simp add: peek_def is_operator_start_def)
next
  case (Cons c cs)
  moreover have "c \<noteq> SP \<and> c \<noteq> TAB"
    using Cons skip_blanks_str_hd by (simp add: skip_blanks_def)
  moreover have "c \<noteq> CHR ''<'' \<and> c \<noteq> CHR ''>''"
    using assms(1) Cons by (auto simp: redirect_fd_def Let_def is_digit_def in_range_def)
  ultimately show ?thesis
    using assms(2) by (simp add: word_break_def peek_def)
qed

text \<open>Where a simple command starts: a word or a redirect, not an operator or a comment.\<close>

definition command_start :: "char option \<Rightarrow> pstate \<Rightarrow> bool" where
  "command_start tm s \<longleftrightarrow>
     (peek s 0 = Some (CHR ''&'') \<and> peek s 1 = Some (CHR ''>''))
     \<or> (\<not> is_operator_start (peek s 0) tm \<and> peek s 0 \<noteq> Some (CHR ''#''))"

lemma progress_simple_loop:
  assumes "pl_ok pl m"
  shows "length (rest s) \<le> m \<Longrightarrow> length (rest s) < n \<Longrightarrow>
    progress (if command_start tm (skip_blanks s) then 1 else 0) s (simple_loop pl n tm d seg s)"
proof (induction n arbitrary: s seg)
  case (Suc n)
  let ?s = "skip_blanks s"
  have le: "length (rest ?s) \<le> length (rest s)" by simp
  have IH: "progress 1 s (simple_loop pl n tm d seg' s')"
    if h: "length (rest s') + 1 \<le> length (rest ?s)" for s' seg'
    by (rule progress_shift [OF progress_mono [OF Suc.IH [of s'], where k = 0], where i = 1])
      (use Suc.prems h le in \<open>auto simp del: skip_blanks_le\<close>)
  have bind: "progress 1 ?s m' \<Longrightarrow> (\<And>a s'. length (rest s') + 1 \<le> length (rest ?s) \<Longrightarrow> progress 1 s (f a s'))
      \<Longrightarrow> progress 1 s (pbind m' f)" for m' :: "'b pres" and f
    by (cases m') auto
  have rd: "progress 1 s (pbind (read_redirect pl (Suc n) f d ?s) (\<lambda>r s'. simple_loop pl n tm d (add_redirects [r] seg) s'))"
    if "(case f of None \<Rightarrow> 0 | Some ds \<Rightarrow> length ds) < length (rest ?s)" for f
    by (rule bind [OF progress_read_redirect [OF assms]]) (use Suc.prems le that IH in \<open>auto simp del: skip_blanks_le\<close>)
  have wd: "progress 1 ?s (read_word pl (Suc n) tm d empty_word True ?s)"
    if "\<not> word_break tm (rest ?s)"
    using progress_read_word [OF assms, of ?s "Suc n" tm d empty_word True] Suc.prems le that by simp
  have dg: "progress 1 s r \<Longrightarrow> progress (if b then 1 else 0) s r" for b and r :: "segment pres"
    by (auto intro: progress_mono)
  show ?case
  proof (cases "peek ?s 0 = Some (CHR ''&'') \<and> peek ?s 1 = Some (CHR ''>'')")
    case True
    then have "0 < length (rest ?s)"
      by (auto simp: peek_def dest: at_SomeD)
    with True rd [of None] show ?thesis
      by (intro dg) (simp add: Let_def)
  next
    case nr: False
    show ?thesis
    proof (cases "is_operator_start (peek ?s 0) tm \<or> peek ?s 0 = Some (CHR ''#'')")
      case True
      then have "\<not> command_start tm ?s" using nr by (auto simp: command_start_def)
      with True nr show ?thesis
        using le order_trans [OF skip_comment_le le] by (auto simp: Let_def)
    next
      case False
      then have eq: "simple_loop pl (Suc n) tm d seg s = (case redirect_fd ?s of
        Some f \<Rightarrow> pbind (read_redirect pl (Suc n) f d ?s) (\<lambda>r s'. simple_loop pl n tm d (add_redirects [r] seg) s')
      | None \<Rightarrow>
          pbind (read_word pl (Suc n) tm d empty_word True ?s) (\<lambda>w s'.
            if argv seg = [] \<and> \<not> quoted w \<and> \<not> dynamic w \<and> w_text w \<in> set RESERVED
              then PFail ([BT] @ w_text w @ [BT])
            else if argv seg = [] \<and> \<not> quoted w \<and> w_text w = ''!'' then simple_loop pl n tm d seg s'
            else if argv seg = [] \<and> is_assignment (slice ?s s')
              then simple_loop pl n tm d (add_assignment w seg) s'
            else simple_loop pl n tm d (add_argv w seg) s'))"
        using nr by (auto simp: Let_def)
      show ?thesis
        unfolding eq
        by (intro dg progress_option_case bind [OF wd] progress_if rd IH progress_simps(2))
          (use not_word_break False in \<open>auto intro: redirect_fd_length\<close>)
    qed
  qed
qed simp

lemma progress_parse_simple:
  assumes "pl_ok pl m" "length (rest s) \<le> m" "length (rest s) < n" "s = skip_blanks s" "command_start tm s"
  shows "progress 1 s (parse_simple pl n tm d s)"
proof -
  have "progress 1 s (simple_loop pl n tm d empty_segment s)"
    using progress_simple_loop [OF assms(1-3)] assms(4,5) by metis
  then show ?thesis
    unfolding parse_simple_def by (rule progress_bind1) auto
qed

lemma after_line_le: "length (after_line r) \<le> length r"
  by (simp add: after_line_def)

lemma read_body_le: "read_body doc r = Inr r' \<Longrightarrow> length r' \<le> length r"
  by (induction doc r rule: read_body.induct)
    (use after_line_le in \<open>fastforce simp: Let_def split: if_splits intro: order_trans\<close>)+

lemma read_bodies_le: "read_bodies docs r = Inr r' \<Longrightarrow> length r' \<le> length r"
  by (induction docs r rule: read_bodies.induct) (auto split: sum.splits dest!: read_body_le)

lemma progress_read_heredoc_bodies: "progress 0 s (read_heredoc_bodies s)"
  by (auto simp: read_heredoc_bodies_def dest: read_bodies_le split: sum.split)

lemma progress_list_loop:
  assumes "pl_ok pl m"
  shows "length (rest s0) \<le> m \<Longrightarrow> length (rest s0) < n \<Longrightarrow> progress 0 s0 (list_loop pl n tm d s0)"
proof (induction n arbitrary: s0)
  case (Suc n)
  define s where "s = skip_blanks s0"
  have le: "length (rest s) \<le> length (rest s0)" and idem: "s = skip_blanks s" by (simp_all add: s_def)
  have IH: "progress 0 s (list_loop pl n tm d s')"
    if h: "length (rest s') + 1 \<le> length (rest s)" for s'
    by (rule progress_shift [OF Suc.IH [of s'] h]) (use Suc.prems h le in auto)
  have ne: "progress 1 s (pl tm' d' (adv 1 s))" "progress 1 s (read_heredoc_bodies (adv 1 s))"
    if r: "rest s = c # cs" for tm' d' c cs
  proof -
    show "progress 1 s (pl tm' d' (adv 1 s))"
      using Suc.prems le r by (auto intro!: nested_progress [OF assms])
    show "progress 1 s (read_heredoc_bodies (adv 1 s))"
      by (rule progress_shift [OF progress_read_heredoc_bodies, where i = 1]) (use r in auto)
  qed
  have tr: "progress 1 s (read_trailing pl (Suc n) d [] s')" if h: "length (rest s') + 1 \<le> length (rest s)" for s'
    by (rule progress_shift [OF progress_read_trailing [OF assms] h]) (use Suc.prems h le in auto)
  have ps: "progress 1 s (parse_simple pl (Suc n) tm d s)" if "command_start tm s"
    by (rule progress_parse_simple [OF assms _ _ idem that]) (use Suc.prems le in auto)
  have "progress 0 s (list_loop pl (Suc n) tm d s0)"
  proof (cases "rest s")
    case Nil
    then show ?thesis
      by (simp add: Let_def s_def [symmetric] peek_def)
  next
    case r: (Cons c cs)
    have pk: "peek s 0 = Some c" by (simp add: peek_def r)
    have ps': "progress 1 s (parse_simple pl (Suc n) tm d s)"
      if "tm \<noteq> Some c" "\<not> (c = CHR '')'' \<or> c = BT)" "c \<noteq> NL" "c \<noteq> CHR '';''"
        "\<not> (c = CHR ''&'' \<and> peek s 1 \<noteq> Some (CHR ''>''))" "c \<noteq> CHR ''|''" "c \<noteq> CHR ''#''" "c \<noteq> CHR ''(''"
      by (rule ps) (use that in \<open>auto simp: command_start_def is_operator_start_def pk\<close>)
    have cm: "c = CHR ''#'' \<Longrightarrow> length (rest (skip_comment s)) + 1 \<le> length (rest s)"
      by (simp add: skip_comment_def r length_dropWhile_le)
    have trl: "progress 0 s (pbind (pl tm' d' (adv 1 s)) (\<lambda>_ s1. pbind (read_trailing pl (Suc n) d [] s1) (f s1)))"
      if "\<And>s1 rs s2. length (rest s2) + 1 \<le> length (rest s) \<Longrightarrow> progress 0 s (f s1 rs s2)" for tm' d' f
      by (rule progress_bind1 [OF ne(1) [OF r]], rule progress_bind1 [OF tr]) (use that in auto)
    show ?thesis
      unfolding list_loop.simps Let_def s_def [symmetric] pk option.case
      by (intro progress_if progress_bind1 [OF ne(2) [OF r]] progress_bind1 [OF ps'] trl IH cm
          progress_simps(2)) (auto simp: r)
  qed
  then show ?case
    by (rule progress_shift [where i = 0]) (use le in auto)
qed simp

lemma progress_parse_list: "length (rest s) < n \<Longrightarrow> progress 0 s (parse_list n tm d s)"
proof (induction n arbitrary: tm d s)
  case (Suc n)
  have "pl_ok (parse_list n) n"
    using Suc.IH by (simp add: pl_ok_def)
  then show ?case
    unfolding parse_list.simps using Suc.prems
    by (intro progress_if progress_list_loop progress_simps(2)) auto
qed simp

declare read_double_quoted.simps [simp del] read_word.simps [simp del] read_trailing.simps [simp del]
  simple_loop.simps [simp del] list_loop.simps [simp del] parse_list.simps [simp del]

lemma parse_run_total: "parse_run command \<noteq> PFuel"
  using progress_parse_list [of "init_pstate command" "parse_fuel command" None 0]
  by (auto simp: parse_run_def init_pstate_def parse_fuel_def)

text \<open>C35: The parser terminates on every command line: the fuel the model gives it, one unit
  more than the command's length, is never used up, whatever the input.\<close>

theorem parser_terminates: "parse_run command \<noteq> PFuel"
  by (rule parse_run_total)

declare One_nat_def [simp]

end
