(* ===== verification/BashReadonly.thy ===== *)
theory BashReadonly
  imports BashParse
begin

text \<open>
  The built-in read-only commands of \<open>permissions/bash/readonly.ts\<close>: which simple commands
  run without asking in every mode.

  Two tables of the source (\<open>GH_READ\<close>, \<open>PACKAGE_READ\<close>) are plain objects indexed by a word
  of the command, so a word that names a member of \<open>Object.prototype\<close> finds an inherited
  member, on which \<open>.includes\<close> is not a function: the code throws a \<open>TypeError\<close>. A judgement
  is therefore a \<^typ>\<open>bool option\<close>, \<^const>\<open>None\<close> where the code throws.
\<close>

definition benign_env :: "js_string \<Rightarrow> bool" where
  "benign_env t \<longleftrightarrow>
     (let name = takeWhile (\<lambda>c. c \<noteq> CHR ''='') t in
      name \<noteq> t \<and>
      (name \<in> set [''LANG'', ''TZ'', ''NO_COLOR'', ''FORCE_COLOR'', ''CI'', ''TERM'', ''COLUMNS'', ''LINES'']
       \<or> (starts_with name ''LC_'' \<and> drop 3 name \<noteq> [] \<and> list_all is_upper (drop 3 name))))"

section \<open>Prefixes that run the rest of the line\<close>

fun skip_timeout_flags :: "word list \<Rightarrow> word list" where
  "skip_timeout_flags [] = []"
| "skip_timeout_flags (w # ws) =
     (if starts_with (w_text w) ''-'' then
        skip_timeout_flags
          (if w_text w \<in> set [''-s'', ''-k'', ''--signal'', ''--kill-after''] then drop 1 ws else ws)
      else w # ws)"

definition is_dash_number :: "js_string \<Rightarrow> bool" where
  "is_dash_number t \<longleftrightarrow>
     (case t of c # ds \<Rightarrow> c = CHR ''-'' \<and> ds \<noteq> [] \<and> list_all is_digit ds | [] \<Rightarrow> False)"

definition skip_nice_args :: "word list \<Rightarrow> word list" where
  "skip_nice_args ws =
     (case ws of [] \<Rightarrow> []
      | v # vs \<Rightarrow> if w_text v = ''-n'' then drop 1 vs
                  else if is_dash_number (w_text v) then vs else v # vs)"

lemma skip_timeout_flags_le: "length (skip_timeout_flags ws) \<le> length ws"
proof (induction ws rule: skip_timeout_flags.induct)
  case (2 w ws)
  let ?r = "if w_text w \<in> set [''-s'', ''-k'', ''--signal'', ''--kill-after''] then drop 1 ws else ws"
  have "length ?r \<le> length ws" by simp
  then show ?case using 2 unfolding skip_timeout_flags.simps by (smt (verit) le_SucI length_Cons order_refl order_trans)
qed simp

lemma skip_nice_args_le: "length (skip_nice_args ws) \<le> length ws"
  by (auto simp: skip_nice_args_def split: list.split)

function unwrap :: "word list \<Rightarrow> word list" where
  "unwrap [] = []"
| "unwrap (w # ws) =
     (if w_text w = ''time'' \<or> w_text w = ''nohup'' \<or> w_text w = ''command'' then
        (if w_text w = ''command'' \<and> (case ws of v # _ \<Rightarrow> starts_with (w_text v) ''-'' | [] \<Rightarrow> False)
         then w # ws
         else unwrap ws)
      else if w_text w = ''nice'' then unwrap (skip_nice_args ws)
      else if w_text w = ''timeout'' then unwrap (drop 1 (skip_timeout_flags ws))
      else w # ws)"
  by pat_completeness auto
termination
  by (relation "measure length")
    (auto simp: less_Suc_eq_le skip_nice_args_le intro: order_trans [OF diff_le_self skip_timeout_flags_le])

section \<open>Redirects and environment\<close>

definition is_harmless_redirect :: "redirect \<Rightarrow> bool" where
  "is_harmless_redirect r \<longleftrightarrow>
     (let t = w_text (target r) in
      if starts_with t ''/dev/tcp/'' \<or> starts_with t ''/dev/udp/'' then False
      else if op r \<in> set [''<'', ''<<'', ''<<-'', ''<<<''] then True
      else if op r \<in> set [''>&'', ''<&''] \<and> (t = ''-'' \<or> (t \<noteq> [] \<and> list_all is_digit t)) then True
      else op r \<in> set [''>'', ''>>'', ''&>'', ''&>>'', ''>&''] \<and> t = ''/dev/null'' \<and> \<not> dynamic (target r))"

definition has_only_benign_env :: "segment \<Rightarrow> bool" where
  "has_only_benign_env seg \<longleftrightarrow> list_all (\<lambda>a. \<not> dynamic a \<and> benign_env (w_text a)) (assignments seg)"

section \<open>Tables\<close>

definition PLAIN :: "js_string list" where
  "PLAIN =
    [''ls'', ''cat'', ''head'', ''tail'', ''wc'', ''nl'', ''file'', ''stat'', ''du'', ''df'', ''pwd'', ''echo'', ''printf'',
     ''true'', ''false'', ''which'', ''type'', ''whoami'', ''id'', ''uname'', ''printenv'', ''basename'', ''dirname'',
     ''realpath'', ''readlink'', ''cut'', ''tr'', ''column'', ''diff'', ''cmp'', ''comm'', ''test'', ''['', ''sleep'', ''seq'',
     ''grep'', ''egrep'', ''fgrep'', ''jq'', ''cd'', ''pushd'', ''popd'', ''od'', ''hexdump'', ''md5sum'', ''sha1sum'',
     ''sha256sum'', ''sha512sum'', ''nproc'', ''uptime'', ''free'', ''ps'', ''rev'', ''fold'', ''expand'', ''unexpand'']"

definition VERSIONED :: "js_string list" where
  "VERSIONED =
    [''node'', ''npm'', ''pnpm'', ''yarn'', ''bun'', ''deno'', ''npx'', ''git'', ''gh'', ''python'', ''python3'', ''pip'', ''pip3'',
     ''uv'', ''go'', ''cargo'', ''rustc'', ''java'', ''javac'', ''docker'', ''make'', ''gcc'', ''g++'', ''clang'', ''tsc'',
     ''ruby'', ''php'', ''dotnet'', ''kubectl'', ''terraform'']"

text \<open>The names every plain object inherits from \<open>Object.prototype\<close>.\<close>

definition OBJECT_PROTO :: "js_string list" where
  "OBJECT_PROTO =
    [''constructor'', ''toString'', ''toLocaleString'', ''valueOf'', ''hasOwnProperty'', ''isPrototypeOf'',
     ''propertyIsEnumerable'', ''__proto__'', ''__defineGetter__'', ''__defineSetter__'',
     ''__lookupGetter__'', ''__lookupSetter__'']"

definition has_flag :: "js_string list \<Rightarrow> js_string list \<Rightarrow> bool" where
  "has_flag args flags \<longleftrightarrow>
     list_ex (\<lambda>a. list_ex (\<lambda>f. a = f \<or> (starts_with f ''--'' \<and> starts_with a (f @ ''=''))) flags) args"

definition positionals :: "js_string list \<Rightarrow> js_string list" where
  "positionals args = filter (\<lambda>a. \<not> starts_with a ''-'') args"

section \<open>sed\<close>

text \<open>One address (a line number, \<open>$\<close> or \<open>/re/\<close>): what is left after it.\<close>

definition sed_addr :: "js_string \<Rightarrow> js_string option" where
  "sed_addr s =
     (case s of [] \<Rightarrow> None
      | c # cs \<Rightarrow>
          if is_digit c then Some (dropWhile is_digit cs)
          else if c = CHR ''$'' then Some cs
          else if c = CHR ''/'' then
            (case dropWhile (\<lambda>x. x \<noteq> CHR ''/'') cs of [] \<Rightarrow> None | _ # r \<Rightarrow> Some r)
          else None)"

definition sed_prints :: "js_string \<Rightarrow> bool" where
  "sed_prints s \<longleftrightarrow>
     (let r = (case sed_addr s of
                 None \<Rightarrow> s
               | Some (CHR '','' # r2) \<Rightarrow> (case sed_addr r2 of None \<Rightarrow> CHR '','' # r2 | Some r3 \<Rightarrow> r3)
               | Some r1 \<Rightarrow> r1)
      in r = ''p'' \<or> r = ''d'')"

text \<open>The address a substitution may carry: \<open>N\<close>, \<open>N,M\<close> or \<open>N,$\<close>.\<close>

definition sed_sub_start :: "js_string \<Rightarrow> js_string" where
  "sed_sub_start s =
     (case s of [] \<Rightarrow> []
      | c # cs \<Rightarrow>
          if is_digit c then
            (case dropWhile is_digit cs of
               CHR '','' # r \<Rightarrow>
                 (case r of d # ds \<Rightarrow> if is_digit d then dropWhile is_digit ds
                                      else if d = CHR ''$'' then ds else CHR '','' # r
                  | [] \<Rightarrow> CHR '','' # r)
             | r \<Rightarrow> r)
          else c # cs)"

fun sed_parts :: "char \<Rightarrow> nat \<Rightarrow> js_string \<Rightarrow> nat \<times> js_string" where
  "sed_parts d p [] = (p, [])"
| "sed_parts d p [c] =
     (if 2 \<le> p then (p, [c]) else if c = BS then (p, []) else if c = d then (Suc p, []) else (p, []))"
| "sed_parts d p (c # e # cs) =
     (if 2 \<le> p then (p, c # e # cs)
      else if c = BS then sed_parts d p cs
      else if c = d then sed_parts d (Suc p) (e # cs)
      else sed_parts d p (e # cs))"

definition is_print_only_sed_script :: "js_string \<Rightarrow> bool" where
  "is_print_only_sed_script script \<longleftrightarrow>
     (if contains script [NL] \<or> contains script '';'' then False
      else if sed_prints script then True
      else case sed_sub_start script of
        CHR ''s'' # delim # body \<Rightarrow>
          if delim = BS \<or> is_space delim then False
          else (case sed_parts delim 0 body of
                  (p, flags) \<Rightarrow> p = 2 \<and> list_all (\<lambda>c. c \<in> set ''gip'' \<or> is_digit c) flags)
      | _ \<Rightarrow> False)"

definition sed_flag_ok :: "js_string \<Rightarrow> bool" where
  "sed_flag_ok a \<longleftrightarrow>
     (case a of CHR ''-'' # fs \<Rightarrow> fs \<noteq> [] \<and> list_all (\<lambda>c. c \<in> set ''nErsuz'') fs | _ \<Rightarrow> False)
     \<or> a \<in> set [''--quiet'', ''--silent'', ''--regexp-extended'', ''--posix'', ''--null-data'']"

fun sed_scripts :: "js_string list \<Rightarrow> bool \<Rightarrow> js_string list \<Rightarrow> js_string list option" where
  "sed_scripts [] saw scripts = Some scripts"
| "sed_scripts (a # as) saw scripts =
     (if a = ''-e'' \<or> a = ''--expression'' then
        (case as of [] \<Rightarrow> Some (scripts @ [[]]) | b # bs \<Rightarrow> sed_scripts bs True (scripts @ [b]))
      else if a = ''-f'' \<or> a = ''--file'' then None
      else if \<not> starts_with a ''-'' \<and> \<not> saw \<and> scripts = [] then sed_scripts as saw (scripts @ [a])
      else if starts_with a ''-'' \<and> \<not> sed_flag_ok a then None
      else sed_scripts as saw scripts)"

definition sed_is_read_only :: "js_string list \<Rightarrow> bool" where
  "sed_is_read_only args \<longleftrightarrow>
     (if list_ex (\<lambda>a. starts_with a ''-i'' \<or> starts_with a ''--in-place'' \<or> a = ''-s'') args then False
      else case sed_scripts args False [] of
        None \<Rightarrow> False
      | Some scripts \<Rightarrow> scripts \<noteq> [] \<and> list_all is_print_only_sed_script scripts)"

section \<open>git and gh\<close>

definition GIT_READ :: "js_string list" where
  "GIT_READ =
    [''status'', ''log'', ''show'', ''blame'', ''rev-parse'', ''rev-list'', ''ls-files'', ''ls-tree'', ''cat-file'',
     ''describe'', ''shortlog'', ''grep'', ''merge-base'', ''name-rev'', ''show-ref'', ''count-objects'', ''diff'',
     ''branch'', ''tag'', ''remote'', ''config'', ''stash'', ''worktree'', ''reflog'', ''whatchanged'', ''check-ignore'']"

definition BRANCH_FLAGS :: "js_string list" where
  "BRANCH_FLAGS =
    [''-a'', ''-r'', ''-v'', ''-vv'', ''--list'', ''-l'', ''--show-current'', ''--all'', ''--remotes'', ''--contains'',
     ''--merged'', ''--no-merged'', ''--sort'', ''--format'']"

text \<open>The global options git may carry here, then what follows them.\<close>

fun git_after_globals :: "js_string list \<Rightarrow> js_string list option" where
  "git_after_globals [] = Some []"
| "git_after_globals (a # as) =
     (if starts_with a ''-'' then
        (if a = ''-C'' then (case as of [] \<Rightarrow> Some [] | _ # bs \<Rightarrow> git_after_globals bs)
         else if a = ''--no-pager'' \<or> a = ''-P'' then git_after_globals as
         else None)
      else Some (a # as))"

definition git_is_read_only :: "js_string list \<Rightarrow> bool" where
  "git_is_read_only args \<longleftrightarrow>
     (case git_after_globals args of
        None \<Rightarrow> False
      | Some [] \<Rightarrow> False
      | Some (sub # rst) \<Rightarrow>
          if sub = [] \<or> sub \<notin> set GIT_READ then False
          else if has_flag rst [''--ext-diff'', ''--output'', ''-O'', ''--open-files-in-pager'', ''--exec''] then False
          else if sub = ''branch'' then
            list_all (\<lambda>a. list_ex (\<lambda>f. a = f \<or> starts_with a (f @ ''='')) BRANCH_FLAGS) rst \<and> positionals rst = []
          else if sub = ''tag'' then rst = [] \<or> has_flag rst [''-l'', ''--list'']
          else if sub = ''remote'' then rst = [] \<or> rst = [''-v''] \<or> at rst 0 = Some ''get-url''
          else if sub = ''config'' then has_flag rst [''--get'', ''--get-all'', ''--get-regexp'', ''--list'', ''-l'']
          else if sub = ''stash'' then at rst 0 = Some ''list'' \<or> at rst 0 = Some ''show''
          else if sub = ''worktree'' then at rst 0 = Some ''list''
          else if sub = ''reflog'' then
            (case rst of [] \<Rightarrow> True | a # _ \<Rightarrow> a = ''show'' \<or> starts_with a ''-'')
          else True)"

definition GH_READ :: "(js_string \<times> js_string list) list" where
  "GH_READ =
    [(''pr'', [''view'', ''list'', ''diff'', ''checks'', ''status'']),
     (''issue'', [''view'', ''list'', ''status'']),
     (''repo'', [''view'']),
     (''run'', [''view'', ''list'']),
     (''release'', [''view'', ''list'']),
     (''auth'', [''status'']),
     (''search'', [''repos'', ''issues'', ''prs'', ''code'', ''commits''])]"

definition GH_API_VALUED :: "js_string list" where
  "GH_API_VALUED =
    [''-X'', ''--method'', ''-H'', ''--header'', ''-q'', ''--jq'', ''-t'', ''--template'', ''-p'', ''--preview'', ''--cache'']"

definition GH_API_SWITCHES :: "js_string list" where
  "GH_API_SWITCHES = [''-i'', ''--include'', ''--paginate'', ''--slurp'', ''--silent'', ''--verbose'']"

definition method_override :: "js_string \<Rightarrow> bool" where
  "method_override v \<longleftrightarrow> contains (lower v) ''method-override''"

fun gh_api_scan :: "js_string list \<Rightarrow> js_string option \<Rightarrow> bool" where
  "gh_api_scan [] endpoint \<longleftrightarrow>
     (case endpoint of None \<Rightarrow> False | Some e \<Rightarrow> e \<noteq> ''graphql'' \<and> \<not> contains e ''://'')"
| "gh_api_scan (a # as) endpoint \<longleftrightarrow>
     (if starts_with a ''--method='' then upper (drop 9 a) = ''GET'' \<and> gh_api_scan as endpoint
      else if a \<in> set GH_API_VALUED then
        (case as of
           [] \<Rightarrow> False
         | value # bs \<Rightarrow>
             if (a = ''-X'' \<or> a = ''--method'') \<and> upper value \<noteq> ''GET'' then False
             else if (a = ''-H'' \<or> a = ''--header'') \<and> method_override value then False
             else gh_api_scan bs endpoint)
      else if starts_with a ''--header='' then \<not> method_override a \<and> gh_api_scan as endpoint
      else if list_ex (starts_with a) [''--jq='', ''--template='', ''--cache='', ''--preview=''] then gh_api_scan as endpoint
      else if starts_with a ''-'' then a \<in> set GH_API_SWITCHES \<and> gh_api_scan as endpoint
      else if endpoint = None then gh_api_scan as (Some a)
      else False)"

definition gh_api_is_read_only :: "js_string list \<Rightarrow> bool" where
  "gh_api_is_read_only rst = gh_api_scan rst None"

text \<open>A table lookup followed by \<open>.includes(verb)\<close>: \<^const>\<open>None\<close> is the thrown \<open>TypeError\<close>.\<close>

definition table_includes :: "(js_string \<times> js_string list) list \<Rightarrow> js_string \<Rightarrow> js_string \<Rightarrow> bool option" where
  "table_includes tbl k verb =
     (case map_of tbl k of
        Some vs \<Rightarrow> Some (verb \<in> set vs)
      | None \<Rightarrow> if k \<in> set OBJECT_PROTO then None else Some False)"

definition gh_is_read_only :: "js_string list \<Rightarrow> bool option" where
  "gh_is_read_only args =
     (case args of
        [] \<Rightarrow> Some False
      | grp # rst \<Rightarrow>
          if grp = ''api'' then Some (gh_api_is_read_only rst)
          else (case rst of
                  [] \<Rightarrow> Some False
                | verb # _ \<Rightarrow>
                    map_option (\<lambda>b. b \<and> \<not> has_flag args [''--web'', ''-w'']) (table_includes GH_READ grp verb)))"

section \<open>The judgement\<close>

definition PACKAGE_READ :: "(js_string \<times> js_string list) list" where
  "PACKAGE_READ =
    [(''npm'', [''ls'', ''list'', ''view'', ''info'', ''outdated'', ''explain'', ''why'']),
     (''pnpm'', [''ls'', ''list'', ''why'', ''outdated'']),
     (''yarn'', [''why'', ''info'', ''list'']),
     (''go'', [''list'', ''version'', ''env'', ''doc'']),
     (''pip'', [''list'', ''show'', ''freeze'']),
     (''pip3'', [''list'', ''show'', ''freeze'']),
     (''cargo'', [''tree'', ''metadata''])]"

definition package_is_read_only :: "js_string \<Rightarrow> js_string list \<Rightarrow> bool option" where
  "package_is_read_only name args =
     (if name = ''go'' \<and> at args 0 = Some ''env'' then Some (\<not> has_flag args [''-w'', ''-u''])
      else case args of
        [] \<Rightarrow> Some False
      | verb # _ \<Rightarrow> table_includes PACKAGE_READ name verb)"

definition FIND_ACTIONS :: "js_string list" where
  "FIND_ACTIONS =
    [''-exec'', ''-execdir'', ''-ok'', ''-okdir'', ''-delete'', ''-fprint'', ''-fprint0'', ''-fprintf'', ''-fls'']"

definition RG_RUNNERS :: "js_string list" where
  "RG_RUNNERS = [''--pre'', ''--pre-glob'', ''--hostname-bin'']"

definition judge_command :: "js_string \<Rightarrow> js_string list \<Rightarrow> bool option" where
  "judge_command name args =
     (if name \<in> set VERSIONED \<and> length args = 1
         \<and> hd args \<in> set [''--version'', ''-V'', ''-v'', ''--help'', ''-h'', ''version''] then Some True
      else if name \<in> set PLAIN then Some True
      else if name = ''env'' then Some (args = [])
      else if name = ''date'' then Some (\<not> has_flag args [''-s'', ''--set''])
      else if name = ''sort'' then Some (\<not> has_flag args [''-o'', ''--output'', ''--compress-program''])
      else if name = ''uniq'' then Some (length (positionals args) < 2)
      else if name = ''tree'' then Some (\<not> has_flag args [''-o''])
      else if name = ''rg'' then
        Some (\<not> list_ex (\<lambda>a. list_ex (\<lambda>f. a = f \<or> starts_with a (f @ ''='')) RG_RUNNERS) args)
      else if name = ''find'' then Some (\<not> list_ex (\<lambda>a. a \<in> set FIND_ACTIONS) args)
      else if name = ''sed'' then Some (sed_is_read_only args)
      else if name = ''yq'' then Some (\<not> has_flag args [''-i'', ''--inplace''])
      else if name = ''git'' then Some (git_is_read_only args)
      else if name = ''gh'' then gh_is_read_only args
      else package_is_read_only name args)"

definition is_read_only_segment :: "segment \<Rightarrow> bool option" where
  "is_read_only_segment seg =
     (if \<not> list_all is_harmless_redirect (redirects seg) then Some False
      else if \<not> has_only_benign_env seg then Some False
      else case unwrap (argv seg) of
        [] \<Rightarrow> Some False
      | head # ws \<Rightarrow>
          if dynamic head \<or> glob head \<or> quoted head \<or> CHR ''/'' \<in> set (w_text head) then Some False
          else judge_command (w_text head) (map w_text ws))"

end
