(* ===== verification/BashRules.thy ===== *)
theory BashRules
  imports BashReadonly
begin

text \<open>
  The command rules of \<open>permissions/bash/rules.ts\<close>: what a person has allowed, asked to be
  asked about, or denied; what "Allow always" proposes; the commands that ask in every mode.
\<close>

datatype rule_action = AllowRule | AskRule | DenyRule

record command_rule =
  rule_pattern :: js_string
  rule_act :: rule_action

definition MAX_PATTERN_CHARS :: nat where
  "MAX_PATTERN_CHARS = 200"

definition NO_WILDCARD :: "js_string list" where
  "NO_WILDCARD =
    [''bash'', ''sh'', ''zsh'', ''dash'', ''fish'', ''ksh'', ''python'', ''python2'', ''python3'', ''node'', ''nodejs'', ''perl'',
     ''ruby'', ''php'', ''deno'', ''lua'', ''Rscript'', ''eval'', ''exec'', ''source'', ''.'', ''sudo'', ''su'', ''doas'', ''env'',
     ''xargs'', ''find'', ''awk'', ''gawk'', ''ssh'', ''scp'', ''nohup'', ''time'', ''timeout'', ''nice'', ''command'', ''builtin'']"

definition EXACT_ONLY :: "js_string list" where
  "EXACT_ONLY = NO_WILDCARD @
    [''rm'', ''rmdir'', ''mv'', ''cp'', ''chmod'', ''chown'', ''chgrp'', ''dd'', ''mkfs'', ''kill'', ''killall'', ''pkill'',
     ''shutdown'', ''reboot'', ''ln'', ''truncate'', ''shred'', ''curl'', ''wget'']"

text \<open>
  How many words name the operation. A word that names a member of \<open>Object.prototype\<close> finds a
  function or an object there, which compares as \<open>NaN\<close> with every length: no further word is
  taken, as with level 1.
\<close>

definition LEVELS :: "js_string \<Rightarrow> nat" where
  "LEVELS name =
     (if name = ''gh'' then 3
      else if name \<in> set [''git'', ''cargo'', ''go'', ''kubectl'', ''helm'', ''pip'', ''pip3'', ''uv'', ''poetry'', ''make'',
         ''brew'', ''apt'', ''apt-get'', ''npm'', ''pnpm'', ''yarn'', ''bun'', ''docker'', ''dotnet'',
         ''mvn'', ''gradle'', ''terraform''] then 2
      else 1)"

definition is_shell_meta :: "char \<Rightarrow> bool" where
  "is_shell_meta c \<longleftrightarrow> c \<in> set '';&|<>`$(){}'' \<or> c = BS \<or> c = SQ \<or> c = DQ \<or> in_range 0 31 c \<or> c = CHR 0x7F"

definition has_meta :: "js_string \<Rightarrow> bool" where
  "has_meta s \<longleftrightarrow> list_ex is_shell_meta s"

definition validate_pattern :: "js_string \<Rightarrow> js_string option" where
  "validate_pattern pattern =
     (let p = trim pattern in
      if length p = 0 then Some ''A rule needs a command.''
      else if length p > MAX_PATTERN_CHARS then Some ''A rule can be at most 200 characters.''
      else if has_meta p then Some ''A rule is plain words: no quotes, redirects, pipes or other shell syntax.''
      else
        (let tokens = split_ws p; wildcard = (last tokens = ''*'') in
         if wildcard \<and> length tokens = 1 then Some (''A rule can'' @ [SQ] @ ''t be just `*`.'')
         else if list_ex (\<lambda>t. contains t ''*'') (if wildcard then butlast tokens else tokens)
           then Some ''`*` may only be the last word of a rule.''
         else if wildcard \<and> (hd tokens \<in> set NO_WILDCARD \<or> contains (hd tokens) ''/'')
           then Some (''`'' @ hd tokens @ '' *` would allow any program; allow an exact command instead.'')
         else None))"

definition normalize_pattern :: "js_string \<Rightarrow> js_string" where
  "normalize_pattern pattern = join [SP] (split_ws (trim pattern))"

definition is_workspace_redirect :: "redirect \<Rightarrow> bool" where
  "is_workspace_redirect r \<longleftrightarrow>
     (if is_harmless_redirect r then True
      else if dynamic (target r) \<or> glob (target r) then False
      else if starts_with (op r) ''<'' then False
      else (let t = w_text (target r); parts = split_on (CHR ''/'') t in
        \<not> starts_with t ''/'' \<and> ''..'' \<notin> set parts \<and> ''.git'' \<notin> set parts \<and> t \<noteq> []))"

definition basename :: "js_string \<Rightarrow> js_string" where
  "basename t = rev (takeWhile (\<lambda>c. c \<noteq> CHR ''/'') (rev t))"

definition rule_tokens :: "js_string \<Rightarrow> js_string list" where
  "rule_tokens pattern = split_on SP (normalize_pattern pattern)"

definition rule_wildcard :: "js_string \<Rightarrow> bool" where
  "rule_wildcard pattern \<longleftrightarrow> last (rule_tokens pattern) = ''*''"

definition rule_fixed :: "js_string \<Rightarrow> js_string list" where
  "rule_fixed pattern =
     (if rule_wildcard pattern then butlast (rule_tokens pattern) else rule_tokens pattern)"

text \<open>Token \<open>n\<close> of a rule against word \<open>n\<close> of a command.\<close>

fun tokens_match :: "bool \<Rightarrow> nat \<Rightarrow> js_string list \<Rightarrow> word list \<Rightarrow> bool" where
  "tokens_match strict n [] ws \<longleftrightarrow> True"
| "tokens_match strict n (t # ts) [] \<longleftrightarrow> False"
| "tokens_match strict n (t # ts) (w # ws) \<longleftrightarrow>
     \<not> dynamic w \<and> \<not> glob w
     \<and> (if n = 0 \<and> \<not> strict then basename (w_text w) = basename t else w_text w = t)
     \<and> tokens_match strict (Suc n) ts ws"

definition rule_matches :: "js_string \<Rightarrow> segment \<Rightarrow> bool \<Rightarrow> bool" where
  "rule_matches pattern seg strict \<longleftrightarrow>
     (let wildcard = rule_wildcard pattern; fixed = rule_fixed pattern; av = unwrap (argv seg) in
      if av = [] then False
      else if strict \<and> (\<not> has_only_benign_env seg \<or> \<not> list_all is_workspace_redirect (redirects seg)) then False
      else if length av < length fixed \<or> (\<not> wildcard \<and> length av \<noteq> length fixed) then False
      else tokens_match strict 0 fixed av)"

definition is_literal :: "word \<Rightarrow> bool" where
  "is_literal w \<longleftrightarrow>
     \<not> dynamic w \<and> \<not> glob w \<and> \<not> list_ex is_space (w_text w) \<and> \<not> has_meta (w_text w) \<and> \<not> contains (w_text w) ''*''"

fun propose_loop :: "bool \<Rightarrow> nat \<Rightarrow> js_string list \<Rightarrow> word list \<Rightarrow> js_string list" where
  "propose_loop is_git levels parts [] = parts"
| "propose_loop is_git levels parts [w] =
     (if levels \<le> length parts then parts
      else if is_git \<and> w_text w = ''-C'' then parts
      else if starts_with (w_text w) ''-'' then parts
      else if \<not> is_literal w then parts
      else parts @ [w_text w])"
| "propose_loop is_git levels parts (w # v # ws) =
     (if levels \<le> length parts then parts
      else if is_git \<and> w_text w = ''-C'' then propose_loop is_git levels parts ws
      else if starts_with (w_text w) ''-'' then parts
      else if \<not> is_literal w then parts
      else propose_loop is_git levels (parts @ [w_text w]) (v # ws))"

definition propose_levels :: "js_string \<Rightarrow> js_string option \<Rightarrow> nat" where
  "propose_levels name second =
     (if name = ''docker'' \<and> second = Some ''compose'' then 3
      else if name \<in> set [''npm'', ''pnpm'', ''yarn'', ''bun''] \<and> (second = Some ''run'' \<or> second = Some ''run-script'') then 3
      else LEVELS name)"

definition propose_rule :: "segment \<Rightarrow> js_string option" where
  "propose_rule seg =
     (if \<not> has_only_benign_env seg \<or> \<not> list_all is_workspace_redirect (redirects seg) then None
      else case unwrap (argv seg) of
        [] \<Rightarrow> None
      | head # ws \<Rightarrow>
          if dynamic head \<or> glob head \<or> quoted head \<or> CHR ''/'' \<in> set (w_text head) then None
          else if w_text head \<in> set EXACT_ONLY then
            (if \<not> list_all is_literal (head # ws) then None
             else (let exact = join [SP] (map w_text (head # ws)) in
               if validate_pattern exact = None then Some exact else None))
          else
            (let parts = propose_loop (w_text head = ''git'')
                           (propose_levels (w_text head) (map_option w_text (at ws 0))) [w_text head] ws;
                 pattern = join [SP] parts @ '' *'' in
             if validate_pattern pattern = None then Some pattern else None))"

text \<open>The first word that is no option and no option's value: git's subcommand.\<close>

fun git_subcommand :: "js_string option \<Rightarrow> word list \<Rightarrow> js_string option" where
  "git_subcommand prev [] = None"
| "git_subcommand prev (w # ws) =
     (if \<not> starts_with (w_text w) ''-'' \<and> prev \<noteq> Some ''-C'' \<and> prev \<noteq> Some ''-c'' then Some (w_text w)
      else git_subcommand (Some (w_text w)) ws)"

definition is_builtin_ask :: "segment \<Rightarrow> bool option" where
  "is_builtin_ask seg =
     (let av = unwrap (argv seg);
          head = (case av of [] \<Rightarrow> [] | w # _ \<Rightarrow> basename (w_text w)) in
      if head \<in> set [''sudo'', ''su'', ''doas''] then Some True
      else if head = ''git'' then Some (git_subcommand None (drop 1 av) = Some ''push'')
      else if head = ''gh'' then map_option Not (is_read_only_segment seg)
      else Some False)"

section \<open>A proposed rule covers the command it was proposed for\<close>

lemma contains_star: "contains s ''*'' \<longleftrightarrow> CHR ''*'' \<in> set s"
  by (induction s) (auto simp: starts_with_def)

lemma literal_wordlike: "is_literal w \<Longrightarrow> w_text w \<noteq> [] \<Longrightarrow> wordlike (w_text w)"
  by (auto simp: is_literal_def wordlike_def no_space_def list_all_iff list_ex_iff)

lemma rule_tokens_join:
  assumes "ts \<noteq> []" "list_all wordlike ts"
  shows "rule_tokens (join [SP] ts) = ts"
proof -
  have "\<forall>t\<in>set ts. SP \<notin> set t"
    using assms(2) is_space_SP by (fastforce simp: list_all_iff wordlike_def no_space_def)
  then show ?thesis
    using assms by (simp add: rule_tokens_def normalize_pattern_def trim_join split_ws_join split_on_join)
qed

lemma join_snoc: "ts \<noteq> [] \<Longrightarrow> join sep (ts @ [t]) = join sep ts @ sep @ t"
  by (induction sep ts rule: join.induct) auto

lemma tokens_match_texts:
  assumes "list_all (\<lambda>w. \<not> dynamic w \<and> \<not> glob w) us" "\<exists>vs. ws = us @ vs"
  shows "tokens_match True n (map w_text us) ws"
  using assms by (induction us arbitrary: ws n) auto

lemma propose_loop_prefix:
  assumes "is_git \<Longrightarrow> \<forall>w\<in>set ws. w_text w \<noteq> ''-C''"
  shows "\<exists>us vs. ws = us @ vs \<and> list_all is_literal us \<and> propose_loop is_git levels parts ws = parts @ map w_text us"
  using assms
proof (induction is_git levels parts ws rule: propose_loop.induct)
  case (2 is_git levels parts w)
  have "is_literal w \<Longrightarrow> ?case" using "2.prems" by (cases "levels \<le> length parts") (auto intro: exI [of _ "[w]"] exI [of _ "[]"])
  moreover have "\<not> is_literal w \<Longrightarrow> ?case" by (intro exI [of _ "[]"] exI [of _ "[w]"]) auto
  ultimately show ?case by blast
next
  case (3 is_git levels parts w v ws)
  show ?case
  proof (cases "levels \<le> length parts \<or> starts_with (w_text w) ''-'' \<or> \<not> is_literal w")
    case True
    then show ?thesis using "3.prems" by (intro exI [of _ "[]"] exI [of _ "w # v # ws"]) auto
  next
    case False
    then have "\<exists>us vs. v # ws = us @ vs \<and> list_all is_literal us \<and>
        propose_loop is_git levels (parts @ [w_text w]) (v # ws) = (parts @ [w_text w]) @ map w_text us"
      using "3.IH"(2) "3.prems" by (auto simp: starts_with_def)
    then obtain us vs where u: "v # ws = us @ vs" "list_all is_literal us"
        "propose_loop is_git levels (parts @ [w_text w]) (v # ws) = (parts @ [w_text w]) @ map w_text us"
      by blast
    have "propose_loop is_git levels parts (w # v # ws) = parts @ map w_text (w # us)"
      using False "3.prems" u(3) by auto
    with u False show ?thesis by (intro exI [of _ "w # us"] exI [of _ vs]) simp
  qed
qed auto

lemma literal_flags: "is_literal w \<Longrightarrow> \<not> dynamic w \<and> \<not> glob w"
  by (simp add: is_literal_def)

lemma propose_rule_matches:
  assumes p: "propose_rule seg = Some p"
    and av: "unwrap (argv seg) = head # ws"
    and ne: "wordlike (w_text head)" "\<forall>w\<in>set ws. w_text w \<noteq> []"
    and git: "w_text head = ''git'' \<Longrightarrow> \<forall>w\<in>set ws. w_text w \<noteq> ''-C''"
  shows "rule_matches p seg True"
proof -
  have env: "has_only_benign_env seg" "list_all is_workspace_redirect (redirects seg)"
    and hd: "\<not> dynamic head" "\<not> glob head"
    using p av by (auto simp: propose_rule_def split: if_splits)
  show ?thesis
  proof (cases "w_text head \<in> set EXACT_ONLY")
    case True
    then have lit: "list_all is_literal (head # ws)" and pj: "p = join [SP] (map w_text (head # ws))"
      using p av env hd by (auto simp: propose_rule_def Let_def split: if_splits)
    have "list_all wordlike (map w_text (head # ws))"
      using lit ne literal_wordlike by (auto simp: list_all_iff)
    then have tk: "rule_tokens p = map w_text (head # ws)"
      unfolding pj by (intro rule_tokens_join) auto
    have "is_literal (last (head # ws))"
      using lit by (metis last_in_set list.distinct(1) list_all_iff)
    then have "last (map w_text (head # ws)) \<noteq> ''*''"
      by (auto simp: last_map is_literal_def contains_star simp del: last.simps list.map)
    then have nw: "\<not> rule_wildcard p"
      unfolding rule_wildcard_def tk .
    then have "rule_fixed p = map w_text (head # ws)"
      by (simp only: rule_fixed_def tk if_False)
    moreover note nw
    moreover have "tokens_match True 0 (map w_text (head # ws)) (head # ws)"
      using lit literal_flags by (intro tokens_match_texts) (auto simp: list_all_iff)
    ultimately show ?thesis
      using env av by (simp add: rule_matches_def)
  next
    case False
    define levels where "levels = propose_levels (w_text head) (map_option w_text (at ws 0))"
    obtain us vs where u: "ws = us @ vs" "list_all is_literal us"
        "propose_loop (w_text head = ''git'') levels [w_text head] ws = [w_text head] @ map w_text us"
      using propose_loop_prefix [of "w_text head = ''git''" ws levels "[w_text head]"] git by blast
    have pj: "p = join [SP] ((w_text head # map w_text us) @ [''*''])"
      unfolding join_snoc [OF list.distinct(2)]
      using p av env hd False u(3) by (auto simp: propose_rule_def Let_def levels_def [symmetric] split: if_splits)
    have "list_all wordlike ((w_text head # map w_text us) @ [''*''])"
      using u ne literal_wordlike by (auto simp: list_all_iff wordlike_def no_space_def is_space_def in_range_def)
    then have tk: "rule_tokens p = (w_text head # map w_text us) @ [''*'']"
      unfolding pj by (intro rule_tokens_join) auto
    then have "rule_wildcard p" and "rule_fixed p = map w_text (head # us)"
      by (simp_all add: rule_wildcard_def rule_fixed_def)
    moreover have "tokens_match True 0 (map w_text (head # us)) (head # ws)"
      using u(1,2) hd literal_flags by (intro tokens_match_texts) (auto simp: list_all_iff)
    ultimately show ?thesis
      using env av u(1) by (simp add: rule_matches_def)
  qed
qed

end
