(* ===== verification/BashPolicy.thy ===== *)
theory BashPolicy
  imports BashRules
begin

text \<open>
  The decision of \<open>permissions/bash/policy.ts\<close>: whether a \<open>bash\<close> call runs, asks, is checked,
  or is refused. \<^const>\<open>None\<close> is a \<open>TypeError\<close> thrown by a table lookup (BashReadonly).
\<close>

datatype bash_mode = Manual | Auto | Planning

datatype ran_by = ByReadonly | ByRule | ByIsolated

datatype decision =
    Deny js_string js_string
  | Refuse js_string
  | Run ran_by "js_string option"
  | Ask "js_string list" js_string
  | Classify "js_string list"

datatype part =
    PDeny js_string
  | PAskRule js_string
  | PAllowed js_string
  | PBuiltinAsk
  | PReadonly
  | POpen

definition first_rule :: "rule_action \<Rightarrow> bool \<Rightarrow> command_rule list \<Rightarrow> segment \<Rightarrow> js_string option" where
  "first_rule act strict rules seg =
     map_option rule_pattern (find (\<lambda>r. rule_act r = act \<and> rule_matches (rule_pattern r) seg strict) rules)"

definition judge :: "command_rule list \<Rightarrow> segment \<Rightarrow> part option" where
  "judge rules seg =
     (case first_rule DenyRule False rules seg of Some p \<Rightarrow> Some (PDeny p) | None \<Rightarrow>
     (case first_rule AskRule False rules seg of Some p \<Rightarrow> Some (PAskRule p) | None \<Rightarrow>
     (case first_rule AllowRule True rules seg of Some p \<Rightarrow> Some (PAllowed p) | None \<Rightarrow>
     (case is_builtin_ask seg of None \<Rightarrow> None | Some True \<Rightarrow> Some PBuiltinAsk | Some False \<Rightarrow>
     (case is_read_only_segment seg of None \<Rightarrow> None | Some True \<Rightarrow> Some PReadonly | Some False \<Rightarrow> Some POpen)))))"

text \<open>\<open>segments.map(judge)\<close>, and \<open>segments.every(isReadOnlySegment)\<close>, which stops at the first that is not.\<close>

fun judge_all :: "command_rule list \<Rightarrow> segment list \<Rightarrow> part list option" where
  "judge_all rules [] = Some []"
| "judge_all rules (seg # ss) =
     (case judge rules seg of None \<Rightarrow> None
      | Some p \<Rightarrow> map_option ((#) p) (judge_all rules ss))"

fun every_read_only :: "segment list \<Rightarrow> bool option" where
  "every_read_only [] = Some True"
| "every_read_only (seg # ss) =
     (case is_read_only_segment seg of None \<Rightarrow> None | Some False \<Rightarrow> Some False | Some True \<Rightarrow> every_read_only ss)"

fun proposals_loop :: "js_string list \<Rightarrow> (segment \<times> part) list \<Rightarrow> js_string list" where
  "proposals_loop out [] = out"
| "proposals_loop out ((seg, p) # rst) =
     (if p \<noteq> POpen \<and> p \<noteq> PBuiltinAsk then proposals_loop out rst
      else case propose_rule seg of
        None \<Rightarrow> []
      | Some r \<Rightarrow> proposals_loop (if r \<in> set out then out else out @ [r]) rst)"

definition proposals :: "segment list \<Rightarrow> part list \<Rightarrow> js_string list" where
  "proposals segments parts = proposals_loop [] (zip segments parts)"

fun deny_of :: "part list \<Rightarrow> js_string option" where
  "deny_of [] = None" | "deny_of (PDeny r # ps) = Some r" | "deny_of (_ # ps) = deny_of ps"

fun ask_rule_of :: "part list \<Rightarrow> js_string option" where
  "ask_rule_of [] = None" | "ask_rule_of (PAskRule r # ps) = Some r" | "ask_rule_of (_ # ps) = ask_rule_of ps"

fun allowed_of :: "part list \<Rightarrow> js_string option" where
  "allowed_of [] = None" | "allowed_of (PAllowed r # ps) = Some r" | "allowed_of (_ # ps) = allowed_of ps"

definition unchecked_reason :: "js_string \<Rightarrow> js_string" where
  "unchecked_reason reason = ''Loxaic can'' @ [SQ] @ ''t check this command by its parts ('' @ reason @ '').''"

definition decide_unparsed :: "bash_mode \<Rightarrow> bool \<Rightarrow> js_string \<Rightarrow> decision" where
  "decide_unparsed mode isolated why =
     (let reason = unchecked_reason why in
      case mode of
        Planning \<Rightarrow> Refuse (reason @ '' Planning mode runs only read-only commands.'')
      | Auto \<Rightarrow> if isolated then Run ByIsolated None else Classify []
      | Manual \<Rightarrow> Ask [] reason)"

definition PLANNING_REFUSAL :: js_string where
  "PLANNING_REFUSAL =
     ''Not run: planning mode runs only read-only commands (listing, reading, searching, git and gh reads).''"

text \<open>What follows the rules: the mode decides what nothing covered.\<close>

definition decide_open :: "bash_mode \<Rightarrow> bool \<Rightarrow> segment list \<Rightarrow> part list \<Rightarrow> decision" where
  "decide_open mode isolated segments parts =
     (if PBuiltinAsk \<in> set parts then
        Ask (proposals segments parts) ''Pushing, GitHub writes and sudo always ask.''
      else if list_all (\<lambda>p. p = PReadonly) parts then Run ByReadonly None
      else if POpen \<notin> set parts then Run ByRule (allowed_of parts)
      else if mode = Auto then
        (if isolated then Run ByIsolated None else Classify (proposals segments parts))
      else Ask (proposals segments parts) [])"

definition decide_parsed :: "bash_mode \<Rightarrow> command_rule list \<Rightarrow> bool \<Rightarrow> segment list \<Rightarrow> decision option" where
  "decide_parsed mode rules isolated segments =
     (if segments = [] then Some (Run ByReadonly None)
      else case judge_all rules segments of
        None \<Rightarrow> None
      | Some parts \<Rightarrow>
          (case deny_of parts of
             Some r \<Rightarrow> Some (Deny r (''Not run: your rule `'' @ r @ ''` denies this command.''))
           | None \<Rightarrow>
               (case (if mode = Planning then every_read_only segments else Some True) of
                  None \<Rightarrow> None
                | Some False \<Rightarrow> Some (Refuse PLANNING_REFUSAL)
                | Some True \<Rightarrow>
                    (case ask_rule_of parts of
                       Some r \<Rightarrow> Some (Ask [] (''Your rule `'' @ r @ ''` asks about this command.''))
                     | None \<Rightarrow>
                         if mode = Planning then Some (Run ByReadonly None)
                         else Some (decide_open mode isolated segments parts)))))"

definition decide_bash :: "js_string \<Rightarrow> bash_mode \<Rightarrow> command_rule list \<Rightarrow> bool \<Rightarrow> decision option" where
  "decide_bash command mode rules isolated =
     (case parse_command command of
        ParseBad why \<Rightarrow> Some (decide_unparsed mode isolated why)
      | ParseOk segments \<Rightarrow> decide_parsed mode rules isolated segments)"

section \<open>What a rule list says of one command\<close>

definition covered :: "rule_action \<Rightarrow> command_rule list \<Rightarrow> segment \<Rightarrow> bool" where
  "covered act rules seg \<longleftrightarrow>
     (\<exists>r\<in>set rules. rule_act r = act \<and> rule_matches (rule_pattern r) seg (act = AllowRule))"

lemma first_rule_None_iff:
  "first_rule act (act = AllowRule) rules seg = None \<longleftrightarrow> \<not> covered act rules seg"
  by (auto simp: first_rule_def covered_def find_None_iff)

lemma first_rule_None [simp]:
  "first_rule DenyRule False rules seg = None \<longleftrightarrow> \<not> covered DenyRule rules seg"
  "first_rule AskRule False rules seg = None \<longleftrightarrow> \<not> covered AskRule rules seg"
  "first_rule AllowRule True rules seg = None \<longleftrightarrow> \<not> covered AllowRule rules seg"
  using first_rule_None_iff [of DenyRule] first_rule_None_iff [of AskRule] first_rule_None_iff [of AllowRule] by auto

lemma first_rule_Some:
  "first_rule DenyRule False rules seg = Some p \<Longrightarrow> covered DenyRule rules seg"
  "first_rule AskRule False rules seg = Some p \<Longrightarrow> covered AskRule rules seg"
  "first_rule AllowRule True rules seg = Some p \<Longrightarrow> covered AllowRule rules seg"
  using first_rule_None [of rules seg] by auto

named_theorems judge_facts \<open>what each outcome of the judgement of one command means\<close>

lemma judge_deny_iff [judge_facts]: "(\<exists>p. judge rules seg = Some (PDeny p)) \<longleftrightarrow> covered DenyRule rules seg"
  by (auto simp: judge_def first_rule_Some split: option.splits bool.splits)

lemma judge_ask_iff [judge_facts]:
  "(\<exists>p. judge rules seg = Some (PAskRule p)) \<longleftrightarrow> \<not> covered DenyRule rules seg \<and> covered AskRule rules seg"
  by (auto simp: judge_def first_rule_Some split: option.splits bool.splits)

lemma judge_allowed_iff [judge_facts]:
  "(\<exists>p. judge rules seg = Some (PAllowed p)) \<longleftrightarrow>
     \<not> covered DenyRule rules seg \<and> \<not> covered AskRule rules seg \<and> covered AllowRule rules seg"
  by (auto simp: judge_def first_rule_Some split: option.splits bool.splits)

definition uncovered :: "command_rule list \<Rightarrow> segment \<Rightarrow> bool" where
  "uncovered rules seg \<longleftrightarrow>
     \<not> covered DenyRule rules seg \<and> \<not> covered AskRule rules seg \<and> \<not> covered AllowRule rules seg"

lemma judge_builtin_iff [judge_facts]:
  "judge rules seg = Some PBuiltinAsk \<longleftrightarrow> uncovered rules seg \<and> is_builtin_ask seg = Some True"
  by (auto simp: judge_def uncovered_def first_rule_Some split: option.splits bool.splits)

lemma judge_readonly_iff [judge_facts]:
  "judge rules seg = Some PReadonly \<longleftrightarrow>
     uncovered rules seg \<and> is_builtin_ask seg = Some False \<and> is_read_only_segment seg = Some True"
  by (auto simp: judge_def uncovered_def first_rule_Some split: option.splits bool.splits)

lemma judge_open_iff [judge_facts]:
  "judge rules seg = Some POpen \<longleftrightarrow>
     uncovered rules seg \<and> is_builtin_ask seg = Some False \<and> is_read_only_segment seg = Some False"
  by (auto simp: judge_def uncovered_def first_rule_Some split: option.splits bool.splits)

lemma judge_all_Some:
  "judge_all rules ss = Some ps \<Longrightarrow> list_all2 (\<lambda>seg p. judge rules seg = Some p) ss ps"
  by (induction ss arbitrary: ps) (auto split: option.splits)

lemma judge_all_defined: "judge_all rules ss \<noteq> None \<longleftrightarrow> (\<forall>seg\<in>set ss. judge rules seg \<noteq> None)"
  by (induction ss) (auto split: option.splits)

lemma judge_all_mem: "judge_all rules ss = Some ps \<Longrightarrow> p \<in> set ps \<longleftrightarrow> (\<exists>seg\<in>set ss. judge rules seg = Some p)"
  by (induction ss arbitrary: ps) (auto split: option.splits)

lemma deny_of_None: "deny_of ps = None \<longleftrightarrow> (\<forall>r. PDeny r \<notin> set ps)"
  by (induction ps rule: deny_of.induct) auto

lemma ask_rule_of_None: "ask_rule_of ps = None \<longleftrightarrow> (\<forall>r. PAskRule r \<notin> set ps)"
  by (induction ps rule: ask_rule_of.induct) auto

lemma every_read_only_True: "every_read_only ss = Some True \<longleftrightarrow> (\<forall>seg\<in>set ss. is_read_only_segment seg = Some True)"
  by (induction ss) (auto split: option.splits bool.splits)

section \<open>The specification: when a command may run unasked\<close>

text \<open>No rule against it, and either an allow rule for it or built-in read-only.\<close>

definition may_run :: "command_rule list \<Rightarrow> segment \<Rightarrow> bool" where
  "may_run rules seg \<longleftrightarrow>
     \<not> covered DenyRule rules seg \<and> \<not> covered AskRule rules seg
     \<and> (covered AllowRule rules seg
        \<or> (is_builtin_ask seg = Some False \<and> is_read_only_segment seg = Some True))"

text \<open>What auto mode adds in an isolated sandbox: commands nothing covers either way.\<close>

definition may_run_isolated :: "command_rule list \<Rightarrow> segment \<Rightarrow> bool" where
  "may_run_isolated rules seg \<longleftrightarrow>
     may_run rules seg
     \<or> (uncovered rules seg \<and> is_builtin_ask seg = Some False \<and> is_read_only_segment seg = Some False)"

text \<open>Planning: read-only as such, whatever the allow rules say.\<close>

definition may_run_planning :: "command_rule list \<Rightarrow> segment \<Rightarrow> bool" where
  "may_run_planning rules seg \<longleftrightarrow>
     \<not> covered DenyRule rules seg \<and> \<not> covered AskRule rules seg \<and> is_read_only_segment seg = Some True"

definition runs :: "decision option \<Rightarrow> bool" where
  "runs d \<longleftrightarrow> (case d of Some (Run by rule) \<Rightarrow> True | _ \<Rightarrow> False)"

lemma may_run_iff_judge:
  "may_run rules seg \<longleftrightarrow> (\<exists>p. judge rules seg = Some (PAllowed p)) \<or> judge rules seg = Some PReadonly"
  by (auto simp: may_run_def judge_facts uncovered_def)

lemma may_run_isolated_iff_judge:
  "may_run_isolated rules seg \<longleftrightarrow> may_run rules seg \<or> judge rules seg = Some POpen"
  by (auto simp: may_run_isolated_def judge_facts)

lemma runs_decide_open:
  "runs (Some (decide_open mode isolated ss ps)) \<longleftrightarrow>
     PBuiltinAsk \<notin> set ps \<and> (POpen \<in> set ps \<longrightarrow> mode = Auto \<and> isolated)"
  by (auto simp: decide_open_def runs_def list_all_iff split: if_splits)

lemma part_cases:
  "judge_all rules ss = Some ps \<Longrightarrow> deny_of ps = None \<Longrightarrow> ask_rule_of ps = None \<Longrightarrow> seg \<in> set ss \<Longrightarrow>
   may_run rules seg \<or> judge rules seg = Some PBuiltinAsk \<or> judge rules seg = Some POpen"
  by (auto simp: may_run_iff_judge deny_of_None ask_rule_of_None judge_all_mem)
     (metis judge_all_defined option.exhaust option.simps(3) part.exhaust)

lemma runs_decide_parsed:
  assumes "mode \<noteq> Planning"
  shows "runs (decide_parsed mode rules isolated ss) \<longleftrightarrow>
     (\<forall>seg\<in>set ss. if mode = Auto \<and> isolated then may_run_isolated rules seg else may_run rules seg)"
    (is "?l \<longleftrightarrow> ?r")
proof (cases "judge_all rules ss")
  case None
  then obtain seg where "seg \<in> set ss" "judge rules seg = None"
    using judge_all_defined by blast
  then have "\<not> ?r" by (metis may_run_isolated_iff_judge may_run_iff_judge option.simps(3))
  moreover have "ss \<noteq> []" using None by auto
  ultimately show ?thesis using None by (auto simp: decide_parsed_def runs_def)
next
  case (Some ps)
  note mem = judge_all_mem [OF Some]
  show ?thesis
  proof (cases "deny_of ps = None \<and> ask_rule_of ps = None")
    case True
    then have l: "?l \<longleftrightarrow> ss = [] \<or> runs (Some (decide_open mode isolated ss ps))"
      using assms Some by (auto simp: decide_parsed_def runs_def)
    have "seg \<in> set ss \<Longrightarrow> may_run rules seg \<or> judge rules seg = Some PBuiltinAsk \<or> judge rules seg = Some POpen" for seg
      using part_cases [OF Some] True by blast
    then show ?thesis
      unfolding l runs_decide_open mem
      by (auto simp: may_run_isolated_iff_judge may_run_iff_judge mem) 
  next
    case False
    then obtain seg where s: "seg \<in> set ss" "covered DenyRule rules seg \<or> covered AskRule rules seg"
      using mem judge_deny_iff judge_ask_iff by (metis deny_of_None ask_rule_of_None)
    then have "\<not> ?r" by (auto simp: may_run_isolated_def may_run_def uncovered_def)
    moreover have "ss \<noteq> []" using s by auto
    then have "\<not> ?l"
      using False Some assms by (auto simp: decide_parsed_def runs_def split: option.splits)
    ultimately show ?thesis by blast
  qed
qed


lemma judge_None: "judge rules seg = None \<Longrightarrow> is_read_only_segment seg = None"
  by (auto simp: judge_def is_builtin_ask_def Let_def split: option.splits bool.splits if_splits)

lemma runs_decide_planning:
  "runs (decide_parsed Planning rules isolated ss) \<longleftrightarrow> (\<forall>seg\<in>set ss. may_run_planning rules seg)"
    (is "?l \<longleftrightarrow> ?r")
proof (cases "judge_all rules ss")
  case None
  then obtain seg where "seg \<in> set ss" "judge rules seg = None"
    using judge_all_defined by blast
  then have "\<not> ?r"
    using judge_None by (fastforce simp: may_run_planning_def)
  moreover have "ss \<noteq> []" using None by auto
  ultimately show ?thesis using None by (auto simp: decide_parsed_def runs_def)
next
  case (Some ps)
  note mem = judge_all_mem [OF Some]
  have d: "deny_of ps = None \<longleftrightarrow> (\<forall>seg\<in>set ss. \<not> covered DenyRule rules seg)"
    using mem judge_deny_iff unfolding deny_of_None by blast
  have a: "deny_of ps = None \<Longrightarrow> ask_rule_of ps = None \<longleftrightarrow> (\<forall>seg\<in>set ss. \<not> covered AskRule rules seg)"
    using mem judge_ask_iff d unfolding ask_rule_of_None by blast
  have "?l \<longleftrightarrow> ss = [] \<or> (deny_of ps = None \<and> ask_rule_of ps = None \<and> every_read_only ss = Some True)"
    using Some by (auto simp: decide_parsed_def runs_def split: option.splits bool.splits)
  then show ?thesis
    using d a by (auto simp: may_run_planning_def every_read_only_True)
qed

lemma denied_parsed:
  assumes "judge_all rules ss \<noteq> None" "seg \<in> set ss" "covered DenyRule rules seg"
  shows "\<exists>r why. decide_parsed mode rules isolated ss = Some (Deny r why)"
proof -
  obtain ps where ps: "judge_all rules ss = Some ps" using assms(1) by blast
  then have "deny_of ps \<noteq> None"
    using assms(2,3) judge_deny_iff [of rules seg] judge_all_mem [OF ps] by (auto simp: deny_of_None)
  then show ?thesis
    using ps assms(2) by (auto simp: decide_parsed_def)
qed

lemma covered_Cons:
  "covered act (r # rules) seg \<longleftrightarrow>
     (rule_act r = act \<and> rule_matches (rule_pattern r) seg (act = AllowRule)) \<or> covered act rules seg"
  by (auto simp: covered_def)

lemma restricting_rule:
  assumes "rule_act r \<noteq> AllowRule"
  shows "may_run (r # rules) seg \<Longrightarrow> may_run rules seg"
    and "may_run_isolated (r # rules) seg \<Longrightarrow> may_run_isolated rules seg"
    and "may_run_planning (r # rules) seg \<Longrightarrow> may_run_planning rules seg"
  using assms by (auto simp: may_run_def may_run_isolated_def may_run_planning_def uncovered_def covered_Cons)

end
