(* ===== verification/BashChain.thy ===== *)
theory BashChain
  imports BashParseTotal BashPolicy
begin

text \<open>
  Chains of plain commands (\<open>permissions/bash/parse.ts\<close> and \<open>policy.ts\<close>): for words that
  hold nothing the shell treats specially, the parser finds exactly the commands the shell
  would run, in order, and the decision about a chain is the decision about its commands.
\<close>

section \<open>Plain words\<close>

text \<open>
  Words of plain characters: nothing the shell treats specially. A chain of plain commands
  is parsed into exactly its commands, in order, whatever operators join them.
\<close>

definition plain_char :: "char \<Rightarrow> bool" where
  "plain_char c \<longleftrightarrow> is_name_char c \<or> c \<in> set ''-./,+:@%''"

definition plain_text :: "js_string \<Rightarrow> bool" where
  "plain_text w \<longleftrightarrow> w \<noteq> [] \<and> list_all plain_char w"

definition plain_word :: "js_string \<Rightarrow> word" where
  "plain_word w = \<lparr>w_text = w, dynamic = False, glob = False, quoted = False\<rparr>"

definition plain_command :: "js_string list \<Rightarrow> bool" where
  "plain_command ws \<longleftrightarrow> ws \<noteq> [] \<and> list_all plain_text ws \<and> hd ws \<notin> set RESERVED"

definition plain_segment :: "js_string list \<Rightarrow> segment" where
  "plain_segment ws =
     \<lparr>assignments = [], argv = map plain_word ws, redirects = [], seg_text = join [SP] ws\<rparr>"

definition chain_operators :: "js_string list" where
  "chain_operators = ['' && '', '' || '', ''; '', '' | '', '' & '']"

lemma plain_char_special:
  assumes "plain_char c"
  shows "c \<notin> {SP, TAB, NL, BS, SQ, DQ, BT}" "c \<notin> set '';&|)(<>$#!=*?[{~''"
proof -
  have "plain_char c \<Longrightarrow> c \<notin> {SP, TAB, NL, BS, SQ, DQ, BT} \<union> set '';&|)(<>$#!=*?[{~''"
    by (auto simp: plain_char_def is_name_char_def is_name_start_def is_upper_def is_lower_def is_digit_def in_range_def)
  then show "c \<notin> {SP, TAB, NL, BS, SQ, DQ, BT}" "c \<notin> set '';&|)(<>$#!=*?[{~''"
    using assms by auto
qed

lemma plain_not_operator: "plain_char c \<Longrightarrow> \<not> is_operator_start (Some c) None"
  using plain_char_special [of c] by (auto simp: is_operator_start_def)

text \<open>What may follow a plain word: nothing, a blank, or an operator.\<close>

definition word_stop :: "js_string \<Rightarrow> bool" where
  "word_stop r \<longleftrightarrow> r = [] \<or> hd r = SP \<or> hd r = CHR '';''"

lemma read_word_plain:
  assumes "list_all plain_char w" "word_stop r" "rest s = w @ r" "length w < n"
  shows "read_word pl n None d w0 first s = POk (w0\<lparr>w_text := w_text w0 @ w\<rparr>) (s\<lparr>rest := r\<rparr>)"
  using assms
proof (induction w arbitrary: s n w0 first)
  case Nil
  then obtain m where n: "n = Suc m" by (cases n) auto
  have "s\<lparr>rest := r\<rparr> = s" using Nil by simp
  with Nil n show ?case
    by (cases r) (auto simp: read_word.simps word_stop_def is_operator_start_def)
next
  case (Cons c w)
  then obtain m where n: "n = Suc m" by (cases n) auto
  have c: "plain_char c" using Cons by simp
  have "read_word pl n None d w0 first s = read_word pl m None d (add_char w0 c first) False (adv 1 s)"
    using Cons.prems c plain_char_special [OF c] plain_not_operator [OF c]
    by (simp add: n read_word.simps)
  also have "\<dots> = POk ((add_char w0 c first)\<lparr>w_text := w_text (add_char w0 c first) @ w\<rparr>) ((adv 1 s)\<lparr>rest := r\<rparr>)"
    by (rule Cons.IH) (use Cons.prems n in auto)
  also have "\<dots> = POk (w0\<lparr>w_text := w_text w0 @ c # w\<rparr>) (s\<lparr>rest := r\<rparr>)"
    using plain_char_special [OF c] by (simp add: add_char_def adv_def)
  finally show ?case .
qed

lemma skip_blanks_plain: "plain_char c \<Longrightarrow> skip_blanks_str (c # r) = c # r"
  using plain_char_special [of c] by (cases r) auto

lemma redirect_fd_plain:
  assumes "list_all plain_char w" "w \<noteq> []" "word_stop r" "rest s = w @ r"
  shows "redirect_fd s = None"
proof -
  have "dropWhile is_digit (rest s) = [] \<or> hd (dropWhile is_digit (rest s)) \<notin> {CHR ''>'', CHR ''<''}"
    using assms
  proof (induction w arbitrary: s)
    case (Cons c w)
    show ?case
    proof (cases "w = []")
      case True
      then show ?thesis
        using Cons.prems plain_char_special [of c]
        by (cases r) (auto simp: word_stop_def is_digit_def in_range_def)
    next
      case False
      then show ?thesis
        using Cons.IH [of "s\<lparr>rest := w @ r\<rparr>"] Cons.prems plain_char_special [of c] by auto
    qed
  qed simp
  then show ?thesis
    by (cases "dropWhile is_digit (rest s)") (simp_all add: redirect_fd_def Let_def del: dropWhile_eq_Nil_conv)
qed

lemma not_assignment_plain:
  assumes "list_all plain_char w"
  shows "\<not> is_assignment w"
proof (cases w)
  case (Cons c cs)
  have "\<not> starts_with (dropWhile is_name_char cs) ''=''"
  proof
    assume "starts_with (dropWhile is_name_char cs) ''=''"
    then obtain t where "dropWhile is_name_char cs = CHR ''='' # t"
      by (metis starts_withE append_Cons)
    then have "CHR ''='' \<in> set w"
      using Cons by (metis list.set_intros(1) list.set_intros(2) set_dropWhileD)
    then have "plain_char (CHR ''='')" using assms by (simp add: list_all_iff)
    then show False using plain_char_special(2) by fastforce
  qed
  then show ?thesis using Cons by (simp add: is_assignment_def)
qed (simp add: is_assignment_def)

text \<open>What may follow a plain command: nothing, or an operator and the next command.\<close>

definition chain_rest :: "js_string \<Rightarrow> bool" where
  "chain_rest r \<longleftrightarrow> r = [] \<or> (\<exists>sep \<in> set chain_operators. \<exists>c t. r = sep @ c # t \<and> plain_char c)"

lemma chain_rest_cases:
  assumes "chain_rest r"
  obtains "r = []"
  | op c t where "r = SP # op @ SP # c # t" "op \<in> {''&&'', ''||'', ''|'', ''&''}" "plain_char c"
  | c t where "r = CHR '';'' # SP # c # t" "plain_char c"
proof -
  consider "r = []" | sep c t where "sep \<in> set chain_operators" "r = sep @ c # t" "plain_char c"
    using assms by (auto simp: chain_rest_def)
  then show thesis
  proof cases
    case (2 sep c t)
    then consider op where "op \<in> {''&&'', ''||'', ''|'', ''&''}" "sep = SP # op @ [SP]" | "sep = ''; ''"
      unfolding chain_operators_def by fastforce
    then show ?thesis using 2 that(2,3) by cases auto
  qed (rule that(1))
qed

lemma chain_rest_word_stop: "chain_rest r \<Longrightarrow> word_stop r"
  by (erule chain_rest_cases) (auto simp: word_stop_def)

lemma chain_rest_skip:
  assumes "chain_rest r"
  shows "skip_blanks_str r = [] \<and> r = []
    \<or> (\<exists>b op c t. r = b @ op @ SP # c # t \<and> skip_blanks_str r = op @ SP # c # t \<and> plain_char c
        \<and> b \<in> {[], [SP]} \<and> op \<in> {''&&'', ''||'', ''|'', ''&'', '';''})"
  using assms
proof (cases rule: chain_rest_cases)
  case (2 op c t)
  then have "r = [SP] @ op @ SP # c # t" "skip_blanks_str r = op @ SP # c # t" by auto
  then show ?thesis using 2 by blast
next
  case (3 c t)
  then have "r = [] @ '';'' @ SP # c # t" "skip_blanks_str r = '';'' @ SP # c # t" by auto
  then show ?thesis using 3 by blast
qed simp

lemma simple_loop_stop:
  assumes "chain_rest (rest s)" "0 < n"
  shows "simple_loop pl n None d seg s = POk seg (skip_blanks s)"
proof -
  obtain m where n: "n = Suc m" using assms(2) by (cases n) auto
  show ?thesis
    using chain_rest_skip [OF assms(1)]
    by (auto simp: n simple_loop.simps Let_def peek_def skip_blanks_def is_operator_start_def)
qed

text \<open>The words of a plain command, read one by one.\<close>

lemma simple_loop_word:
  assumes w: "plain_text w" "word_stop r" "skip_blanks_str (rest s) = w @ r" "length w \<le> n"
    and res: "argv seg = [] \<Longrightarrow> w \<notin> set RESERVED"
  shows "simple_loop pl (Suc n) None d seg s = simple_loop pl n None d (add_argv (plain_word w) seg) (s\<lparr>rest := r\<rparr>)"
proof -
  let ?s = "skip_blanks s"
  have rest: "rest ?s = w @ r" using w(3) by (simp add: skip_blanks_def)
  obtain c cs where cw: "w = c # cs" "plain_char c" using w(1) by (cases w) (auto simp: plain_text_def)
  have all: "list_all plain_char w" "w \<noteq> []" using w(1) by (auto simp: plain_text_def)
  have pk: "peek ?s 0 = Some c" using cw rest by (simp add: peek_def)
  have c: "c \<noteq> CHR ''&''" "\<not> is_operator_start (Some c) None" "c \<noteq> CHR ''#''"
    using plain_char_special [OF cw(2)] plain_not_operator [OF cw(2)] by auto
  have rd: "read_word pl (Suc n) None d empty_word True ?s = POk (plain_word w) (?s\<lparr>rest := r\<rparr>)"
    using read_word_plain [OF all(1) w(2) rest, of "Suc n" pl d empty_word True] w(4)
    by (simp add: empty_word_def plain_word_def)
  have sl: "slice ?s (?s\<lparr>rest := r\<rparr>) = w" using rest by (simp add: slice_def)
  have res': "\<not> (argv seg = [] \<and> w \<in> set RESERVED)" using res by blast
  have nb: "w \<noteq> ''!''" using cw plain_char_special(2) [OF cw(2)] by auto
  show ?thesis
    using res' redirect_fd_plain [OF all w(2) rest] not_assignment_plain [OF all(1)] nb c
    by (simp only: simple_loop.simps Let_def pk rd sl pbind.simps option.simps option.inject if_False
        conj_absorb simp_thms)
      (auto simp: plain_word_def skip_blanks_def)
qed

lemma join_length_le: "w \<in> set ws \<Longrightarrow> length w \<le> length (join sep ws)"
  by (induction sep ws rule: join.induct) auto

lemma simple_loop_plain:
  assumes "list_all plain_text ws" "ws \<noteq> []" "chain_rest r" "skip_blanks_str (rest s) = join [SP] ws @ r"
    "length (join [SP] ws) < n" "argv seg = [] \<Longrightarrow> hd ws \<notin> set RESERVED"
  shows "simple_loop pl n None d seg s
    = POk (seg\<lparr>argv := argv seg @ map plain_word ws\<rparr>) (s\<lparr>rest := skip_blanks_str r\<rparr>)"
  using assms
proof (induction "[SP]" ws arbitrary: s n seg rule: join.induct)
  case (2 w)
  then obtain m where n: "n = Suc m" by (cases n) auto
  then have "0 < m" "length w \<le> m" using 2 by (cases w; auto simp: plain_text_def)+
  moreover have "simple_loop pl (Suc m) None d seg s = simple_loop pl m None d (add_argv (plain_word w) seg) (s\<lparr>rest := r\<rparr>)"
    using 2 n by (intro simple_loop_word) (auto simp: chain_rest_word_stop)
  ultimately show ?case
    using 2 n by (simp add: simple_loop_stop add_argv_def skip_blanks_def)
next
  case (3 w v vs)
  then obtain m where n: "n = Suc m" by (cases n) auto
  let ?r = "SP # join [SP] (v # vs) @ r"
  obtain c t where vj: "join [SP] (v # vs) @ r = c # t" "plain_char c"
    using "3.prems"(1) by (cases vs; cases v) (auto simp: plain_text_def)
  have "skip_blanks_str ?r = join [SP] (v # vs) @ r"
    using vj skip_blanks_plain [OF vj(2)] by simp
  moreover have "simple_loop pl (Suc m) None d seg s = simple_loop pl m None d (add_argv (plain_word w) seg) (s\<lparr>rest := ?r\<rparr>)"
    using "3.prems" n by (intro simple_loop_word) (auto simp: word_stop_def)
  ultimately show ?case
    using "3.prems" n "3.hyps" [of "s\<lparr>rest := ?r\<rparr>" m "add_argv (plain_word w) seg"]
    by (simp add: add_argv_def)
qed simp

lemma plain_text_wordlike: "plain_text w \<Longrightarrow> wordlike w"
  by (auto simp: plain_text_def wordlike_def no_space_def list_all_iff plain_char_def is_name_char_def
      is_name_start_def is_upper_def is_lower_def is_digit_def in_range_def is_space_def)

lemma trim_plain:
  assumes "list_all plain_text ws" "ws \<noteq> []" "b \<in> {[], [SP]}"
  shows "trim (join [SP] ws @ b) = join [SP] ws"
proof -
  have wl: "list_all wordlike ws" using assms(1) by (auto simp: list_all_iff plain_text_wordlike)
  have "trim (x @ [SP]) = trim x" for x
    by (cases "\<forall>c \<in> set x. is_space c")
      (auto simp: trim_def trim_left_def trim_right_def dropWhile_append dest: set_dropWhileD)
  then show ?thesis using assms trim_join [OF assms(2) wl] by auto
qed

lemma plain_command_start:
  assumes "plain_command ws"
  obtains c t where "join [SP] ws @ r = c # t" "plain_char c"
proof (rule that [of "hd (join [SP] ws)" "tl (join [SP] ws) @ r"])
  have ws: "ws \<noteq> []" "plain_text (hd ws)"
    using assms by (cases ws; auto simp: plain_command_def)+
  then have "hd ws \<noteq> []" "plain_char (hd (hd ws))" by (cases "hd ws"; simp add: plain_text_def)+
  then show "join [SP] ws @ r = hd (join [SP] ws) # tl (join [SP] ws) @ r" "plain_char (hd (join [SP] ws))"
    using join_hd [OF ws(1), of "[SP]"] by (simp_all, metis list.collapse)
qed

lemma parse_simple_plain:
  assumes "plain_command ws" "chain_rest r" "rest s = join [SP] ws @ r" "length (join [SP] ws) < n"
  shows "parse_simple pl n None d s
    = POk () (s\<lparr>rest := skip_blanks_str r, segs := segs s @ [plain_segment ws]\<rparr>)"
proof -
  have ws: "list_all plain_text ws" "ws \<noteq> []" "hd ws \<notin> set RESERVED"
    using assms(1) by (auto simp: plain_command_def)
  obtain c t where vj: "join [SP] ws @ r = c # t" "plain_char c"
    by (rule plain_command_start [OF assms(1)])
  have sk: "skip_blanks_str (rest s) = join [SP] ws @ r"
    using assms(3) vj skip_blanks_plain [OF vj(2)] by simp
  obtain b where b: "r = b @ skip_blanks_str r" "b \<in> {[], [SP]}"
    using chain_rest_skip [OF assms(2)] by fastforce
  have "slice s (s\<lparr>rest := skip_blanks_str r\<rparr>) = join [SP] ws @ b"
  proof -
    have "length (rest s) = length (join [SP] ws @ b) + length (skip_blanks_str r)"
      using assms(3) arg_cong [OF b(1), of length] by simp
    moreover have "rest s = (join [SP] ws @ b) @ skip_blanks_str r"
      using assms(3) b(1) by simp
    ultimately show ?thesis by (simp add: slice_def)
  qed
  then show ?thesis
    using simple_loop_plain [OF ws(1,2) assms(2) sk assms(4), of empty_segment pl d] ws
    by (simp add: parse_simple_def empty_segment_def plain_segment_def trim_plain [OF ws(1,2) b(2)])
qed

text \<open>The list loop over a chain.\<close>

definition chain_text :: "js_string \<Rightarrow> js_string list list \<Rightarrow> js_string" where
  "chain_text sep css = join sep (map (join [SP]) css)"

lemma list_loop_op:
  assumes "skip_blanks_str (rest s) = opr @ SP # c # t" "plain_char c"
    and "opr \<in> {''&&'', ''||'', ''|'', ''&'', '';''}"
  shows "list_loop pl (Suc n) None d s = list_loop pl n None d (s\<lparr>rest := SP # c # t\<rparr>)"
proof -
  consider "opr = ''&&''" | "opr = ''||''" | "opr = ''|''" | "opr = ''&''" | "opr = '';''"
    using assms(3) by blast
  then show ?thesis
    by cases (use assms(1) in \<open>simp_all add: list_loop.simps Let_def peek_def skip_blanks_def adv_def\<close>)
qed

lemma list_loop_command:
  assumes "plain_command ws" "chain_rest r" "skip_blanks_str (rest s) = join [SP] ws @ r"
    "length (join [SP] ws) \<le> n"
  shows "list_loop pl (Suc n) None d s
    = list_loop pl n None d (s\<lparr>rest := skip_blanks_str r, segs := segs s @ [plain_segment ws]\<rparr>)"
proof -
  obtain c t where vj: "join [SP] ws @ r = c # t" "plain_char c"
    by (rule plain_command_start [OF assms(1)])
  have "parse_simple pl (Suc n) None d (skip_blanks s)
    = POk () ((skip_blanks s)\<lparr>rest := skip_blanks_str r, segs := segs s @ [plain_segment ws]\<rparr>)"
    using parse_simple_plain [OF assms(1,2), of "skip_blanks s" "Suc n"] assms(3,4)
    by (simp add: skip_blanks_def)
  then show ?thesis
    using plain_char_special [OF vj(2)] assms(3) vj(1)
    by (simp add: list_loop.simps Let_def peek_def skip_blanks_def)
qed

lemma list_loop_chain:
  assumes "list_all plain_command css" "css \<noteq> []" "sep \<in> set chain_operators"
    and "skip_blanks_str (rest s) = chain_text sep css" "length (chain_text sep css) < n" "heredocs s = []"
  shows "list_loop pl n None d s = POk () (s\<lparr>rest := [], segs := segs s @ map plain_segment css\<rparr>)"
  using assms
proof (induction css arbitrary: s n)
  case (Cons ws css)
  then obtain m where n: "n = Suc m" by (cases n) auto
  show ?case
  proof (cases css)
    case Nil
    obtain c t where "join [SP] ws @ [] = c # t" "plain_char c"
      using Cons.prems(1) plain_command_start [of ws "[]"] by (metis list.pred_inject(2))
    then have "0 < m" using Cons.prems Nil n by (simp add: chain_text_def)
    then obtain k where "m = Suc k" by (cases m) auto
    then show ?thesis
      using Cons.prems Nil n list_loop_command [of ws "[]" s m pl d]
      by (simp add: chain_text_def chain_rest_def list_loop.simps Let_def peek_def skip_blanks_def)
  next
    case (Cons vs css')
    let ?t = "chain_text sep css"
    have t: "chain_text sep (ws # css) = join [SP] ws @ sep @ ?t"
      using Cons by (simp add: chain_text_def)
    obtain c u where u: "?t = c # u" "plain_char c"
    proof -
      have vs: "plain_command vs" using Cons.prems(1) Cons by simp
      have "\<exists>r. ?t = join [SP] vs @ r"
        unfolding chain_text_def Cons by (cases css') auto
      then obtain r where "?t = join [SP] vs @ r" ..
      with that show thesis by (metis plain_command_start [OF vs])
    qed
    have cr: "chain_rest (sep @ ?t)"
      using Cons.prems(3) u unfolding chain_rest_def by blast
    have ne: "sep @ ?t \<noteq> []" using u(1) by simp
    from chain_rest_skip [OF cr] obtain b opr c' t'
      where o: "sep @ ?t = b @ opr @ SP # c' # t'" "skip_blanks_str (sep @ ?t) = opr @ SP # c' # t'"
        "plain_char c'" "b \<in> {[], [SP]}" "opr \<in> {''&&'', ''||'', ''|'', ''&'', '';''}"
      using ne by blast
    have sep: "length sep \<ge> 2" "c' # t' = ?t"
      using o(1,4,5) Cons.prems(3) u plain_char_special [OF u(2)] plain_char_special [OF o(3)]
      by (auto simp: chain_operators_def)
    have len: "length (join [SP] ws) + 2 + length ?t < Suc m"
      using Cons.prems(5) n t sep(1) by simp
    then obtain k where k: "m = Suc k" by (cases m) auto
    let ?s1 = "s\<lparr>rest := skip_blanks_str (sep @ ?t), segs := segs s @ [plain_segment ws]\<rparr>"
    have "skip_blanks_str (rest s) = join [SP] ws @ sep @ ?t"
      using Cons.prems(4) t by simp
    then have "list_loop pl n None d s = list_loop pl m None d ?s1"
      using Cons.prems(1) cr len unfolding n by (intro list_loop_command) auto
    also have "\<dots> = list_loop pl k None d (?s1\<lparr>rest := SP # c' # t'\<rparr>)"
      unfolding k
    proof (rule list_loop_op [OF _ o(3) o(5)])
      show "skip_blanks_str (rest ?s1) = opr @ SP # c' # t'"
        using o(2,5) by (auto)
    qed
    also have "\<dots> = POk () ((?s1\<lparr>rest := SP # c' # t'\<rparr>)\<lparr>rest := [], segs := segs (?s1\<lparr>rest := SP # c' # t'\<rparr>) @ map plain_segment css\<rparr>)"
    proof (rule Cons.IH)
      show "skip_blanks_str (rest (?s1\<lparr>rest := SP # c' # t'\<rparr>)) = ?t"
        unfolding sep(2) [symmetric] using skip_blanks_plain [OF o(3)] by simp
    qed (use Cons.prems Cons len k in auto)
    finally show ?thesis by simp
  qed
qed simp

text \<open>A chain of plain commands is its commands, in order.\<close>

lemma parse_chain:
  assumes "list_all plain_command css" "css \<noteq> []" "sep \<in> set chain_operators"
    and "length (chain_text sep css) \<le> MAX_COMMAND_CHARS"
  shows "parse_command (chain_text sep css) = ParseOk (map plain_segment css)"
proof -
  obtain ws css' where css: "css = ws # css'" using assms(2) by (cases css) auto
  have ws: "plain_command ws" using assms(1) css by simp
  have "\<exists>r. chain_text sep css = join [SP] ws @ r"
    unfolding chain_text_def css by (cases css') auto
  then obtain r where "chain_text sep css = join [SP] ws @ r" ..
  then obtain c u where u: "chain_text sep css = c # u" "plain_char c"
    by (metis plain_command_start [OF ws])
  have "skip_blanks_str (chain_text sep css) = chain_text sep css"
    using u skip_blanks_plain by simp
  then have "parse_run (chain_text sep css)
      = POk () ((init_pstate (chain_text sep css))\<lparr>rest := [], segs := map plain_segment css\<rparr>)"
    using list_loop_chain [OF assms(1-3), of "init_pstate (chain_text sep css)" "parse_fuel (chain_text sep css)"
        "parse_list (length (chain_text sep css))" 0]
    by (simp add: parse_run_def parse_fuel_def init_pstate_def parse_list.simps MAX_NESTING_def)
  moreover have "\<not> list_ex head_computed (map plain_segment css)"
    by (auto simp: list_ex_iff head_computed_def plain_segment_def plain_word_def split: list.splits)
  ultimately show ?thesis
    using assms(4) by (simp add: parse_command_def)
qed

lemma chain_text_single: "chain_text sep [ws] = join [SP] ws"
  by (simp add: chain_text_def)

lemma chain_text_le: "ws \<in> set css \<Longrightarrow> length (join [SP] ws) \<le> length (chain_text sep css)"
  unfolding chain_text_def by (rule join_length_le) simp

end
