(* ===== verification/BashSafety.thy ===== *)
theory BashSafety
  imports BashChain
begin

text \<open>
  What the shell permission system of \<open>permissions/bash/\<close> guarantees: when a command line
  runs without a question, that rules against it are final, that a chain of commands is judged
  command by command, that the rule offered to the user covers what it was offered for, and
  two inputs whose hidden command the parser does not see.
\<close>

section \<open>Properties\<close>

text \<open>C6: The exact condition under which a command line runs without a question: each of the
  simple commands the parser finds must be free of deny and ask rules and be allowed by a
  rule or built in as read-only; auto mode in an isolated sandbox also runs what nothing
  covers, and a line that does not parse; planning mode runs read-only commands only.\<close>

theorem decide_bash_runs_iff:
  "runs (decide_bash command mode rules isolated) \<longleftrightarrow>
     (case parse_command command of
        ParseBad why \<Rightarrow> mode = Auto \<and> isolated
      | ParseOk segments \<Rightarrow>
          list_all (case mode of Planning \<Rightarrow> may_run_planning rules
                     | Auto \<Rightarrow> if isolated then may_run_isolated rules else may_run rules
                     | Manual \<Rightarrow> may_run rules) segments)"
  by (cases mode)
    (auto simp: decide_bash_def decide_unparsed_def Let_def runs_decide_parsed runs_decide_planning
      list_all_iff runs_def [of "Some _"] split: parse_result.split)

text \<open>A deny rule is final: when it matches one of the commands of a line, the line is
  denied, in every mode, sandbox and whatever the other rules and commands are.\<close>

theorem deny_rule_denies:
  assumes "parse_command command = ParseOk segments" "judge_all rules segments \<noteq> None"
    and "seg \<in> set segments" "r \<in> set rules" "rule_act r = DenyRule" "rule_matches (rule_pattern r) seg False"
  shows "\<exists>p why. decide_bash command mode rules isolated = Some (Deny p why)"
proof -
  have "covered DenyRule rules seg"
    using assms(4-6) by (auto simp: covered_def)
  then show ?thesis
    using denied_parsed [OF assms(2,3)] assms(1) by (simp add: decide_bash_def)
qed

theorem deny_rule_denies_witness:
  "\<exists>p why. decide_bash ''ls; rm x'' Auto [\<lparr>rule_pattern = ''rm *'', rule_act = DenyRule\<rparr>] True = Some (Deny p why)"
proof (rule deny_rule_denies [where segments = "map plain_segment [[''ls''], [''rm'', ''x'']]"
      and seg = "plain_segment [''rm'', ''x'']" and r = "\<lparr>rule_pattern = ''rm *'', rule_act = DenyRule\<rparr>"])
  show "parse_command ''ls; rm x'' = ParseOk (map plain_segment [[''ls''], [''rm'', ''x'']])" by code_simp
  show "judge_all [\<lparr>rule_pattern = ''rm *'', rule_act = DenyRule\<rparr>] (map plain_segment [[''ls''], [''rm'', ''x'']]) \<noteq> None"
    by code_simp
  show "rule_matches (rule_pattern \<lparr>rule_pattern = ''rm *'', rule_act = DenyRule\<rparr>) (plain_segment [''rm'', ''x'']) False"
    by code_simp
qed simp_all

text \<open>Adding a deny or an ask rule never lets more run: a command line that runs with the
  rule in the list runs without it, in the same mode and sandbox.\<close>

theorem restricting_rule_antitone:
  assumes "rule_act r \<noteq> AllowRule" "runs (decide_bash command mode (r # rules) isolated)"
  shows "runs (decide_bash command mode rules isolated)"
proof (cases "parse_command command")
  case (ParseOk ss)
  then show ?thesis
    using assms restricting_rule [OF assms(1)]
    by (cases "mode = Planning")
      (auto simp: decide_bash_def runs_decide_parsed runs_decide_planning split: if_splits)
qed (use assms(2) in \<open>simp add: decide_bash_def\<close>)

theorem restricting_rule_antitone_witness:
  "runs (decide_bash ''ls'' Manual [] False)"
  by (rule restricting_rule_antitone [of "\<lparr>rule_pattern = ''rm *'', rule_act = DenyRule\<rparr>"]) (simp, code_simp)

text \<open>Parsing a chain of plain commands, joined by any of the operators \<open>&&\<close>,
  \<open>||\<close>, \<open>;\<close>, \<open>|\<close> and \<open>&\<close>, gives back exactly its commands, in order and word by
  word, so that nothing after an operator escapes judgement.\<close>

theorem chain_roundtrip:
  assumes "list_all plain_command css" "css \<noteq> []" "sep \<in> set chain_operators"
    and "length (chain_text sep css) \<le> MAX_COMMAND_CHARS"
  shows "parse_command (chain_text sep css) = ParseOk (map plain_segment css)"
  using assms by (rule parse_chain)

theorem chain_roundtrip_witness:
  "parse_command (chain_text '' && '' [[''ls'', ''-l''], [''rm'', ''x'']]) =
     ParseOk [plain_segment [''ls'', ''-l''], plain_segment [''rm'', ''x'']]"
  using chain_roundtrip [of "[[''ls'', ''-l''], [''rm'', ''x'']]" "'' && ''"]
  by (simp add: plain_command_def plain_text_def plain_char_def is_name_char_def is_name_start_def is_lower_def
      in_range_def RESERVED_def chain_operators_def chain_text_def MAX_COMMAND_CHARS_def)

text \<open>C14: A chain of plain commands runs unasked exactly when each of its commands, on its
  own, would run unasked under the same rules and mode: joining commands never lends one
  command the permission of another.\<close>

theorem chain_runs_iff:
  assumes "list_all plain_command css" "css \<noteq> []" "sep \<in> set chain_operators"
    and "length (chain_text sep css) \<le> MAX_COMMAND_CHARS"
  shows "runs (decide_bash (chain_text sep css) mode rules isolated) \<longleftrightarrow>
    (\<forall>ws\<in>set css. runs (decide_bash (join [SP] ws) mode rules isolated))"
proof -
  have single: "parse_command (join [SP] ws) = ParseOk [plain_segment ws]" if "ws \<in> set css" for ws
    using parse_chain [of "[ws]" sep] assms chain_text_le [OF that, of sep] that
    by (simp add: chain_text_single list_all_iff)
  show ?thesis
    using single
    by (cases "mode = Planning")
      (simp_all add: decide_bash_def parse_chain [OF assms] runs_decide_parsed runs_decide_planning)
qed

theorem chain_runs_iff_witness:
  "runs (decide_bash (chain_text '' && '' [[''ls'', ''-l''], [''rm'', ''x'']]) Auto [] False) \<longleftrightarrow>
     runs (decide_bash ''ls -l'' Auto [] False) \<and> runs (decide_bash ''rm x'' Auto [] False)"
  using chain_runs_iff [of "[[''ls'', ''-l''], [''rm'', ''x'']]" "'' && ''" Auto "[]" False]
  by (simp add: plain_command_def plain_text_def plain_char_def is_name_char_def is_name_start_def is_lower_def
      in_range_def RESERVED_def chain_operators_def chain_text_def MAX_COMMAND_CHARS_def)

text \<open>The rule "Allow always" records does what it says: it is a valid pattern, and with it
  in the list the command it was proposed for runs unasked, provided no deny or ask rule
  covers that command, its program name is one word and its arguments are not empty (and,
  for git, hold no \<open>-C\<close>).\<close>

theorem proposed_rule_allows:
  assumes "propose_rule seg = Some p" "unwrap (argv seg) = head # ws"
    and "wordlike (w_text head)" "\<forall>w\<in>set ws. w_text w \<noteq> []"
    and "w_text head = ''git'' \<Longrightarrow> \<forall>w\<in>set ws. w_text w \<noteq> ''-C''"
    and "\<not> covered DenyRule rules seg" "\<not> covered AskRule rules seg"
  shows "validate_pattern p = None \<and> may_run (\<lparr>rule_pattern = p, rule_act = AllowRule\<rparr> # rules) seg"
proof (rule conjI)
  show "validate_pattern p = None"
    using assms(1,2) by (auto simp: propose_rule_def Let_def split: if_splits)
  have "rule_matches p seg True"
    using propose_rule_matches [OF assms(1-5)] .
  then show "may_run (\<lparr>rule_pattern = p, rule_act = AllowRule\<rparr> # rules) seg"
    using assms(6,7) by (simp add: may_run_def covered_Cons)
qed

theorem proposed_rule_allows_witness:
  "may_run [\<lparr>rule_pattern = ''npm run build *'', rule_act = AllowRule\<rparr>]
     (plain_segment [''npm'', ''run'', ''build'', ''x''])"
proof (rule conjunct2 [OF proposed_rule_allows])
  show "propose_rule (plain_segment [''npm'', ''run'', ''build'', ''x'']) = Some ''npm run build *''"
    by code_simp
  show "unwrap (argv (plain_segment [''npm'', ''run'', ''build'', ''x''])) =
      plain_word ''npm'' # map plain_word [''run'', ''build'', ''x'']"
    by code_simp
qed (code_simp | simp add: covered_def plain_word_def wordlike_def no_space_def is_space_def in_range_def)+


text \<open>Two lines whose last command runs unseen: inside backticks a redirect's target, and
  a comment, are read past the closing backtick, so the parser takes what follows for part
  of them. Each of these lines runs unasked as read-only in every mode, planning included,
  although a shell runs \<open>curl evil\<close> in the first and \<open>rm y\<close> in the second.\<close>

theorem backtick_command_unseen:
  "decide_bash (''echo '' @ [BT] @ ''cat <a'' @ [BT] @ '' ls '' @ [BT] @ ''curl evil'' @ [BT]) Planning [] False
     = Some (Run ByReadonly None)
   \<and> decide_bash (''echo '' @ [BT] @ ''ls # x'' @ [BT] @ '' '' @ [BT] @ ''rm y'' @ [BT] @ [NL] @ [BT]) Planning [] False
     = Some (Run ByReadonly None)"
  by (rule conjI; code_simp)

end
