(* ===== verification/Permissions.thy ===== *)
theory Permissions
  imports Prelude
begin

text \<open>
  The two facts auto mode rests on beside the command rules: whether a conversation's commands
  run isolated and which file writes are sensitive (\<open>permissions/isolation.ts\<close>), and the
  permission check, a side call to the model whose last \<open>VERDICT:\<close> line decides
  (\<open>permissions/check.ts\<close>). The stored workspace and sandbox row, and the events of the
  side call, are inputs of the definitions.
\<close>

section \<open>Isolation\<close>

datatype workspace =
    Scratch
  | GitHub
  | Local bool js_string  \<comment> \<open>\<open>isolation = "container"\<close>, and the path\<close>

record isolation =
  isolated :: bool
  roots :: "js_string list"

record sandbox_row =
  provider_container :: bool
  limits_network :: "bool option"  \<comment> \<open>\<open>limits.network\<close>, where it is a boolean\<close>

definition CONTAINER_WORKDIR :: js_string where
  "CONTAINER_WORKDIR = ''/workspace''"

text \<open>
  \<open>isolationFor\<close>. \<open>ws\<close> is what \<open>loadWorkspace\<close> gave (\<^const>\<open>None\<close> for an error or no row),
  \<open>row\<close> the conversation's live sandbox row if there is one.
\<close>

definition isolation_for :: "workspace option \<Rightarrow> bool \<Rightarrow> sandbox_row option \<Rightarrow> bool \<Rightarrow> isolation" where
  "isolation_for ws container_mode row allow_network =
     (case (case ws of None \<Rightarrow> Scratch | Some w \<Rightarrow> w) of
        Local container path \<Rightarrow>
          \<lparr>isolated = False, roots = (if container then [CONTAINER_WORKDIR] else [path])\<rparr>
      | w \<Rightarrow>
          if \<not> container_mode then \<lparr>isolated = False, roots = []\<rparr>
          else if w = GitHub then \<lparr>isolated = False, roots = [CONTAINER_WORKDIR]\<rparr>
          else case row of
            Some r \<Rightarrow> \<lparr>isolated = provider_container r \<and> limits_network r = Some False, roots = [CONTAINER_WORKDIR]\<rparr>
          | None \<Rightarrow> \<lparr>isolated = \<not> allow_network, roots = [CONTAINER_WORKDIR]\<rparr>)"

definition strip_slashes :: "js_string \<Rightarrow> js_string" where
  "strip_slashes root = rev (dropWhile (\<lambda>c. c = CHR ''/'') (rev root))"

definition is_sensitive_write :: "js_string \<Rightarrow> js_string list \<Rightarrow> bool" where
  "is_sensitive_write path rs =
     (let segments = split_on (CHR ''/'') path in
      if starts_with path ''~'' \<or> ''..'' \<in> set segments \<or> ''.git'' \<in> set segments then True
      else if \<not> starts_with path ''/'' then False
      else \<not> list_ex (\<lambda>root. path = root \<or> starts_with path (strip_slashes root @ ''/'')) rs)"

text \<open>Where a path leads from a directory: \<open>.\<close> and empty components stay, \<open>..\<close> goes up.\<close>

fun walk :: "js_string list \<Rightarrow> js_string list \<Rightarrow> js_string list" where
  "walk dir [] = dir"
| "walk dir (p # ps) =
     (if p = [] \<or> p = ''.'' then walk dir ps
      else if p = ''..'' then walk (butlast dir) ps
      else walk (dir @ [p]) ps)"

definition resolve :: "js_string list \<Rightarrow> js_string \<Rightarrow> js_string list" where
  "resolve cwd path =
     (if starts_with path ''/'' then walk [] (split_on (CHR ''/'') path)
      else walk cwd (split_on (CHR ''/'') path))"

lemma walk_append: "walk dir (ps @ qs) = walk (walk dir ps) qs"
  by (induction dir ps rule: walk.induct) auto

lemma walk_down: "''..'' \<notin> set ps \<Longrightarrow> walk dir ps = dir @ filter (\<lambda>p. p \<noteq> [] \<and> p \<noteq> ''.'') ps"
  by (induction dir ps rule: walk.induct) auto

lemma split_on_at: "split_on d (a @ d # s) = split_on d a @ split_on d s"
proof (induction a)
  case (Cons c a)
  then show ?case by (cases "split_on d a") auto
qed simp

lemma split_on_seps: "split_on d (a @ replicate n d) = split_on d a @ replicate n []"
proof (induction n arbitrary: a)
  case (Suc n)
  have "split_on d (a @ replicate (Suc n) d) = split_on d a @ split_on d ([] @ replicate n d)"
    using split_on_at [of d a "replicate n d"] by simp
  also have "\<dots> = split_on d a @ replicate (Suc n) []"
    by (subst Suc.IH) simp
  finally show ?case .
qed simp

lemma strip_slashes_split: "\<exists>n. root = strip_slashes root @ replicate n (CHR ''/'')"
proof -
  have "set (takeWhile (\<lambda>c. c = CHR ''/'') (rev root)) \<subseteq> {CHR ''/''}"
    by (auto dest: set_takeWhileD)
  then have "takeWhile (\<lambda>c. c = CHR ''/'') (rev root) = replicate (length (takeWhile (\<lambda>c. c = CHR ''/'') (rev root))) (CHR ''/'')"
    by (metis replicate_length_same singletonD subset_iff)
  moreover have "root = strip_slashes root @ rev (takeWhile (\<lambda>c. c = CHR ''/'') (rev root))"
    unfolding strip_slashes_def by (metis rev_append rev_rev_ident takeWhile_dropWhile_id)
  ultimately show ?thesis by (metis rev_replicate)
qed

lemma insensitive_under_root:
  assumes "starts_with path (strip_slashes root @ ''/'')" "''..'' \<notin> set (split_on (CHR ''/'') path)"
  shows "\<exists>below. walk [] (split_on (CHR ''/'') path) = walk [] (split_on (CHR ''/'') root) @ below"
proof -
  obtain t where p: "path = strip_slashes root @ CHR ''/'' # t"
    using starts_withE [OF assms(1)] by auto
  obtain n where r: "root = strip_slashes root @ replicate n (CHR ''/'')"
    using strip_slashes_split by blast
  have sp: "split_on (CHR ''/'') path = split_on (CHR ''/'') (strip_slashes root) @ split_on (CHR ''/'') t"
    unfolding p by (rule split_on_at)
  have sr: "split_on (CHR ''/'') root = split_on (CHR ''/'') (strip_slashes root) @ replicate n []"
    by (subst r) (rule split_on_seps)
  have "walk dir (replicate n []) = dir" for dir
    by (induction n) auto
  then have "walk [] (split_on (CHR ''/'') root) = walk [] (split_on (CHR ''/'') (strip_slashes root))"
    by (simp add: sr walk_append)
  moreover have "walk d (split_on (CHR ''/'') t) = d @ filter (\<lambda>p. p \<noteq> [] \<and> p \<noteq> ''.'') (split_on (CHR ''/'') t)" for d
    using assms(2) by (intro walk_down) (auto simp: sp)
  ultimately show ?thesis
    by (simp add: sp walk_append)
qed

section \<open>The verdict of a permission check\<close>

datatype verdict = Allow "js_string option" | AskUser "js_string option"

text \<open>The em dash, where the pattern allows it, has its Windows-1252 position.\<close>

definition is_dash :: "char \<Rightarrow> bool" where
  "is_dash c \<longleftrightarrow> c \<in> set ''-:.'' \<or> c = CHR 0x97"

definition is_emphasis :: "char \<Rightarrow> bool" where
  "is_emphasis c \<longleftrightarrow> c = CHR ''*'' \<or> c = CHR ''_'' \<or> c = BT"

definition strip_emphasis :: "js_string \<Rightarrow> js_string" where
  "strip_emphasis l = rev (dropWhile is_emphasis (rev (dropWhile is_emphasis l)))"

text \<open>A case-insensitive literal at the start of a line: what follows it.\<close>

definition after_literal :: "js_string \<Rightarrow> js_string \<Rightarrow> js_string option" where
  "after_literal p l = (if starts_with (upper l) p then Some (drop (length p) l) else None)"

definition word_boundary :: "js_string \<Rightarrow> bool" where
  "word_boundary r \<longleftrightarrow> (case r of [] \<Rightarrow> True | c # _ \<Rightarrow> \<not> is_name_char c)"

text \<open>The tail \<open>\b\s*[-:.]?\s*(.*)$\<close> of the pattern: the text of its last group.\<close>

definition verdict_tail :: "js_string \<Rightarrow> js_string option" where
  "verdict_tail r =
     (if \<not> word_boundary r then None
      else (let a = dropWhile is_space r;
                b = (case a of c # cs \<Rightarrow> if is_dash c then cs else a | [] \<Rightarrow> []);
                t = dropWhile is_space b
            in if CR \<in> set t then None else Some t))"

text \<open>The pattern on one line: whether the verdict is ALLOW, and the text after it.\<close>

definition match_verdict :: "js_string \<Rightarrow> (bool \<times> js_string) option" where
  "match_verdict l =
     (case after_literal ''VERDICT:'' l of None \<Rightarrow> None
      | Some r \<Rightarrow>
          (let r1 = dropWhile is_space r in
           case after_literal ''ALLOW'' r1 of
             Some q \<Rightarrow> map_option (Pair True) (verdict_tail q)
           | None \<Rightarrow>
               (case after_literal ''ASK'' r1 of
                  Some q \<Rightarrow> map_option (Pair False) (verdict_tail q)
                | None \<Rightarrow> None)))"

fun reason_line :: "js_string list \<Rightarrow> js_string" where
  "reason_line [] = []"
| "reason_line (l # ls) =
     (case after_literal ''REASON:'' l of
        Some r \<Rightarrow> dropWhile is_space r
      | None \<Rightarrow> reason_line ls)"

definition reason_of :: "js_string \<Rightarrow> js_string list \<Rightarrow> js_string option" where
  "reason_of inline later =
     (let reason = take 300 (trim (if inline \<noteq> [] then inline else reason_line later))
      in if reason = [] then None else Some reason)"

fun verdict_loop :: "verdict option \<Rightarrow> js_string list \<Rightarrow> verdict option" where
  "verdict_loop found [] = found"
| "verdict_loop found (l # ls) =
     verdict_loop
       (case match_verdict l of
          None \<Rightarrow> found
        | Some (allow, tail) \<Rightarrow>
            Some ((if allow then Allow else AskUser) (reason_of (trim tail) ls))) ls"

definition parse_verdict :: "js_string \<Rightarrow> verdict option" where
  "parse_verdict reply = verdict_loop None (map (\<lambda>l. strip_emphasis (trim l)) (split_on NL reply))"

text \<open>The last line that states a verdict is the one that counts.\<close>

lemma verdict_loop_None: "list_all (\<lambda>l. match_verdict l = None) ls \<Longrightarrow> verdict_loop found ls = found"
  by (induction ls arbitrary: found) auto

definition last_verdict :: "js_string list \<Rightarrow> verdict \<Rightarrow> bool" where
  "last_verdict ls v \<longleftrightarrow>
     (\<exists>before l later tail allow. ls = before @ l # later \<and> match_verdict l = Some (allow, tail)
        \<and> list_all (\<lambda>l. match_verdict l = None) later
        \<and> v = (if allow then Allow else AskUser) (reason_of (trim tail) later))"

lemma last_verdict_Cons: "last_verdict ls v \<Longrightarrow> last_verdict (k # ls) v"
  unfolding last_verdict_def by (metis append_Cons)

lemma last_verdict_hd:
  "match_verdict l = Some (allow, tail) \<Longrightarrow> list_all (\<lambda>l. match_verdict l = None) ls \<Longrightarrow>
   last_verdict (l # ls) ((if allow then Allow else AskUser) (reason_of (trim tail) ls))"
  unfolding last_verdict_def by (metis append_Nil)

lemma verdict_loop_last:
  "verdict_loop found ls = Some v \<Longrightarrow>
   (found = Some v \<and> list_all (\<lambda>l. match_verdict l = None) ls) \<or> last_verdict ls v"
proof (induction ls arbitrary: found)
  case (Cons k ls)
  show ?case
  proof (cases "match_verdict k")
    case None
    then show ?thesis using Cons last_verdict_Cons by fastforce
  next
    case (Some p)
    obtain allow tail where p: "p = (allow, tail)" by (cases p)
    let ?v = "(if allow then Allow else AskUser) (reason_of (trim tail) ls)"
    have "verdict_loop (Some ?v) ls = Some v" using Cons.prems Some p by simp
    then have "(?v = v \<and> list_all (\<lambda>l. match_verdict l = None) ls) \<or> last_verdict ls v"
      using Cons.IH by blast
    then show ?thesis using Some p last_verdict_hd last_verdict_Cons by blast
  qed
qed simp

section \<open>Running the check\<close>

text \<open>
  The events of the side call, and how its stream ended: normally, or by an exception with a
  message, at which point the timer may have fired and the run may have been stopped.
\<close>

datatype event = Delta js_string | Done bool js_string  \<comment> \<open>whether it called a tool, and the result\<close>

datatype stream_end = Ended | Threw js_string bool bool  \<comment> \<open>message, timed out, stopped\<close>

datatype check_failure = FAsk | FTimeout | FUnparseable | FError

datatype check_outcome =
    CheckAllow "js_string option" "js_string option"
  | CheckNo check_failure "js_string option" "js_string option"
  | Rethrow js_string

fun read_events :: "js_string \<Rightarrow> js_string option \<Rightarrow> bool \<Rightarrow> event list \<Rightarrow> js_string \<times> js_string option \<times> bool" where
  "read_events reply result tool [] = (reply, result, tool)"
| "read_events reply result tool (Delta c # es) = read_events (reply @ c) result tool es"
| "read_events reply result tool (Done called r # es) = read_events reply (Some r) called es"

definition run_permission_check :: "event list \<Rightarrow> stream_end \<Rightarrow> check_outcome" where
  "run_permission_check events ending =
     (case read_events [] None False events of (reply, result, tool) \<Rightarrow>
       (case ending of
          Threw message timed_out stopped \<Rightarrow>
            if timed_out then CheckNo FTimeout None result
            else if stopped then Rethrow message
            else CheckNo FError (Some (take 200 message)) result
        | Ended \<Rightarrow>
            if tool then CheckNo FUnparseable None result
            else case parse_verdict reply of
              None \<Rightarrow> CheckNo FUnparseable None result
            | Some (Allow reason) \<Rightarrow> CheckAllow reason result
            | Some (AskUser reason) \<Rightarrow> CheckNo FAsk reason result))"

definition reply_text :: "event list \<Rightarrow> js_string" where
  "reply_text events = concat (map (\<lambda>e. case e of Delta c \<Rightarrow> c | Done _ _ \<Rightarrow> []) events)"

lemma read_events_text: "fst (read_events reply result tool es) = reply @ reply_text es"
  by (induction reply result tool es rule: read_events.induct) (auto simp: reply_text_def)

section \<open>Properties\<close>

text \<open>The permission check fails closed: it allows a command only when the side call ended
  without an error and the last line of its reply that states a verdict says ALLOW. A
  timeout, an error, a tool call or a reply with no verdict never allows.\<close>

theorem check_allows_only_verdict:
  assumes "run_permission_check events ending = CheckAllow reason result"
  shows "ending = Ended \<and>
    (\<exists>before l later tail.
       map (\<lambda>l. strip_emphasis (trim l)) (split_on NL (reply_text events)) = before @ l # later
       \<and> match_verdict l = Some (True, tail) \<and> list_all (\<lambda>l. match_verdict l = None) later)"
proof -
  obtain reply res tool where r: "read_events [] None False events = (reply, res, tool)"
    by (metis prod_cases3)
  then have rt: "reply = reply_text events"
    using read_events_text [of "[]" None False events] by simp
  have "ending = Ended" "parse_verdict reply = Some (Allow reason)"
    using assms r by (auto simp: run_permission_check_def split: stream_end.splits if_splits option.splits verdict.splits)
  then show ?thesis
    using verdict_loop_last [of None "map (\<lambda>l. strip_emphasis (trim l)) (split_on NL (reply_text events))" "Allow reason"]
    unfolding last_verdict_def parse_verdict_def rt by (auto split: if_splits)
qed

theorem check_allows_only_verdict_witness:
  "\<exists>tail. match_verdict ''VERDICT: allow - fine'' = Some (True, tail)"
proof -
  have "run_permission_check [Delta ''VERDICT: allow - fine'', Done False ''r''] Ended
      = CheckAllow (Some ''fine'') (Some ''r'')"
    by code_simp
  from check_allows_only_verdict [OF this]
  obtain before l later tail where
    "map (\<lambda>l. strip_emphasis (trim l)) (split_on NL (reply_text [Delta ''VERDICT: allow - fine'', Done False ''r'']))
       = before @ l # later" "match_verdict l = Some (True, tail)" by blast
  moreover have "map (\<lambda>l. strip_emphasis (trim l)) (split_on NL (reply_text [Delta ''VERDICT: allow - fine'', Done False ''r'']))
       = [''VERDICT: allow - fine'']" by code_simp
  ultimately show ?thesis by (cases before) auto
qed

text \<open>A file write auto mode lets through unchecked stays inside the workspace and out of
  \<open>.git\<close>: an absolute path resolves to a place under one of the workspace's roots, a relative
  one to a place under the directory it is relative to, and no component is \<open>.git\<close>.\<close>

theorem unchecked_write_inside:
  assumes "\<not> is_sensitive_write path rs"
  shows "''.git'' \<notin> set (split_on (CHR ''/'') path) \<and>
    (if starts_with path ''/''
     then \<exists>root\<in>set rs. \<exists>below. resolve cwd path = walk [] (split_on (CHR ''/'') root) @ below
     else \<exists>below. resolve cwd path = cwd @ below)"
proof (rule conjI)
  have d: "''..'' \<notin> set (split_on (CHR ''/'') path)" "''.git'' \<notin> set (split_on (CHR ''/'') path)"
    and r: "starts_with path ''/'' \<Longrightarrow> \<exists>root\<in>set rs. path = root \<or> starts_with path (strip_slashes root @ ''/'')"
    using assms by (auto simp: is_sensitive_write_def Let_def list_ex_iff split: if_splits)
  show "''.git'' \<notin> set (split_on (CHR ''/'') path)" by (rule d)
  show "if starts_with path ''/''
     then \<exists>root\<in>set rs. \<exists>below. resolve cwd path = walk [] (split_on (CHR ''/'') root) @ below
     else \<exists>below. resolve cwd path = cwd @ below"
  proof (cases "starts_with path ''/''")
    case True
    then obtain root where "root \<in> set rs" "path = root \<or> starts_with path (strip_slashes root @ ''/'')"
      using r by blast
    then show ?thesis
      using True insensitive_under_root [OF _ d(1)] by (auto simp: resolve_def)
  qed (auto simp: resolve_def walk_down [OF d(1)])
qed

theorem unchecked_write_inside_witness:
  "\<exists>below. resolve [] ''/workspace/src/a.ts'' = [''workspace''] @ below"
proof -
  have "\<not> is_sensitive_write ''/workspace/src/a.ts'' [''/workspace/'']" by code_simp
  from unchecked_write_inside [OF this, of "[]"] show ?thesis
    by (simp add: starts_with_def)
qed

text \<open>A command runs as isolated only in a server container without a network: never for a
  local workspace, in host mode or for a GitHub workspace, and once a sandbox exists its own
  network setting decides, not the current one.\<close>

theorem isolated_iff:
  "isolated (isolation_for ws container_mode row allow_network) \<longleftrightarrow>
     container_mode \<and> (ws = None \<or> ws = Some Scratch)
     \<and> (case row of Some r \<Rightarrow> provider_container r \<and> limits_network r = Some False | None \<Rightarrow> \<not> allow_network)"
  by (auto simp: isolation_for_def split: option.splits workspace.splits)

end
