(* ===== verification/Systems.thy ===== *)
theory Systems
  imports Prelude
begin

text \<open>
  State machines: what every component modelled as a step relation shares. A component
  proves that each of its steps keeps its invariant; the locales carry it to whole runs.
\<close>

text \<open>A step relation that keeps an invariant.\<close>

locale preserved =
  fixes step :: "'s \<Rightarrow> 's \<Rightarrow> bool" and inv :: "'s \<Rightarrow> bool"
  assumes step_inv: "step s s' \<Longrightarrow> inv s \<Longrightarrow> inv s'"
begin

lemma run_inv: "step\<^sup>*\<^sup>* s s' \<Longrightarrow> inv s \<Longrightarrow> inv s'"
  by (induction rule: rtranclp_induct) (auto dest: step_inv)

text \<open>A fact about pairs of states that one step keeps, for states within the invariant.\<close>

lemma run_relates:
  assumes "step\<^sup>*\<^sup>* s s'" "inv s" "P s"
    and "\<And>t t'. step t t' \<Longrightarrow> inv t \<Longrightarrow> P t \<Longrightarrow> P t'"
  shows "P s'"
  using assms(1)
proof (induction rule: rtranclp_induct)
  case (step t t')
  then show ?case using run_inv [OF step(1) assms(2)] assms(4) by blast
qed (use assms in simp)

end

text \<open>An invariant that also holds at the start holds in every state a run reaches.\<close>

locale machine = preserved step inv
  for step :: "'s \<Rightarrow> 's \<Rightarrow> bool" and inv :: "'s \<Rightarrow> bool" +
  fixes start :: 's
  assumes start_inv: "inv start"
begin

lemma reached_inv: "step\<^sup>*\<^sup>* start s \<Longrightarrow> inv s"
  using run_inv start_inv by blast

end

end
