(* ===== verification/Scheduler.thy ===== *)
theory Scheduler
  imports Systems "HOL-Library.Multiset"
begin

text \<open>
  The inference queue of one provider (\<open>inference/scheduler.ts\<close>). A call of \<open>enter\<close> waits for
  the limit before it looks at the queue, and a \<open>pump\<close> waits for it before it admits anyone;
  the model keeps the calls that are waiting in \<open>entering\<close> and counts the waiting pumps in
  \<open>pumps\<close>, and a step resumes one of them with the limit it got, so every interleaving the
  event loop allows is a sequence of steps.
\<close>

section \<open>State\<close>

text \<open>
  \<open>eid\<close> is the identity of the waiter object (one per call of \<open>enter\<close>), \<open>run\<close> that of the
  slot handle it is for, whose abort signal it listens to.
\<close>

record waiter =
  eid :: nat
  run :: nat
  priority :: bool
  w_exclusive :: bool

record slot_queue =
  running :: int
  exclusive :: bool
  waiting :: "waiter list"
  probed :: "(nat option \<times> int) option"

text \<open>
  The queue with the calls around it: \<open>holders\<close> are the handles whose \<open>held\<close> is true, with
  whether they are exclusive, \<open>away\<close> those inside \<open>yieldWhile\<close>, \<open>stopped\<close> those whose signal
  is aborted. \<open>admitted\<close> records the waiters admitted so far.
\<close>

record sched = slot_queue +
  entering :: "waiter list"
  holders :: "(nat \<times> bool) list"
  away :: "nat list"
  stopped :: "nat set"
  pumps :: nat
  next_id :: nat
  admitted :: "nat list"

definition start :: sched where
  "start = \<lparr>running = 0, exclusive = False, waiting = [], probed = None, entering = [], holders = [],
     away = [], stopped = {}, pumps = 0, next_id = 0, admitted = []\<rparr>"

section \<open>Operations\<close>

text \<open>A call of \<open>enter\<close>, up to its \<open>await\<close>.\<close>

definition call_enter :: "nat \<Rightarrow> bool \<Rightarrow> bool \<Rightarrow> sched \<Rightarrow> sched" where
  "call_enter r prio excl s =
     (if r \<in> stopped s then s
      else s\<lparr>entering := entering s @ [\<lparr>eid = next_id s, run = r, priority = prio, w_exclusive = excl\<rparr>],
             next_id := Suc (next_id s)\<rparr>)"

definition admit :: "waiter \<Rightarrow> sched \<Rightarrow> sched" where
  "admit w s =
     s\<lparr>running := running s + 1, exclusive := exclusive s \<or> w_exclusive w,
       holders := holders s @ [(run w, w_exclusive w)], admitted := admitted s @ [eid w]\<rparr>"

definition enqueue :: "waiter \<Rightarrow> sched \<Rightarrow> sched" where
  "enqueue w s = s\<lparr>waiting := (if priority w then w # waiting s else waiting s @ [w])\<rparr>"

text \<open>The rest of \<open>enter\<close>, once the limit is known.\<close>

definition resume_enter :: "nat \<Rightarrow> waiter \<Rightarrow> sched \<Rightarrow> sched" where
  "resume_enter limit w s0 =
     (let s = s0\<lparr>entering := remove1 w (entering s0)\<rparr> in
      if run w \<in> stopped s then s
      else if \<not> exclusive s \<and> waiting s = [] \<and> (if w_exclusive w then running s = 0 else running s < int limit)
        then admit w s
      else enqueue w s)"

text \<open>\<open>pump\<close>, once the limit is known.\<close>

function pump_loop :: "nat \<Rightarrow> sched \<Rightarrow> sched" where
  "pump_loop limit s =
     (case waiting s of
        [] \<Rightarrow> s
      | w # ws \<Rightarrow>
          if exclusive s then s
          else if (if w_exclusive w then running s > 0 else running s \<ge> int limit) then s
          else pump_loop limit (admit w (s\<lparr>waiting := ws\<rparr>)))"
  by pat_completeness auto
termination
  by (relation "measure (\<lambda>(_, s). length (waiting s))") (auto simp: admit_def)

declare pump_loop.simps [simp del]

definition call_pump :: "sched \<Rightarrow> sched" where
  "call_pump s = s\<lparr>pumps := Suc (pumps s)\<rparr>"

definition resume_pump :: "nat \<Rightarrow> sched \<Rightarrow> sched" where
  "resume_pump limit s = pump_loop limit (s\<lparr>pumps := pumps s - 1\<rparr>)"

text \<open>\<open>release\<close> of either kind of handle, and the \<open>give\<close> of \<open>yieldWhile\<close>.\<close>

definition release :: "nat \<Rightarrow> sched \<Rightarrow> sched" where
  "release r s =
     (case map_of (holders s) r of
        None \<Rightarrow> s
      | Some excl \<Rightarrow>
          call_pump (s\<lparr>running := running s - 1, exclusive := exclusive s \<and> \<not> excl,
                       holders := remove1 (r, excl) (holders s)\<rparr>))"

definition yield_start :: "nat \<Rightarrow> sched \<Rightarrow> sched" where
  "yield_start r s = (release r s)\<lparr>away := r # away s\<rparr>"

definition yield_end :: "nat \<Rightarrow> sched \<Rightarrow> sched" where
  "yield_end r s = call_enter r True False (s\<lparr>away := remove1 r (away s)\<rparr>)"

text \<open>The abort signal of a handle: its waiter, if it has one, leaves the line.\<close>

definition stop_run :: "nat \<Rightarrow> sched \<Rightarrow> sched" where
  "stop_run r s0 =
     (let s = s0\<lparr>stopped := insert r (stopped s0)\<rparr> in
      if \<exists>w\<in>set (waiting s). run w = r
      then call_pump (s\<lparr>waiting := filter (\<lambda>w. run w \<noteq> r) (waiting s)\<rparr>)
      else s)"

definition kick_scheduler :: "sched \<Rightarrow> sched" where
  "kick_scheduler s = call_pump (s\<lparr>probed := None\<rparr>)"

text \<open>
  \<open>probeBackendSlots\<close> and \<open>resolveMaxConcurrent\<close>: the probe's answer is kept for a minute.
  \<open>configured\<close> is the deployment's setting for the built-in provider and the provider row's
  own for an added one; \<open>found\<close> is whether an added provider resolved.
\<close>

definition PROBE_TTL_MS :: int where
  "PROBE_TTL_MS = 60000"

definition probe_backend_slots :: "int \<Rightarrow> nat option \<Rightarrow> sched \<Rightarrow> nat option \<times> sched" where
  "probe_backend_slots now answer s =
     (case probed s of
        Some (value, asked) \<Rightarrow>
          if now - asked < PROBE_TTL_MS then (value, s) else (answer, s\<lparr>probed := Some (answer, now)\<rparr>)
      | None \<Rightarrow> (answer, s\<lparr>probed := Some (answer, now)\<rparr>))"

definition resolve_max_concurrent ::
    "bool \<Rightarrow> bool \<Rightarrow> nat option \<Rightarrow> int \<Rightarrow> nat option \<Rightarrow> sched \<Rightarrow> nat \<times> sched" where
  "resolve_max_concurrent builtin found configured now answer s =
     (if \<not> builtin \<and> \<not> found then (1, s)
      else case configured of
        Some n \<Rightarrow> (n, s)
      | None \<Rightarrow>
          (case probe_backend_slots now answer s of
             (Some n, s') \<Rightarrow> (n, s') | (None, s') \<Rightarrow> (1, s')))"

text \<open>What every waiter is told: its 1-based place.\<close>

definition notify_positions :: "slot_queue \<Rightarrow> (nat \<times> nat) list" where
  "notify_positions s = zip (map eid (waiting s)) [1..<Suc (length (waiting s))]"

section \<open>Steps\<close>

text \<open>
  \<open>limits\<close> is the set of limits the resolver may give. A handle is created by each acquire, so
  it starts with a fresh identity; a run yields only while it holds its slot.
\<close>

inductive sched_step :: "nat set \<Rightarrow> sched \<Rightarrow> sched \<Rightarrow> bool" for limits where
  acquire: "sched_step limits s (call_enter (next_id s) False excl s)"
| resume: "w \<in> set (entering s) \<Longrightarrow> limit \<in> limits \<Longrightarrow> sched_step limits s (resume_enter limit w s)"
| release: "sched_step limits s (release r s)"
| yield: "(r, False) \<in> set (holders s) \<Longrightarrow> sched_step limits s (yield_start r s)"
| return: "r \<in> set (away s) \<Longrightarrow> sched_step limits s (yield_end r s)"
| stop: "sched_step limits s (stop_run r s)"
| pump: "0 < pumps s \<Longrightarrow> limit \<in> limits \<Longrightarrow> sched_step limits s (resume_pump limit s)"
| kick: "sched_step limits s (kick_scheduler s)"

inductive_cases sched_stepE: "sched_step limits s s'"

abbreviation sched_run :: "nat set \<Rightarrow> sched \<Rightarrow> sched \<Rightarrow> bool" where
  "sched_run limits \<equiv> (sched_step limits)\<^sup>*\<^sup>*"

text \<open>A pump either admits the head or finds it blocked.\<close>

definition head_blocked :: "nat \<Rightarrow> sched \<Rightarrow> bool" where
  "head_blocked limit s \<longleftrightarrow>
     waiting s = [] \<or> exclusive s
     \<or> (if w_exclusive (hd (waiting s)) then running s > 0 else running s \<ge> int limit)"

lemma pump_loop_blocked: "head_blocked limit s \<Longrightarrow> pump_loop limit s = s"
  by (subst pump_loop.simps) (auto simp: head_blocked_def split: list.splits if_splits)

lemma pump_loop_admits:
  "\<not> head_blocked limit s \<Longrightarrow> waiting s = w # ws \<Longrightarrow>
   pump_loop limit s = pump_loop limit (admit w (s\<lparr>waiting := ws\<rparr>))"
  by (subst pump_loop.simps) (auto simp: head_blocked_def split: if_splits)

lemma not_blocked:
  "\<not> head_blocked limit s \<Longrightarrow>
   \<exists>w ws. waiting s = w # ws \<and> \<not> exclusive s \<and> (if w_exclusive w then running s \<le> 0 else running s < int limit)"
  by (cases "waiting s") (auto simp: head_blocked_def split: if_splits)

text \<open>Induction over the admissions of one pump, which ends with the head blocked.\<close>

lemma pump_loop_ends:
  assumes "P s"
    and "\<And>s w ws. P s \<Longrightarrow> waiting s = w # ws \<Longrightarrow> \<not> exclusive s \<Longrightarrow>
      (if w_exclusive w then running s \<le> 0 else running s < int limit) \<Longrightarrow> P (admit w (s\<lparr>waiting := ws\<rparr>))"
  shows "P (pump_loop limit s) \<and> head_blocked limit (pump_loop limit s)"
  using assms(1)
proof (induction "length (waiting s)" arbitrary: s rule: less_induct)
  case less
  show ?case
  proof (cases "head_blocked limit s")
    case False
    obtain w ws where w: "waiting s = w # ws" "\<not> exclusive s"
      "if w_exclusive w then running s \<le> 0 else running s < int limit"
      using not_blocked [OF False] by blast
    show ?thesis
      unfolding pump_loop_admits [OF False w(1)]
      by (rule less.hyps) (use w assms(2) [OF less.prems w] in \<open>simp_all add: admit_def\<close>)
  qed (use less.prems in \<open>simp add: pump_loop_blocked\<close>)
qed

lemmas pump_loop_induct = conjunct1 [OF pump_loop_ends]

section \<open>Invariants\<close>

definition places :: "sched \<Rightarrow> nat multiset" where
  "places s = mset (map run (entering s)) + mset (map run (waiting s)) + mset (map fst (holders s)) + mset (away s)"

definition ids :: "sched \<Rightarrow> nat multiset" where
  "ids s = mset (map eid (entering s)) + mset (map eid (waiting s)) + mset (admitted s)"

definition once :: "nat \<Rightarrow> nat multiset \<Rightarrow> bool" where
  "once n M \<longleftrightarrow> (\<forall>i. count M i \<le> 1) \<and> (\<forall>i\<in>#M. i < n)"

text \<open>A handle is in one place, and a waiter is admitted at most once.\<close>

definition ident_inv :: "sched \<Rightarrow> bool" where
  "ident_inv s \<longleftrightarrow> once (next_id s) (places s) \<and> once (next_id s) (ids s)"

text \<open>The counters say who holds the backend; an exclusive holder is alone.\<close>

definition slot_inv :: "sched \<Rightarrow> bool" where
  "slot_inv s \<longleftrightarrow>
     running s = int (length (holders s))
     \<and> (exclusive s \<longleftrightarrow> True \<in> snd ` set (holders s))
     \<and> (exclusive s \<longrightarrow> length (holders s) = 1)"

text \<open>No stopped run stays in line, and only returning runs have priority.\<close>

definition line_inv :: "sched \<Rightarrow> bool" where
  "line_inv s \<longleftrightarrow>
     (\<forall>w\<in>set (waiting s). run w \<notin> stopped s)
     \<and> (\<forall>w\<in>set (entering s) \<union> set (waiting s). priority w \<longrightarrow> \<not> w_exclusive w)"

text \<open>An idle backend has nobody in line, unless a pump is on its way.\<close>

definition wake_inv :: "sched \<Rightarrow> bool" where
  "wake_inv s \<longleftrightarrow> (holders s = [] \<and> pumps s = 0 \<longrightarrow> waiting s = [])"

lemma once_mono: "once n M \<Longrightarrow> N \<subseteq># M \<Longrightarrow> n \<le> m \<Longrightarrow> once m N"
  unfolding once_def by (meson le_trans less_le_trans mset_subset_eqD mset_subset_eq_count)

lemma once_add: "once n M \<Longrightarrow> i \<notin># M \<Longrightarrow> i < m \<Longrightarrow> n \<le> m \<Longrightarrow> once m (add_mset i M)"
  unfolding once_def by (auto simp: not_in_iff)

lemma ident_mono:
  "ident_inv s \<Longrightarrow> places s' \<subseteq># places s \<Longrightarrow> ids s' \<subseteq># ids s \<Longrightarrow> next_id s \<le> next_id s' \<Longrightarrow> ident_inv s'"
  unfolding ident_inv_def by (meson once_mono)

lemma mset_remove1_split: "x \<in> set xs \<Longrightarrow> mset xs = add_mset x (mset (remove1 x xs))"
  by simp

lemma ident_admit:
  "waiting s = w # ws \<Longrightarrow> ident_inv s \<Longrightarrow> ident_inv (admit w (s\<lparr>waiting := ws\<rparr>))"
  by (erule ident_mono) (auto simp: places_def ids_def admit_def)

lemma ident_resume:
  assumes "w \<in> set (entering s)" "ident_inv s"
  shows "ident_inv (resume_enter limit w s)"
proof -
  let ?e = "remove1 w (entering s)"
  have e: "mset (entering s) = add_mset w (mset ?e)"
    using assms(1) by simp
  have m: "mset (map f (entering s)) = add_mset (f w) (mset (map f ?e))" for f :: "waiter \<Rightarrow> nat"
    unfolding mset_map e by simp
  have "places (resume_enter limit w s) \<subseteq># places s" "ids (resume_enter limit w s) \<subseteq># ids s"
    unfolding places_def ids_def m
    by (auto simp: resume_enter_def Let_def admit_def enqueue_def simp del: mset_map)
  then show ?thesis
    by (rule ident_mono [OF assms(2)]) (simp add: resume_enter_def Let_def admit_def enqueue_def)
qed

lemma ident_call_enter:
  assumes "ident_inv s" "r \<le> next_id s" "r \<notin># places s"
  shows "ident_inv (call_enter r prio excl s)"
proof (cases "r \<in> stopped s")
  case False
  have "next_id s \<notin># ids s" using assms(1) by (auto simp: ident_inv_def once_def)
  moreover have "places (call_enter r prio excl s) = add_mset r (places s)"
    "ids (call_enter r prio excl s) = add_mset (next_id s) (ids s)"
    "next_id (call_enter r prio excl s) = Suc (next_id s)"
    using False by (simp_all add: call_enter_def places_def ids_def)
  ultimately show ?thesis
    using assms by (auto simp: ident_inv_def intro!: once_add)
qed (use assms in \<open>simp add: call_enter_def\<close>)

lemma release_places:
  "ids (release r s) = ids s" "next_id (release r s) = next_id s" "away (release r s) = away s"
  "map_of (holders s) r = Some x \<Longrightarrow> places s = add_mset r (places (release r s))"
  "map_of (holders s) r = None \<Longrightarrow> release r s = s"
proof -
  show "ids (release r s) = ids s" "next_id (release r s) = next_id s" "away (release r s) = away s"
    by (simp_all add: release_def call_pump_def ids_def split: option.split)
  show "map_of (holders s) r = None \<Longrightarrow> release r s = s" by (simp add: release_def)
  assume m: "map_of (holders s) r = Some x"
  have "mset (holders s) = add_mset (r, x) (mset (remove1 (r, x) (holders s)))"
    using map_of_SomeD [OF m] by simp
  then have "mset (map fst (holders s)) = add_mset r (mset (map fst (remove1 (r, x) (holders s))))"
    by (metis fst_conv image_mset_add_mset mset_map)
  then show "places s = add_mset r (places (release r s))"
    using m by (simp add: places_def release_def call_pump_def del: mset_map)
qed

lemma ident_release: "ident_inv s \<Longrightarrow> ident_inv (release r s)"
  by (cases "map_of (holders s) r") (auto intro: ident_mono simp: release_places)

lemma ident_yield_start:
  assumes "ident_inv s" "(r, False) \<in> set (holders s)"
  shows "ident_inv (yield_start r s)"
proof -
  obtain x where x: "map_of (holders s) r = Some x"
    using assms(2) by (metis map_of_eq_None_iff fst_conv image_eqI not_None_eq)
  have "places (yield_start r s) = places s"
    using release_places(4) [OF x] by (simp add: yield_start_def release_places places_def)
  then show ?thesis
    using assms(1) release_places(1,2) [of r s]
    by (auto simp: yield_start_def ident_inv_def ids_def)
qed

lemma ident_yield_end:
  assumes "ident_inv s" "r \<in> set (away s)"
  shows "ident_inv (yield_end r s)"
proof -
  let ?s = "s\<lparr>away := remove1 r (away s)\<rparr>"
  have p: "places s = add_mset r (places ?s)"
    using assms(2) by (simp add: places_def)
  then have "r \<notin># places ?s" "r < next_id s"
    using assms(1) by (auto simp: ident_inv_def once_def not_in_iff dest: spec [of _ r])
  moreover have "ident_inv ?s"
    using assms(1) p by (auto intro!: ident_mono [OF assms(1)] simp: ids_def)
  ultimately show ?thesis
    unfolding yield_end_def by (intro ident_call_enter) auto
qed

lemma ident_stop_run: "ident_inv s \<Longrightarrow> ident_inv (stop_run r s)"
  by (erule ident_mono)
    (auto simp: places_def ids_def stop_run_def call_pump_def Let_def mset_filter
      intro!: image_mset_subseteq_mono mset_subset_eq_mono_add multiset_filter_subset)

lemma ident_pump: "ident_inv s \<Longrightarrow> ident_inv (resume_pump limit s)"
  unfolding resume_pump_def
proof (rule pump_loop_induct)
  show "ident_inv s \<Longrightarrow> ident_inv (s\<lparr>pumps := pumps s - 1\<rparr>)"
    by (simp add: ident_inv_def places_def ids_def)
qed (rule ident_admit)

lemma ident_inv_step: "sched_step limits s s' \<Longrightarrow> ident_inv s \<Longrightarrow> ident_inv s'"
proof (induction rule: sched_step.induct)
  case (acquire excl s)
  then show ?case by (intro ident_call_enter) (auto simp: ident_inv_def once_def)
next
  case (kick s)
  then show ?case by (simp add: kick_scheduler_def call_pump_def ident_inv_def places_def ids_def)
qed (auto simp: ident_resume ident_release ident_yield_start ident_yield_end ident_stop_run ident_pump)

interpretation ident: machine "sched_step limits" ident_inv start
  by unfold_locales (rule ident_inv_step, assumption+, simp add: ident_inv_def places_def ids_def once_def start_def)

lemma slot_admit:
  assumes "slot_inv s" "\<not> exclusive s" "w_exclusive w \<Longrightarrow> running s \<le> 0"
  shows "slot_inv (admit w s)"
  using assms by (cases "w_exclusive w") (auto simp: slot_inv_def admit_def)

lemma slot_frame:
  "slot_inv s \<Longrightarrow> running s' = running s \<Longrightarrow> exclusive s' = exclusive s \<Longrightarrow> holders s' = holders s \<Longrightarrow> slot_inv s'"
  by (simp add: slot_inv_def)

lemma slot_resume: "slot_inv s \<Longrightarrow> slot_inv (resume_enter limit w s)"
  by (auto simp: resume_enter_def Let_def enqueue_def intro!: slot_admit elim: slot_frame)

lemma slot_release:
  assumes "slot_inv s"
  shows "slot_inv (release r s)"
proof (cases "map_of (holders s) r")
  case (Some x)
  note m = map_of_SomeD [OF Some]
  have l: "int (length (remove1 (r, x) (holders s))) = running s - 1"
    using m assms by (cases "length (holders s)") (auto simp: slot_inv_def length_remove1)
  show ?thesis
  proof (cases "exclusive s")
    case True
    then have "holders s = [(r, x)]" "x"
      using assms m by (auto simp: slot_inv_def length_Suc_conv)
    then show ?thesis
      using Some assms by (simp add: release_def call_pump_def slot_inv_def)
  next
    case False
    then have "True \<notin> snd ` set (remove1 (r, x) (holders s))"
      using assms by (auto simp: slot_inv_def dest: notin_set_remove1)
    then show ?thesis
      using Some assms False l by (simp add: release_def call_pump_def slot_inv_def)
  qed
qed (use assms in \<open>simp add: release_def\<close>)

lemma slot_pump: "slot_inv s \<Longrightarrow> slot_inv (resume_pump limit s)"
  unfolding resume_pump_def
  by (rule pump_loop_induct) (auto intro!: slot_admit elim: slot_frame split: if_splits)

lemma slot_inv_step: "sched_step limits s s' \<Longrightarrow> slot_inv s \<Longrightarrow> slot_inv s'"
proof (induction rule: sched_step.induct)
  case (yield r s)
  then show ?case using slot_release [of s r] by (simp add: yield_start_def slot_inv_def)
next
  case (stop s r)
  then show ?case by (rule slot_frame) (simp_all add: stop_run_def call_pump_def Let_def)
next
  case (return r s)
  then show ?case by (elim slot_frame) (simp_all add: yield_end_def call_enter_def)
next
  case (acquire excl s)
  then show ?case by (rule slot_frame) (simp_all add: call_enter_def)
next
  case (kick s)
  then show ?case by (rule slot_frame) (simp_all add: kick_scheduler_def call_pump_def)
qed (simp_all add: slot_resume slot_release slot_pump)

interpretation slots: machine "sched_step limits" slot_inv start
  by unfold_locales (rule slot_inv_step, assumption+, simp add: slot_inv_def start_def)

lemma line_release: "line_inv s \<Longrightarrow> line_inv (release r s)"
  by (auto simp: line_inv_def release_def call_pump_def split: option.split)

lemma line_pump: "line_inv s \<Longrightarrow> line_inv (pump_loop limit (s\<lparr>pumps := n\<rparr>))"
proof (rule pump_loop_induct)
  fix s w ws
  assume "line_inv s" "waiting s = w # ws"
  then show "line_inv (admit w (s\<lparr>waiting := ws\<rparr>))" by (simp add: line_inv_def admit_def)
qed (simp add: line_inv_def)

lemma line_inv_step: "sched_step limits s s' \<Longrightarrow> line_inv s \<Longrightarrow> line_inv s'"
proof (induction rule: sched_step.induct)
  case (pump s limit)
  then show ?case
    unfolding resume_pump_def by (elim line_pump)
next
  case (yield r s)
  then show ?case using line_release [of s r] by (simp add: yield_start_def line_inv_def)
next
  case (resume w s limit)
  then show ?case
    by (auto simp: line_inv_def resume_enter_def Let_def admit_def enqueue_def dest!: set_remove1_subset [THEN subsetD])
next
  case (stop s r)
  then show ?case by (auto simp: line_inv_def stop_run_def Let_def call_pump_def)
next
  case (release s r)
  then show ?case by (rule line_release)
qed (auto simp: line_inv_def call_enter_def yield_end_def kick_scheduler_def call_pump_def)

interpretation line: machine "sched_step limits" line_inv start
  by unfold_locales (rule line_inv_step, assumption+, simp add: line_inv_def start_def)

text \<open>No lost wake-up: the limits are positive.\<close>

lemma wake_release: "wake_inv s \<Longrightarrow> wake_inv (release r s)"
  by (auto simp: wake_inv_def release_def call_pump_def split: option.split)

lemma wake_resume:
  assumes "wake_inv s" "slot_inv s" "0 < limit"
  shows "wake_inv (resume_enter limit w s)"
proof -
  have "holders s = [] \<Longrightarrow> running s = 0 \<and> \<not> exclusive s"
    using assms(2) by (auto simp: slot_inv_def)
  then show ?thesis
    using assms by (auto simp: wake_inv_def resume_enter_def Let_def admit_def enqueue_def)
qed

lemma wake_pump:
  assumes "slot_inv s" "0 < limit"
  shows "wake_inv (resume_pump limit s)"
proof -
  let ?s = "resume_pump limit s"
  have "head_blocked limit ?s"
    unfolding resume_pump_def by (rule conjunct2 [OF pump_loop_ends [of "\<lambda>_. True"]]) simp_all
  moreover have "slot_inv ?s" by (rule slot_pump [OF assms(1)])
  ultimately show ?thesis
    using assms(2) by (auto simp: wake_inv_def head_blocked_def slot_inv_def split: if_splits)
qed

definition live_inv :: "sched \<Rightarrow> bool" where
  "live_inv s \<longleftrightarrow> slot_inv s \<and> wake_inv s"

lemma live_inv_step:
  assumes "0 \<notin> limits" "sched_step limits s s'" "live_inv s"
  shows "live_inv s'"
proof -
  have l: "limit \<in> limits \<Longrightarrow> 0 < limit" for limit using assms(1) by (metis not_gr_zero)
  have "wake_inv s'"
    using assms(2,3)
  proof (cases rule: sched_step.cases)
    case (yield r)
    then show ?thesis using assms(3) wake_release [of s r] by (simp add: live_inv_def yield_start_def wake_inv_def)
  next
    case (stop r)
    then show ?thesis using assms(3) by (auto simp: live_inv_def wake_inv_def stop_run_def call_pump_def Let_def)
  qed (use assms(3) l in \<open>auto simp: live_inv_def wake_resume wake_pump wake_release\<close>,
      auto simp: wake_inv_def call_enter_def yield_end_def kick_scheduler_def call_pump_def)
  then show ?thesis using assms(2,3) slot_inv_step by (simp add: live_inv_def)
qed

lemma live_machine: "0 \<notin> limits \<Longrightarrow> machine (sched_step limits) live_inv start"
  by unfold_locales (rule live_inv_step, assumption+, simp add: live_inv_def slot_inv_def wake_inv_def start_def)

text \<open>Room is not left unused: an ordinary head of the line is blocked, unless a pump is on its way.\<close>

definition room_inv :: "nat \<Rightarrow> sched \<Rightarrow> bool" where
  "room_inv limit s \<longleftrightarrow>
     slot_inv s \<and> (pumps s = 0 \<and> waiting s \<noteq> [] \<and> \<not> priority (hd (waiting s)) \<longrightarrow> head_blocked limit s)"

lemma room_release: "room_inv limit s \<Longrightarrow> room_inv limit (release r s)"
  using slot_release [of s r] by (auto simp: room_inv_def release_def call_pump_def split: option.split)

lemma room_resume: "room_inv limit s \<Longrightarrow> room_inv limit (resume_enter limit w s)"
  using slot_resume [of s limit w]
  by (cases "waiting s")
    (auto simp: room_inv_def resume_enter_def Let_def admit_def enqueue_def head_blocked_def slot_inv_def)

lemma room_pump: "room_inv limit s \<Longrightarrow> room_inv limit (resume_pump limit s)"
  using slot_pump [of s limit] pump_loop_ends [of "\<lambda>_. True" "s\<lparr>pumps := pumps s - 1\<rparr>" limit]
  by (simp add: room_inv_def resume_pump_def)

lemma room_frame:
  assumes "room_inv limit s" "running s' = running s" "exclusive s' = exclusive s" "holders s' = holders s"
    and "0 < pumps s' \<or> pumps s' = pumps s \<and> waiting s' = waiting s"
  shows "room_inv limit s'"
  using assms by (auto simp: room_inv_def head_blocked_def elim: slot_frame)

lemma room_inv_step: "sched_step {limit} s s' \<Longrightarrow> room_inv limit s \<Longrightarrow> room_inv limit s'"
proof (induction rule: sched_step.induct)
  case (yield r s)
  then have "room_inv limit (release r s)" by (intro room_release)
  then show ?case unfolding yield_start_def by (rule room_frame) simp_all
next
  case (stop s r)
  then show ?case by (rule room_frame) (simp_all add: stop_run_def call_pump_def Let_def)
next
  case (return r s)
  then show ?case by (elim room_frame) (simp_all add: yield_end_def call_enter_def)
next
  case (acquire excl s)
  then show ?case by (rule room_frame) (simp_all add: call_enter_def)
next
  case (kick s)
  then show ?case by (rule room_frame) (simp_all add: kick_scheduler_def call_pump_def)
qed (simp_all add: room_resume room_release room_pump)

interpretation room: machine "sched_step {limit}" "room_inv limit" start for limit
  by unfold_locales (rule room_inv_step, assumption+, simp add: room_inv_def slot_inv_def start_def)

text \<open>The bound a set of limits gives.\<close>

definition bound_inv :: "nat \<Rightarrow> sched \<Rightarrow> bool" where
  "bound_inv b s \<longleftrightarrow> slot_inv s \<and> running s \<le> int b"

lemma running_release: "running (release r s) \<le> running s"
  by (simp add: release_def call_pump_def split: option.split)

lemma bound_pump:
  assumes "bound_inv b s" "limit \<le> b" "0 < b"
  shows "bound_inv b (resume_pump limit s)"
  unfolding resume_pump_def
proof (rule pump_loop_induct)
  show "bound_inv b (s\<lparr>pumps := pumps s - 1\<rparr>)"
    using assms(1) by (simp add: bound_inv_def slot_inv_def)
next
  fix s w ws
  assume "bound_inv b s" "waiting s = w # ws" "\<not> exclusive s"
    "if w_exclusive w then running s \<le> 0 else running s < int limit"
  moreover from this have "slot_inv (admit w (s\<lparr>waiting := ws\<rparr>))"
    by (intro slot_admit) (auto simp: bound_inv_def slot_inv_def split: if_splits)
  ultimately show "bound_inv b (admit w (s\<lparr>waiting := ws\<rparr>))"
    using assms(2,3) by (auto simp: bound_inv_def admit_def split: if_splits)
qed

lemma bound_inv_step:
  assumes "\<forall>limit\<in>limits. limit \<le> b" "0 < b" "sched_step limits s s'" "bound_inv b s"
  shows "bound_inv b s'"
  using assms(3)
proof (cases rule: sched_step.cases)
  case (pump limit)
  then show ?thesis using assms by (simp add: bound_pump)
next
  case (resume w limit)
  then have "running s' \<le> int b"
    using assms by (auto simp: resume_enter_def Let_def admit_def enqueue_def bound_inv_def)
  then show ?thesis using assms slot_inv_step by (simp add: bound_inv_def)
next
  case (release r)
  then show ?thesis
    using assms(4) slot_release [of s r] running_release [of r s] by (simp add: bound_inv_def)
next
  case (yield r)
  moreover have "slot_inv s'" using assms(3,4) slot_inv_step by (simp add: bound_inv_def)
  ultimately show ?thesis
    using assms(4) running_release [of r s] by (simp add: bound_inv_def yield_start_def)
qed (use assms(4) in \<open>simp_all add: bound_inv_def slot_inv_def call_enter_def yield_end_def stop_run_def
    kick_scheduler_def call_pump_def Let_def\<close>)

lemma bound_machine:
  "\<forall>limit\<in>limits. limit \<le> b \<Longrightarrow> 0 < b \<Longrightarrow> machine (sched_step limits) (bound_inv b) start"
  by unfold_locales (rule bound_inv_step, assumption+, simp add: bound_inv_def slot_inv_def start_def)

section \<open>Order of admission\<close>

definition ahead :: "nat list \<Rightarrow> nat \<Rightarrow> nat \<Rightarrow> bool" where
  "ahead xs a b \<longleftrightarrow> (\<exists>us vs. xs = us @ vs \<and> a \<in> set us \<and> b \<in> set vs)"

lemma ahead_Cons: "ahead xs a b \<Longrightarrow> ahead (x # xs) a b"
  unfolding ahead_def by (metis append_Cons list.set_intros(2))

lemma ahead_snoc: "ahead xs a b \<Longrightarrow> ahead (xs @ [x]) a b"
  unfolding ahead_def by (metis Un_iff append.assoc set_append)

lemma ahead_Nil [simp]: "\<not> ahead [] a b"
  by (simp add: ahead_def)

lemma ahead_tl: "ahead (x # xs) a b \<Longrightarrow> x = a \<or> ahead xs a b"
  unfolding ahead_def by (auto simp: Cons_eq_append_conv)

lemma ahead_filter: "ahead xs a b \<Longrightarrow> f a \<Longrightarrow> f b \<Longrightarrow> ahead (filter f xs) a b"
  unfolding ahead_def by force

lemma ahead_mem: "ahead xs a b \<Longrightarrow> a \<in> set xs \<and> b \<in> set xs"
  by (auto simp: ahead_def)

definition pending :: "sched \<Rightarrow> nat set" where
  "pending s = eid ` (set (entering s) \<union> set (waiting s))"

text \<open>\<open>a\<close> keeps its place before \<open>b\<close> until it leaves the line, or \<open>b\<close> has left it unadmitted.\<close>

definition before_inv :: "nat \<Rightarrow> nat \<Rightarrow> sched \<Rightarrow> bool" where
  "before_inv a b s \<longleftrightarrow>
     a < next_id s \<and> b < next_id s
     \<and> (a \<notin> pending s \<or> ahead (map eid (waiting s)) a b \<or> (b \<notin> pending s \<and> b \<notin> set (admitted s)))"

lemma once_distinct: "once n (mset xs) \<Longrightarrow> distinct xs"
  unfolding once_def distinct_count_atmost_1 by (metis One_nat_def count_mset_0_iff le_Suc_eq le_zero_eq)

lemma ident_distinct:
  assumes "ident_inv s"
  shows "distinct (map eid (entering s) @ map eid (waiting s) @ admitted s)"
  using assms by (intro once_distinct [of "next_id s"]) (simp add: ident_inv_def ids_def add.assoc)

lemma before_admit:
  assumes "ident_inv s" "before_inv a b s" "waiting s = w # ws"
  shows "before_inv a b (admit w (s\<lparr>waiting := ws\<rparr>))"
proof (cases "a = eid w")
  case True
  then show ?thesis
    using ident_distinct [OF assms(1)] assms(2,3) by (auto simp: before_inv_def pending_def admit_def)
next
  case False
  have "ahead (map eid (waiting s)) a b \<Longrightarrow> ahead (map eid ws) a b"
    using False assms(3) by (auto dest: ahead_tl)
  moreover have "b \<notin> pending s \<Longrightarrow> b \<noteq> eid w"
    using assms(3) by (auto simp: pending_def)
  ultimately show ?thesis
    using assms(2,3) unfolding before_inv_def pending_def admit_def by fastforce
qed

lemma before_pump: "ident_inv s \<Longrightarrow> before_inv a b s \<Longrightarrow> before_inv a b (resume_pump limit s)"
  unfolding resume_pump_def
proof (rule conjunct2 [OF pump_loop_induct [where P = "\<lambda>s. ident_inv s \<and> before_inv a b s"]])
  show "ident_inv s \<Longrightarrow> before_inv a b s \<Longrightarrow> ident_inv (s\<lparr>pumps := pumps s - 1\<rparr>) \<and> before_inv a b (s\<lparr>pumps := pumps s - 1\<rparr>)"
    by (simp add: ident_inv_def places_def ids_def before_inv_def pending_def)
qed (use ident_admit before_admit in blast)

lemma before_enqueue:
  assumes "before_inv a b s" "w \<in> set (entering s)"
  shows "before_inv a b (enqueue w (s\<lparr>entering := remove1 w (entering s)\<rparr>))"
proof -
  let ?s = "enqueue w (s\<lparr>entering := remove1 w (entering s)\<rparr>)"
  have "pending ?s \<subseteq> pending s"
    using assms(2) set_remove1_subset [of w "entering s"] by (auto simp: pending_def enqueue_def)
  moreover have "ahead (map eid (waiting s)) a b \<Longrightarrow> ahead (map eid (waiting ?s)) a b"
    by (auto simp: enqueue_def intro: ahead_Cons ahead_snoc)
  ultimately show ?thesis
    using assms(1) by (auto simp: before_inv_def enqueue_def)
qed

lemma before_resume:
  assumes "ident_inv s" "before_inv a b s" "w \<in> set (entering s)"
  shows "before_inv a b (resume_enter limit w s)"
proof -
  let ?s = "s\<lparr>entering := remove1 w (entering s)\<rparr>"
  have p: "pending ?s \<subseteq> pending s" "eid w \<in> pending s"
    using assms(3) set_remove1_subset [of w "entering s"] by (auto simp: pending_def)
  obtain fits where f: "fits \<longleftrightarrow> \<not> exclusive s \<and> waiting s = []
      \<and> (if w_exclusive w then running s = 0 else running s < int limit)" by blast
  have r: "resume_enter limit w s = (if run w \<in> stopped s then ?s else if fits then admit w ?s else enqueue w ?s)"
    by (cases "w_exclusive w") (simp_all add: f resume_enter_def Let_def)
  consider "run w \<in> stopped s" | "run w \<notin> stopped s" fits | "run w \<notin> stopped s" "\<not> fits" by blast
  then consider "resume_enter limit w s = ?s"
    | "waiting s = []" "resume_enter limit w s = admit w ?s"
    | "resume_enter limit w s = enqueue w ?s"
    by cases (simp_all add: r f [THEN iffD1])
  then show ?thesis
  proof cases
    case 1
    then show ?thesis using p(1) assms(2) by (auto simp: before_inv_def)
  next
    case 2
    then have "pending (admit w ?s) \<subseteq> pending s" "set (admitted (admit w ?s)) = insert (eid w) (set (admitted s))"
      using p(1) by (auto simp: pending_def admit_def)
    then show ?thesis
      using 2 p(2) assms(2) by (auto simp: before_inv_def admit_def)
  qed (use before_enqueue [OF assms(2,3)] in simp)
qed

lemma before_frame:
  "before_inv a b s \<Longrightarrow> next_id s \<le> next_id s' \<Longrightarrow> waiting s' = waiting s \<Longrightarrow> entering s' = entering s \<Longrightarrow>
   admitted s' = admitted s \<Longrightarrow> before_inv a b s'"
  by (auto simp: before_inv_def pending_def)

lemma release_line:
  "waiting (release r s) = waiting s" "entering (release r s) = entering s"
  "admitted (release r s) = admitted s" "next_id (release r s) = next_id s"
  by (simp_all add: release_def call_pump_def split: option.split)

lemma before_call_enter: "before_inv a b s \<Longrightarrow> before_inv a b (call_enter r prio excl s)"
  by (auto simp: before_inv_def pending_def call_enter_def)

lemma before_stop:
  assumes "ident_inv s" "before_inv a b s"
  shows "before_inv a b (stop_run r s)"
proof -
  let ?f = "\<lambda>w. run w \<noteq> r"
  have d: "distinct (map eid (waiting s))" "eid ` set (entering s) \<inter> eid ` set (waiting s) = {}"
    "(eid ` set (entering s) \<union> eid ` set (waiting s)) \<inter> set (admitted s) = {}"
    using ident_distinct [OF assms(1)] by auto
  have sub: "pending (stop_run r s) \<subseteq> pending s" "admitted (stop_run r s) = admitted s"
    "next_id (stop_run r s) = next_id s" "entering (stop_run r s) = entering s"
    by (auto simp: pending_def stop_run_def call_pump_def Let_def)
  have w: "waiting (stop_run r s) = filter ?f (waiting s)"
    by (auto simp: stop_run_def call_pump_def Let_def intro!: filter_True [symmetric])
  show ?thesis
  proof (cases "ahead (map eid (waiting s)) a b \<and> a \<in> pending (stop_run r s) \<and> b \<in> pending (stop_run r s)")
    case True
    let ?g = "\<lambda>i. i \<in> eid ` {w \<in> set (waiting s). ?f w}"
    have mem: "a \<in> eid ` set (waiting s)" "b \<in> eid ` set (waiting s)"
      using True ahead_mem [of "map eid (waiting s)" a b] by auto
    then have g: "?g a" "?g b"
      using True d(2) sub(4) w by (auto simp: pending_def)
    have "map eid (filter ?f (waiting s)) = filter ?g (map eid (waiting s))"
      using d(1) by (auto simp: filter_map o_def intro!: arg_cong [where f = "map eid"] filter_cong dest: inj_onD simp: distinct_map)
    then have "ahead (map eid (waiting (stop_run r s))) a b"
      using True g ahead_filter [of "map eid (waiting s)" a b ?g] w by simp
    then show ?thesis using assms(2) sub by (auto simp: before_inv_def)
  next
    case False
    moreover have "ahead (map eid (waiting s)) a b \<Longrightarrow> b \<notin> set (admitted s)"
      using d(3) ahead_mem [of "map eid (waiting s)" a b] by auto
    ultimately show ?thesis using assms(2) sub by (auto simp: before_inv_def)
  qed
qed

lemma before_step:
  assumes "sched_step limits s s'" "ident_inv s" "before_inv a b s"
  shows "before_inv a b s'"
  using assms(1)
proof (cases rule: sched_step.cases)
  case (yield r)
  then show ?thesis using assms(3) by (auto elim!: before_frame simp: yield_start_def release_line)
next
  case (return r)
  then show ?thesis
    unfolding yield_end_def using assms(3) by (auto intro!: before_call_enter elim: before_frame)
next
  case (release r)
  then show ?thesis using assms(3) by (auto elim!: before_frame simp: release_line)
next
  case kick
  then show ?thesis using assms(3) by (auto elim!: before_frame simp: kick_scheduler_def call_pump_def)
qed (use assms in \<open>simp_all add: before_call_enter before_resume before_stop before_pump\<close>)

section \<open>Runs that can be computed\<close>

text \<open>The steps as events, played in order; \<^const>\<open>None\<close> where one is not possible.\<close>

datatype event =
    Acquire bool
  | Resume nat nat
  | Release nat
  | Yield nat
  | Return nat
  | Stop nat
  | Pump nat
  | Kick

fun event_limits :: "event \<Rightarrow> nat set" where
  "event_limits (Resume i limit) = {limit}"
| "event_limits (Pump limit) = {limit}"
| "event_limits e = {}"

fun exec :: "event \<Rightarrow> sched \<Rightarrow> sched option" where
  "exec (Acquire excl) s = Some (call_enter (next_id s) False excl s)"
| "exec (Resume i limit) s =
     map_option (\<lambda>w. resume_enter limit w s) (find (\<lambda>w. eid w = i) (entering s))"
| "exec (Release r) s = Some (release r s)"
| "exec (Yield r) s = (if (r, False) \<in> set (holders s) then Some (yield_start r s) else None)"
| "exec (Return r) s = (if r \<in> set (away s) then Some (yield_end r s) else None)"
| "exec (Stop r) s = Some (stop_run r s)"
| "exec (Pump limit) s = (if 0 < pumps s then Some (resume_pump limit s) else None)"
| "exec Kick s = Some (kick_scheduler s)"

fun play :: "event list \<Rightarrow> sched \<Rightarrow> sched option" where
  "play [] s = Some s"
| "play (e # es) s = (case exec e s of None \<Rightarrow> None | Some s' \<Rightarrow> play es s')"

lemma exec_step: "exec e s = Some s' \<Longrightarrow> event_limits e \<subseteq> limits \<Longrightarrow> sched_step limits s s'"
  by (cases e) (auto simp: find_Some_iff split: if_splits intro: sched_step.intros nth_mem)

lemma play_run:
  "play es s = Some s' \<Longrightarrow> \<forall>e\<in>set es. event_limits e \<subseteq> limits \<Longrightarrow> sched_run limits s s'"
proof (induction es arbitrary: s)
  case (Cons e es)
  then obtain t where t: "exec e s = Some t" "play es t = Some s'" by (auto split: option.splits)
  have "sched_step limits s t" using exec_step [OF t(1)] Cons.prems(2) by simp
  moreover have "sched_run limits t s'" using Cons.IH [OF t(2)] Cons.prems(2) by simp
  ultimately show ?case by (rule converse_rtranclp_into_rtranclp)
qed simp

text \<open>One run holds the backend, a stage switch heads the line and a second run stands behind it.\<close>

definition busy :: sched where
  "busy = the (play [Acquire False, Resume 0 1, Acquire True, Resume 1 1, Acquire False, Resume 2 1] start)"

lemma busy_eq:
  "busy = \<lparr>running = 1, exclusive = False,
     waiting = [\<lparr>eid = 1, run = 1, priority = False, w_exclusive = True\<rparr>,
                \<lparr>eid = 2, run = 2, priority = False, w_exclusive = False\<rparr>],
     probed = None, entering = [], holders = [(0, False)], away = [], stopped = {}, pumps = 0,
     next_id = 3, admitted = [0]\<rparr>"
  by code_simp

lemma busy_run: "sched_run {1} start busy"
proof -
  have "play [Acquire False, Resume 0 1, Acquire True, Resume 1 1, Acquire False, Resume 2 1] start = Some busy"
    by code_simp
  from play_run [OF this] show ?thesis by simp
qed

section \<open>Properties\<close>

text \<open>C37: In every reachable state the counters are exact: \<open>running\<close> is the number of handles
  that hold the backend, \<open>exclusive\<close> says whether one of them is exclusive, and then it is
  the only one.\<close>

theorem slots_accounted:
  assumes "sched_run limits start s"
  shows "running s = int (length (holders s))
    \<and> (exclusive s \<longleftrightarrow> True \<in> snd ` set (holders s)) \<and> (exclusive s \<longrightarrow> length (holders s) = 1)"
  using slots.reached_inv [OF assms] unfolding slot_inv_def .

theorem slots_accounted_witness: "running busy = int (length (holders busy))"
  using slots_accounted [OF busy_run] by (rule conjunct1)

text \<open>At no point do more runs hold the backend than the largest limit the resolver has
  given, whatever the interleaving of arrivals, releases, approvals, stops and pumps.\<close>

theorem running_within_limit:
  assumes "sched_run limits start s" "\<forall>limit\<in>limits. limit \<le> b" "0 < b"
  shows "length (holders s) \<le> b"
proof -
  have "bound_inv b s"
    using machine.reached_inv [OF bound_machine [OF assms(2,3)] assms(1)] .
  then show ?thesis by (simp add: bound_inv_def slot_inv_def)
qed

theorem running_within_limit_witness: "length (holders busy) \<le> 1"
  by (rule running_within_limit [OF busy_run]) simp_all

text \<open>Room is never left unused: under any one limit, when no pump is on its way and the head of the
  line is a waiter that is not returning from an approval, then the head cannot be admitted: an exclusive run holds
  the backend, or it needs the backend alone and someone holds it, or the limit is reached.\<close>

theorem room_is_used:
  assumes "sched_run {limit} start s" "pumps s = 0" "waiting s = w # ws" "\<not> priority w"
  shows "exclusive s \<or> (if w_exclusive w then 0 < length (holders s) else limit \<le> length (holders s))"
  using room.reached_inv [OF assms(1)] assms(2-4) by (auto simp: room_inv_def head_blocked_def slot_inv_def)

theorem room_is_used_witness: "1 \<le> length (holders (the (play [Stop 1, Pump 1] busy)))"
proof -
  have "play [Stop 1, Pump 1] busy = Some (the (play [Stop 1, Pump 1] busy))" by code_simp
  from rtranclp_trans [OF busy_run play_run [OF this]]
  have r: "sched_run {1} start (the (play [Stop 1, Pump 1] busy))" by simp
  have "waiting (the (play [Stop 1, Pump 1] busy)) = [\<lparr>eid = 2, run = 2, priority = False, w_exclusive = False\<rparr>]"
    "pumps (the (play [Stop 1, Pump 1] busy)) = 0" "\<not> exclusive (the (play [Stop 1, Pump 1] busy))"
    by code_simp+
  from room_is_used [OF r this(2) this(1)] this(3) show ?thesis by simp
qed

text \<open>No lost wake-up: while every limit is positive, a reachable state in which nobody
  holds the backend and no pump is on its way has nobody waiting in line.\<close>

theorem idle_means_empty:
  assumes "sched_run limits start s" "0 \<notin> limits" "holders s = []" "pumps s = 0"
  shows "waiting s = []"
proof -
  have "live_inv s"
    using machine.reached_inv [OF live_machine [OF assms(2)] assms(1)] .
  then show ?thesis using assms(3,4) by (simp add: live_inv_def wake_inv_def)
qed

theorem idle_means_empty_witness:
  "waiting (the (play [Acquire False, Resume 0 1, Release 0, Pump 1] start)) = []"
proof (rule idle_means_empty [of "{1}"])
  have "play [Acquire False, Resume 0 1, Release 0, Pump 1] start
      = Some (the (play [Acquire False, Resume 0 1, Release 0, Pump 1] start))"
    by code_simp
  from play_run [OF this]
  show "sched_run {1} start (the (play [Acquire False, Resume 0 1, Release 0, Pump 1] start))" by simp
qed (simp, code_simp+)

text \<open>C39: Nobody is overtaken: a waiter that stands behind another in the line is never admitted
  while that other one is still waiting, however the run goes on. Only a run returning from
  an approval joins at the front.\<close>

theorem no_overtaking:
  assumes "sched_run limits start s" "ahead (map eid (waiting s)) a b"
    and "sched_run limits s s'" "b \<in> set (admitted s')"
  shows "a \<notin> eid ` set (waiting s')"
proof -
  have i: "ident_inv s" "ident_inv s'"
    using assms(1,3) ident.reached_inv [of limits] ident.run_inv by blast+
  have "a < next_id s" "b < next_id s"
    using i(1) ahead_mem [OF assms(2)] by (auto simp: ident_inv_def once_def ids_def)
  then have "before_inv a b s" using assms(2) by (simp add: before_inv_def)
  then have "before_inv a b s'"
    by (rule ident.run_relates [OF assms(3) i(1)]) (rule before_step)
  moreover have "b \<notin> pending s'"
    using ident_distinct [OF i(2)] assms(4) by (auto simp: pending_def)
  ultimately show ?thesis
    using assms(4) ahead_mem [of "map eid (waiting s')" a b]
    by (auto simp: before_inv_def pending_def)
qed

theorem no_overtaking_witness:
  "1 \<notin> eid ` set (waiting (the (play [Release 0, Pump 1, Release 1, Pump 1] busy)))"
proof (rule no_overtaking [OF busy_run])
  show "ahead (map eid (waiting busy)) 1 2"
    unfolding busy_eq ahead_def by (rule exI [of _ "[1]"]) simp
  have "play [Release 0, Pump 1, Release 1, Pump 1] busy
      = Some (the (play [Release 0, Pump 1, Release 1, Pump 1] busy))"
    by code_simp
  from play_run [OF this]
  show "sched_run {1} busy (the (play [Release 0, Pump 1, Release 1, Pump 1] busy))" by simp
  show "2 \<in> set (admitted (the (play [Release 0, Pump 1, Release 1, Pump 1] busy)))" by code_simp
qed

text \<open>A context-stage switch at the head of the line is not starved: no step admits anyone
  but it, and when it is admitted it holds the backend alone.\<close>

theorem exclusive_head_next:
  assumes "sched_run limits start s" "waiting s = w # ws" "w_exclusive w" "sched_step limits s s'"
  shows "set (holders s') \<subseteq> set (holders s) \<or> holders s' = [(run w, True)]"
  using assms(4)
proof (cases rule: sched_step.cases)
  case (pump limit)
  let ?s = "s\<lparr>pumps := pumps s - 1\<rparr>"
  show ?thesis
  proof (cases "head_blocked limit ?s")
    case True
    then show ?thesis using pump by (simp add: resume_pump_def pump_loop_blocked)
  next
    case False
    have "slot_inv s" by (rule slots.reached_inv [OF assms(1)])
    moreover have "running s \<le> 0"
      using False assms(2,3) by (auto simp: head_blocked_def)
    ultimately have "holders s = []" by (simp add: slot_inv_def)
    moreover have "head_blocked limit (admit w (?s\<lparr>waiting := ws\<rparr>))"
      using assms(3) by (simp add: head_blocked_def admit_def)
    ultimately show ?thesis
      using pump False assms(2,3) pump_loop_admits [OF False, of w ws]
      by (simp add: resume_pump_def pump_loop_blocked) (simp add: admit_def)
  qed
next
  case (resume w' limit)
  then show ?thesis using assms(2) by (simp add: resume_enter_def Let_def enqueue_def)
next
  case (yield r)
  then show ?thesis
    by (auto simp: yield_start_def release_def call_pump_def split: option.splits dest!: set_remove1_subset [THEN subsetD])
next
  case (release r)
  then show ?thesis
    by (auto simp: release_def call_pump_def split: option.splits dest!: set_remove1_subset [THEN subsetD])
qed (auto simp: call_enter_def yield_end_def stop_run_def kick_scheduler_def call_pump_def Let_def)

theorem exclusive_head_next_witness:
  "set (holders (release 0 busy)) \<subseteq> set (holders busy) \<or> holders (release 0 busy) = [(1, True)]"
  using exclusive_head_next [OF busy_run _ _ sched_step.release [of "{1}" busy 0],
      of "\<lparr>eid = 1, run = 1, priority = False, w_exclusive = True\<rparr>"]
  by (simp add: busy_eq)

text \<open>A gap in the wake-ups: a run returning from an approval that joins the line in front of a
  blocked exclusive waiter can be left waiting although the limit has room for it and no pump
  or entry is on its way to admit it, until some run happens to release.\<close>

theorem returning_run_stranded:
  "\<exists>s w ws. sched_run {2} start s \<and> entering s = [] \<and> pumps s = 0 \<and> away s = []
     \<and> waiting s = w # ws \<and> priority w \<and> \<not> head_blocked 2 s \<and> length (holders s) < 2"
proof -
  let ?es = "[Acquire False, Resume 0 2, Acquire False, Resume 1 2, Acquire True, Resume 2 2,
    Yield 1, Pump 2, Return 1, Resume 3 2]"
  let ?s = "\<lparr>running = 1, exclusive = False,
      waiting = [\<lparr>eid = 3, run = 1, priority = True, w_exclusive = False\<rparr>,
                 \<lparr>eid = 2, run = 2, priority = False, w_exclusive = True\<rparr>],
      probed = None, entering = [], holders = [(0, False)], away = [], stopped = {}, pumps = 0,
      next_id = 4, admitted = [0, 1]\<rparr>"
  have p: "play ?es start = Some ?s" by code_simp
  have r: "sched_run {2} start ?s" by (rule play_run [OF p]) simp
  show ?thesis
    by (rule exI [of _ ?s], rule exI [of _ "hd (waiting ?s)"], rule exI [of _ "tl (waiting ?s)"])
      (use r in \<open>simp add: head_blocked_def\<close>)
qed

end
