(* ===== verification/LoopGuard.thy ===== *)
theory LoopGuard
  imports Rounding Prelude "HOL-Library.Sublist"
begin

text \<open>
  When a run stops to ask: the loop detector (\<open>streams/runs/loop-detector.ts\<close>), the gate after
  each step (\<open>streams/runs/step-gate.ts\<close>), and how long an unanswered question waits and what
  it resolves to (\<open>streams/runs/timeouts.ts\<close>, \<open>packages/types/src/waits.ts\<close>).
\<close>

section \<open>The loop detector\<close>

datatype loop_sensitivity = Off | Relaxed | Normal

record loop_hit =
  unit_length :: nat
  repeats :: nat
  unit_keys :: "js_string list"

record detector =
  keys :: "js_string list"
  same_key_repeats :: nat
  cycle_repeats :: nat
  enabled :: bool

definition CYCLE_LENGTHS :: "nat list" where
  "CYCLE_LENGTHS = [2, 3]"

text \<open>\<open>loopDetectorOptions\<close> and the constructor's defaults.\<close>

fun new_detector :: "loop_sensitivity \<Rightarrow> detector" where
  "new_detector Off = \<lparr>keys = [], same_key_repeats = 3, cycle_repeats = 2, enabled = False\<rparr>"
| "new_detector Relaxed = \<lparr>keys = [], same_key_repeats = 5, cycle_repeats = 3, enabled = True\<rparr>"
| "new_detector Normal = \<lparr>keys = [], same_key_repeats = 3, cycle_repeats = 2, enabled = True\<rparr>"

text \<open>\<open>k.slice(-n)\<close>: the whole list for \<open>n = 0\<close>.\<close>

definition slice_last :: "nat \<Rightarrow> 'a list \<Rightarrow> 'a list" where
  "slice_last n xs = (if n = 0 then xs else drop (length xs - n) xs)"

definition same_tail :: "nat \<Rightarrow> js_string list \<Rightarrow> loop_hit option" where
  "same_tail same k =
     (if same \<le> length k \<and> list_all (\<lambda>x. x = hd (slice_last same k)) (slice_last same k)
      then Some \<lparr>unit_length = 1, repeats = same, unit_keys = [hd (slice_last same k)]\<rparr>
      else None)"

definition periodic :: "nat \<Rightarrow> js_string list \<Rightarrow> bool" where
  "periodic len xs \<longleftrightarrow> list_all (\<lambda>i. xs ! i = take len xs ! (i mod len)) [0..<length xs]"

fun find_cycle :: "nat list \<Rightarrow> nat \<Rightarrow> js_string list \<Rightarrow> loop_hit option" where
  "find_cycle [] reps k = None"
| "find_cycle (len # lens) reps k =
     (let span = len * reps; tail = slice_last span k in
      if span \<le> length k \<and> periodic len tail
      then Some \<lparr>unit_length = len, repeats = reps, unit_keys = take len tail\<rparr>
      else find_cycle lens reps k)"

definition push :: "js_string \<Rightarrow> detector \<Rightarrow> loop_hit option \<times> detector" where
  "push key d =
     (let d' = d\<lparr>keys := keys d @ [key]\<rparr> in
      (if \<not> enabled d then None
       else case same_tail (same_key_repeats d) (keys d') of
         Some hit \<Rightarrow> Some hit
       | None \<Rightarrow> find_cycle CYCLE_LENGTHS (cycle_repeats d) (keys d'), d'))"

definition reset_keys :: "detector \<Rightarrow> detector" where
  "reset_keys d = d\<lparr>keys := []\<rparr>"

text \<open>A unit, some times over, is a list that repeats with the unit's length.\<close>

lemma slice_last_suffix: "n \<le> length k \<Longrightarrow> 0 < n \<Longrightarrow> length (slice_last n k) = n \<and> suffix (slice_last n k) k"
  by (simp add: slice_last_def suffix_drop)

lemma slice_last_unique: "suffix t k \<Longrightarrow> t \<noteq> [] \<Longrightarrow> slice_last (length t) k = t"
  by (auto simp: slice_last_def suffix_def)

lemma concat_replicate_nth:
  "i < n * length u \<Longrightarrow> concat (replicate n u) ! i = u ! (i mod length u)"
proof (induction n arbitrary: i)
  case (Suc n)
  show ?case
  proof (cases "i < length u")
    case False
    have "i - length u < n * length u"
      using Suc.prems False unfolding mult_Suc by linarith
    moreover have "concat (replicate (Suc n) u) ! i = concat (replicate n u) ! (i - length u)"
      using False by (simp add: nth_append)
    ultimately have "concat (replicate (Suc n) u) ! i = u ! ((i - length u) mod length u)"
      using Suc.IH by metis
    then show ?thesis using False by (simp add: le_mod_geq)
  qed (simp add: nth_append)
qed simp

lemma length_concat_replicate: "length (concat (replicate n u)) = n * length u"
  by (induction n) auto

lemma periodic_iff:
  assumes "length xs = len * n" "0 < len" "0 < n"
  shows "periodic len xs \<longleftrightarrow> xs = concat (replicate n (take len xs))"
proof -
  have l: "length (take len xs) = len" using assms by (cases n) auto
  have "periodic len xs \<longleftrightarrow> (\<forall>i < length xs. xs ! i = concat (replicate n (take len xs)) ! i)"
    using assms by (auto simp: periodic_def list_all_iff concat_replicate_nth l mult.commute)
  also have "\<dots> \<longleftrightarrow> xs = concat (replicate n (take len xs))"
    using assms l by (metis length_concat_replicate mult.commute nth_equalityI)
  finally show ?thesis .
qed

lemma same_iff: "list_all (\<lambda>x. x = hd xs) xs \<longleftrightarrow> xs = concat (replicate (length xs) [hd xs])"
proof -
  have "concat (replicate n [x]) = replicate n x" for n and x :: 'a by (induction n) auto
  moreover have "list_all (\<lambda>x. x = y) xs \<longleftrightarrow> xs = replicate (length xs) y" for y
    by (induction xs) auto
  ultimately show ?thesis by metis
qed

definition repeats_last :: "nat \<Rightarrow> js_string list \<Rightarrow> js_string list \<Rightarrow> bool" where
  "repeats_last n u k \<longleftrightarrow> u \<noteq> [] \<and> suffix (concat (replicate n u)) k"

lemma find_cycle_Some:
  assumes "0 < reps" "0 \<notin> set lens" "find_cycle lens reps k = Some hit"
  shows "unit_length hit \<in> set lens \<and> repeats hit = reps \<and> length (unit_keys hit) = unit_length hit
     \<and> repeats_last reps (unit_keys hit) k"
  using assms(2,3)
proof (induction lens)
  case (Cons len lens)
  let ?tail = "slice_last (len * reps) k"
  show ?case
  proof (cases "len * reps \<le> length k \<and> periodic len ?tail")
    case True
    have t: "length ?tail = len * reps" "suffix ?tail k"
      using True Cons.prems(1) assms(1) slice_last_suffix [of "len * reps" k] by auto
    have "?tail = concat (replicate reps (take len ?tail))"
      using True Cons.prems(1) assms(1) by (subst periodic_iff [symmetric]) (auto simp: t)
    moreover have "take len ?tail \<noteq> []" "length (take len ?tail) = len"
      using t(1) Cons.prems(1) assms(1) by (cases reps; force)+
    ultimately show ?thesis
      using True Cons.prems t(2) by (auto simp: Let_def repeats_last_def)
  qed (use Cons in \<open>auto simp: Let_def\<close>)
qed simp

lemma find_cycle_hit:
  assumes "0 < reps" "repeats_last reps u k" "length u \<in> set lens"
  shows "find_cycle lens reps k \<noteq> None"
  using assms(3)
proof (induction lens)
  case (Cons len lens)
  show ?case
  proof (cases "len = length u")
    case True
    let ?t = "concat (replicate reps u)"
    have t: "suffix ?t k" "u \<noteq> []" "length ?t = len * reps"
      using assms(2) True by (auto simp: repeats_last_def length_concat_replicate)
    then have s: "slice_last (len * reps) k = ?t"
      using slice_last_unique [of ?t k] assms(1) by (cases reps) auto
    have "take len ?t = u" using assms(1) True by (cases reps) auto
    then have "periodic len ?t"
      using t assms(1) True by (subst periodic_iff [of _ _ reps]) auto
    moreover have "len * reps \<le> length k" using t suffix_length_le by metis
    ultimately show ?thesis by (simp add: Let_def s)
  qed (use Cons in \<open>auto simp: Let_def\<close>)
qed simp

lemma same_tail_Some:
  assumes "0 < same" "same_tail same k = Some hit"
  shows "unit_length hit = 1 \<and> repeats hit = same \<and> length (unit_keys hit) = 1 \<and> repeats_last same (unit_keys hit) k"
proof -
  let ?t = "slice_last same k"
  have h: "same \<le> length k" "list_all (\<lambda>x. x = hd ?t) ?t"
    "hit = \<lparr>unit_length = 1, repeats = same, unit_keys = [hd ?t]\<rparr>"
    using assms(2) by (auto simp: same_tail_def split: if_splits)
  then show ?thesis
    using same_iff [of ?t] slice_last_suffix [OF h(1) assms(1)] by (auto simp: repeats_last_def)
qed

lemma same_tail_hit:
  assumes "0 < same" "repeats_last same [x] k"
  shows "same_tail same k \<noteq> None"
proof -
  have r: "concat (replicate same [x]) = replicate same x" by (induction same) auto
  then have "slice_last same k = replicate same x" "same \<le> length k"
    using assms slice_last_unique [of "replicate same x" k] suffix_length_le
    by (fastforce simp: repeats_last_def)+
  then show ?thesis using assms(1) by (cases same) (auto simp: same_tail_def list_all_iff)
qed

section \<open>The step gate\<close>

record run_limits =
  step_limit_off :: bool
  loop_check_off :: bool

datatype checkin_reason = LoopReason | BudgetReason

record gate =
  gate_detector :: detector
  max_iterations :: nat
  loop_check_was_off :: bool

record step_verdict =
  hit :: "loop_hit option"
  reason :: "checkin_reason option"
  budget_end :: nat
  unlimited :: bool

definition after_step :: "js_string \<Rightarrow> nat \<Rightarrow> nat \<Rightarrow> run_limits \<Rightarrow> gate \<Rightarrow> step_verdict \<times> gate" where
  "after_step key iteration budget limits g =
     (let (h, g') =
        (if loop_check_off limits then (None, g\<lparr>loop_check_was_off := True\<rparr>)
         else (let d = (if loop_check_was_off g then reset_keys (gate_detector g) else gate_detector g);
                   (h, d') = push key d
               in (h, g\<lparr>gate_detector := d', loop_check_was_off := False\<rparr>)));
          final = (if step_limit_off limits then iteration + max_iterations g else budget)
      in (\<lparr>hit = h,
           reason = (if h \<noteq> None then Some LoopReason else if iteration \<ge> final then Some BudgetReason else None),
           budget_end = final, unlimited = step_limit_off limits\<rparr>, g'))"

definition keep_going :: "nat \<Rightarrow> gate \<Rightarrow> nat \<times> gate" where
  "keep_going iteration g =
     (iteration + max_iterations g, g\<lparr>gate_detector := reset_keys (gate_detector g)\<rparr>)"

fun checkin_withdrawn :: "checkin_reason \<Rightarrow> run_limits \<Rightarrow> bool" where
  "checkin_withdrawn LoopReason limits = loop_check_off limits"
| "checkin_withdrawn BudgetReason limits = step_limit_off limits"

text \<open>The steps of a run one after another, numbered from \<open>i\<close>, with no check-in answered.\<close>

fun gate_run :: "(js_string \<times> run_limits) list \<Rightarrow> nat \<Rightarrow> nat \<Rightarrow> gate \<Rightarrow> nat \<times> gate" where
  "gate_run [] i budget g = (budget, g)"
| "gate_run ((key, limits) # steps) i budget g =
     (case after_step key i budget limits g of (v, g') \<Rightarrow> gate_run steps (Suc i) (budget_end v) g')"

definition new_gate :: "loop_sensitivity \<Rightarrow> nat \<Rightarrow> gate" where
  "new_gate s m = \<lparr>gate_detector = new_detector s, max_iterations = m, loop_check_was_off = False\<rparr>"

text \<open>The keys the detector should know: those of the steps since the loop check was last off.\<close>

definition heard :: "(js_string \<times> run_limits) list \<Rightarrow> js_string list" where
  "heard steps = map fst (rev (takeWhile (\<lambda>p. \<not> loop_check_off (snd p)) (rev steps)))"

lemma heard_snoc: "heard (steps @ [p]) = (if loop_check_off (snd p) then [] else heard steps @ [fst p])"
  by (simp add: heard_def)

definition window_end :: "nat \<Rightarrow> nat \<Rightarrow> nat \<Rightarrow> (js_string \<times> run_limits) list \<Rightarrow> nat" where
  "window_end i m budget steps =
     (case filter (\<lambda>j. step_limit_off (snd (steps ! j))) [0..<length steps] of
        [] \<Rightarrow> budget
      | js \<Rightarrow> i + last js + m)"

lemma window_end_snoc:
  "window_end i m budget (steps @ [p]) =
     (if step_limit_off (snd p) then i + length steps + m else window_end i m budget steps)"
proof -
  have "filter (\<lambda>j. step_limit_off (snd ((steps @ [p]) ! j))) [0..<length steps]
      = filter (\<lambda>j. step_limit_off (snd (steps ! j))) [0..<length steps]"
    by (rule filter_cong) (auto simp: nth_append)
  moreover have "last (x # xs @ [y]) = y" for x y and xs :: "nat list" by simp
  ultimately show ?thesis
    by (cases "filter (\<lambda>j. step_limit_off (snd (steps ! j))) [0..<length steps]") (simp_all add: window_end_def)
qed

lemma gate_run_snoc:
  "gate_run (steps @ [(key, limits)]) i budget g =
     (case gate_run steps i budget g of (b, g') \<Rightarrow>
      case after_step key (i + length steps) b limits g' of (v, g'') \<Rightarrow> (budget_end v, g''))"
  by (induction steps i budget g rule: gate_run.induct) (auto split: prod.split)

definition gate_inv :: "gate \<Rightarrow> (js_string \<times> run_limits) list \<Rightarrow> gate \<Rightarrow> bool" where
  "gate_inv g0 steps g \<longleftrightarrow>
     max_iterations g = max_iterations g0
     \<and> same_key_repeats (gate_detector g) = same_key_repeats (gate_detector g0)
     \<and> cycle_repeats (gate_detector g) = cycle_repeats (gate_detector g0)
     \<and> enabled (gate_detector g) = enabled (gate_detector g0)
     \<and> (if steps \<noteq> [] \<and> loop_check_off (snd (last steps)) then loop_check_was_off g
        else \<not> loop_check_was_off g \<and> keys (gate_detector g) = heard steps)"

lemma after_step_gate:
  "gate_inv g0 steps g \<Longrightarrow> gate_inv g0 (steps @ [(key, limits)]) (snd (after_step key i b limits g))"
proof -
  assume "gate_inv g0 steps g"
  then show ?thesis
    by (cases "loop_check_off limits"; cases "steps \<noteq> [] \<and> loop_check_off (snd (last steps))")
      (auto simp: gate_inv_def after_step_def Let_def push_def reset_keys_def heard_snoc split: prod.split,
       auto simp: heard_def rev_eq_Cons_iff takeWhile_eq_Nil_iff hd_rev)
qed

lemma after_step_budget:
  "budget_end (fst (after_step key i b limits g)) = (if step_limit_off limits then i + max_iterations g else b)"
  by (simp add: after_step_def Let_def split: prod.split)

lemma gate_run_inv:
  assumes "\<not> loop_check_was_off g0" "keys (gate_detector g0) = []"
  shows "gate_inv g0 steps (snd (gate_run steps i b g0))
    \<and> fst (gate_run steps i b g0) = window_end i (max_iterations g0) b steps"
proof (induction steps rule: rev_induct)
  case Nil
  then show ?case using assms by (simp add: gate_inv_def heard_def window_end_def)
next
  case (snoc p steps)
  obtain key limits where p: "p = (key, limits)" by (cases p)
  obtain b' g' where r: "gate_run steps i b g0 = (b', g')" by (cases "gate_run steps i b g0")
  have m: "gate_inv g0 steps g'" "b' = window_end i (max_iterations g0) b steps" "max_iterations g' = max_iterations g0"
    using snoc r by (auto simp: gate_inv_def)
  show ?case
    using after_step_gate [OF m(1), of key limits "i + length steps" b'] after_step_budget [of key "i + length steps" b' limits g']
    by (cases "after_step key (i + length steps) b' limits g'") (simp add: p gate_run_snoc r window_end_snoc m(3) flip: m(2))
qed

section \<open>Waiting for a person\<close>

text \<open>
  Times are JavaScript numbers of milliseconds: rationals here, with \<^const>\<open>None\<close> for null,
  undefined and the values that are not finite. \<open>Math.round\<close> rounds halves up.
\<close>

definition DEFAULT_WAIT_TIMEOUT_MS :: rat where
  "DEFAULT_WAIT_TIMEOUT_MS = 10 * 60 * 1000"

definition MIN_WAIT_TIMEOUT_MS :: rat where
  "MIN_WAIT_TIMEOUT_MS = 5000"

definition MAX_WAIT_TIMEOUT_MS :: rat where
  "MAX_WAIT_TIMEOUT_MS = 24 * 60 * 60 * 1000"

definition MAX_CHECKIN_AUTO_CONTINUES :: int where
  "MAX_CHECKIN_AUTO_CONTINUES = 3"

datatype timeout_basis = Setting | Adaptive

datatype steps_decision = ContinueRun | AnswerNow

datatype wait_outcome = TimedOut | Gone

definition clamp_wait_timeout :: "rat option \<Rightarrow> rat option" where
  "clamp_wait_timeout v =
     map_option (\<lambda>x. min MAX_WAIT_TIMEOUT_MS (max MIN_WAIT_TIMEOUT_MS (of_int (js_round x)))) v"

definition clamp_auto_continues :: "rat option \<Rightarrow> int option" where
  "clamp_auto_continues v = map_option (\<lambda>x. min MAX_CHECKIN_AUTO_CONTINUES (max 0 \<lfloor>x\<rfloor>)) v"

definition server_default_timeout :: "rat option \<Rightarrow> rat" where
  "server_default_timeout raw =
     (case raw of
        Some x \<Rightarrow> if x > 0 then min x MAX_WAIT_TIMEOUT_MS else DEFAULT_WAIT_TIMEOUT_MS
      | None \<Rightarrow> DEFAULT_WAIT_TIMEOUT_MS)"

definition effective_timeout :: "rat \<Rightarrow> bool \<Rightarrow> rat \<Rightarrow> rat \<times> timeout_basis" where
  "effective_timeout base adaptive slowest =
     (let low = (if adaptive then 2 * max 0 slowest else 0); stretched = low > base
      in (min MAX_WAIT_TIMEOUT_MS (if stretched then low else base), if stretched then Adaptive else Setting))"

definition unattended_decision :: "int \<Rightarrow> int \<Rightarrow> wait_outcome \<Rightarrow> steps_decision" where
  "unattended_decision prior auto_continues outcome =
     (if outcome = Gone then AnswerNow
      else if prior < auto_continues then ContinueRun else AnswerNow)"

text \<open>The window of a wait: the person's stored choice, clamped, or the server's default.\<close>

definition base_timeout :: "rat option \<Rightarrow> rat option \<Rightarrow> rat" where
  "base_timeout stored raw =
     (case clamp_wait_timeout stored of Some ms \<Rightarrow> ms | None \<Rightarrow> server_default_timeout raw)"

text \<open>The answers to check-ins nobody answers, one after another.\<close>

definition unattended_answers :: "int \<Rightarrow> nat \<Rightarrow> steps_decision list" where
  "unattended_answers auto_continues n =
     map (\<lambda>k. unattended_decision (int k) auto_continues TimedOut) [0..<n]"

lemma takeWhile_upt: "takeWhile (\<lambda>k. k < (m::nat)) [0..<n] = [0..<min m n]"
proof (induction n)
  case (Suc n)
  then show ?case
    by (cases "n < m") (auto simp: takeWhile_append min_def le_Suc_eq)
qed simp

section \<open>Properties\<close>

text \<open>The loop detector reports exactly the repetitions it is meant to: a hit occurs if and
  only if the check is on and the run's last iterations are one unit of one, two or three
  iterations repeated back to back as often as the sensitivity asks, and the hit it reports
  is such a repetition.\<close>

theorem loop_hit_iff:
  "(fst (push key ((new_detector s)\<lparr>keys := ks\<rparr>)) \<noteq> None \<longleftrightarrow>
      s \<noteq> Off \<and> (\<exists>u. length u \<in> {1, 2, 3} \<and>
        repeats_last (if length u = 1 then same_key_repeats (new_detector s) else cycle_repeats (new_detector s))
          u (ks @ [key])))
   \<and> (\<forall>h. fst (push key ((new_detector s)\<lparr>keys := ks\<rparr>)) = Some h \<longrightarrow>
        length (unit_keys h) = unit_length h \<and> repeats_last (repeats h) (unit_keys h) (ks @ [key]))"
proof (cases "s = Off")
  case False
  let ?d = "new_detector s" and ?k = "ks @ [key]"
  have pos: "0 < same_key_repeats ?d" "0 < cycle_repeats ?d" "enabled ?d"
    using False by (cases s; simp)+
  let ?r = "case same_tail (same_key_repeats ?d) ?k of Some h \<Rightarrow> Some h
      | None \<Rightarrow> find_cycle CYCLE_LENGTHS (cycle_repeats ?d) ?k"
  have r: "fst (push key (?d\<lparr>keys := ks\<rparr>)) = ?r"
    using pos(3) by (simp add: push_def Let_def split: option.split)
  have hit: "length (unit_keys h) = unit_length h \<and> repeats_last (repeats h) (unit_keys h) ?k
      \<and> unit_length h \<in> {1, 2, 3}
      \<and> repeats h = (if unit_length h = 1 then same_key_repeats ?d else cycle_repeats ?d)" if "?r = Some h" for h
    using that same_tail_Some [OF pos(1), of ?k h] find_cycle_Some [OF pos(2), of CYCLE_LENGTHS ?k h]
    by (auto simp: CYCLE_LENGTHS_def split: option.splits)
  have "?r \<noteq> None" if u: "length u \<in> {1, 2, 3}"
      "repeats_last (if length u = 1 then same_key_repeats ?d else cycle_repeats ?d) u ?k" for u
  proof (cases "length u = 1")
    case True
    then obtain x where "u = [x]" by (cases u) auto
    then show ?thesis using same_tail_hit [OF pos(1), of x ?k] u(2) by (auto split: option.splits)
  next
    case False
    then show ?thesis
      using find_cycle_hit [OF pos(2), of u ?k CYCLE_LENGTHS] u by (auto simp: CYCLE_LENGTHS_def split: option.splits)
  qed
  moreover have "\<exists>u. length u \<in> {1, 2, 3} \<and>
      repeats_last (if length u = 1 then same_key_repeats ?d else cycle_repeats ?d) u ?k" if "?r = Some h" for h
    using hit [OF that] by (intro exI [of _ "unit_keys h"]) auto
  ultimately show ?thesis
    using False hit unfolding r by blast
qed (simp add: push_def Let_def)

theorem loop_hit_iff_witness:
  "fst (push ''b'' ((new_detector Normal)\<lparr>keys := [''a'', ''b'', ''a'']\<rparr>)) \<noteq> None"
proof -
  have "\<exists>u. length u \<in> {1, 2, 3} \<and>
      repeats_last (if length u = 1 then same_key_repeats (new_detector Normal) else cycle_repeats (new_detector Normal))
        u ([''a'', ''b'', ''a''] @ [''b''])"
    by (rule exI [of _ "[''a'', ''b'']"]) (simp add: repeats_last_def numeral_2_eq_2)
  then show ?thesis
    using loop_hit_iff [where key = "''b''" and s = Normal and ks = "[''a'', ''b'', ''a'']"] by blast
qed

text \<open>Turning the switches off and on again does what the person means, at any point of a
  run: the loop check judges a step by the steps since it was last switched on, and nothing
  from before counts; the step limit gives a full window from the last step it was off, and
  asks when that window is used up.\<close>

theorem gate_verdict:
  assumes "gate_run steps i b (new_gate s m) = (b', g)"
  shows "fst (after_step key (i + length steps) b' limits g) =
    (let h = (if loop_check_off limits then None
              else fst (push key ((new_detector s)\<lparr>keys := heard steps\<rparr>)));
         final = (if step_limit_off limits then i + length steps + m else window_end i m b steps)
     in \<lparr>hit = h,
         reason = (if h \<noteq> None then Some LoopReason
                   else if i + length steps \<ge> final then Some BudgetReason else None),
         budget_end = final, unlimited = step_limit_off limits\<rparr>)"
proof -
  have g: "gate_inv (new_gate s m) steps g" "b' = window_end i m b steps"
    using gate_run_inv [of "new_gate s m" steps i b] assms
    by (cases s; simp add: new_gate_def)+
  let ?d = "if loop_check_was_off g then reset_keys (gate_detector g) else gate_detector g"
  have "keys ?d = heard steps"
    using g(1) by (auto simp: gate_inv_def reset_keys_def heard_def hd_rev takeWhile_eq_Nil_iff split: if_splits)
  then have d: "?d = (new_detector s)\<lparr>keys := heard steps\<rparr>"
    using g(1) by (intro detector.equality) (auto simp: gate_inv_def new_gate_def reset_keys_def)
  show ?thesis
    using g by (cases "loop_check_off limits")
      (auto simp: after_step_def Let_def d gate_inv_def new_gate_def split: prod.splits)
qed

theorem gate_verdict_witness:
  "\<exists>g. gate_run [(''b'', \<lparr>step_limit_off = False, loop_check_off = False\<rparr>),
        (''b'', \<lparr>step_limit_off = True, loop_check_off = True\<rparr>)] 1 10 (new_gate Normal 11) = (13, g)
     \<and> reason (fst (after_step ''b'' 3 13 \<lparr>step_limit_off = False, loop_check_off = False\<rparr> g)) = None"
proof -
  let ?on = "\<lparr>step_limit_off = False, loop_check_off = False\<rparr>"
  let ?steps = "[(''b'', ?on), (''b'', \<lparr>step_limit_off = True, loop_check_off = True\<rparr>)]"
  have "fst (gate_run ?steps 1 10 (new_gate Normal 11)) = 13" by code_simp
  then obtain g where g: "gate_run ?steps 1 10 (new_gate Normal 11) = (13, g)"
    by (metis prod.collapse)
  have h: "fst (push ''b'' ((new_detector Normal)\<lparr>keys := heard ?steps\<rparr>)) = None"
    "window_end 1 11 10 ?steps = 13"
    by code_simp+
  have n: "(1::nat) + length ?steps = 3" by simp
  have "fst (after_step ''b'' (1 + length ?steps) 13 ?on g)
      = \<lparr>hit = None, reason = None, budget_end = 13, unlimited = False\<rparr>"
    using gate_verdict [OF g, of "''b''" ?on] h by (simp add: Let_def)
  then have "reason (fst (after_step ''b'' 3 13 ?on g)) = None"
    unfolding n by simp
  with g show ?thesis by blast
qed

text \<open>Whatever is stored, configured or measured, a wait lasts at most a day, far below the
  point where Node's timers wrap, at least as long as the base window, and with the adaptive
  setting at least twice the slowest request, up to that day.\<close>

theorem wait_window_bounds:
  "let base = base_timeout stored raw; (ms, basis) = effective_timeout base adaptive slowest
   in base \<le> ms \<and> ms \<le> MAX_WAIT_TIMEOUT_MS \<and> MAX_WAIT_TIMEOUT_MS < 2 ^ 31 - 1 \<and> 0 < ms
      \<and> (adaptive \<longrightarrow> min MAX_WAIT_TIMEOUT_MS (2 * slowest) \<le> ms)
      \<and> (basis = Setting \<longrightarrow> ms = base)"
proof -
  have "0 < base_timeout stored raw" "base_timeout stored raw \<le> MAX_WAIT_TIMEOUT_MS"
    by (auto simp: base_timeout_def clamp_wait_timeout_def server_default_timeout_def MAX_WAIT_TIMEOUT_MS_def
        MIN_WAIT_TIMEOUT_MS_def DEFAULT_WAIT_TIMEOUT_MS_def min_def max_def split: option.splits)
  then show ?thesis
    by (auto simp: effective_timeout_def Let_def MAX_WAIT_TIMEOUT_MS_def min_def max_def)
qed

theorem wait_window_bounds_witness:
  "\<exists>ms. effective_timeout (base_timeout None None) True 1200000 = (ms, Adaptive) \<and> ms = 2400000"
proof -
  have "effective_timeout (base_timeout None None) True 1200000 = (2400000, Adaptive)"
    by (simp add: effective_timeout_def base_timeout_def clamp_wait_timeout_def server_default_timeout_def
        DEFAULT_WAIT_TIMEOUT_MS_def MAX_WAIT_TIMEOUT_MS_def Let_def)
  with wait_window_bounds [of None None True 1200000] show ?thesis by (simp add: Let_def)
qed

text \<open>An abandoned run is bounded: of any number of check-ins nobody answers in a row, the
  first ones, as many as the clamped setting and so at most three, carry on by themselves
  and every later one wraps up.\<close>

theorem unattended_bounded:
  assumes "clamp_auto_continues v = Some a"
  shows "0 \<le> a \<and> a \<le> 3 \<and>
    takeWhile (\<lambda>d. d = ContinueRun) (unattended_answers a n) = replicate (min (nat a) n) ContinueRun \<and>
    list_all (\<lambda>d. d = AnswerNow) (drop (nat a) (unattended_answers a n))"
proof -
  have a: "0 \<le> a" "a \<le> 3"
    using assms by (auto simp: clamp_auto_continues_def MAX_CHECKIN_AUTO_CONTINUES_def min_def max_def split: if_splits)
  have d: "unattended_decision (int k) a TimedOut = (if k < nat a then ContinueRun else AnswerNow)" for k
    using a by (auto simp: unattended_decision_def)
  have "takeWhile (\<lambda>d. d = ContinueRun) (unattended_answers a n)
      = map (\<lambda>k. if k < nat a then ContinueRun else AnswerNow) (takeWhile (\<lambda>k. k < nat a) [0..<n])"
    unfolding unattended_answers_def takeWhile_map o_def d
    by (intro arg_cong [where f = "map _"] takeWhile_cong) auto
  also have "\<dots> = replicate (min (nat a) n) ContinueRun"
    unfolding takeWhile_upt by (rule nth_equalityI) auto
  finally show ?thesis
    using a by (auto simp: unattended_answers_def d list_all_iff drop_map drop_upt)
qed

theorem unattended_bounded_witness:
  "takeWhile (\<lambda>d. d = ContinueRun) (unattended_answers 2 5) = [ContinueRun, ContinueRun]"
proof -
  have "clamp_auto_continues (Some 2) = Some 2"
    by (simp add: clamp_auto_continues_def MAX_CHECKIN_AUTO_CONTINUES_def)
  from unattended_bounded [OF this, of 5] show ?thesis by (simp add: numeral_2_eq_2)
qed

end
