(* ===== verification/Json.thy ===== *)
theory Json
  imports Prelude
begin

text \<open>
  JSON values as the code meets them: parsed from a model's or a server's text, stored in a column, printed with
  \<open>JSON.stringify\<close>. A number carries the text it prints as; an object is the list of its members as they were written, of
  which the last of a name counts.
\<close>

datatype json =
    JNull
  | JBool bool
  | JNum js_string
  | JStr js_string
  | JArr "json list"
  | JObj "(js_string \<times> json) list"

text \<open>A property of a value: absent (\<open>undefined\<close>) on anything that is not an object with it.\<close>

fun field_of :: "json \<Rightarrow> js_string \<Rightarrow> json option" where
  "field_of (JObj kvs) k = map_of (rev kvs) k"
| "field_of _ k = None"

text \<open>The decimal digits of a number, as \<open>String(n)\<close> writes them.\<close>

fun digits :: "nat \<Rightarrow> js_string" where
  "digits n = (if n < 10 then [char_of (48 + n)] else digits (n div 10) @ [char_of (48 + n mod 10)])"

declare digits.simps [simp del]

lemma digits_digits: "list_all is_digit (digits n)"
proof (induction n rule: digits.induct)
  case (1 n)
  have "is_digit (char_of (48 + k))" if "k < 10" for k :: nat
    using that by (simp add: is_digit_def in_range_def)
  then show ?case using 1 by (subst digits.simps) auto
qed

section \<open>JSON.stringify\<close>

fun hex_digit :: "nat \<Rightarrow> char" where
  "hex_digit n = char_of (if n < 10 then 48 + n else 87 + n)"

definition json_char :: "char \<Rightarrow> js_string" where
  "json_char c =
     (if c = DQ then [BS, DQ] else if c = BS then [BS, BS]
      else if c = CHR 0x08 then [BS, CHR ''b''] else if c = CHR 0x0C then [BS, CHR ''f'']
      else if c = NL then [BS, CHR ''n''] else if c = CR then [BS, CHR ''r''] else if c = TAB then [BS, CHR ''t'']
      else if (of_char c :: nat) < 32 then [BS] @ ''u00'' @ [hex_digit (of_char c div 16), hex_digit (of_char c mod 16)]
      else [c])"

definition json_string :: "js_string \<Rightarrow> js_string" where
  "json_string s = [DQ] @ concat (map json_char s) @ [DQ]"

text \<open>\<open>xs.join(",")\<close>.\<close>

fun commas :: "js_string list \<Rightarrow> js_string" where
  "commas [] = []"
| "commas [x] = x"
| "commas (x # y # xs) = x @ '','' @ commas (y # xs)"

text \<open>An object whose members have names of their own, as a parsed one has.\<close>

fun stringify :: "json \<Rightarrow> js_string" where
  "stringify JNull = ''null''"
| "stringify (JBool b) = (if b then ''true'' else ''false'')"
| "stringify (JNum n) = n"
| "stringify (JStr s) = json_string s"
| "stringify (JArr xs) = ''['' @ commas (map stringify xs) @ '']''"
| "stringify (JObj ms) = ''{'' @ commas (map (\<lambda>(k, v). json_string k @ '':'' @ stringify v) ms) @ ''}''"

section \<open>Other operations\<close>

text \<open>\<open>String(v)\<close>: an array prints its elements, and nothing for a null, between commas.\<close>

fun js_text :: "json \<Rightarrow> js_string" where
  "js_text JNull = ''null''"
| "js_text (JBool b) = (if b then ''true'' else ''false'')"
| "js_text (JNum n) = n"
| "js_text (JStr s) = s"
| "js_text (JArr xs) = commas (map (\<lambda>x. if x = JNull then [] else js_text x) xs)"
| "js_text (JObj _) = ''[object Object]''"

text \<open>\<open>out[k] = v\<close>: in its place when it has one, at the end otherwise.\<close>

fun assign :: "js_string \<Rightarrow> json \<Rightarrow> (js_string \<times> json) list \<Rightarrow> (js_string \<times> json) list" where
  "assign k v [] = [(k, v)]"
| "assign k v ((k', v') # ms) = (if k' = k then (k, v) # ms else (k', v') # assign k v ms)"

text \<open>\<open>Object.entries\<close> of an object, and \<open>Object.keys\<close>: a name is where it was first written, with what it has last.\<close>

definition entries :: "(js_string \<times> json) list \<Rightarrow> (js_string \<times> json) list" where
  "entries ms = fold (\<lambda>(k, v). assign k v) ms []"

lemma assign_members: "set (assign k v ms) \<subseteq> insert (k, v) (set ms)"
  by (induction ms) (auto split: if_splits)

lemma field_of_assign: "k \<noteq> x \<Longrightarrow> field_of (JObj (assign k v ms)) x = field_of (JObj ms) x"
  by (induction ms) (auto simp: map_add_def split: option.split)

lemma assign_keys: "fst ` set (assign k v ms) = insert k (fst ` set ms)"
  by (induction k v ms rule: assign.induct) (simp_all add: insert_commute)

lemma assign_distinct: "distinct (map fst ms) \<Longrightarrow> distinct (map fst (assign k v ms))"
  by (induction ms) (auto simp: assign_keys)

lemma assign_new: "k \<notin> fst ` set ms \<Longrightarrow> assign k v ms = ms @ [(k, v)]"
  by (induction ms) auto

lemma entries_distinct [simp]: "distinct (map fst (entries ms))"
proof -
  have "distinct (map fst out) \<Longrightarrow> distinct (map fst (fold (\<lambda>(k, v). assign k v) ms out))" for out
    by (induction ms arbitrary: out) (auto simp: assign_distinct)
  then show ?thesis by (simp add: entries_def)
qed

lemma entries_id: "distinct (map fst ms) \<Longrightarrow> entries ms = ms"
proof -
  have "distinct (map fst (out @ ms)) \<Longrightarrow> fold (\<lambda>(k, v). assign k v) ms out = out @ ms" for out
  proof (induction ms arbitrary: out)
    case (Cons m ms)
    obtain k v where m: "m = (k, v)" by force
    then have "assign k v out = out @ [m]" using Cons.prems by (simp add: assign_new)
    then show ?case using Cons.IH [of "out @ [m]"] Cons.prems by (simp add: m)
  qed simp
  then show "distinct (map fst ms) \<Longrightarrow> entries ms = ms" by (simp add: entries_def)
qed

end
