(* ===== verification/Todos.thy ===== *)
theory Todos
  imports Json
begin

text \<open>
  The run's todo list: reading one from a call's arguments (\<open>packages/types/src/todos.ts\<close>) and
  when it has gone stale (\<open>streams/runs/todo-staleness.ts\<close>). The arguments are the JSON value
  \<open>JSON.parse\<close> gives.
\<close>

datatype todo_status = Pending | InProgress | Completed

record todo =
  todo_id :: js_string
  todo_text :: js_string
  todo_status :: todo_status

definition todo_of :: "nat \<Rightarrow> json \<Rightarrow> todo" where
  "todo_of i item =
     \<lparr>todo_id = (case field_of item ''id'' of Some (JStr s) \<Rightarrow> s | _ \<Rightarrow> digits (Suc i)),
      todo_text = (case field_of item ''text'' of
          Some (JStr s) \<Rightarrow> s
        | Some (JNum s) \<Rightarrow> s
        | Some (JBool b) \<Rightarrow> if b then ''true'' else ''false''
        | _ \<Rightarrow> []),
      todo_status = (case field_of item ''status'' of
          Some (JStr s) \<Rightarrow> if s = ''completed'' then Completed else if s = ''in_progress'' then InProgress else Pending
        | _ \<Rightarrow> Pending)\<rparr>"

definition parse_todo_list :: "json option \<Rightarrow> todo list option" where
  "parse_todo_list args =
     (case args of
        None \<Rightarrow> None
      | Some v \<Rightarrow>
          (case field_of v ''todos'' of
             Some (JArr raw) \<Rightarrow> Some (map (\<lambda>(i, t). todo_of i t) (zip [0..<length raw] raw))
           | _ \<Rightarrow> None))"

definition has_unfinished_todos :: "todo list \<Rightarrow> bool" where
  "has_unfinished_todos todos \<longleftrightarrow> list_ex (\<lambda>t. todo_status t \<noteq> Completed) todos"

definition strip_reminder :: "js_string \<Rightarrow> js_string \<Rightarrow> js_string" where
  "strip_reminder reminder output =
     (if ends_with output reminder then take (length output - length reminder) output else output)"

section \<open>Staleness\<close>

definition TODO_REMINDER_EVERY :: nat where
  "TODO_REMINDER_EVERY = 10"

record staleness =
  is_open :: bool
  since :: nat
  wrote_this_iteration :: bool

definition fresh :: staleness where
  "fresh = \<lparr>is_open = False, since = 0, wrote_this_iteration = False\<rparr>"

text \<open>A message of the history: whether the assistant's, and its calls with their parsed arguments.\<close>

record call =
  call_name :: js_string
  call_args :: "json option"

record message =
  from_assistant :: bool
  tool_calls :: "call list"

definition due :: "js_string list \<Rightarrow> staleness \<Rightarrow> bool" where
  "due names s \<longleftrightarrow> is_open s \<and> since s \<ge> TODO_REMINDER_EVERY \<and> ''todo_write'' \<notin> set names"

definition reminded :: "staleness \<Rightarrow> staleness" where
  "reminded s = s\<lparr>since := 0\<rparr>"

definition wrote :: "todo list \<Rightarrow> staleness \<Rightarrow> staleness" where
  "wrote todos s = s\<lparr>is_open := has_unfinished_todos todos, since := 0, wrote_this_iteration := True\<rparr>"

definition end_iteration :: "staleness \<Rightarrow> staleness" where
  "end_iteration s =
     s\<lparr>since := (if wrote_this_iteration s then since s else Suc (since s)), wrote_this_iteration := False\<rparr>"

text \<open>\<open>fromHistory\<close>, over the messages newest first.\<close>

fun scan_history :: "nat \<Rightarrow> message list \<Rightarrow> staleness" where
  "scan_history n [] = fresh"
| "scan_history n (m # older) =
     (if \<not> from_assistant m \<or> tool_calls m = [] then scan_history n older
      else case filter (\<lambda>c. call_name c = ''todo_write'') (tool_calls m) of
        [] \<Rightarrow> scan_history (Suc n) older
      | c # cs \<Rightarrow>
          (case parse_todo_list (call_args (last (c # cs))) of
             Some todos \<Rightarrow> \<lparr>is_open = has_unfinished_todos todos, since = n, wrote_this_iteration = False\<rparr>
           | None \<Rightarrow> scan_history (Suc n) older))"

definition from_history :: "message list \<Rightarrow> staleness" where
  "from_history messages = scan_history 0 (rev messages)"

section \<open>The run that made the history\<close>

text \<open>What the engine does as the calls of one message run: an accepted list is \<open>wrote\<close>.\<close>

definition run_call :: "call \<Rightarrow> staleness \<Rightarrow> staleness" where
  "run_call c s =
     (if call_name c = ''todo_write'' then
        (case parse_todo_list (call_args c) of Some todos \<Rightarrow> wrote todos s | None \<Rightarrow> s)
      else s)"

definition run_message :: "message \<Rightarrow> staleness \<Rightarrow> staleness" where
  "run_message m s =
     (if \<not> from_assistant m \<or> tool_calls m = [] then s
      else end_iteration (fold run_call (tool_calls m) s))"

definition live :: "message list \<Rightarrow> staleness" where
  "live messages = fold run_message messages fresh"

text \<open>In every message the last \<open>todo_write\<close> is accepted if any is.\<close>

definition last_write_counts :: "message \<Rightarrow> bool" where
  "last_write_counts m \<longleftrightarrow>
     (let ws = filter (\<lambda>c. call_name c = ''todo_write'') (tool_calls m) in
      list_ex (\<lambda>c. parse_todo_list (call_args c) \<noteq> None) ws \<longrightarrow> parse_todo_list (call_args (last ws)) \<noteq> None)"

definition writes :: "call list \<Rightarrow> call list" where
  "writes cs = filter (\<lambda>c. call_name c = ''todo_write'') cs"

lemma fold_calls_none:
  "\<forall>c\<in>set (writes cs). parse_todo_list (call_args c) = None \<Longrightarrow> fold run_call cs s = s"
  by (induction cs arbitrary: s) (auto simp: writes_def run_call_def split: if_splits)

lemma fold_calls_last:
  assumes "writes cs \<noteq> []" "parse_todo_list (call_args (last (writes cs))) = Some todos"
  shows "fold run_call cs s = s\<lparr>is_open := has_unfinished_todos todos, since := 0, wrote_this_iteration := True\<rparr>"
  using assms
proof (induction cs rule: rev_induct)
  case (snoc c cs)
  show ?case
  proof (cases "call_name c = ''todo_write''")
    case True
    then have w: "writes (cs @ [c]) = writes cs @ [c]" by (simp add: writes_def)
    have "wrote todos t = s\<lparr>is_open := has_unfinished_todos todos, since := 0, wrote_this_iteration := True\<rparr>" for t
      by (cases t; cases s) (simp add: wrote_def)
    then show ?thesis
      using snoc.prems w by (simp add: run_call_def True)
  next
    case False
    then have "writes (cs @ [c]) = writes cs" by (simp add: writes_def)
    then show ?thesis using snoc False by (simp add: run_call_def)
  qed
qed (simp add: writes_def)

text \<open>What the scan says of a history whose newest list is further back than \<open>n\<close> iterations.\<close>

lemma scan_shift:
  "is_open (scan_history n ms) = is_open (scan_history 0 ms)
   \<and> (is_open (scan_history 0 ms) \<longrightarrow> since (scan_history n ms) = n + since (scan_history 0 ms))"
proof (induction ms arbitrary: n)
  case (Cons m ms)
  show ?case
    using Cons.IH [of n] Cons.IH [of "Suc n"] Cons.IH [of "Suc 0"]
    by (auto simp: fresh_def split: list.splits option.splits)
qed (simp add: fresh_def)

definition agrees :: "staleness \<Rightarrow> staleness \<Rightarrow> bool" where
  "agrees s t \<longleftrightarrow> is_open s = is_open t \<and> (is_open t \<longrightarrow> since s = since t) \<and> \<not> wrote_this_iteration s"

lemma live_agrees:
  "\<forall>m\<in>set ms. from_assistant m \<longrightarrow> last_write_counts m \<Longrightarrow> agrees (live ms) (from_history ms)"
proof (induction ms rule: rev_induct)
  case (snoc m ms)
  then have IH: "agrees (live ms) (from_history ms)" by simp
  have l: "live (ms @ [m]) = run_message m (live ms)" by (simp add: live_def)
  have h: "from_history (ms @ [m]) = scan_history 0 (m # rev ms)" by (simp add: from_history_def)
  show ?case
  proof (cases "\<not> from_assistant m \<or> tool_calls m = []")
    case True
    then show ?thesis using IH l h by (auto simp: run_message_def from_history_def)
  next
    case False
    let ?ws = "writes (tool_calls m)"
    have c: "last_write_counts m" using snoc.prems False by simp
    show ?thesis
    proof (cases "?ws \<noteq> [] \<and> parse_todo_list (call_args (last ?ws)) \<noteq> None")
      case True
      then obtain todos where t: "parse_todo_list (call_args (last ?ws)) = Some todos" by blast
      have f: "fold run_call (tool_calls m) (live ms)
          = (live ms)\<lparr>is_open := has_unfinished_todos todos, since := 0, wrote_this_iteration := True\<rparr>"
        using fold_calls_last True t by blast
      have "scan_history 0 (m # rev ms) = \<lparr>is_open = has_unfinished_todos todos, since = 0, wrote_this_iteration = False\<rparr>"
        using False True t unfolding writes_def by (auto split: list.splits)
      then show ?thesis
        using False by (simp add: l h run_message_def f end_iteration_def agrees_def)
    next
      case none: False
      then have "\<forall>c\<in>set ?ws. parse_todo_list (call_args c) = None"
        using c by (cases "?ws = []") (auto simp: last_write_counts_def Let_def list_ex_iff writes_def [symmetric])
      then have f: "fold run_call (tool_calls m) (live ms) = live ms" by (rule fold_calls_none)
      have "scan_history 0 (m # rev ms) = scan_history (Suc 0) (rev ms)"
        using False none unfolding writes_def by (auto split: list.splits option.splits)
      then show ?thesis
        using False IH scan_shift [of "Suc 0" "rev ms"]
        by (auto simp: l h run_message_def f end_iteration_def agrees_def from_history_def)
    qed
  qed
qed (simp add: live_def from_history_def agrees_def fresh_def)

section \<open>A run of iterations\<close>

text \<open>One iteration of the engine: the reminder is decided before its calls run.\<close>

definition iteration :: "call list \<Rightarrow> staleness \<Rightarrow> bool \<times> staleness" where
  "iteration cs s =
     (let d = due (map call_name cs) s; s1 = (if d then reminded s else s)
      in (d, end_iteration (fold run_call cs s1)))"

fun reminders :: "call list list \<Rightarrow> staleness \<Rightarrow> bool list" where
  "reminders [] s = []"
| "reminders (cs # its) s = fst (iteration cs s) # reminders its (snd (iteration cs s))"

lemma fold_calls_since: "since (fold run_call cs s) \<le> since s"
proof (induction cs arbitrary: s)
  case (Cons c cs)
  have "since (run_call c s) \<le> since s"
    by (auto simp: run_call_def wrote_def split: option.split)
  then show ?case using Cons [of "run_call c s"] by simp
qed simp

lemma iteration_since:
  "since (snd (iteration cs s)) \<le> Suc (if fst (iteration cs s) then 0 else since s)"
  using fold_calls_since [of cs s] fold_calls_since [of cs "reminded s"]
  by (auto simp: iteration_def Let_def end_iteration_def reminded_def)

lemma first_reminder:
  "since s \<le> k \<Longrightarrow> j < length its \<Longrightarrow> reminders its s ! j \<Longrightarrow> TODO_REMINDER_EVERY \<le> j + k"
proof (induction its arbitrary: s k j)
  case (Cons cs its)
  show ?case
  proof (cases j)
    case 0
    then show ?thesis using Cons.prems by (auto simp: iteration_def Let_def due_def)
  next
    case (Suc j')
    have "since (snd (iteration cs s)) \<le> Suc k"
      using iteration_since [of cs s] Cons.prems(1) by (auto split: if_splits)
    then show ?thesis using Cons.IH [of "snd (iteration cs s)" "Suc k" j'] Cons.prems Suc by simp
  qed
qed simp

section \<open>Properties\<close>

text \<open>The staleness check a run seeds from its stored history is the one the run that wrote
  that history had (when no reminder has gone out): it asks for a reminder at exactly the
  same steps, provided no message ends with a refused list after an accepted one.\<close>

theorem seeded_as_live:
  assumes "\<forall>m\<in>set messages. from_assistant m \<longrightarrow> last_write_counts m"
  shows "due names (from_history messages) = due names (live messages)"
  using live_agrees [OF assms] by (auto simp: due_def agrees_def)

theorem seeded_as_live_witness:
  "due [''bash''] (from_history
      [\<lparr>from_assistant = True, tool_calls = [\<lparr>call_name = ''todo_write'',
          call_args = Some (JObj [(''todos'', JArr [JObj [(''text'', JStr ''a'')]])])\<rparr>]\<rparr>]) = False"
proof -
  let ?ms = "[\<lparr>from_assistant = True, tool_calls = [\<lparr>call_name = ''todo_write'',
          call_args = Some (JObj [(''todos'', JArr [JObj [(''text'', JStr ''a'')]])])\<rparr>]\<rparr>]"
  have "\<forall>m\<in>set ?ms. from_assistant m \<longrightarrow> last_write_counts m" by code_simp
  moreover have "due [''bash''] (live ?ms) = False" by code_simp
  ultimately show ?thesis using seeded_as_live [of ?ms "[''bash'']"] by simp
qed

text \<open>Reminders are at least ten tool iterations apart, whatever the iterations do.\<close>

theorem reminders_apart:
  assumes "i < j" "j < length its" "reminders its s ! i" "reminders its s ! j"
  shows "j - i \<ge> TODO_REMINDER_EVERY"
  using assms
proof (induction its arbitrary: i j s)
  case (Cons cs its)
  obtain j' where j: "j = Suc j'" using Cons.prems(1) by (cases j) auto
  show ?case
  proof (cases i)
    case 0
    then have "since (snd (iteration cs s)) \<le> 1"
      using Cons.prems(3) iteration_since [of cs s] by simp
    then have "TODO_REMINDER_EVERY \<le> j' + 1"
      using first_reminder [of "snd (iteration cs s)" 1 j' its] Cons.prems(2,4) j by simp
    then show ?thesis using 0 j by simp
  next
    case (Suc i')
    then show ?thesis using Cons.IH [of i' j' "snd (iteration cs s)"] Cons.prems j by simp
  qed
qed simp

theorem reminders_apart_witness:
  "reminders (replicate 21 []) \<lparr>is_open = True, since = 10, wrote_this_iteration = False\<rparr> ! 10 \<and> 10 - 0 \<ge> TODO_REMINDER_EVERY"
proof (rule conjI)
  show "reminders (replicate 21 []) \<lparr>is_open = True, since = 10, wrote_this_iteration = False\<rparr> ! 10" by code_simp
  then show "10 - 0 \<ge> TODO_REMINDER_EVERY"
    by (intro reminders_apart [of 0 10 "replicate 21 []" "\<lparr>is_open = True, since = 10, wrote_this_iteration = False\<rparr>"])
      (simp, simp, code_simp)
qed

end
