(* ===== verification/Markers.thy ===== *)
theory Markers
  imports Prelude
begin

text \<open>
  Text of unknown authorship is put between markers before the model reads it: a sub-agent's report
  (\<open>streams/runs/subagent-policy.ts\<close>), an MCP server's answer (\<open>mcp/sanitize.ts\<close>), an attached document
  (\<open>files/storage.ts\<close>). Each breaks any closing marker in the text with a zero-width space. This theory has what the three
  share: \<open>replaceAll\<close>, UTF-8, and the contract of a broken marker.
\<close>

section \<open>Replacing\<close>

text \<open>U+200B and U+FFFD, which are not below 256, are written as the unassigned positions 0x8D and 0x81, the dash U+2014 as
  Windows-1252 has it.\<close>

abbreviation ZWSP :: char where "ZWSP \<equiv> CHR 0x8D"
abbreviation EM_DASH :: char where "EM_DASH \<equiv> CHR 0x97"
abbreviation REPLACEMENT :: char where "REPLACEMENT \<equiv> CHR 0x81"

text \<open>\<open>s.replaceAll(pat, new)\<close>, for a pattern that is not empty.\<close>

function replace_all :: "js_string \<Rightarrow> js_string \<Rightarrow> js_string \<Rightarrow> js_string" where
  "replace_all pat new s =
     (if s = [] \<or> pat = [] then s
      else if starts_with s pat then new @ replace_all pat new (drop (length pat) s)
      else hd s # replace_all pat new (tl s))"
  by pat_completeness auto
termination
  by (relation "measure (\<lambda>(_, _, s). length s)") auto

declare replace_all.simps [simp del]

section \<open>UTF-8\<close>

text \<open>For the characters below U+0100.\<close>

definition utf8_char :: "char \<Rightarrow> nat list" where
  "utf8_char c =
     (let n = of_char c in if n < 128 then [n] else [192 + n div 64, 128 + n mod 64])"

definition utf8 :: "js_string \<Rightarrow> nat list" where
  "utf8 s = concat (map utf8_char s)"

text \<open>A first byte whose second one was cut off decodes to U+FFFD.\<close>

fun decode :: "nat list \<Rightarrow> js_string" where
  "decode [] = []"
| "decode [b] = [if b < 128 then char_of b else REPLACEMENT]"
| "decode (b # b' # bs) =
     (if b < 128 then char_of b # decode (b' # bs)
      else char_of ((b - 192) * 64 + (b' - 128)) # decode bs)"

lemma utf8_simps [simp]: "utf8 [] = []" "utf8 (c # s) = utf8_char c @ utf8 s" "utf8 (s @ t) = utf8 s @ utf8 t"
  by (simp_all add: utf8_def)

lemma of_char_less: "of_char c < (256 :: nat)"
  by (metis of_char_eq_iff of_char_mod_256 mod_less_divisor zero_less_numeral)

text \<open>A character is one byte or two, and the first says which.\<close>

lemma utf8_char_cases:
  obtains (one) n where "utf8_char c = [n]" "n < 128" "char_of n = c"
  | (two) b b' where "utf8_char c = [b, b']" "128 \<le> b" "char_of ((b - 192) * 64 + (b' - 128)) = c"
proof (cases "of_char c < (128 :: nat)")
  case True
  then show ?thesis using one [of "of_char c"] by (simp add: utf8_char_def)
next
  case False
  have "(of_char c :: nat) div 64 * 64 + of_char c mod 64 = of_char c" by (rule div_mult_mod_eq)
  then show ?thesis using two [of "192 + of_char c div 64" "128 + of_char c mod 64"] False by (simp add: utf8_char_def Let_def)
qed

lemma decode_char: "decode (utf8_char c @ bs) = c # decode bs"
proof (cases c rule: utf8_char_cases)
  case (one n)
  then show ?thesis by (cases bs) simp_all
qed simp

lemma decode_utf8: "decode (utf8 s) = s"
  by (induction s) (simp_all add: decode_char)

text \<open>What a cut in the middle of the bytes leaves: some whole characters, and perhaps half of one.\<close>

lemma decode_take_cases:
  obtains k where "decode (take n (utf8 s)) = take k s" "length (utf8 (take k s)) \<le> n" "k \<le> length s"
      "k < length s \<Longrightarrow> n < length (utf8 (take (Suc k) s))"
  | k where "decode (take n (utf8 s)) = take k s @ [REPLACEMENT]" "length (utf8 (take k s)) < n" "k < length s"
      "n < length (utf8 (take (Suc k) s))"
proof (induction s arbitrary: n thesis)
  case Nil
  then show ?case by simp
next
  case (Cons c s)
  note whole = Cons.prems(1) and half = Cons.prems(2)
  consider "n < length (utf8_char c)" | m where "n = length (utf8_char c) + m"
    using le_Suc_ex not_le by blast
  then show ?case
  proof cases
    case 1
    show ?thesis
    proof (cases "n = 0")
      case True
      then show ?thesis using whole [of 0] 1 by simp
    next
      case False
      obtain b b' where "utf8_char c = [b, b']" "128 \<le> b" "n = 1"
        using 1 False by (cases c rule: utf8_char_cases) auto
      then show ?thesis using half [of 0] by simp
    qed
  next
    case (2 m)
    have d: "decode (take n (utf8 (c # s))) = c # decode (take m (utf8 s))" by (simp add: 2 decode_char)
    show ?thesis
    proof (rule Cons.IH [of m])
      fix k assume "decode (take m (utf8 s)) = take k s" "length (utf8 (take k s)) \<le> m" "k \<le> length s"
        "k < length s \<Longrightarrow> m < length (utf8 (take (Suc k) s))"
      then show ?thesis using whole [of "Suc k"] d 2 by simp
    next
      fix k assume "decode (take m (utf8 s)) = take k s @ [REPLACEMENT]" "length (utf8 (take k s)) < m" "k < length s"
        "m < length (utf8 (take (Suc k) s))"
      then show ?thesis using half [of "Suc k"] d 2 by simp
    qed
  qed
qed

section \<open>Occurrences\<close>

declare contains.simps [simp del]

text \<open>A pattern that holds no \<open>sep\<close> does not reach across one.\<close>

lemma starts_with_sep: "sep \<notin> set m \<Longrightarrow> starts_with (x @ sep # y) m \<longleftrightarrow> starts_with x m"
proof (induction x arbitrary: m)
  case Nil
  then show ?case by (cases m) (auto simp: starts_with_def)
next
  case (Cons c x)
  then show ?case by (cases m) (auto simp: starts_with_def)
qed

lemma contains_sep:
  "sep \<notin> set m \<Longrightarrow> m \<noteq> [] \<Longrightarrow> contains (x @ sep # y) m \<longleftrightarrow> contains x m \<or> contains y m"
proof (induction x)
  case Nil
  then show ?case by (cases m) (auto simp: contains.simps starts_with_def)
next
  case (Cons c x)
  then show ?case using starts_with_sep [of sep m "c # x" y] by (auto simp: contains.simps)
qed

lemma contains_skip: "m \<noteq> [] \<Longrightarrow> hd m \<notin> set x \<Longrightarrow> contains (x @ y) m \<longleftrightarrow> contains y m"
  by (induction x) (auto simp: contains.simps starts_with_def neq_Nil_conv)

lemma contains_length: "length x < length m \<Longrightarrow> \<not> contains x m"
  by (induction x) (auto simp: contains.simps starts_with_def)

section \<open>A broken marker\<close>

text \<open>A marker opens with its only \<open><\<close>; the broken one is the same text with a zero-width space inside.\<close>

locale marker =
  fixes left right :: js_string
  assumes opens: "left \<noteq> []" "hd left = CHR ''<''"
    and once: "CHR ''<'' \<notin> set (tl left)" "CHR ''<'' \<notin> set right"
    and tail: "right \<noteq> []"
    and unbroken: "ZWSP \<notin> set left" "ZWSP \<notin> set right"
begin

lemma mark_shape: "left @ right = CHR ''<'' # tl left @ right" "left @ right \<noteq> []" "hd (left @ right) = CHR ''<''"
  "CHR ''<'' \<notin> set (tl left @ right)" "ZWSP \<notin> set (left @ right)"
  using opens once unbroken by (cases left; simp)+

lemma no_marker: "CHR ''<'' \<notin> set x \<Longrightarrow> \<not> contains x (left @ right)"
  using contains_skip [OF mark_shape(2), of x "[]"] mark_shape(2,3) by (simp add: contains.simps)

lemma skip_plain: "CHR ''<'' \<notin> set x \<Longrightarrow> contains (x @ y) (left @ right) \<longleftrightarrow> contains y (left @ right)"
  using contains_skip [OF mark_shape(2), of x y] mark_shape(3) by simp

lemma across: "sep \<notin> set (left @ right) \<Longrightarrow>
    contains (x @ sep # y) (left @ right) \<longleftrightarrow> contains x (left @ right) \<or> contains y (left @ right)"
  using contains_sep [OF _ mark_shape(2)] .

lemma replaced_starts:
  assumes "CHR ''<'' \<notin> set p" "starts_with (replace_all (left @ right) (left @ ZWSP # right) s) p"
  shows "starts_with s p"
  using assms
proof (induction p arbitrary: s)
  case (Cons c p)
  let ?r = "replace_all (left @ right) (left @ ZWSP # right)"
  show ?case
  proof (cases "s = [] \<or> starts_with s (left @ right)")
    case True
    obtain l where "left = CHR ''<'' # l" using opens by (cases left) auto
    then have "?r s = [] \<or> (\<exists>t. ?r s = CHR ''<'' # t)"
      using True by (subst (1 2) replace_all.simps) auto
    then show ?thesis using Cons.prems by (auto simp: starts_with_def)
  next
    case False
    then obtain d t where s: "s = d # t" by (cases s) auto
    have "?r s = d # ?r t"
      using False s opens(1) by (subst replace_all.simps) simp
    then show ?thesis using Cons.prems Cons.IH [of t] s by (auto simp: starts_with_def)
  qed
qed simp

lemma neutralised: "\<not> contains (replace_all (left @ right) (left @ ZWSP # right) s) (left @ right)"
proof (induction "length s" arbitrary: s rule: less_induct)
  case less
  let ?m = "left @ right" and ?r = "replace_all (left @ right) (left @ ZWSP # right)"
  show ?case
  proof (cases s)
    case Nil
    then show ?thesis using mark_shape(2) by (subst replace_all.simps) (auto simp: contains.simps)
  next
    case (Cons c t)
    show ?thesis
    proof (cases "starts_with s ?m")
      case True
      let ?rest = "?r (drop (length ?m) s)"
      have "?r s = left @ ZWSP # (right @ ?rest)"
        using True Cons opens(1) by (subst replace_all.simps) simp
      then have "contains (?r s) ?m \<longleftrightarrow> contains left ?m \<or> contains (right @ ?rest) ?m"
        using across [OF mark_shape(5)] by simp
      moreover have "\<not> contains left ?m" using tail by (intro contains_length) simp
      moreover have "\<not> contains ?rest ?m" by (rule less) (use Cons opens(1) in simp)
      ultimately show ?thesis using skip_plain [OF once(2)] by blast
    next
      case False
      have r: "?r s = c # ?r t" using False Cons opens(1) by (subst replace_all.simps) simp
      have "\<not> starts_with (?r s) ?m"
      proof
        assume "starts_with (?r s) ?m"
        then have "starts_with (c # ?r t) (CHR ''<'' # tl left @ right)" unfolding r mark_shape(1) [symmetric] .
        then have "c = CHR ''<''" "starts_with (?r t) (tl left @ right)" by (simp_all add: starts_with_def)
        then have "starts_with (c # t) (CHR ''<'' # tl left @ right)"
          using replaced_starts [OF mark_shape(4)] by (simp add: starts_with_def)
        then show False using False Cons unfolding mark_shape(1) [symmetric] by simp
      qed
      moreover have "\<not> contains (?r t) ?m" by (rule less) (simp add: Cons)
      ultimately show ?thesis using r by (simp add: contains.simps)
    qed
  qed
qed

text \<open>Written after a text that has none, on a line of its own, the marker is the first of its kind.\<close>

lemma closes_once:
  assumes "\<not> contains x (left @ right)" "NL \<notin> set (left @ right)"
  shows "\<not> contains (x @ NL # butlast (left @ right)) (left @ right)"
proof -
  have "\<not> contains (butlast (left @ right)) (left @ right)" using opens(1) by (intro contains_length) (cases left; simp)
  then show ?thesis using across [OF assms(2)] assms(1) by simp
qed

end

end
