(* ===== verification/Subagents.thy ===== *)
theory Subagents
  imports Markers Json "HOL-Library.Multiset" "HOL-Library.List_Lexorder" "HOL-Library.Char_ord"
begin

text \<open>
  Sub-agents: the list of them a thread keeps, folded from its stream's events
  (\<open>packages/types/src/subagents.ts\<close>), which model one runs on, and the text its parent is
  given (\<open>streams/runs/subagent-policy.ts\<close>).
\<close>

section \<open>The live list\<close>

datatype sub_status = SRunning | SComplete | SError | SCancelled

datatype sub_state = Queued | Working | AwaitingApproval

text \<open>
  A field that can be absent is an option; one that can be null as well, an option of an
  option. \<open>approval\<close> stands for the pending approval's record, which the fold only carries.
\<close>

record 'ap sub_live =
  conversation_id :: js_string
  stream_id :: js_string
  message_id :: js_string
  call_id :: js_string
  description :: js_string
  model :: js_string
  started_at :: int
  admitted_at :: "int option"
  status :: sub_status
  ended_at :: "int option"
  error_text :: "js_string option"
  state :: "sub_state option"
  iteration :: "int option"
  queue_position :: "int option"
  context_used :: "int option option"
  window_tokens :: "int option option"
  last_gen_tps :: "int option option"
  last_prompt_tps :: "int option option"
  tokens_out :: "int option"
  pending_approval :: "'ap option"

record 'ap sub_progress =
  p_state :: "sub_state option"
  p_admitted_at :: "int option"
  p_iteration :: "int option"
  p_queue_position :: "int option"
  p_context_used :: "int option option"
  p_window_tokens :: "int option option"
  p_last_gen_tps :: "int option option"
  p_last_prompt_tps :: "int option option"
  p_tokens_out :: "int option"
  p_pending_approval :: "'ap option option"  \<comment> \<open>\<open>Some None\<close> clears\<close>

datatype 'ap sub_event =
    Started js_string js_string js_string js_string js_string js_string int
      \<comment> \<open>message, call, conversation, stream, description, model, time\<close>
  | Progress js_string "'ap sub_progress"
  | SubEnded js_string sub_status int "js_string option"

fun event_conversation :: "'ap sub_event \<Rightarrow> js_string" where
  "event_conversation (Started m c conv st d mo t) = conv"
| "event_conversation (Progress conv p) = conv"
| "event_conversation (SubEnded conv st t e) = conv"

text \<open>\<open>{...current, ...fields}\<close>: a field the event has replaces the current one.\<close>

definition over :: "'a option \<Rightarrow> 'a option \<Rightarrow> 'a option" where
  "over new old = (case new of None \<Rightarrow> old | Some v \<Rightarrow> Some v)"

definition started_child :: "js_string \<Rightarrow> js_string \<Rightarrow> js_string \<Rightarrow> js_string \<Rightarrow> js_string \<Rightarrow> js_string \<Rightarrow> int \<Rightarrow> 'ap sub_live" where
  "started_child m c conv st d mo t =
     \<lparr>conversation_id = conv, stream_id = st, message_id = m, call_id = c, description = d, model = mo,
      started_at = t, admitted_at = None, status = SRunning, ended_at = None, error_text = None,
      state = Some Queued, iteration = None, queue_position = None, context_used = None,
      window_tokens = None, last_gen_tps = None, last_prompt_tps = None, tokens_out = None,
      pending_approval = None\<rparr>"

definition end_child :: "sub_status \<Rightarrow> int \<Rightarrow> js_string option \<Rightarrow> 'ap sub_live \<Rightarrow> 'ap sub_live" where
  "end_child st t e s =
     s\<lparr>state := None, queue_position := None, pending_approval := None, status := st, ended_at := Some t,
       error_text := over e (error_text s)\<rparr>"

definition progress_child :: "'ap sub_progress \<Rightarrow> 'ap sub_live \<Rightarrow> 'ap sub_live" where
  "progress_child p s =
     (let u = s\<lparr>state := over (p_state p) (state s), admitted_at := over (p_admitted_at p) (admitted_at s),
                iteration := over (p_iteration p) (iteration s),
                queue_position := over (p_queue_position p) (queue_position s),
                context_used := over (p_context_used p) (context_used s),
                window_tokens := over (p_window_tokens p) (window_tokens s),
                last_gen_tps := over (p_last_gen_tps p) (last_gen_tps s),
                last_prompt_tps := over (p_last_prompt_tps p) (last_prompt_tps s),
                tokens_out := over (p_tokens_out p) (tokens_out s),
                pending_approval :=
                  (case p_pending_approval p of None \<Rightarrow> pending_approval s | Some a \<Rightarrow> a)\<rparr>
      in if state u \<noteq> Some Queued then u\<lparr>queue_position := None\<rparr> else u)"

text \<open>The first entry of a conversation is replaced; the fold leaves the list alone without one.\<close>

fun update_first :: "js_string \<Rightarrow> ('ap sub_live \<Rightarrow> 'ap sub_live) \<Rightarrow> 'ap sub_live list \<Rightarrow> 'ap sub_live list" where
  "update_first conv f [] = []"
| "update_first conv f (s # ss) = (if conversation_id s = conv then f s # ss else s # update_first conv f ss)"

fun fold_sub_agent_event :: "'ap sub_live list \<Rightarrow> 'ap sub_event \<Rightarrow> 'ap sub_live list" where
  "fold_sub_agent_event ss (Started m c conv st d mo t) =
     filter (\<lambda>s. conversation_id s \<noteq> conv) ss @ [started_child m c conv st d mo t]"
| "fold_sub_agent_event ss (SubEnded conv st t e) = update_first conv (end_child st t e) ss"
| "fold_sub_agent_event ss (Progress conv p) =
     update_first conv (\<lambda>s. if status s \<noteq> SRunning then s else progress_child p s) ss"

definition SUBAGENT_LOST_ERROR :: js_string where
  "SUBAGENT_LOST_ERROR = ''The sub-agent did not finish: the server stopped while it was running.''"

definition end_stale_sub_agents :: "int \<Rightarrow> 'ap sub_live list \<Rightarrow> 'ap sub_live list" where
  "end_stale_sub_agents t ss =
     map (\<lambda>s. if status s = SRunning
              then hd (fold_sub_agent_event [s] (SubEnded (conversation_id s) SError t (Some SUBAGENT_LOST_ERROR)))
              else s) ss"

definition sub_rank :: "'ap sub_live \<Rightarrow> nat" where
  "sub_rank s = (if status s = SRunning then 0 else 1)"

text \<open>\<open>sort\<close> is stable: insertion before the first entry that is strictly after.\<close>

definition sub_before :: "'ap sub_live \<Rightarrow> 'ap sub_live \<Rightarrow> bool" where
  "sub_before a b \<longleftrightarrow> sub_rank a < sub_rank b \<or> (sub_rank a = sub_rank b \<and> started_at b \<le> started_at a)"

fun insert_sub :: "'ap sub_live \<Rightarrow> 'ap sub_live list \<Rightarrow> 'ap sub_live list" where
  "insert_sub a [] = [a]"
| "insert_sub a (b # bs) = (if sub_before a b then a # b # bs else b # insert_sub a bs)"

definition sort_sub_agents :: "'ap sub_live list \<Rightarrow> 'ap sub_live list" where
  "sort_sub_agents ss = foldr insert_sub ss []"

section \<open>What the list always satisfies\<close>

text \<open>An entry is consistent: what only a running or queued child has, only such a child has.\<close>

definition child_ok :: "'ap sub_live \<Rightarrow> bool" where
  "child_ok s \<longleftrightarrow>
     (status s \<noteq> SRunning \<longrightarrow> state s = None \<and> queue_position s = None \<and> pending_approval s = None \<and> ended_at s \<noteq> None)
     \<and> (status s = SRunning \<longrightarrow> state s \<noteq> None \<and> ended_at s = None)
     \<and> (queue_position s \<noteq> None \<longrightarrow> state s = Some Queued)"

text \<open>An end says how: never \<open>running\<close>.\<close>

fun event_ok :: "'ap sub_event \<Rightarrow> bool" where
  "event_ok (SubEnded conv st t e) \<longleftrightarrow> st \<noteq> SRunning"
| "event_ok e \<longleftrightarrow> True"

definition list_ok :: "'ap sub_live list \<Rightarrow> bool" where
  "list_ok ss \<longleftrightarrow> distinct (map conversation_id ss) \<and> list_all child_ok ss"

lemma map_update_first:
  "(\<And>s. conversation_id (f s) = conversation_id s) \<Longrightarrow>
   map conversation_id (update_first conv f ss) = map conversation_id ss"
  by (induction ss) auto

lemma all_update_first:
  "list_all P ss \<Longrightarrow> (\<And>s. P s \<Longrightarrow> P (f s)) \<Longrightarrow> list_all P (update_first conv f ss)"
  by (induction ss) auto

lemma progress_keeps: "conversation_id (progress_child p s) = conversation_id s" "status (progress_child p s) = status s"
  "ended_at (progress_child p s) = ended_at s"
  by (simp_all add: progress_child_def Let_def)

lemma child_ok_progress: "child_ok s \<Longrightarrow> status s = SRunning \<Longrightarrow> child_ok (progress_child p s)"
  by (auto simp: child_ok_def progress_child_def Let_def over_def split: option.splits)

lemma child_ok_end: "st \<noteq> SRunning \<Longrightarrow> child_ok (end_child st t e s)"
  by (simp add: child_ok_def end_child_def)

lemma fold_event_ok: "list_ok ss \<Longrightarrow> event_ok e \<Longrightarrow> list_ok (fold_sub_agent_event ss e)"
proof (cases e)
  case (Started m c conv st d mo t)
  assume "list_ok ss" "event_ok e"
  then show ?thesis
    by (auto simp: Started list_ok_def started_child_def child_ok_def list_all_iff distinct_map_filter)
next
  case (Progress conv p)
  assume "list_ok ss" "event_ok e"
  then show ?thesis
    by (auto simp: Progress list_ok_def map_update_first progress_keeps child_ok_progress intro!: all_update_first)
next
  case (SubEnded conv st t e')
  assume "list_ok ss" "event_ok e"
  then show ?thesis
    using map_update_first [of "end_child st t e'" conv ss]
    by (auto simp: SubEnded list_ok_def end_child_def child_ok_end [unfolded end_child_def] intro!: all_update_first)
qed

lemma events_ok: "list_all event_ok es \<Longrightarrow> list_ok ss \<Longrightarrow> list_ok (foldl fold_sub_agent_event ss es)"
  by (induction es arbitrary: ss) (auto simp: fold_event_ok)

definition status_of :: "js_string \<Rightarrow> 'ap sub_live list \<Rightarrow> sub_status option" where
  "status_of conv ss = map_option status (find (\<lambda>s. conversation_id s = conv) ss)"

lemma find_update_first:
  "(\<And>s. conversation_id (f s) = conversation_id s) \<Longrightarrow>
   find (\<lambda>s. conversation_id s = c) (update_first conv f ss)
     = (if c = conv then map_option f (find (\<lambda>s. conversation_id s = c) ss) else find (\<lambda>s. conversation_id s = c) ss)"
  by (induction ss) auto

lemma find_filter_other:
  "c \<noteq> conv \<Longrightarrow> find (\<lambda>s. conversation_id s = c) (filter (\<lambda>s. conversation_id s \<noteq> conv) ss @ [x])
     = (case find (\<lambda>s. conversation_id s = c) ss of Some s \<Rightarrow> Some s | None \<Rightarrow> if conversation_id x = c then Some x else None)"
  by (induction ss) auto

definition starts_again :: "js_string \<Rightarrow> 'ap sub_event \<Rightarrow> bool" where
  "starts_again conv e \<longleftrightarrow> (case e of Started m c v st d mo t \<Rightarrow> v = conv | _ \<Rightarrow> False)"

lemma ended_stays:
  assumes "status_of conv ss = Some st" "st \<noteq> SRunning" "event_ok e" "\<not> starts_again conv e"
  shows "\<exists>st'. status_of conv (fold_sub_agent_event ss e) = Some st' \<and> st' \<noteq> SRunning"
proof -
  obtain s where s: "find (\<lambda>s. conversation_id s = conv) ss = Some s" "status s = st"
    using assms(1) by (auto simp: status_of_def)
  show ?thesis
  proof (cases e)
    case (Started m c v st' d mo t)
    then show ?thesis using assms(2,4) s by (auto simp: status_of_def starts_again_def find_filter_other)
  next
    case (Progress v p)
    then show ?thesis
      using assms(2) s by (auto simp: status_of_def find_update_first progress_keeps)
  next
    case (SubEnded v st' t e')
    then show ?thesis
      using assms(2,3) s by (auto simp: status_of_def find_update_first end_child_def)
  qed
qed

lemma mset_insert_sub: "mset (insert_sub a ss) = add_mset a (mset ss)"
  by (induction ss) auto

lemma mset_sort_sub: "mset (sort_sub_agents ss) = mset ss"
  by (induction ss) (auto simp: sort_sub_agents_def mset_insert_sub)

lemma sub_before_total: "\<not> sub_before a b \<Longrightarrow> sub_before b a"
  by (auto simp: sub_before_def)

lemma sub_before_trans: "sub_before a b \<Longrightarrow> sub_before b c \<Longrightarrow> sub_before a c"
  by (auto simp: sub_before_def)

lemma sorted_insert_sub: "sorted_wrt sub_before ss \<Longrightarrow> sorted_wrt sub_before (insert_sub a ss)"
proof (induction ss)
  case (Cons b bs)
  have "set (insert_sub a bs) = insert a (set bs)" using mset_insert_sub [of a bs] by (metis set_mset_add_mset_insert set_mset_mset)
  then show ?case using Cons by (auto intro: sub_before_total sub_before_trans [of a b])
qed simp

lemma sorted_sort_sub: "sorted_wrt sub_before (sort_sub_agents ss)"
  by (induction ss) (auto simp: sort_sub_agents_def sorted_insert_sub)

section \<open>Which model a sub-agent runs on\<close>

datatype model_mode = Choose | Parent | Fixed

record model_policy =
  mode :: model_mode
  fixed_model :: "js_string option"

text \<open>
  The stored row: \<^const>\<open>None\<close> for a failed read, \<open>Some None\<close> for no row; a column that is not
  of its type reads as \<^const>\<open>None\<close>.
\<close>

definition load_subagent_policy :: "(model_mode option \<times> js_string option) option option \<Rightarrow> model_policy" where
  "load_subagent_policy row =
     (case row of
        None \<Rightarrow> \<lparr>mode = Parent, fixed_model = None\<rparr>
      | Some None \<Rightarrow> \<lparr>mode = Choose, fixed_model = None\<rparr>
      | Some (Some (md, mo)) \<Rightarrow>
          \<lparr>mode = (case md of Some m \<Rightarrow> m | None \<Rightarrow> Choose),
           fixed_model = (case mo of Some m \<Rightarrow> if m = [] then None else Some m | None \<Rightarrow> None)\<rparr>)"

definition offers_model_choice :: "model_policy \<Rightarrow> bool \<Rightarrow> bool" where
  "offers_model_choice policy routine \<longleftrightarrow> mode policy = Choose \<and> \<not> routine"

definition MAX_OFFERED_MODELS :: nat where
  "MAX_OFFERED_MODELS = 9"

definition usable_list :: "js_string list \<Rightarrow> js_string list option" where
  "usable_list raw = (let l = filter (\<lambda>v. v \<noteq> []) raw in if 1 < length l then Some l else None)"

text \<open>The loop of \<open>offeredSubagentModels\<close>; \<open>resolvable\<close> is what the provider table answers.\<close>

fun collect_models :: "(js_string \<Rightarrow> bool) \<Rightarrow> js_string list \<Rightarrow> js_string list \<Rightarrow> js_string list" where
  "collect_models resolvable out [] = out"
| "collect_models resolvable out (r # refs) =
     (if r = [] \<or> r = ''default'' then collect_models resolvable out refs
      else (let out' = (if resolvable r then out @ [r] else out) in
        if MAX_OFFERED_MODELS \<le> length out' then out' else collect_models resolvable out' refs))"

definition unique_refs :: "js_string list \<Rightarrow> js_string list" where
  "unique_refs refs = rev (remdups (rev refs))"

text \<open>
  What the conversation's stored list is after the call (frozen on first use) and what is
  offered. The write succeeds only while nothing is stored; \<open>racing\<close> is what another writer
  stored between the read and the write.
\<close>

definition offered_subagent_models ::
    "js_string list option \<Rightarrow> js_string list option \<Rightarrow> js_string \<Rightarrow> js_string list \<Rightarrow> (js_string \<Rightarrow> bool)
       \<Rightarrow> js_string list option \<times> js_string list option" where
  "offered_subagent_models stored racing parent recent resolvable =
     (case stored of
        Some l \<Rightarrow> (stored, usable_list l)
      | None \<Rightarrow>
          (let list = sort (collect_models resolvable [] (unique_refs (parent # recent)));
               stored' = (case racing of Some l \<Rightarrow> Some l | None \<Rightarrow> Some list)
           in (stored', usable_list (case stored' of Some l \<Rightarrow> l | None \<Rightarrow> list))))"

text \<open>The call's \<open>model\<close> argument: absent or null, a string, or another value as it prints in JSON.\<close>

datatype requested = NoRequest | ReqString js_string | ReqOther js_string

fun json_of_request :: "requested \<Rightarrow> js_string" where
  "json_of_request NoRequest = ''null''"
| "json_of_request (ReqString s) = json_string s"
| "json_of_request (ReqOther s) = s"

definition subagent_model_for ::
    "model_policy \<Rightarrow> js_string \<Rightarrow> requested \<Rightarrow> js_string list option \<Rightarrow> bool \<Rightarrow> js_string + js_string" where
  "subagent_model_for policy parent req offered routine =
     (if mode policy = Fixed then Inr (case fixed_model policy of Some m \<Rightarrow> m | None \<Rightarrow> parent)
      else if \<not> offers_model_choice policy routine then Inr parent
      else if req = NoRequest \<or> req = ReqString [] then Inr parent
      else
        (let known = (case offered of Some l \<Rightarrow> l | None \<Rightarrow> []) in
         case req of
           ReqString r \<Rightarrow>
             if r = parent \<or> r \<in> set known then Inr r
             else Inl (''Unknown model for a sub-agent: '' @ json_of_request req @ ''.'' @
                  (if known \<noteq> [] then '' Choose one of: '' @ join '', '' known @ ''; or omit `model`.'' else '' Omit `model`.''))
         | _ \<Rightarrow> Inl (''Unknown model for a sub-agent: '' @ json_of_request req @ ''.'' @
                  (if known \<noteq> [] then '' Choose one of: '' @ join '', '' known @ ''; or omit `model`.'' else '' Omit `model`.''))))"

lemma collect_models_props:
  "length out < MAX_OFFERED_MODELS \<Longrightarrow> list_all (\<lambda>r. resolvable r \<and> r \<noteq> [] \<and> r \<noteq> ''default'') out \<Longrightarrow>
   distinct (out @ refs) \<Longrightarrow>
   length (collect_models resolvable out refs) \<le> MAX_OFFERED_MODELS
   \<and> list_all (\<lambda>r. resolvable r \<and> r \<noteq> [] \<and> r \<noteq> ''default'') (collect_models resolvable out refs)
   \<and> distinct (collect_models resolvable out refs) \<and> set (collect_models resolvable out refs) \<subseteq> set out \<union> set refs
   \<and> set out \<subseteq> set (collect_models resolvable out refs)"
proof (induction refs arbitrary: out)
  case (Cons r refs)
  let ?o = "if resolvable r then out @ [r] else out"
  show ?case
  proof (cases "r = [] \<or> r = ''default'' \<or> MAX_OFFERED_MODELS \<le> length ?o")
    case True
    then show ?thesis
      using Cons.prems Cons.IH [of out] by (auto simp: Let_def)
  next
    case False
    then have "length ?o < MAX_OFFERED_MODELS" by simp
    moreover have "list_all (\<lambda>r. resolvable r \<and> r \<noteq> [] \<and> r \<noteq> ''default'') ?o" "distinct (?o @ refs)"
      using Cons.prems False by auto
    ultimately show ?thesis
      using Cons.IH [of ?o] False by (auto simp: Let_def split: if_splits)
  qed
qed simp

lemma unique_refs: "distinct (unique_refs refs)" "set (unique_refs refs) = set refs"
  by (simp_all add: unique_refs_def)

section \<open>What the parent reads\<close>

definition RESULT_CLOSE :: js_string where
  "RESULT_CLOSE = ''</subagent-result>''"

definition BROKEN_CLOSE :: js_string where
  "BROKEN_CLOSE = ''</subagent-'' @ [ZWSP] @ ''result>''"

definition MAX_SUBAGENT_RESULT_BYTES :: nat where
  "MAX_SUBAGENT_RESULT_BYTES = 16 * 1024"

fun char_start :: "nat list \<Rightarrow> nat \<Rightarrow> nat" where
  "char_start bytes 0 = 0"
| "char_start bytes (Suc n) = (if bytes ! Suc n div 64 = 2 then char_start bytes n else Suc n)"

definition TRUNCATION_NOTE :: js_string where
  "TRUNCATION_NOTE = [NL, NL] @ ''[The sub-agent'' @ [SQ] @ ''s reply was cut here: it was longer than 16 KB.]''"

definition truncate_utf8 :: "js_string \<Rightarrow> nat \<Rightarrow> js_string" where
  "truncate_utf8 s max_bytes =
     (let bytes = utf8 s in
      if length bytes \<le> max_bytes then s
      else decode (take (char_start bytes max_bytes) bytes) @ TRUNCATION_NOTE)"

definition result_label :: "js_string \<Rightarrow> js_string" where
  "result_label d = trim (map (\<lambda>c. if c = DQ \<or> c = CHR ''<'' \<or> c = CHR ''>'' \<or> c = CR \<or> c = NL then SP else c) d)"

definition subagent_result_text :: "js_string \<Rightarrow> sub_status \<Rightarrow> js_string \<Rightarrow> js_string option \<Rightarrow> js_string" where
  "subagent_result_text d st reply err =
     (let body = replace_all RESULT_CLOSE BROKEN_CLOSE (truncate_utf8 (trim reply) MAX_SUBAGENT_RESULT_BYTES);
          wrap = (\<lambda>inner. ''<subagent-result description='' @ [DQ] @ result_label d @ [DQ] @ ''>'' @ [NL] @ inner @ [NL] @ RESULT_CLOSE)
      in if st = SComplete then wrap (if body \<noteq> [] then body else ''The sub-agent finished without a final reply.'')
         else
           (let head = (if st = SCancelled then ''This sub-agent was stopped before it finished.''
                        else ''This sub-agent failed'' @
                          (case err of Some e \<Rightarrow> if e \<noteq> [] then '': '' @ e else ''.'' | None \<Rightarrow> ''.''))
            in wrap (if body \<noteq> [] then head @ '' What it had written so far:'' @ [NL, NL] @ body else head)))"

definition SUBAGENT_REPORT_UNREAD :: js_string where
  "SUBAGENT_REPORT_UNREAD =
     ''it finished, but its report could not be read back. Anything it changed is in the workspace; check there rather than assuming what it found''"

definition subagent_outcome :: "js_string \<Rightarrow> sub_status \<Rightarrow> js_string option \<Rightarrow> js_string option \<Rightarrow> js_string \<times> bool" where
  "subagent_outcome d st reply err =
     (if reply = None \<and> st = SComplete then (subagent_result_text d SError [] (Some SUBAGENT_REPORT_UNREAD), False)
      else (subagent_result_text d st (case reply of Some t \<Rightarrow> t | None \<Rightarrow> []) err, st = SComplete))"

lemma label_plain: "CHR ''<'' \<notin> set (result_label d)"
proof -
  have "set (trim x) \<subseteq> set x" for x
    by (auto simp: trim_def trim_left_def trim_right_def dest!: set_dropWhileD)
  then show ?thesis unfolding result_label_def by fastforce
qed

interpretation report: marker "''</subagent-''" "''result>''"
  by unfold_locales simp_all

lemma closes: "''</subagent-'' @ ''result>'' = RESULT_CLOSE" "''</subagent-'' @ ZWSP # ''result>'' = BROKEN_CLOSE"
  "NL \<notin> set RESULT_CLOSE" "SP \<notin> set RESULT_CLOSE" "RESULT_CLOSE \<noteq> []"
  by (simp_all add: RESULT_CLOSE_def BROKEN_CLOSE_def)

lemmas report_marker = report.no_marker [unfolded closes] report.skip_plain [unfolded closes]
  report.across [unfolded closes] report.neutralised [unfolded closes] report.closes_once [unfolded closes]

lemma wrap_has_none:
  assumes "\<not> contains inner RESULT_CLOSE"
  shows "\<not> contains (butlast (''<subagent-result description='' @ [DQ] @ result_label d @ [DQ] @ ''>'' @ [NL] @ inner @ [NL] @ RESULT_CLOSE)) RESULT_CLOSE"
proof -
  let ?attr = "''subagent-result description='' @ [DQ] @ result_label d @ [DQ] @ ''>''"
  have "\<not> contains ?attr RESULT_CLOSE" using label_plain [of d] by (intro report_marker) simp
  moreover have "\<not> starts_with (CHR ''<'' # ?attr) RESULT_CLOSE" by (simp add: RESULT_CLOSE_def starts_with_def)
  ultimately have "\<not> contains (CHR ''<'' # ?attr) RESULT_CLOSE" by (simp only: contains.simps simp_thms)
  then have "\<not> contains ((CHR ''<'' # ?attr) @ NL # inner) RESULT_CLOSE"
    using assms report_marker(3) [OF closes(3)] by blast
  from report_marker(5) [OF this closes(3)] show ?thesis using closes(5) by (simp add: butlast_append)
qed

section \<open>Properties\<close>

text \<open>The list of sub-agents a thread folds from any sequence of events is consistent: one
  entry per child conversation, a finished child has an end and neither a state, a place in
  line nor a pending question, and a running one has a state and only a queued one a place;
  closing the list of an ended thread keeps that and leaves no child running.\<close>

theorem sub_agent_list_consistent:
  assumes "list_all event_ok es"
  shows "list_ok (foldl fold_sub_agent_event [] es)
    \<and> list_ok (end_stale_sub_agents t (foldl fold_sub_agent_event [] es))
    \<and> list_all (\<lambda>s. status s \<noteq> SRunning) (end_stale_sub_agents t (foldl fold_sub_agent_event [] es))"
proof -
  have "list_ok ss \<Longrightarrow> list_ok (end_stale_sub_agents t ss)" for ss :: "'a sub_live list"
  proof -
    assume ok: "list_ok ss"
    have "map conversation_id (end_stale_sub_agents t ss) = map conversation_id ss"
      by (simp add: end_stale_sub_agents_def end_child_def)
    moreover have "list_all child_ok (end_stale_sub_agents t ss)"
      using ok by (auto simp: list_ok_def list_all_iff end_stale_sub_agents_def child_ok_end)
    ultimately show ?thesis using ok by (simp add: list_ok_def)
  qed
  moreover have "list_all (\<lambda>s. status s \<noteq> SRunning) (end_stale_sub_agents t ss)" for ss :: "'a sub_live list"
    by (auto simp: list_all_iff end_stale_sub_agents_def end_child_def)
  moreover have "list_ok (foldl fold_sub_agent_event [] es)"
    by (rule events_ok [OF assms]) (simp add: list_ok_def)
  ultimately show ?thesis by blast
qed

theorem sub_agent_list_consistent_witness:
  "list_ok (foldl fold_sub_agent_event []
     [Started ''m'' ''c'' ''v'' ''s'' ''d'' ''x'' 1, SubEnded ''v'' SComplete 2 None :: unit sub_event])"
  using sub_agent_list_consistent [of "[Started ''m'' ''c'' ''v'' ''s'' ''d'' ''x'' 1, SubEnded ''v'' SComplete 2 None :: unit sub_event]" 0]
  by simp

text \<open>A sub-agent never runs on a model nobody chose: it is the parent's, one offered to this
  conversation and asked for by name, or the one the person fixed; a routine and the parent
  mode only ever give the parent's; and a model that is not offered is an error, not a
  fallback.\<close>

theorem subagent_model_chosen:
  "case subagent_model_for policy parent req offered routine of
     Inr m \<Rightarrow>
       (mode policy = Fixed \<and> m = (case fixed_model policy of Some f \<Rightarrow> f | None \<Rightarrow> parent))
       \<or> (mode policy \<noteq> Fixed \<and> (m = parent
            \<or> (mode policy = Choose \<and> \<not> routine \<and> req = ReqString m \<and> (\<exists>l. offered = Some l \<and> m \<in> set l))))
   | Inl e \<Rightarrow> mode policy = Choose \<and> \<not> routine \<and> req \<noteq> NoRequest \<and> req \<noteq> ReqString parent
       \<and> (\<forall>l r. offered = Some l \<and> req = ReqString r \<longrightarrow> r \<notin> set l)"
  by (cases req; cases offered; cases "mode policy"; cases routine)
    (auto simp: subagent_model_for_def offers_model_choice_def Let_def)

theorem subagent_model_chosen_witness:
  "subagent_model_for \<lparr>mode = Choose, fixed_model = None\<rparr> ''p'' (ReqString ''q'') (Some [''q'']) False = Inr ''q''"
proof -
  have "subagent_model_for \<lparr>mode = Choose, fixed_model = None\<rparr> ''p'' (ReqString ''q'') (Some [''q'']) False = Inr ''q''"
    by code_simp
  then show ?thesis
    using subagent_model_chosen [where policy = "\<lparr>mode = Choose, fixed_model = None\<rparr>" and parent = "''p''"
        and req = "ReqString ''q''" and offered = "Some [''q'']" and routine = False]
    by simp
qed

text \<open>A sub-agent's report cannot end itself early: whatever the child wrote and however it
  was described, the closing marker occurs in the tool result only at its very end, provided
  the error text it carries holds no marker.\<close>

theorem report_cannot_close_early:
  assumes "\<forall>e. err = Some e \<longrightarrow> \<not> contains e RESULT_CLOSE"
  shows "\<not> contains (butlast (subagent_result_text d st reply err)) RESULT_CLOSE"
proof -
  let ?body = "replace_all RESULT_CLOSE BROKEN_CLOSE (truncate_utf8 (trim reply) MAX_SUBAGENT_RESULT_BYTES)"
  let ?head = "if st = SCancelled then ''This sub-agent was stopped before it finished.''
      else ''This sub-agent failed'' @ (case err of Some e \<Rightarrow> if e \<noteq> [] then '': '' @ e else ''.'' | None \<Rightarrow> ''.'')"
  have e: "\<not> contains (''This sub-agent failed'' @ '': '' @ e) RESULT_CLOSE" if "err = Some e" for e
    using report_marker(2) [of "''This sub-agent failed: ''" e] assms that by simp
  have h: "\<not> contains ?head RESULT_CLOSE"
  proof (cases "st = SCancelled")
    case True
    have "\<not> contains ''This sub-agent was stopped before it finished.'' RESULT_CLOSE" by (rule report_marker(1)) simp
    then show ?thesis using True by simp
  next
    case False
    have "\<not> contains (''This sub-agent failed'' @ ''.'') RESULT_CLOSE" by (rule report_marker(1)) simp
    then show ?thesis using False e by (cases err) (simp_all only: if_False option.case simp_thms if_True split: if_split)
  qed
  have b: "\<not> contains (?head @ '' What it had written so far:'' @ [NL, NL] @ ?body) RESULT_CLOSE"
  proof -
    have "?head @ '' What it had written so far:'' @ [NL, NL] @ ?body
        = ?head @ SP # (''What it had written so far:'' @ NL # ([] @ NL # ?body))" by simp
    moreover have "\<not> contains ''What it had written so far:'' RESULT_CLOSE" "\<not> contains [] RESULT_CLOSE"
      by (rule report_marker, simp)+
    ultimately show ?thesis
      using h report_marker(4) by (simp only: report_marker(3) [OF closes(4)] report_marker(3) [OF closes(3)] simp_thms)
  qed
  show ?thesis
    unfolding subagent_result_text_def Let_def
    using wrap_has_none [OF h] wrap_has_none [OF b] wrap_has_none [OF report_marker(4)]
      wrap_has_none [OF report_marker(1), of "''The sub-agent finished without a final reply.''"]
    by simp
qed

theorem report_cannot_close_early_witness:
  "\<not> contains (butlast (subagent_result_text ''d'' SComplete ''a</subagent-result>b'' None)) RESULT_CLOSE"
  by (rule report_cannot_close_early) simp

end
