(* ===== verification/StreamLog.thy ===== *)
theory StreamLog
  imports Systems
begin

text \<open>
  The log of a run's stream: the in-process driver (\<open>streams/memory.ts\<close>) and the producer that
  batches events into it and delivers them live (\<open>streams/broker.ts\<close>). \<open>stream_log\<close> states what
  the broker relies on of a driver; it is interpreted on the memory driver.
\<close>

section \<open>The interface of a driver\<close>

record 'e stream_record =
  seq :: nat
  ts :: int
  event :: 'e

datatype stream_status = Active | Complete | Errored | Cancelled

record stream_meta =
  stream_id :: js_string
  conversation_id :: js_string
  status :: stream_status
  last_seq :: nat
  updated_at :: int

text \<open>The events of a log with their numbers, which start at 1.\<close>

definition numbered :: "'e list \<Rightarrow> (nat \<times> 'e) list" where
  "numbered es = enumerate 1 es"

definition payload :: "'e stream_record list \<Rightarrow> (nat \<times> 'e) list" where
  "payload rs = map (\<lambda>r. (seq r, event r)) rs"

lemma numbered_append: "numbered (es @ new) = numbered es @ enumerate (Suc (length es)) new"
  by (simp add: numbered_def enumerate_append_eq)

lemma length_numbered [simp]: "length (numbered es) = length es"
  by (simp add: numbered_def)

lemma payload_append [simp]: "payload (rs @ rs') = payload rs @ payload rs'"
  by (simp add: payload_def)

text \<open>\<open>contents\<close> is a stream's log as the list of its events; a driver may refuse to append.\<close>

locale stream_log =
  fixes ok :: "'s \<Rightarrow> bool"
    and contents :: "js_string \<Rightarrow> 's \<Rightarrow> 'e list option"
    and append :: "js_string \<Rightarrow> 'e list \<Rightarrow> int \<Rightarrow> 's \<Rightarrow> ('e stream_record list \<times> 's) option"
    and read_from :: "js_string \<Rightarrow> nat \<Rightarrow> 's \<Rightarrow> 'e stream_record list"
    and close :: "js_string \<Rightarrow> stream_status \<Rightarrow> int \<Rightarrow> 's \<Rightarrow> 's"
  assumes append_known: "ok s \<Longrightarrow> contents i s \<noteq> None \<Longrightarrow> append i new t s \<noteq> None"
    and append_ok: "ok s \<Longrightarrow> append i new t s = Some (rs, s') \<Longrightarrow> ok s'"
    and append_contents: "ok s \<Longrightarrow> append i new t s = Some (rs, s') \<Longrightarrow>
      (\<exists>es. contents i s = Some es \<and> contents i s' = Some (es @ new)
        \<and> payload rs = drop (length es) (numbered (es @ new)))"
    and append_others: "ok s \<Longrightarrow> append i new t s = Some (rs, s') \<Longrightarrow> j \<noteq> i \<Longrightarrow> contents j s' = contents j s"
    and read_contents: "ok s \<Longrightarrow> contents i s = Some es \<Longrightarrow> payload (read_from i n s) = drop n (numbered es)"
    and close_ok: "ok s \<Longrightarrow> ok (close i st t s)"
    and close_contents: "ok s \<Longrightarrow> contents j (close i st t s) = contents j s"
begin

text \<open>
  What a client that catches up and then follows the stream sees: the records read after the
  last number it has, and then the batches as they are appended.
\<close>

fun append_all :: "js_string \<Rightarrow> ('e list \<times> int) list \<Rightarrow> 's \<Rightarrow> ('e stream_record list \<times> 's) option" where
  "append_all i [] s = Some ([], s)"
| "append_all i ((new, t) # batches) s =
     (case append i new t s of
        None \<Rightarrow> None
      | Some (rs, s') \<Rightarrow> map_option (\<lambda>(rs', s''). (rs @ rs', s'')) (append_all i batches s'))"

lemma append_all_contents:
  assumes "ok s" "contents i s = Some es"
  shows "\<exists>rs s'. append_all i batches s = Some (rs, s') \<and> ok s'
    \<and> contents i s' = Some (es @ concat (map fst batches))
    \<and> payload rs = drop (length es) (numbered (es @ concat (map fst batches)))"
  using assms
proof (induction batches arbitrary: s es)
  case Nil
  then show ?case by (simp add: payload_def)
next
  case (Cons b batches)
  obtain new t where b: "b = (new, t)" by (cases b)
  obtain rs s1 where a: "append i new t s = Some (rs, s1)"
    using append_known [OF Cons.prems(1), of i new t] Cons.prems(2) by (cases "append i new t s") auto
  then have s1: "ok s1" "contents i s1 = Some (es @ new)" "payload rs = drop (length es) (numbered (es @ new))"
    using append_ok [OF Cons.prems(1) a] append_contents [OF Cons.prems(1) a] Cons.prems(2) by auto
  obtain rs' s2 where r: "append_all i batches s1 = Some (rs', s2)" "ok s2"
      "contents i s2 = Some ((es @ new) @ concat (map fst batches))"
      "payload rs' = drop (length (es @ new)) (numbered ((es @ new) @ concat (map fst batches)))"
    using Cons.IH [OF s1(1,2)] by blast
  have "payload (rs @ rs') = drop (length es) (numbered (es @ new @ concat (map fst batches)))"
    using s1(3) r(4) by (simp add: numbered_append enumerate_append_eq)
  then show ?case
    using a r b by auto
qed

lemma catch_up:
  assumes "ok s" "contents i s = Some es" "append_all i batches s = Some (rs, s')"
  shows "payload (read_from i n s) @ payload rs = drop n (numbered (es @ concat (map fst batches)))
     \<or> length es < n"
proof (cases "n \<le> length es")
  case True
  have "payload rs = drop (length es) (numbered (es @ concat (map fst batches)))"
    using append_all_contents [OF assms(1,2), of batches] assms(3) by auto
  then show ?thesis
    using True read_contents [OF assms(1,2), of n] by (simp add: numbered_append)
qed simp

end

section \<open>The producer\<close>

text \<open>
  \<open>openProducer\<close> over any driver's \<open>append\<close>. \<open>inflight\<close> holds the batches that are durable and
  whose live delivery waits for the \<open>await\<close> to return; it returns in the order of the calls.
  \<open>emitted\<close> records what the engine has handed over, and \<open>finished\<close> that the end was announced.
\<close>

record ('e, 's) producer =
  buffer :: "'e list"
  timer :: bool
  ended :: bool
  store :: 's
  inflight :: "'e stream_record list list"
  delivered :: "'e stream_record list"
  finished :: bool
  emitted :: "'e list"

type_synonym ('e, 's) appender = "js_string \<Rightarrow> 'e list \<Rightarrow> int \<Rightarrow> 's \<Rightarrow> ('e stream_record list \<times> 's) option"

type_synonym 's finalizer = "js_string \<Rightarrow> stream_status \<Rightarrow> int \<Rightarrow> 's \<Rightarrow> 's"

definition open_producer :: "'s \<Rightarrow> ('e, 's) producer" where
  "open_producer s =
     \<lparr>buffer = [], timer = False, ended = False, store = s, inflight = [], delivered = [], finished = False, emitted = []\<rparr>"

definition flush :: "('e, 's) appender \<Rightarrow> js_string \<Rightarrow> int \<Rightarrow> ('e, 's) producer \<Rightarrow> ('e, 's) producer" where
  "flush app sid now p =
     (let p1 = p\<lparr>timer := False\<rparr> in
      if buffer p = [] then p1
      else case app sid (buffer p) now (store p) of
        None \<Rightarrow> p1\<lparr>buffer := []\<rparr>
      | Some (rs, s) \<Rightarrow> p1\<lparr>buffer := [], store := s, inflight := inflight p @ [rs]\<rparr>)"

definition emit :: "('e \<Rightarrow> bool) \<Rightarrow> ('e, 's) appender \<Rightarrow> js_string \<Rightarrow> int \<Rightarrow> 'e \<Rightarrow> ('e, 's) producer \<Rightarrow> ('e, 's) producer" where
  "emit is_delta app sid now e p =
     (if ended p then p
      else (let p1 = p\<lparr>buffer := buffer p @ [e], emitted := emitted p @ [e]\<rparr> in
        if is_delta e then p1\<lparr>timer := True\<rparr> else flush app sid now p1))"

definition deliver :: "('e, 's) producer \<Rightarrow> ('e, 's) producer" where
  "deliver p = p\<lparr>delivered := delivered p @ hd (inflight p), inflight := tl (inflight p)\<rparr>"

definition end_stream :: "('e, 's) appender \<Rightarrow> js_string \<Rightarrow> int \<Rightarrow> ('e, 's) producer \<Rightarrow> ('e, 's) producer" where
  "end_stream app sid now p = (if ended p then p else flush app sid now (p\<lparr>ended := True\<rparr>))"

inductive producer_step :: "('e \<Rightarrow> bool) \<Rightarrow> ('e, 's) appender \<Rightarrow> 's finalizer \<Rightarrow> js_string \<Rightarrow> ('e, 's) producer \<Rightarrow> ('e, 's) producer \<Rightarrow> bool"
  for is_delta app fin sid where
  emits: "producer_step is_delta app fin sid p (emit is_delta app sid now e p)"
| fires: "timer p \<Longrightarrow> producer_step is_delta app fin sid p (flush app sid now p)"
| delivers: "inflight p \<noteq> [] \<Longrightarrow> producer_step is_delta app fin sid p (deliver p)"
| ends: "producer_step is_delta app fin sid p (end_stream app sid now p)"
| finishes: "ended p \<Longrightarrow> inflight p = [] \<Longrightarrow> \<not> finished p \<Longrightarrow>
    producer_step is_delta app fin sid p (p\<lparr>finished := True, store := fin sid st now (store p)\<rparr>)"

inductive_cases producer_stepE: "producer_step is_delta app fin sid p p'"

context stream_log
begin

text \<open>Nothing is lost or reordered on the way from the engine to the log to the followers.\<close>

definition log_inv :: "js_string \<Rightarrow> ('e, 's) producer \<Rightarrow> bool" where
  "log_inv sid p \<longleftrightarrow>
     ok (store p)
     \<and> (\<exists>durable. contents sid (store p) = Some durable \<and> emitted p = durable @ buffer p
          \<and> payload (delivered p @ concat (inflight p)) = numbered durable)"

definition producer_inv :: "js_string \<Rightarrow> ('e, 's) producer \<Rightarrow> bool" where
  "producer_inv sid p \<longleftrightarrow> log_inv sid p \<and> (buffer p \<noteq> [] \<longrightarrow> timer p \<and> \<not> ended p)"

lemma flush_keeps:
  assumes "log_inv sid p"
  shows "log_inv sid (flush append sid now p)" "buffer (flush append sid now p) = []"
proof -
  obtain durable where d: "ok (store p)" "contents sid (store p) = Some durable"
      "emitted p = durable @ buffer p" "payload (delivered p @ concat (inflight p)) = numbered durable"
    using assms by (auto simp: log_inv_def)
  obtain rs s where a: "append sid (buffer p) now (store p) = Some (rs, s)"
    using append_known [OF d(1), of sid "buffer p" now] d(2) by (cases "append sid (buffer p) now (store p)") auto
  have "contents sid s = Some (durable @ buffer p)"
      "payload rs = drop (length durable) (numbered (durable @ buffer p))" "ok s"
    using append_contents [OF d(1) a] append_ok [OF d(1) a] d(2) by auto
  then show "log_inv sid (flush append sid now p)"
    using d a by (cases "buffer p = []") (simp_all add: flush_def Let_def log_inv_def numbered_append)
  show "buffer (flush append sid now p) = []"
    using a by (simp add: flush_def Let_def)
qed

lemma producer_inv_step: "producer_step is_delta append close sid p p' \<Longrightarrow> producer_inv sid p \<Longrightarrow> producer_inv sid p'"
proof (induction rule: producer_step.induct)
  case (emits p now e)
  let ?p = "p\<lparr>buffer := buffer p @ [e], emitted := emitted p @ [e]\<rparr>"
  have l: "log_inv sid ?p"
    using emits by (auto simp: producer_inv_def log_inv_def)
  consider "ended p" | "\<not> ended p" "is_delta e" | "\<not> ended p" "\<not> is_delta e" by blast
  then show ?case
  proof cases
    case 2
    then show ?thesis using l by (simp add: emit_def Let_def producer_inv_def log_inv_def)
  next
    case 3
    then show ?thesis using flush_keeps [OF l, of now] by (simp add: emit_def Let_def producer_inv_def)
  qed (use emits in \<open>simp add: emit_def\<close>)
next
  case (fires p now)
  then show ?case by (simp add: producer_inv_def flush_keeps)
next
  case (delivers p)
  then obtain rs rest where "inflight p = rs # rest" by (cases "inflight p") auto
  then show ?case using delivers by (simp add: producer_inv_def log_inv_def deliver_def)
next
  case (ends p now)
  have l: "log_inv sid (p\<lparr>ended := True\<rparr>)" using ends by (simp add: producer_inv_def log_inv_def)
  show ?case
    using flush_keeps [OF l, of now] ends by (auto simp: end_stream_def producer_inv_def)
next
  case (finishes p st now)
  then show ?case by (auto simp: producer_inv_def log_inv_def close_ok close_contents)
qed

lemma producer_run_inv:
  assumes "(producer_step is_delta append close sid)\<^sup>*\<^sup>* (open_producer s) p" "ok s" "contents sid s = Some []"
  shows "producer_inv sid p"
proof -
  have p: "preserved (producer_step is_delta append close sid) (producer_inv sid)"
    by unfold_locales (rule producer_inv_step)
  show ?thesis
    by (rule preserved.run_inv [OF p assms(1)])
      (use assms(2,3) in \<open>simp add: producer_inv_def log_inv_def open_producer_def payload_def numbered_def\<close>)
qed

end

section \<open>The memory driver\<close>

record 'e memory =
  streams :: "js_string \<Rightarrow> (stream_meta \<times> 'e stream_record list) option"
  conv_streams :: "js_string \<Rightarrow> js_string list option"

definition empty_memory :: "'e memory" where
  "empty_memory = \<lparr>streams = (\<lambda>_. None), conv_streams = (\<lambda>_. None)\<rparr>"

definition conv_list :: "js_string \<Rightarrow> 'e memory \<Rightarrow> js_string list" where
  "conv_list c m = (case conv_streams m c of Some l \<Rightarrow> l | None \<Rightarrow> [])"

definition create_stream :: "js_string \<Rightarrow> js_string \<Rightarrow> int \<Rightarrow> 'e memory \<Rightarrow> 'e memory" where
  "create_stream sid conv now m =
     m\<lparr>streams := (streams m)(sid \<mapsto>
          (\<lparr>stream_id = sid, conversation_id = conv, status = Active, last_seq = 0, updated_at = now\<rparr>, [])),
       conv_streams := (conv_streams m)(conv \<mapsto> conv_list conv m @ [sid])\<rparr>"

definition number_from :: "nat \<Rightarrow> int \<Rightarrow> 'e list \<Rightarrow> 'e stream_record list" where
  "number_from n now es = map (\<lambda>(k, e). \<lparr>seq = n + Suc k, ts = now, event = e\<rparr>) (zip [0..<length es] es)"

definition mem_append :: "js_string \<Rightarrow> 'e list \<Rightarrow> int \<Rightarrow> 'e memory \<Rightarrow> ('e stream_record list \<times> 'e memory) option" where
  "mem_append sid es now m =
     (case streams m sid of
        None \<Rightarrow> None
      | Some (meta, rs) \<Rightarrow>
          (let out = number_from (last_seq meta) now es in
           Some (out, m\<lparr>streams := (streams m)(sid \<mapsto>
             (meta\<lparr>last_seq := last_seq meta + length es, updated_at := now\<rparr>, rs @ out))\<rparr>)))"

definition mem_read_from :: "js_string \<Rightarrow> nat \<Rightarrow> 'e memory \<Rightarrow> 'e stream_record list" where
  "mem_read_from sid n m =
     (case streams m sid of None \<Rightarrow> [] | Some (meta, rs) \<Rightarrow> filter (\<lambda>r. n < seq r) rs)"

definition get_meta :: "js_string \<Rightarrow> 'e memory \<Rightarrow> stream_meta option" where
  "get_meta sid m = map_option fst (streams m sid)"

definition finalize :: "js_string \<Rightarrow> stream_status \<Rightarrow> int \<Rightarrow> 'e memory \<Rightarrow> 'e memory" where
  "finalize sid st now m =
     (case streams m sid of
        None \<Rightarrow> m
      | Some (meta, rs) \<Rightarrow> m\<lparr>streams := (streams m)(sid \<mapsto> (meta\<lparr>status := st, updated_at := now\<rparr>, rs))\<rparr>)"

definition list_active :: "js_string \<Rightarrow> 'e memory \<Rightarrow> stream_meta list" where
  "list_active conv m =
     filter (\<lambda>meta. status meta = Active) (List.map_filter (\<lambda>sid. get_meta sid m) (conv_list conv m))"

definition list_conv_streams :: "js_string \<Rightarrow> 'e memory \<Rightarrow> js_string list" where
  "list_conv_streams conv m = conv_list conv m"

definition keep_ids :: "js_string list \<Rightarrow> js_string list option" where
  "keep_ids ids = (if ids = [] then None else Some ids)"

definition delete_stream :: "js_string \<Rightarrow> 'e memory \<Rightarrow> 'e memory" where
  "delete_stream sid m =
     (case streams m sid of
        None \<Rightarrow> m
      | Some (meta, rs) \<Rightarrow>
          (let m' = m\<lparr>streams := (streams m)(sid := None)\<rparr> in
           if conversation_id meta = [] then m'
           else m'\<lparr>conv_streams := (conv_streams m)(conversation_id meta :=
                  keep_ids (filter (\<lambda>i. i \<noteq> sid) (conv_list (conversation_id meta) m)))\<rparr>))"

definition sweep :: "int \<Rightarrow> int \<Rightarrow> 'e memory \<Rightarrow> 'e memory" where
  "sweep ttl_seconds now m =
     (let cutoff = now - ttl_seconds * 1000;
          live = (\<lambda>sid. case streams m sid of
             None \<Rightarrow> None
           | Some (meta, rs) \<Rightarrow>
               if status meta \<noteq> Active \<and> updated_at meta < cutoff then None else Some (meta, rs))
      in \<lparr>streams = live,
          conv_streams = (\<lambda>c. case conv_streams m c of
             None \<Rightarrow> None | Some ids \<Rightarrow> keep_ids (filter (\<lambda>i. live i \<noteq> None) ids))\<rparr>)"

text \<open>A log is numbered from 1 without gaps, and every indexed stream exists for its conversation.\<close>

definition log_ok :: "stream_meta \<times> 'e stream_record list \<Rightarrow> bool" where
  "log_ok entry \<longleftrightarrow>
     last_seq (fst entry) = length (snd entry) \<and> payload (snd entry) = numbered (map event (snd entry))"

definition memory_ok :: "'e memory \<Rightarrow> bool" where
  "memory_ok m \<longleftrightarrow> (\<forall>sid entry. streams m sid = Some entry \<longrightarrow> log_ok entry)"

definition mem_contents :: "js_string \<Rightarrow> 'e memory \<Rightarrow> 'e list option" where
  "mem_contents sid m = map_option (\<lambda>(meta, rs). map event rs) (streams m sid)"

lemma number_from_payload: "payload (number_from n now es) = enumerate (Suc n) es"
  by (rule nth_equalityI) (auto simp: number_from_def payload_def nth_enumerate_eq)

lemma number_from_event: "map event (number_from n now es) = es" "length (number_from n now es) = length es"
  by (rule nth_equalityI) (auto simp: number_from_def)

lemma memory_ok_append:
  assumes "memory_ok m" "mem_append sid es now m = Some (out, m')"
  shows "memory_ok m'"
  using assms
  by (auto simp: memory_ok_def mem_append_def Let_def log_ok_def number_from_payload number_from_event numbered_append
      split: option.splits if_splits)

lemma filter_seq:
  assumes "payload rs = numbered (map event rs)"
  shows "filter (\<lambda>r. n < seq r) rs = drop n rs"
proof -
  have s: "seq (rs ! i) = Suc i" if "i < length rs" for i
    using arg_cong [OF assms, of "\<lambda>xs. fst (xs ! i)"] that
    by (simp add: payload_def numbered_def nth_enumerate_eq)
  have "filter (\<lambda>r. n < seq r) (take n rs) = []"
    by (auto simp: filter_empty_conv in_set_conv_nth s)
  moreover have "filter (\<lambda>r. n < seq r) (drop n rs) = drop n rs"
    by (auto simp: filter_id_conv in_set_conv_nth s)
  ultimately show ?thesis by (metis append_Nil append_take_drop_id filter_append)
qed

interpretation mem: stream_log memory_ok mem_contents mem_append mem_read_from finalize
proof (unfold_locales, goal_cases)
  case (1 s i new t)
  then show ?case by (auto simp: mem_contents_def mem_append_def Let_def split: option.splits)
next
  case (2 s i new t rs s')
  then show ?case by (rule memory_ok_append)
next
  case (3 s i new t rs s')
  then obtain meta old where m: "streams s i = Some (meta, old)"
    by (auto simp: mem_append_def split: option.splits)
  then have l: "log_ok (meta, old)" using 3(1) by (auto simp: memory_ok_def)
  have r: "rs = number_from (length old) t new" "mem_contents i s' = Some (map event old @ new)"
    using 3(2) m l by (auto simp: mem_append_def Let_def mem_contents_def number_from_event log_ok_def)
  then have "payload rs = drop (length old) (numbered (map event old @ new))"
    by (simp add: numbered_append number_from_payload)
  then show ?case using m r by (intro exI [of _ "map event old"]) (simp add: mem_contents_def)
next
  case (4 s i new t rs s' j)
  then show ?case by (auto simp: mem_append_def Let_def mem_contents_def split: option.splits)
next
  case (5 s i es n)
  then obtain meta rs where m: "streams s i = Some (meta, rs)" "es = map event rs"
    by (auto simp: mem_contents_def)
  then have l: "log_ok (meta, rs)" using 5(1) by (auto simp: memory_ok_def)
  have "mem_read_from i n s = drop n rs"
    using m(1) filter_seq [of rs n] l by (simp add: mem_read_from_def log_ok_def)
  moreover have "payload (drop n rs) = drop n (payload rs)"
    by (simp add: payload_def drop_map)
  ultimately show ?case
    using l m(2) by (simp add: log_ok_def)
next
  case (6 s i st t)
  then show ?case by (auto simp: memory_ok_def finalize_def log_ok_def split: option.split)
next
  case (7 s j i st t)
  then show ?case by (auto simp: mem_contents_def finalize_def split: option.split)
qed

lemma created_ok: "memory_ok m \<Longrightarrow> memory_ok (create_stream sid conv now m)"
  by (auto simp: memory_ok_def create_stream_def log_ok_def payload_def numbered_def)

lemma created_empty: "mem_contents sid (create_stream sid conv now m) = Some []"
  by (simp add: mem_contents_def create_stream_def)

section \<open>Properties\<close>

text \<open>C25: No event of a run is lost, repeated or reordered: at every moment of a run what has been
  delivered live is a prefix of the durable log, numbered from 1, the log followed by the
  buffer is exactly what the engine emitted, and a buffer that is not empty has its flush
  scheduled; once the stream has ended and its last batch is out, everything emitted is in
  the log and was delivered.\<close>

theorem producer_loses_nothing:
  assumes "(producer_step is_delta mem_append finalize sid)\<^sup>*\<^sup>* (open_producer (create_stream sid conv now m)) p" "memory_ok m"
  shows "\<exists>durable rest. mem_contents sid (store p) = Some durable \<and> emitted p = durable @ buffer p
    \<and> numbered durable = payload (delivered p) @ rest
    \<and> (buffer p \<noteq> [] \<longrightarrow> timer p)
    \<and> (ended p \<and> inflight p = [] \<longrightarrow> durable = emitted p \<and> rest = [])"
proof -
  have "mem.producer_inv sid p"
    by (rule mem.producer_run_inv [OF assms(1) created_ok [OF assms(2)] created_empty])
  then obtain durable where "mem_contents sid (store p) = Some durable" "emitted p = durable @ buffer p"
      "numbered durable = payload (delivered p) @ payload (concat (inflight p))"
      "buffer p \<noteq> [] \<longrightarrow> timer p \<and> \<not> ended p"
    unfolding mem.producer_inv_def mem.log_inv_def by auto
  then show ?thesis
    by (intro exI [of _ durable] exI [of _ "payload (concat (inflight p))"]) (auto simp: payload_def)
qed

theorem producer_loses_nothing_witness:
  "\<exists>p. (producer_step (\<lambda>e. e > (5::nat)) mem_append finalize ''s'')\<^sup>*\<^sup>* (open_producer (create_stream ''s'' ''c'' 0 empty_memory)) p
     \<and> ended p \<and> map event (delivered p) = [7, 1] \<and> mem_contents ''s'' (store p) = Some [7, 1]"
proof -
  let ?app = "mem_append :: (nat, nat memory) appender" and ?d = "\<lambda>e. e > (5::nat)"
  let ?p0 = "open_producer (create_stream ''s'' ''c'' 0 empty_memory) :: (nat, nat memory) producer"
  let ?p1 = "emit ?d ?app ''s'' 1 7 ?p0"
  let ?p2 = "emit ?d ?app ''s'' 2 1 ?p1"
  let ?p3 = "end_stream ?app ''s'' 3 ?p2"
  let ?p4 = "deliver ?p3" and ?f = "finalize :: nat memory finalizer"
  have e: "ended ?p4" "inflight ?p3 \<noteq> []" "inflight ?p4 = []" "emitted ?p4 = [7, 1]" "map event (delivered ?p4) = [7, 1]"
    by code_simp+
  have r: "(producer_step ?d ?app ?f ''s'')\<^sup>*\<^sup>* ?p0 ?p4"
  proof -
    have "producer_step ?d ?app ?f ''s'' ?p0 ?p1" "producer_step ?d ?app ?f ''s'' ?p1 ?p2"
      "producer_step ?d ?app ?f ''s'' ?p2 ?p3" "producer_step ?d ?app ?f ''s'' ?p3 ?p4"
      by (rule producer_step.emits producer_step.ends producer_step.delivers [OF e(2)])+
    then show ?thesis by (meson rtranclp.rtrancl_into_rtrancl rtranclp.rtrancl_refl)
  qed
  have "memory_ok (empty_memory :: nat memory)" by (simp add: memory_ok_def empty_memory_def)
  from producer_loses_nothing [OF r this] show ?thesis
    using e r by (intro exI [of _ ?p4]) auto
qed

text \<open>C32: A device that reconnects sees every event it has not seen exactly once and in order: the
  records after the last number it has, followed by the batches appended after that read, are
  the whole log from there on.\<close>

theorem reconnect_exact:
  assumes "memory_ok m" "mem_contents sid m = Some es" "n \<le> length es"
  shows "\<exists>live m'. mem.append_all sid batches m = Some (live, m')
    \<and> payload (mem_read_from sid n m) @ payload live = drop n (numbered (es @ concat (map fst batches)))
    \<and> payload (mem_read_from sid n m') = payload (mem_read_from sid n m) @ payload live"
proof -
  obtain live m' where a: "mem.append_all sid batches m = Some (live, m')" "memory_ok m'"
      "mem_contents sid m' = Some (es @ concat (map fst batches))"
    using mem.append_all_contents [OF assms(1,2), of batches] by blast
  then show ?thesis
    using mem.catch_up [OF assms(1,2) a(1), of n] assms(3) mem.read_contents [OF a(2,3), of n] by simp
qed

theorem reconnect_exact_witness:
  "\<exists>live m'. mem.append_all ''s'' [([3::nat], 1)] (create_stream ''s'' ''c'' 0 empty_memory) = Some (live, m')
     \<and> payload live = numbered [3]"
proof -
  let ?m = "create_stream ''s'' ''c'' 0 empty_memory :: nat memory"
  have ok: "memory_ok ?m" by (rule created_ok) (simp add: memory_ok_def empty_memory_def)
  from reconnect_exact [OF ok created_empty, of 0 "[([3], 1)]"] show ?thesis
    by (auto simp: mem_read_from_def create_stream_def payload_def)
qed

end
