(* ===== verification/Snapshot.thy ===== *)
theory Snapshot
  imports StreamLog Subagents
begin

text \<open>
  What a reconnecting client is told of a run: \<open>foldSnapshot\<close> of \<open>streams/broker.ts\<close>, which
  folds the durable log into one snapshot. Data the fold only carries (usage, arguments,
  outputs, todo lists, deadlines) has the type \<open>'x\<close>; text it builds is text.
\<close>

record 'x tool_call =
  tc_id :: js_string
  tc_tool :: js_string
  tc_args :: 'x
  tc_output :: "'x option"
  tc_ok :: "bool option"
  tc_diff :: "'x option"
  tc_permission :: "'x option"
  tc_images :: "'x option"
  tc_browser :: bool
  tc_notice :: "'x option"

record 'x snap_message =
  sm_id :: js_string
  sm_author :: js_string
  sm_parent :: "js_string option"
  sm_text :: js_string
  sm_thinking :: js_string
  sm_calls :: "'x tool_call list"
  sm_status :: js_string
  sm_lamport :: "int option"
  sm_started_at :: "int option"
  sm_model :: "js_string option"
  sm_attachments :: "'x option"
  sm_author_user :: "js_string option option"
  sm_usage :: "'x option"
  sm_error :: "js_string option"
  sm_error_code :: "js_string option"
  sm_checkin_decision :: "'x option"
  sm_compaction :: "'x option"
  sm_instructions :: "'x option"
  sm_skill :: "'x option"
  sm_skills :: "'x option"

record 'x msg_start =
  ms_id :: js_string
  ms_author :: js_string
  ms_parent :: "js_string option"
  ms_lamport :: "int option"
  ms_started_at :: "int option"
  ms_model :: "js_string option"
  ms_text :: "js_string option"
  ms_attachments :: "'x option"  \<comment> \<open>absent for none and for the empty list\<close>
  ms_author_user :: "js_string option option"

record 'x tool_outcome =
  r_message :: js_string
  r_call :: js_string
  r_output :: 'x
  r_ok :: bool
  r_diff :: "'x option"
  r_permission :: "'x option"
  r_images :: "'x option"
  r_browser :: bool
  r_notice :: "'x option"

datatype 'x stream_event =
    SubAgentEv "'x sub_event"
  | MessageStart "'x msg_start"
  | TextDelta js_string js_string
  | ThinkingDelta js_string js_string
  | PromptCache js_string 'x
  | PromptStats js_string 'x
  | MessageUsage js_string 'x
  | MessageEnd js_string js_string "'x option" "js_string option" "js_string option"
  | ModelLoading
  | ContextStage 'x
  | RunQueued int
  | RunMode js_string
  | Iteration int int bool
  | StepsCheckin int int bool 'x
  | StepsDecision bool 'x  \<comment> \<open>whether by the timeout\<close>
  | ToolCall js_string js_string js_string 'x
  | ApprovalRequest js_string 'x
  | ToolResult "'x tool_outcome"
  | TodosEv 'x
  | Compaction js_string 'x
  | InstructionsUpdate js_string 'x
  | SkillInvoked js_string 'x
  | SkillsUpdate js_string 'x

text \<open>The accumulators of the fold; \<open>messages\<close> is in order of first mention.\<close>

record 'x snapshot =
  messages :: "'x snap_message list"
  queued :: "int option"
  context_stage :: "'x option"
  snap_iteration :: "(int \<times> int \<times> bool) option"
  snap_todos :: "'x option"
  pending_question :: "(js_string \<times> 'x) option"  \<comment> \<open>\<open>pendingApproval\<close>: its call and the request\<close>
  pending_checkin :: "'x option"
  prompt_stats :: "(js_string \<times> 'x) option"
  prompt_cache :: "(js_string \<times> 'x) option"
  subagents :: "'x sub_live list"
  run_mode :: "js_string option"

definition empty_snapshot :: "'x snapshot" where
  "empty_snapshot =
     \<lparr>messages = [], queued = None, context_stage = None, snap_iteration = None, snap_todos = None,
      pending_question = None, pending_checkin = None, prompt_stats = None, prompt_cache = None,
      subagents = [], run_mode = None\<rparr>"

definition new_message :: "js_string \<Rightarrow> 'x snap_message" where
  "new_message i =
     \<lparr>sm_id = i, sm_author = ''assistant'', sm_parent = None, sm_text = [], sm_thinking = [], sm_calls = [],
      sm_status = ''streaming'', sm_lamport = None, sm_started_at = None, sm_model = None, sm_attachments = None,
      sm_author_user = None, sm_usage = None, sm_error = None, sm_error_code = None, sm_checkin_decision = None,
      sm_compaction = None, sm_instructions = None, sm_skill = None, sm_skills = None\<rparr>"

text \<open>\<open>ensure(id)\<close> and a change of the message it returns.\<close>

fun on_message :: "js_string \<Rightarrow> ('x snap_message \<Rightarrow> 'x snap_message) \<Rightarrow> 'x snap_message list \<Rightarrow> 'x snap_message list" where
  "on_message i f [] = [f (new_message i)]"
| "on_message i f (m # ms) = (if sm_id m = i then f m # ms else m # on_message i f ms)"

definition start_message :: "'x msg_start \<Rightarrow> 'x snap_message \<Rightarrow> 'x snap_message" where
  "start_message e m =
     m\<lparr>sm_author := ms_author e, sm_parent := ms_parent e,
       sm_lamport := over (ms_lamport e) (sm_lamport m),
       sm_started_at := over (ms_started_at e) (sm_started_at m),
       sm_model := (case ms_model e of Some t \<Rightarrow> if t \<noteq> [] then Some t else sm_model m | None \<Rightarrow> sm_model m),
       sm_text := (case ms_text e of Some t \<Rightarrow> if t \<noteq> [] then t else sm_text m | None \<Rightarrow> sm_text m),
       sm_attachments := over (ms_attachments e) (sm_attachments m),
       sm_author_user := over (ms_author_user e) (sm_author_user m)\<rparr>"

text \<open>A stage's value outlives its prompt only until the first output of its message.\<close>

definition clear_prompt :: "js_string \<Rightarrow> 'x snapshot \<Rightarrow> 'x snapshot" where
  "clear_prompt i s =
     s\<lparr>prompt_stats := (case prompt_stats s of Some (j, v) \<Rightarrow> if j = i then None else Some (j, v) | None \<Rightarrow> None),
       prompt_cache := (case prompt_cache s of Some (j, v) \<Rightarrow> if j = i then None else Some (j, v) | None \<Rightarrow> None)\<rparr>"

definition edit :: "js_string \<Rightarrow> ('x snap_message \<Rightarrow> 'x snap_message) \<Rightarrow> 'x snapshot \<Rightarrow> 'x snapshot" where
  "edit i f s = s\<lparr>messages := on_message i f (messages s)\<rparr>"

fun answer_call :: "'x tool_outcome \<Rightarrow> 'x tool_call list \<Rightarrow> 'x tool_call list" where
  "answer_call r [] = []"
| "answer_call r (c # cs) =
     (if tc_id c = r_call r then
        c\<lparr>tc_output := Some (r_output r), tc_ok := Some (r_ok r), tc_diff := r_diff r,
          tc_permission := over (r_permission r) (tc_permission c), tc_images := over (r_images r) (tc_images c),
          tc_browser := tc_browser c \<or> r_browser r, tc_notice := over (r_notice r) (tc_notice c)\<rparr> # cs
      else c # answer_call r cs)"

text \<open>The note of an unattended decision, on the last assistant message.\<close>

fun note_last :: "'x \<Rightarrow> 'x snap_message list \<Rightarrow> 'x snap_message list" where
  "note_last v [] = []"
| "note_last v (m # ms) =
     (if sm_author m = ''assistant'' \<and> \<not> list_ex (\<lambda>n. sm_author n = ''assistant'') ms
      then m\<lparr>sm_checkin_decision := Some v\<rparr> # ms
      else m # note_last v ms)"

definition keeps_queue :: "'x stream_event \<Rightarrow> bool" where
  "keeps_queue e \<longleftrightarrow>
     (case e of RunQueued p \<Rightarrow> True | RunMode m \<Rightarrow> True | SubAgentEv ev \<Rightarrow> True | _ \<Rightarrow> False)"

definition clear_question :: "js_string \<Rightarrow> 'x snapshot \<Rightarrow> 'x snapshot" where
  "clear_question c s =
     s\<lparr>pending_question := (case pending_question s of
         Some (c', v) \<Rightarrow> if c' = c then None else Some (c', v) | None \<Rightarrow> None)\<rparr>"

fun apply_event :: "'x stream_event \<Rightarrow> 'x snapshot \<Rightarrow> 'x snapshot" where
  "apply_event (SubAgentEv ev) s = s\<lparr>subagents := fold_sub_agent_event (subagents s) ev\<rparr>"
| "apply_event (MessageStart e) s = edit (ms_id e) (start_message e) s"
| "apply_event (TextDelta i t) s = clear_prompt i (edit i (\<lambda>m. m\<lparr>sm_text := sm_text m @ t\<rparr>) s)"
| "apply_event (ThinkingDelta i t) s = clear_prompt i (edit i (\<lambda>m. m\<lparr>sm_thinking := sm_thinking m @ t\<rparr>) s)"
| "apply_event (PromptCache i v) s = s\<lparr>prompt_cache := Some (i, v)\<rparr>"
| "apply_event (PromptStats i v) s = s\<lparr>prompt_stats := Some (i, v)\<rparr>"
| "apply_event (MessageUsage i v) s = edit i (\<lambda>m. m\<lparr>sm_usage := Some v\<rparr>) s"
| "apply_event (MessageEnd i st us er co) s =
     edit i (\<lambda>m. m\<lparr>sm_status := st, sm_usage := over us (sm_usage m),
        sm_error := (case er of Some t \<Rightarrow> if t \<noteq> [] then Some t else sm_error m | None \<Rightarrow> sm_error m),
        sm_error_code := (case co of Some t \<Rightarrow> if t \<noteq> [] then Some t else sm_error_code m | None \<Rightarrow> sm_error_code m)\<rparr>)
       (clear_prompt i s)"
| "apply_event ModelLoading s = s"
| "apply_event (ContextStage v) s = s\<lparr>context_stage := Some v\<rparr>"
| "apply_event (RunQueued p) s = s\<lparr>queued := Some p\<rparr>"
| "apply_event (RunMode md) s =
     (if run_mode s \<noteq> None \<and> run_mode s \<noteq> Some md then s\<lparr>pending_question := None, run_mode := Some md\<rparr>
      else s\<lparr>run_mode := Some md\<rparr>)"
| "apply_event (Iteration n mx un) s = s\<lparr>snap_iteration := Some (n, mx, un), pending_checkin := None\<rparr>"
| "apply_event (StepsCheckin n mx un v) s = s\<lparr>pending_checkin := Some v, snap_iteration := Some (n, mx, un)\<rparr>"
| "apply_event (StepsDecision timeout v) s =
     s\<lparr>pending_checkin := None, messages := (if timeout then note_last v (messages s) else messages s)\<rparr>"
| "apply_event (ToolCall i c tool args) s =
     edit i (\<lambda>m. m\<lparr>sm_calls := sm_calls m @
         [\<lparr>tc_id = c, tc_tool = tool, tc_args = args, tc_output = None, tc_ok = None, tc_diff = None,
           tc_permission = None, tc_images = None, tc_browser = False, tc_notice = None\<rparr>]\<rparr>) (clear_prompt i s)"
| "apply_event (ApprovalRequest c v) s = s\<lparr>pending_question := Some (c, v)\<rparr>"
| "apply_event (ToolResult r) s =
     clear_question (r_call r) (edit (r_message r) (\<lambda>m. m\<lparr>sm_calls := answer_call r (sm_calls m)\<rparr>) s)"
| "apply_event (TodosEv v) s = s\<lparr>snap_todos := Some v\<rparr>"
| "apply_event (Compaction i v) s = edit i (\<lambda>m. m\<lparr>sm_compaction := Some v\<rparr>) s"
| "apply_event (InstructionsUpdate i v) s = edit i (\<lambda>m. m\<lparr>sm_instructions := Some v\<rparr>) s"
| "apply_event (SkillInvoked i v) s = edit i (\<lambda>m. m\<lparr>sm_skill := Some v\<rparr>) s"
| "apply_event (SkillsUpdate i v) s = edit i (\<lambda>m. m\<lparr>sm_skills := Some v\<rparr>) s"

definition snapshot_step :: "'x snapshot \<Rightarrow> 'x stream_event \<Rightarrow> 'x snapshot" where
  "snapshot_step s e = apply_event e (if keeps_queue e then s else s\<lparr>queued := None\<rparr>)"

definition fold_snapshot :: "'x stream_event stream_record list \<Rightarrow> 'x snapshot" where
  "fold_snapshot records = foldl snapshot_step empty_snapshot (map event records)"

section \<open>What each step changes\<close>

lemma apply_queued: "queued (apply_event e s) = (case e of RunQueued p \<Rightarrow> Some p | _ \<Rightarrow> queued s)"
  by (cases e) (auto simp: edit_def clear_prompt_def clear_question_def)

lemma step_queued:
  "queued (snapshot_step s e) = (case e of RunQueued p \<Rightarrow> Some p | _ \<Rightarrow> if keeps_queue e then queued s else None)"
  by (cases e) (auto simp: snapshot_step_def keeps_queue_def edit_def clear_prompt_def clear_question_def)

lemma apply_question:
  "pending_question (apply_event e s) =
     (case e of
        ApprovalRequest c v \<Rightarrow> Some (c, v)
      | ToolResult r \<Rightarrow> (case pending_question s of Some (c, v) \<Rightarrow> if c = r_call r then None else Some (c, v) | None \<Rightarrow> None)
      | RunMode md \<Rightarrow> if run_mode s \<noteq> None \<and> run_mode s \<noteq> Some md then None else pending_question s
      | _ \<Rightarrow> pending_question s)"
  by (cases e) (auto simp: edit_def clear_prompt_def clear_question_def)

lemma step_question: "pending_question (snapshot_step s e) = pending_question (apply_event e s)"
  by (simp add: snapshot_step_def apply_question split: stream_event.split)

lemma apply_checkin:
  "pending_checkin (apply_event e s) =
     (case e of StepsCheckin n mx un v \<Rightarrow> Some v | StepsDecision t v \<Rightarrow> None | Iteration n mx un \<Rightarrow> None
      | _ \<Rightarrow> pending_checkin s)"
  by (cases e) (auto simp: edit_def clear_prompt_def clear_question_def)

text \<open>One message's text, as the events that touch it build it.\<close>

definition text_of :: "js_string \<Rightarrow> 'x snapshot \<Rightarrow> js_string" where
  "text_of i s = (case find (\<lambda>m. sm_id m = i) (messages s) of Some m \<Rightarrow> sm_text m | None \<Rightarrow> [])"

definition text_step :: "js_string \<Rightarrow> 'x stream_event \<Rightarrow> js_string \<Rightarrow> js_string" where
  "text_step i e t =
     (case e of
        TextDelta j d \<Rightarrow> if j = i then t @ d else t
      | MessageStart ms \<Rightarrow> if ms_id ms = i then (case ms_text ms of Some u \<Rightarrow> if u \<noteq> [] then u else t | None \<Rightarrow> t) else t
      | _ \<Rightarrow> t)"

lemma find_on_message:
  assumes "\<And>m. sm_id (f m) = sm_id m"
  shows "find (\<lambda>m. sm_id m = i) (on_message j f ms) =
     (if i = j then Some (f (case find (\<lambda>m. sm_id m = i) ms of Some m \<Rightarrow> m | None \<Rightarrow> new_message i))
      else find (\<lambda>m. sm_id m = i) ms)"
  by (induction ms) (auto simp: assms new_message_def)

lemma find_note_last:
  "map_option sm_text (find (\<lambda>m. sm_id m = i) (note_last v ms)) = map_option sm_text (find (\<lambda>m. sm_id m = i) ms)"
  by (induction ms) auto

lemma text_edit:
  assumes "\<And>m. sm_id (f m) = sm_id m" "\<And>m. sm_text (f m) = g (sm_text m)"
  shows "text_of i (edit j f s) = (if i = j then g (text_of i s) else text_of i s)"
  by (auto simp: text_of_def edit_def find_on_message [OF assms(1)] assms(2) new_message_def split: option.split)

lemma text_frame: "messages s' = messages s \<Longrightarrow> text_of i s' = text_of i s"
  by (simp add: text_of_def)

lemma text_note: "text_of i (s\<lparr>pending_checkin := None, messages := note_last v (messages s)\<rparr>) = text_of i s"
  using find_note_last [of i v "messages s"] by (auto simp: text_of_def split: option.splits)

lemma text_clear: "text_of i (clear_prompt j s) = text_of i s" "text_of i (clear_question c s) = text_of i s"
  by (simp_all add: text_of_def clear_prompt_def clear_question_def)

lemma text_start: "text_of i (edit (ms_id e) (start_message e) s) = text_step i (MessageStart e) (text_of i s)"
  using text_edit [of "start_message e" "\<lambda>t. case ms_text e of Some u \<Rightarrow> if u \<noteq> [] then u else t | None \<Rightarrow> t" i "ms_id e" s]
  by (simp add: start_message_def text_step_def)

lemma text_apply: "text_of i (apply_event e s) = text_step i e (text_of i s)"
proof (cases e)
  case (MessageStart ms)
  then show ?thesis by (simp add: text_start)
next
  case (TextDelta j d)
  then show ?thesis
    using text_edit [of "\<lambda>m. m\<lparr>sm_text := sm_text m @ d\<rparr>" "\<lambda>t. t @ d" i j s] by (simp add: text_clear text_step_def)
next
  case (StepsDecision b v)
  then show ?thesis using text_note [where i = i and s = s and v = v] by (simp add: text_step_def text_of_def)
qed (simp_all add: text_step_def text_clear text_edit [where g = "\<lambda>t. t"], simp_all add: text_of_def)

lemma text_step_snapshot: "text_of i (snapshot_step s e) = text_step i e (text_of i s)"
  by (simp add: snapshot_step_def text_apply) (simp add: text_of_def)

lemma fold_text: "text_of i (foldl snapshot_step s es) = foldl (\<lambda>t e. text_step i e t) (text_of i s) es"
  by (induction es arbitrary: s) (simp_all add: text_step_snapshot)

definition deltas :: "js_string \<Rightarrow> 'x stream_event list \<Rightarrow> js_string" where
  "deltas i es = concat (map (\<lambda>e. case e of TextDelta j d \<Rightarrow> if j = i then d else [] | _ \<Rightarrow> []) es)"

definition restarts :: "js_string \<Rightarrow> 'x stream_event \<Rightarrow> bool" where
  "restarts i e \<longleftrightarrow> (case e of MessageStart ms \<Rightarrow> ms_id ms = i \<and> ms_text ms \<noteq> None \<and> ms_text ms \<noteq> Some [] | _ \<Rightarrow> False)"

lemma fold_deltas:
  "\<forall>e\<in>set es. \<not> restarts i e \<Longrightarrow> foldl (\<lambda>t e. text_step i e t) t es = t @ deltas i es"
  by (induction es arbitrary: t)
    (auto simp: deltas_def text_step_def restarts_def split: stream_event.splits option.splits)

definition waits_in_line :: "'x stream_event list \<Rightarrow> int \<Rightarrow> bool" where
  "waits_in_line es p \<longleftrightarrow>
     (\<exists>before after. es = before @ RunQueued p # after
        \<and> list_all (\<lambda>e. keeps_queue e \<and> (\<forall>q. e \<noteq> RunQueued q)) after)"

lemma waits_snoc:
  "waits_in_line (es @ [e]) p \<longleftrightarrow>
     (case e of RunQueued q \<Rightarrow> q = p | _ \<Rightarrow> keeps_queue e \<and> waits_in_line es p)"
proof -
  have "waits_in_line (es @ [e]) p \<longleftrightarrow> e = RunQueued p \<or> (keeps_queue e \<and> (\<forall>q. e \<noteq> RunQueued q) \<and> waits_in_line es p)"
  proof
    assume "waits_in_line (es @ [e]) p"
    then obtain b a where ba: "es @ [e] = b @ RunQueued p # a" "list_all (\<lambda>e. keeps_queue e \<and> (\<forall>q. e \<noteq> RunQueued q)) a"
      by (auto simp: waits_in_line_def)
    show "e = RunQueued p \<or> (keeps_queue e \<and> (\<forall>q. e \<noteq> RunQueued q) \<and> waits_in_line es p)"
    proof (cases a rule: rev_cases)
      case (snoc a' x)
      then have "e = x" "es = b @ RunQueued p # a'" using ba(1) by auto
      then show ?thesis using ba(2) snoc unfolding waits_in_line_def by auto
    qed (use ba in auto)
  next
    assume "e = RunQueued p \<or> (keeps_queue e \<and> (\<forall>q. e \<noteq> RunQueued q) \<and> waits_in_line es p)"
    then show "waits_in_line (es @ [e]) p"
    proof
      assume "e = RunQueued p"
      then show ?thesis unfolding waits_in_line_def by (intro exI [of _ es] exI [of _ "[]"]) simp
    next
      assume e: "keeps_queue e \<and> (\<forall>q. e \<noteq> RunQueued q) \<and> waits_in_line es p"
      then obtain b a where "es = b @ RunQueued p # a" "list_all (\<lambda>e. keeps_queue e \<and> (\<forall>q. e \<noteq> RunQueued q)) a"
        by (auto simp: waits_in_line_def)
      then show ?thesis using e unfolding waits_in_line_def by (intro exI [of _ b] exI [of _ "a @ [e]"]) simp
    qed
  qed
  then show ?thesis by (cases e) (auto simp: keeps_queue_def)
qed

definition open_question :: "'x stream_event list \<Rightarrow> js_string \<Rightarrow> 'x \<Rightarrow> bool" where
  "open_question es c v \<longleftrightarrow>
     (\<exists>before after. es = before @ ApprovalRequest c v # after
        \<and> list_all (\<lambda>e. (\<forall>r. e = ToolResult r \<longrightarrow> r_call r \<noteq> c) \<and> (\<forall>d w. e \<noteq> ApprovalRequest d w)) after)"

lemma open_question_snoc:
  "open_question es c v \<Longrightarrow> (\<forall>r. e = ToolResult r \<longrightarrow> r_call r \<noteq> c) \<Longrightarrow> (\<forall>d w. e \<noteq> ApprovalRequest d w) \<Longrightarrow>
   open_question (es @ [e]) c v"
  unfolding open_question_def by (elim exE conjE) (rule exI, rule exI [of _ "_ @ [e]"], auto)

lemma open_question_new: "open_question (es @ [ApprovalRequest c v]) c v"
  unfolding open_question_def by (intro exI [of _ es] exI [of _ "[]"]) simp

section \<open>Properties\<close>

text \<open>The reply a reconnecting device is shown is the one the run has written: a message's
  text in the snapshot is exactly its text deltas, in order, and no other message's (for a
  message no start event gives a text of its own).\<close>

theorem snapshot_text_exact:
  assumes "\<forall>r\<in>set records. \<not> restarts i (event r)"
  shows "text_of i (fold_snapshot records) = deltas i (map event records)"
proof -
  have "text_of i (empty_snapshot :: 'a snapshot) = []" by (simp add: text_of_def empty_snapshot_def)
  then show ?thesis
    using assms fold_deltas [of "map event records" i "[]"] by (simp add: fold_snapshot_def fold_text)
qed

theorem snapshot_text_exact_witness:
  "text_of ''m'' (fold_snapshot
     [\<lparr>seq = 1, ts = 0, event = TextDelta ''m'' ''ab''\<rparr>, \<lparr>seq = 2, ts = 0, event = TextDelta ''n'' ''x''\<rparr>,
      \<lparr>seq = 3, ts = 0, event = TextDelta ''m'' ''c'' :: nat stream_event\<rparr>]) = ''abc''"
  by (subst snapshot_text_exact) (simp_all add: restarts_def deltas_def)

text \<open>A device that reconnects is told a place in line exactly when the run is waiting in
  it: the last event that says where the run is, leaving aside what its sub-agents and a mode
  switch say, is that queue position.\<close>

theorem snapshot_queue_iff:
  "queued (fold_snapshot records) = Some p \<longleftrightarrow> waits_in_line (map event records) p"
proof -
  have "queued (foldl snapshot_step empty_snapshot es) = Some p \<longleftrightarrow> waits_in_line es p" for es :: "'a stream_event list"
  proof (induction es rule: rev_induct)
    case Nil
    then show ?case by (simp add: empty_snapshot_def waits_in_line_def)
  next
    case (snoc e es)
    then show ?case
      by (simp add: step_queued waits_snoc split: stream_event.split)
  qed
  then show ?thesis by (simp add: fold_snapshot_def)
qed

theorem snapshot_queue_iff_witness:
  "queued (fold_snapshot [\<lparr>seq = 1, ts = 0, event = RunQueued 2\<rparr>,
     \<lparr>seq = 2, ts = 0, event = RunMode ''auto'' :: nat stream_event\<rparr>]) = Some 2"
  unfolding snapshot_queue_iff waits_in_line_def
  by (rule exI [of _ "[]"], rule exI [of _ "[RunMode ''auto'']"]) (simp add: keeps_queue_def)

text \<open>The question a reconnecting device is asked is one that is still open: the log has
  that approval request, and after it neither a result of its call nor another request.\<close>

theorem snapshot_question_open:
  assumes "pending_question (fold_snapshot records) = Some (c, v)"
  shows "open_question (map event records) c v"
proof -
  have "pending_question (foldl snapshot_step empty_snapshot es) = Some (c, v) \<Longrightarrow> open_question es c v"
    for es :: "'a stream_event list"
  proof (induction es rule: rev_induct)
    case Nil
    then show ?case by (simp add: empty_snapshot_def)
  next
    case (snoc e es)
    show ?case
    proof (cases "\<exists>d w. e = ApprovalRequest d w")
      case True
      then show ?thesis using snoc.prems by (auto simp: step_question apply_question intro: open_question_new)
    next
      case False
      then have "pending_question (foldl snapshot_step empty_snapshot es) = Some (c, v)
          \<and> (\<forall>r. e = ToolResult r \<longrightarrow> r_call r \<noteq> c)"
        using snoc.prems by (auto simp: step_question apply_question split: stream_event.splits option.splits if_splits)
      then show ?thesis using snoc.IH False by (intro open_question_snoc) auto
    qed
  qed
  then show ?thesis using assms by (simp add: fold_snapshot_def)
qed

theorem snapshot_question_open_witness:
  "open_question [ModelLoading, ApprovalRequest ''c'' (1::nat)] ''c'' 1"
proof -
  have "pending_question (fold_snapshot [\<lparr>seq = 1, ts = 0, event = ModelLoading\<rparr>,
      \<lparr>seq = 2, ts = 0, event = ApprovalRequest ''c'' (1::nat)\<rparr>]) = Some (''c'', 1)"
    by (simp add: fold_snapshot_def step_question)
  from snapshot_question_open [OF this] show ?thesis by simp
qed

end
