(* ===== verification/Registry.thy ===== *)
theory Registry
  imports Systems
begin

text \<open>
  The runs in flight (\<open>streams/registry.ts\<close>): one per conversation, what each is doing and who
  is told of it, its permission mode and limits while it runs, and the callers waiting for a
  conversation's run to end. A resolver or listener is a number; what an operation does to the
  outside is the list of its effects, in order.
\<close>

section \<open>Handles\<close>

datatype permission_mode = PManual | PAuto | PPlanning

datatype run_activity = AwaitingCheckin | AwaitingApproval | QueuedRun | RunningNow

record limits =
  stepLimitOff :: bool
  loopCheckOff :: bool

record handle =
  h_stream :: js_string
  h_conversation :: js_string
  h_model :: "js_string option"
  approvals :: "(js_string \<times> nat) list"
  steps_decision :: "nat option"
  h_parent :: "js_string option"
  queue_position :: "int option"
  announced :: "(run_activity \<times> int option) option"
  h_mode :: "permission_mode option"
  mode_log :: bool
  mode_listeners :: "nat list"
  h_limits :: "limits option"
  limit_listeners :: "nat list"

datatype effect =
    Announce js_string
  | EmitMode permission_mode
  | TellMode nat
  | TellLimits nat js_string
  | Resolve nat bool

text \<open>A \<open>Map\<close> keeps a key's place when it is set again.\<close>

fun map_set :: "'k \<Rightarrow> 'v \<Rightarrow> ('k \<times> 'v) list \<Rightarrow> ('k \<times> 'v) list" where
  "map_set k v [] = [(k, v)]"
| "map_set k v ((j, w) # xs) = (if j = k then (k, v) # xs else (j, w) # map_set k v xs)"

definition map_delete :: "'k \<Rightarrow> ('k \<times> 'v) list \<Rightarrow> ('k \<times> 'v) list" where
  "map_delete k xs = filter (\<lambda>p. fst p \<noteq> k) xs"

definition live_mode_after :: "permission_mode option \<Rightarrow> permission_mode \<Rightarrow> permission_mode option" where
  "live_mode_after current requested =
     (if current = None \<or> current = Some requested then None
      else if current = Some PPlanning \<or> requested = PPlanning then None
      else Some requested)"

definition set_run_mode :: "permission_mode \<Rightarrow> handle \<Rightarrow> bool \<times> handle \<times> effect list" where
  "set_run_mode requested h =
     (case live_mode_after (h_mode h) requested of
        None \<Rightarrow> (False, h, [])
      | Some next \<Rightarrow>
          (True, h\<lparr>h_mode := Some next\<rparr>,
           (if mode_log h then [EmitMode next] else []) @ map TellMode (mode_listeners h)))"

definition start_mode_log :: "handle \<Rightarrow> handle \<times> effect list" where
  "start_mode_log h =
     (case h_mode h of None \<Rightarrow> (h, []) | Some m \<Rightarrow> (h\<lparr>mode_log := True\<rparr>, [EmitMode m]))"

definition on_run_mode_change :: "nat \<Rightarrow> handle \<Rightarrow> handle" where
  "on_run_mode_change l h = h\<lparr>mode_listeners := List.insert l (mode_listeners h)\<rparr>"

definition stop_mode_listener :: "nat \<Rightarrow> handle \<Rightarrow> handle" where
  "stop_mode_listener l h = h\<lparr>mode_listeners := removeAll l (mode_listeners h)\<rparr>"

definition seed_run_limits :: "limits \<Rightarrow> handle \<Rightarrow> handle" where
  "seed_run_limits l h = (case h_limits h of None \<Rightarrow> h\<lparr>h_limits := Some l\<rparr> | Some _ \<Rightarrow> h)"

definition set_run_limits :: "limits \<Rightarrow> js_string \<Rightarrow> handle \<Rightarrow> handle \<times> effect list" where
  "set_run_limits l user h = (h\<lparr>h_limits := Some l\<rparr>, map (\<lambda>i. TellLimits i user) (limit_listeners h))"

definition on_run_limits_change :: "nat \<Rightarrow> handle \<Rightarrow> handle" where
  "on_run_limits_change l h = h\<lparr>limit_listeners := List.insert l (limit_listeners h)\<rparr>"

section \<open>What a run is doing, and who is told\<close>

definition run_activity_of :: "handle \<Rightarrow> run_activity" where
  "run_activity_of h =
     (if steps_decision h \<noteq> None then AwaitingCheckin
      else if approvals h \<noteq> [] then AwaitingApproval
      else if queue_position h \<noteq> None then QueuedRun
      else RunningNow)"

definition activity_key_of :: "handle \<Rightarrow> run_activity \<times> int option" where
  "activity_key_of h =
     (let a = run_activity_of h in
      (a, if a = QueuedRun then Some (case queue_position h of Some p \<Rightarrow> p | None \<Rightarrow> 0) else None))"

definition announce_activity :: "handle \<Rightarrow> handle \<times> effect list" where
  "announce_activity h =
     (if announced h = Some (activity_key_of h) then (h, [])
      else (h\<lparr>announced := Some (activity_key_of h)\<rparr>, [Announce (h_conversation h)]))"

definition set_run_approval :: "js_string \<Rightarrow> nat \<Rightarrow> handle \<Rightarrow> handle \<times> effect list" where
  "set_run_approval c resolver h = announce_activity (h\<lparr>approvals := map_set c resolver (approvals h)\<rparr>)"

definition clear_run_approval :: "js_string \<Rightarrow> handle \<Rightarrow> handle \<times> effect list" where
  "clear_run_approval c h =
     (if c \<notin> fst ` set (approvals h) then (h, [])
      else announce_activity (h\<lparr>approvals := map_delete c (approvals h)\<rparr>))"

definition set_run_checkin :: "nat \<Rightarrow> handle \<Rightarrow> handle \<times> effect list" where
  "set_run_checkin resolver h = announce_activity (h\<lparr>steps_decision := Some resolver\<rparr>)"

definition take_run_checkin :: "handle \<Rightarrow> nat option \<times> handle \<times> effect list" where
  "take_run_checkin h =
     (case steps_decision h of
        None \<Rightarrow> (None, h, [])
      | Some resolver \<Rightarrow> (Some resolver, announce_activity (h\<lparr>steps_decision := None\<rparr>)))"

definition clear_run_checkin :: "handle \<Rightarrow> handle \<times> effect list" where
  "clear_run_checkin h =
     (if steps_decision h = None then (h, []) else announce_activity (h\<lparr>steps_decision := None\<rparr>))"

definition set_run_queue_position :: "int \<Rightarrow> handle \<Rightarrow> handle \<times> effect list" where
  "set_run_queue_position p h = announce_activity (h\<lparr>queue_position := Some p\<rparr>)"

definition clear_run_queue_position :: "handle \<Rightarrow> handle \<times> effect list" where
  "clear_run_queue_position h =
     (if queue_position h = None then (h, []) else announce_activity (h\<lparr>queue_position := None\<rparr>))"

section \<open>The registry\<close>

record registry =
  runs :: "(js_string \<times> handle) list"
  by_conversation :: "js_string \<Rightarrow> js_string option"
  run_end_waiters :: "js_string \<Rightarrow> nat list option"

definition empty_registry :: registry where
  "empty_registry = \<lparr>runs = [], by_conversation = (\<lambda>_. None), run_end_waiters = (\<lambda>_. None)\<rparr>"

definition register_run :: "handle \<Rightarrow> registry \<Rightarrow> registry \<times> effect list" where
  "register_run h r =
     (case announce_activity h of (h', eff) \<Rightarrow>
       (r\<lparr>runs := map_set (h_stream h) h' (runs r),
          by_conversation := (by_conversation r)(h_conversation h \<mapsto> h_stream h)\<rparr>, eff))"

text \<open>\<open>claimConversation\<close>: \<^const>\<open>None\<close> is the thrown \<open>ConversationBusyError\<close>.\<close>

definition claim_conversation :: "handle \<Rightarrow> registry \<Rightarrow> (registry \<times> effect list) option" where
  "claim_conversation h r =
     (if by_conversation r (h_conversation h) \<noteq> None then None else Some (register_run h r))"

definition get_run :: "js_string \<Rightarrow> registry \<Rightarrow> handle option" where
  "get_run s r = map_of (runs r) s"

definition unregister_run :: "js_string \<Rightarrow> registry \<Rightarrow> registry \<times> effect list" where
  "unregister_run s r =
     (case get_run s r of
        None \<Rightarrow> (r, [])
      | Some h \<Rightarrow>
          (let r1 = r\<lparr>runs := map_delete s (runs r)\<rparr>; c = h_conversation h in
           if by_conversation r c \<noteq> Some s then (r1, [])
           else (r1\<lparr>by_conversation := (by_conversation r)(c := None),
                    run_end_waiters := (run_end_waiters r)(c := None)\<rparr>,
                 (case run_end_waiters r c of None \<Rightarrow> [] | Some ws \<Rightarrow> map (\<lambda>w. Resolve w True) ws) @ [Announce c])))"

definition wait_for_run_end :: "js_string \<Rightarrow> nat \<Rightarrow> registry \<Rightarrow> registry \<times> effect list" where
  "wait_for_run_end c w r =
     (if by_conversation r c = None then (r, [Resolve w True])
      else (r\<lparr>run_end_waiters := (run_end_waiters r)(c \<mapsto>
              (case run_end_waiters r c of None \<Rightarrow> [w] | Some ws \<Rightarrow> ws @ [w]))\<rparr>, []))"

text \<open>The timer of a wait; \<open>settled\<close> keeps it from answering again.\<close>

definition wait_timed_out :: "js_string \<Rightarrow> nat \<Rightarrow> registry \<Rightarrow> registry \<times> effect list" where
  "wait_timed_out c w r =
     (case run_end_waiters r c of
        None \<Rightarrow> (r, [])
      | Some ws \<Rightarrow>
          if w \<notin> set ws then (r, [])
          else (r\<lparr>run_end_waiters := (run_end_waiters r)(c :=
                  (let left = removeAll w ws in if left = [] then None else Some left))\<rparr>, [Resolve w False]))"

definition runs_using_model :: "js_string \<Rightarrow> js_string option \<Rightarrow> registry \<Rightarrow> handle list" where
  "runs_using_model m exc r =
     filter (\<lambda>h. h_model h = Some m \<and> Some (h_conversation h) \<noteq> exc \<and> (exc = None \<or> h_parent h \<noteq> exc)) (map snd (runs r))"

definition get_run_by_conversation :: "js_string \<Rightarrow> registry \<Rightarrow> handle option" where
  "get_run_by_conversation c r = (case by_conversation r c of None \<Rightarrow> None | Some s \<Rightarrow> if s = [] then None else get_run s r)"

definition list_busy_runs :: "js_string list \<Rightarrow> registry \<Rightarrow> handle list" where
  "list_busy_runs cs r = filter (\<lambda>h. h_conversation h \<in> set cs) (map snd (runs r))"

definition list_child_runs :: "js_string \<Rightarrow> registry \<Rightarrow> handle list" where
  "list_child_runs c r = filter (\<lambda>h. h_parent h = Some c) (map snd (runs r))"

definition is_conversation_busy :: "js_string \<Rightarrow> registry \<Rightarrow> bool" where
  "is_conversation_busy c r \<longleftrightarrow> by_conversation r c \<noteq> None"

definition find_runs_by_approval :: "js_string \<Rightarrow> registry \<Rightarrow> handle list" where
  "find_runs_by_approval call r = filter (\<lambda>h. call \<in> fst ` set (approvals h)) (map snd (runs r))"

text \<open>A mutation of a run's handle, where it is registered.\<close>

definition mutate :: "js_string \<Rightarrow> (handle \<Rightarrow> handle \<times> effect list) \<Rightarrow> registry \<Rightarrow> registry \<times> effect list" where
  "mutate s f r =
     (case get_run s r of
        None \<Rightarrow> (r, [])
      | Some h \<Rightarrow> (case f h of (h', eff) \<Rightarrow> (r\<lparr>runs := map_set s h' (runs r)\<rparr>, eff)))"

datatype change =
    SetApproval js_string nat | ClearApproval js_string | SetCheckin nat | TakeCheckin | ClearCheckin
  | SetQueue int | ClearQueue | SetMode permission_mode | StartModeLog | OnModeChange nat | OffModeChange nat
  | SeedLimits limits | SetLimits limits js_string | OnLimitsChange nat

fun change_handle :: "change \<Rightarrow> handle \<Rightarrow> handle \<times> effect list" where
  "change_handle (SetApproval c n) h = set_run_approval c n h"
| "change_handle (ClearApproval c) h = clear_run_approval c h"
| "change_handle (SetCheckin n) h = set_run_checkin n h"
| "change_handle TakeCheckin h = snd (take_run_checkin h)"
| "change_handle ClearCheckin h = clear_run_checkin h"
| "change_handle (SetQueue p) h = set_run_queue_position p h"
| "change_handle ClearQueue h = clear_run_queue_position h"
| "change_handle (SetMode m) h = snd (set_run_mode m h)"
| "change_handle StartModeLog h = start_mode_log h"
| "change_handle (OnModeChange l) h = (on_run_mode_change l h, [])"
| "change_handle (OffModeChange l) h = (stop_mode_listener l h, [])"
| "change_handle (SeedLimits l) h = (seed_run_limits l h, [])"
| "change_handle (SetLimits l u) h = set_run_limits l u h"
| "change_handle (OnLimitsChange l) h = (on_run_limits_change l h, [])"

text \<open>The system: the registry with every effect so far, the waits ever started, and the conversations in which a run was
  registered while another held them.\<close>

record world =
  reg :: registry
  effects :: "effect list"
  waits :: nat
  overwritten :: "js_string set"

definition act :: "registry \<times> effect list \<Rightarrow> world \<Rightarrow> world" where
  "act p w = w\<lparr>reg := fst p, effects := effects w @ snd p\<rparr>"

definition world0 :: world where
  "world0 = \<lparr>reg = empty_registry, effects = [], waits = 0, overwritten = {}\<rparr>"

text \<open>
  A run starts with a stream of its own and nothing announced, in one of three ways: it claims the conversation (sends,
  rewinds, deletions, commands); it looks whether the conversation has a run and registers in the same synchronous
  step (a stage switch, \<open>stageRun.ts\<close>); or it registers without looking (\<open>compactRun.ts\<close> looks, but several awaits
  earlier; \<open>subagentRun.ts\<close> does not, as its conversation is its own).
\<close>

definition new_run :: "handle \<Rightarrow> registry \<Rightarrow> bool" where
  "new_run h r \<longleftrightarrow> get_run (h_stream h) r = None \<and> h_stream h \<noteq> [] \<and> announced h = None"

inductive registry_step :: "world \<Rightarrow> world \<Rightarrow> bool" where
  claim: "new_run h (reg w) \<Longrightarrow> claim_conversation h (reg w) = Some p \<Longrightarrow> registry_step w (act p w)"
| look_and_register: "new_run h (reg w) \<Longrightarrow> get_run_by_conversation (h_conversation h) (reg w) = None \<Longrightarrow>
    registry_step w (act (register_run h (reg w)) w)"
| register: "new_run h (reg w) \<Longrightarrow> registry_step w
    (act (register_run h (reg w)) w\<lparr>overwritten :=
       (if is_conversation_busy (h_conversation h) (reg w) then insert (h_conversation h) (overwritten w) else overwritten w)\<rparr>)"
| unregister: "registry_step w (act (unregister_run s (reg w)) w)"
| wait: "registry_step w (act (wait_for_run_end c (waits w) (reg w)) w\<lparr>waits := Suc (waits w)\<rparr>)"
| timed_out: "registry_step w (act (wait_timed_out c n (reg w)) w)"
| changes: "registry_step w (act (mutate s (change_handle e) (reg w)) w)"

inductive_cases registry_stepE: "registry_step w w'"

section \<open>Invariants\<close>

lemma map_of_map_set: "map_of (map_set k v xs) = (map_of xs)(k \<mapsto> v)"
  by (induction k v xs rule: map_set.induct) auto

lemma map_of_map_delete: "map_of (map_delete k xs) = (map_of xs)(k := None)"
  by (induction xs) (auto simp: map_delete_def fun_eq_iff)

lemma keys_map_set: "map fst (map_set k v xs) = (if k \<in> fst ` set xs then map fst xs else map fst xs @ [k])"
  by (induction k v xs rule: map_set.induct) auto

lemma keys_map_delete: "map fst (map_delete k xs) = filter (\<lambda>j. j \<noteq> k) (map fst xs)"
  by (induction xs) (auto simp: map_delete_def)

text \<open>The conversations of the set aside, where a run was registered over another, the table and the runs agree.\<close>

definition runs_inv :: "js_string set \<Rightarrow> registry \<Rightarrow> bool" where
  "runs_inv X r \<longleftrightarrow>
     distinct (map fst (runs r))
     \<and> (\<forall>s h. get_run s r = Some h \<longrightarrow>
          h_stream h = s \<and> s \<noteq> [] \<and> (h_conversation h \<notin> X \<longrightarrow> by_conversation r (h_conversation h) = Some s)
          \<and> announced h = Some (activity_key_of h))
     \<and> (\<forall>c s. by_conversation r c = Some s \<longrightarrow> (\<exists>h. get_run s r = Some h \<and> h_conversation h = c))"

lemma runs_inv_held:
  "runs_inv X r \<Longrightarrow> by_conversation r c = Some s \<Longrightarrow> \<exists>h. get_run s r = Some h \<and> h_conversation h = c"
  by (simp add: runs_inv_def)

lemma runs_inv_entry:
  assumes "runs_inv X r" "get_run s r = Some h"
  shows "h_stream h = s" "s \<noteq> []" "announced h = Some (activity_key_of h)"
    "h_conversation h \<notin> X \<Longrightarrow> by_conversation r (h_conversation h) = Some s"
  using assms by (simp_all add: runs_inv_def)

lemma runs_inv_intro:
  assumes "distinct (map fst (runs r))"
    and "\<And>s h. get_run s r = Some h \<Longrightarrow> h_stream h = s \<and> s \<noteq> [] \<and> announced h = Some (activity_key_of h)"
    and "\<And>s h. get_run s r = Some h \<Longrightarrow> h_conversation h \<notin> X \<Longrightarrow> by_conversation r (h_conversation h) = Some s"
    and "\<And>c s. by_conversation r c = Some s \<Longrightarrow> \<exists>h. get_run s r = Some h \<and> h_conversation h = c"
  shows "runs_inv X r"
  using assms by (simp add: runs_inv_def)

lemma runs_inv_more: "runs_inv X r \<Longrightarrow> X \<subseteq> Y \<Longrightarrow> runs_inv Y r"
  unfolding runs_inv_def by blast

lemma looked_up: "runs_inv X r \<Longrightarrow> get_run_by_conversation c r = None \<longleftrightarrow> by_conversation r c = None"
proof (cases "by_conversation r c")
  case (Some s)
  assume i: "runs_inv X r"
  then obtain h where "get_run s r = Some h" using runs_inv_held [OF i Some] by blast
  then show ?thesis using i Some by (auto simp: runs_inv_def get_run_by_conversation_def)
qed (simp add: get_run_by_conversation_def)

lemma announce_facts:
  "h_stream (fst (announce_activity h)) = h_stream h" "h_conversation (fst (announce_activity h)) = h_conversation h"
  "announced (fst (announce_activity h)) = Some (activity_key_of (fst (announce_activity h)))"
  by (auto simp: announce_activity_def activity_key_of_def run_activity_of_def Let_def)

lemmas change_defs = set_run_approval_def clear_run_approval_def set_run_checkin_def take_run_checkin_def
  clear_run_checkin_def set_run_queue_position_def clear_run_queue_position_def set_run_mode_def start_mode_log_def
  on_run_mode_change_def stop_mode_listener_def seed_run_limits_def set_run_limits_def on_run_limits_change_def

lemma change_keeps:
  "h_stream (fst (change_handle e h)) = h_stream h"
  "h_conversation (fst (change_handle e h)) = h_conversation h"
  by (cases e; auto simp: change_defs announce_facts split: option.split)+

lemma key_frame [simp]:
  "activity_key_of (h\<lparr>h_mode := m\<rparr>) = activity_key_of h"
  "activity_key_of (h\<lparr>mode_log := b\<rparr>) = activity_key_of h"
  "activity_key_of (h\<lparr>mode_listeners := ls\<rparr>) = activity_key_of h"
  "activity_key_of (h\<lparr>h_limits := l\<rparr>) = activity_key_of h"
  "activity_key_of (h\<lparr>limit_listeners := ls\<rparr>) = activity_key_of h"
  "activity_key_of (h\<lparr>announced := k\<rparr>) = activity_key_of h"
  by (simp_all add: activity_key_of_def run_activity_of_def)

lemma change_announces:
  "announced h = Some (activity_key_of h) \<Longrightarrow>
   announced (fst (change_handle e h)) = Some (activity_key_of (fst (change_handle e h)))"
  by (cases e) (auto simp: change_defs announce_facts split: option.split)

lemma change_tells:
  "announced h = Some (activity_key_of h) \<Longrightarrow>
   filter (\<lambda>x. \<exists>c. x = Announce c) (snd (change_handle e h)) =
   (if activity_key_of (fst (change_handle e h)) = activity_key_of h then [] else [Announce (h_conversation h)])"
  by (cases e) (auto simp: change_defs announce_activity_def filter_empty_conv split: option.splits)

lemma runs_mutate: "runs_inv X r \<Longrightarrow> runs_inv X (fst (mutate s (change_handle e) r))"
proof (cases "get_run s r")
  case (Some h)
  assume i: "runs_inv X r"
  let ?h = "fst (change_handle e h)" and ?r = "fst (mutate s (change_handle e) r)"
  have k: "s \<in> fst ` set (runs r)" using Some by (metis get_run_def map_of_eq_None_iff option.distinct(1))
  have g: "get_run t ?r = (if t = s then Some ?h else get_run t r)" for t
    using Some by (simp add: mutate_def get_run_def map_of_map_set split: prod.split)
  have f: "map fst (runs ?r) = map fst (runs r)" "by_conversation ?r = by_conversation r"
    using Some k by (simp_all add: mutate_def keys_map_set split: prod.split)
  have h: "h_stream h = s" "s \<noteq> []" "announced h = Some (activity_key_of h)"
    "h_conversation h \<notin> X \<Longrightarrow> by_conversation r (h_conversation h) = Some s"
    using i Some by (auto simp: runs_inv_def)
  have a: "announced ?h = Some (activity_key_of ?h)" by (rule change_announces [OF h(3)])
  have b: "\<exists>h''. (if t = s then Some ?h else get_run t r) = Some h'' \<and> h_conversation h'' = c"
    if "by_conversation r c = Some t" for c t
    using runs_inv_held [OF i that] Some change_keeps(2) [of e h] by auto
  show ?thesis
    using i h a b change_keeps [of e h] unfolding runs_inv_def g f by (auto split: if_splits)
qed (simp add: mutate_def)

lemma runs_register:
  assumes "runs_inv X r" "new_run h r" "by_conversation r (h_conversation h) \<noteq> None \<Longrightarrow> h_conversation h \<in> X"
  shows "runs_inv X (fst (register_run h r))"
proof -
  let ?h = "fst (announce_activity h)" and ?s = "h_stream h" and ?c = "h_conversation h" and ?r = "fst (register_run h r)"
  have n: "get_run ?s r = None" "?s \<noteq> []" using assms(2) by (simp_all add: new_run_def)
  have g: "get_run t ?r = (if t = ?s then Some ?h else get_run t r)" for t
    by (simp add: register_run_def get_run_def map_of_map_set split: prod.split)
  have b: "by_conversation ?r = (by_conversation r)(?c \<mapsto> ?s)"
    by (simp add: register_run_def split: prod.split)
  have k: "distinct (map fst (runs ?r))"
    using assms(1) n(1) by (auto simp: register_run_def keys_map_set runs_inv_def get_run_def map_of_eq_None_iff split: prod.split)
  have 2: "get_run t r = Some h' \<Longrightarrow> h_conversation h' \<notin> X \<Longrightarrow> h_conversation h' \<noteq> ?c" for t h'
    using assms(1,3) by (metis option.distinct(1) runs_inv_def)
  have 3: "\<exists>h'. (if t = ?s then Some ?h else get_run t r) = Some h' \<and> h_conversation h' = c"
    if "((by_conversation r)(?c \<mapsto> ?s)) c = Some t" for c t
    using runs_inv_held [OF assms(1), of c t] n(1) that announce_facts(2) [of h] by (auto split: if_splits)
  show ?thesis
    using assms(1) n announce_facts [of h] k 2 3 unfolding runs_inv_def g b
    by (auto split: if_splits)
qed

lemma runs_unregister: "runs_inv X r \<Longrightarrow> runs_inv X (fst (unregister_run s r))"
proof (cases "get_run s r")
  case (Some h)
  assume i: "runs_inv X r"
  let ?r = "fst (unregister_run s r)" and ?c = "h_conversation h"
  have g: "get_run t ?r = (if t = s then None else get_run t r)" for t
    using Some by (simp add: unregister_run_def get_run_def map_of_map_delete Let_def)
  have f: "map fst (runs ?r) = filter (\<lambda>j. j \<noteq> s) (map fst (runs r))"
    "by_conversation ?r = (if by_conversation r ?c = Some s then (by_conversation r)(?c := None) else by_conversation r)"
    using Some by (simp_all add: unregister_run_def keys_map_delete Let_def)
  note e = runs_inv_entry [OF i]
  show ?thesis
  proof (rule runs_inv_intro)
    show "distinct (map fst (runs ?r))" using i by (simp add: f runs_inv_def)
    show "h_stream k = t \<and> t \<noteq> [] \<and> announced k = Some (activity_key_of k)" if "get_run t ?r = Some k" for t k
      using that e(1-3) [of t k] by (simp add: g split: if_splits)
    show "by_conversation ?r (h_conversation k) = Some t" if "get_run t ?r = Some k" "h_conversation k \<notin> X" for t k
      using that e(4) [of t k] by (auto simp: g f split: if_splits)
    show "\<exists>k. get_run t ?r = Some k \<and> h_conversation k = c" if "by_conversation ?r c = Some t" for c t
    proof -
      have t: "by_conversation r c = Some t" "c \<noteq> ?c \<or> by_conversation r ?c \<noteq> Some s"
        using that by (auto simp: f split: if_splits)
      then obtain k where k: "get_run t r = Some k" "h_conversation k = c" using runs_inv_held [OF i] by blast
      then have "t \<noteq> s" using t Some by auto
      then show ?thesis using k by (simp add: g)
    qed
  qed
qed (simp add: unregister_run_def)

lemma runs_wait: "runs_inv X r \<Longrightarrow> runs_inv X (fst (wait_for_run_end c w r))" "runs_inv X r \<Longrightarrow> runs_inv X (fst (wait_timed_out c w r))"
  by (auto simp: runs_inv_def wait_for_run_end_def wait_timed_out_def get_run_def split: option.split)

lemma act_simps [simp]: "reg (act p w) = fst p" "overwritten (act p w) = overwritten w"
  by (simp_all add: act_def)

lemma runs_inv_step: "registry_step w w' \<Longrightarrow> runs_inv (overwritten w) (reg w) \<Longrightarrow> runs_inv (overwritten w') (reg w')"
proof (induction rule: registry_step.induct)
  case (claim h w p)
  then show ?case using runs_register [of "overwritten w" "reg w" h] by (simp add: claim_conversation_def split: if_splits)
next
  case (look_and_register h w)
  then show ?case using runs_register [of "overwritten w" "reg w" h] looked_up by simp
next
  case (register h w)
  let ?X = "if is_conversation_busy (h_conversation h) (reg w) then insert (h_conversation h) (overwritten w) else overwritten w"
  have "runs_inv ?X (reg w)" by (rule runs_inv_more [OF register.prems]) auto
  then show ?case using runs_register [OF _ register.hyps, of ?X] by (simp add: is_conversation_busy_def)
qed (simp_all add: runs_unregister runs_wait runs_mutate)

text \<open>Waits: which are pending, which were answered.\<close>

definition waiting_on :: "js_string \<Rightarrow> registry \<Rightarrow> nat list" where
  "waiting_on c r = (case run_end_waiters r c of None \<Rightarrow> [] | Some ws \<Rightarrow> ws)"

fun answered :: "effect list \<Rightarrow> nat list" where
  "answered [] = []"
| "answered (Resolve w b # es) = w # answered es"
| "answered (_ # es) = answered es"

lemma answered_append [simp]: "answered (es @ es') = answered es @ answered es'"
  by (induction es rule: answered.induct) auto

definition waits_inv :: "world \<Rightarrow> bool" where
  "waits_inv w \<longleftrightarrow>
     (\<forall>c. waiting_on c (reg w) \<noteq> [] \<longrightarrow> by_conversation (reg w) c \<noteq> None)
     \<and> (\<forall>c. distinct (waiting_on c (reg w)))
     \<and> (\<forall>c d. c \<noteq> d \<longrightarrow> set (waiting_on c (reg w)) \<inter> set (waiting_on d (reg w)) = {})
     \<and> distinct (answered (effects w))
     \<and> (\<forall>c. set (waiting_on c (reg w)) \<inter> set (answered (effects w)) = {})
     \<and> {..<waits w} = set (answered (effects w)) \<union> (\<Union>c. set (waiting_on c (reg w)))"

lemma answered_tell [simp]: "answered (map TellMode ls) = []" "answered (map (\<lambda>i. TellLimits i u) ls) = []"
  "answered (map (\<lambda>w. Resolve w b) ws) = ws"
  by (induction ls, simp_all) (induction ws, simp_all)

lemma answered_announce: "answered (snd (announce_activity h)) = []"
  by (simp add: announce_activity_def)

lemma answered_change: "answered (snd (change_handle e h)) = []"
  by (cases e) (auto simp: change_defs answered_announce split: option.split)

lemma waits_frame:
  "waits_inv w \<Longrightarrow> run_end_waiters r = run_end_waiters (reg w) \<Longrightarrow>
   (\<And>c. by_conversation (reg w) c \<noteq> None \<Longrightarrow> by_conversation r c \<noteq> None) \<Longrightarrow> answered eff = [] \<Longrightarrow>
   waits_inv (act (r, eff) w)"
  by (simp add: waits_inv_def act_def waiting_on_def)

lemma waits_wait:
  assumes "waits_inv w"
  shows "waits_inv (act (wait_for_run_end c (waits w) (reg w)) w\<lparr>waits := Suc (waits w)\<rparr>)"
proof -
  let ?n = "waits w" and ?r = "reg w"
  have old: "{..<?n} = set (answered (effects w)) \<union> (\<Union>d. set (waiting_on d ?r))"
    using assms by (simp add: waits_inv_def)
  have fresh: "?n \<notin> set (answered (effects w))" "\<And>d. ?n \<notin> set (waiting_on d ?r)"
    using old by (auto simp: set_eq_iff)
  show ?thesis
  proof (cases "by_conversation ?r c")
    case None
    then show ?thesis
      using assms fresh unfolding waits_inv_def
      by (auto simp: wait_for_run_end_def act_def lessThan_Suc)
  next
    case (Some s)
    then have q: "waiting_on d (fst (wait_for_run_end c ?n ?r)) = (if d = c then waiting_on c ?r @ [?n] else waiting_on d ?r)"
      "by_conversation (fst (wait_for_run_end c ?n ?r)) = by_conversation ?r"
      "snd (wait_for_run_end c ?n ?r) = []" for d
      by (auto simp: wait_for_run_end_def waiting_on_def split: option.split)
    have u: "(\<Union>d. set (if d = c then waiting_on c ?r @ [?n] else waiting_on d ?r)) = insert ?n (\<Union>d. set (waiting_on d ?r))"
      by (auto split: if_splits)
    show ?thesis
      using assms fresh Some unfolding waits_inv_def
      by (simp add: act_def q u lessThan_Suc)
  qed
qed

text \<open>Waits leave the table only by being answered.\<close>

lemma waits_answer:
  assumes "waits_inv w"
    and left: "\<And>d. distinct (waiting_on d r)" "\<And>d. set (waiting_on d r) \<subseteq> set (waiting_on d (reg w))"
    and busy: "\<And>d. waiting_on d r \<noteq> [] \<Longrightarrow> by_conversation r d \<noteq> None"
    and out: "distinct (answered eff)"
      "set (answered eff) = (\<Union>d. set (waiting_on d (reg w))) - (\<Union>d. set (waiting_on d r))"
  shows "waits_inv (act (r, eff) w)"
proof -
  let ?U = "\<Union>d. set (waiting_on d (reg w))" and ?V = "\<Union>d. set (waiting_on d r)"
  have w: "distinct (answered (effects w))" "{..<waits w} = set (answered (effects w)) \<union> ?U"
    "?U \<inter> set (answered (effects w)) = {}"
    and apart: "\<And>c d. c \<noteq> d \<Longrightarrow> set (waiting_on c (reg w)) \<inter> set (waiting_on d (reg w)) = {}"
    using assms(1) by (auto simp: waits_inv_def)
  have sub: "?V \<subseteq> ?U" using left(2) by blast
  have 1: "set (waiting_on c r) \<inter> set (waiting_on d r) = {}" if "c \<noteq> d" for c d
    using apart [OF that] left(2) [of c] left(2) [of d] by blast
  have 2: "distinct (answered (effects w @ eff))" using w(1,3) out by auto
  have 3: "set (waiting_on d r) \<inter> set (answered (effects w @ eff)) = {}" for d
  proof -
    have "set (waiting_on d r) \<subseteq> ?V" by blast
    then show ?thesis using w(3) sub unfolding answered_append set_append out(2) by blast
  qed
  have 4: "{..<waits w} = set (answered (effects w @ eff)) \<union> ?V"
    unfolding w(2) answered_append set_append out(2) using sub by blast
  show ?thesis
    unfolding waits_inv_def act_def using left(1) busy 1 2 3 4 by simp
qed

lemma union_drop:
  assumes "\<And>d. d \<noteq> c \<Longrightarrow> A d \<inter> A c = {}" "B \<subseteq> A c" "\<And>d. f d = (if d = c then A c - B else A d)"
  shows "(\<Union>d. A d) - (\<Union>d. f d) = B"
proof -
  have "(\<Union>d. f d) = (A c - B) \<union> (\<Union>d\<in>-{c}. A d)" "(\<Union>d. A d) = A c \<union> (\<Union>d\<in>-{c}. A d)"
    by (auto simp: assms(3) split: if_splits)
  moreover have "A c \<inter> (\<Union>d\<in>-{c}. A d) = {}" using assms(1) by auto
  ultimately show ?thesis using assms(2) by auto
qed

lemma waits_unregister:
  assumes "waits_inv w"
  shows "waits_inv (act (unregister_run s (reg w)) w)"
proof (cases "get_run s (reg w)")
  case None
  then show ?thesis using waits_frame [OF assms, of "reg w" "[]"] by (simp add: unregister_run_def)
next
  case (Some h)
  let ?r = "reg w" and ?c = "h_conversation h"
  show ?thesis
  proof (cases "by_conversation ?r ?c = Some s")
    case False
    then have "unregister_run s ?r = (?r\<lparr>runs := map_delete s (runs ?r)\<rparr>, [])"
      using Some by (simp add: unregister_run_def Let_def)
    then show ?thesis using waits_frame [OF assms, of "?r\<lparr>runs := map_delete s (runs ?r)\<rparr>" "[]"] by simp
  next
    case True
    let ?u = "unregister_run s ?r"
    have q: "waiting_on d (fst ?u) = (if d = ?c then [] else waiting_on d ?r)"
      "by_conversation (fst ?u) = (by_conversation ?r)(?c := None)"
      "answered (snd ?u) = waiting_on ?c ?r" for d
      using Some True by (auto simp: unregister_run_def waiting_on_def Let_def split: option.split)
    have apart: "d \<noteq> ?c \<Longrightarrow> set (waiting_on d ?r) \<inter> set (waiting_on ?c ?r) = {}" for d
      using assms unfolding waits_inv_def by blast
    have u: "(\<Union>d. set (waiting_on d ?r)) - (\<Union>d. set (waiting_on d (fst ?u))) = set (answered (snd ?u))"
      by (rule union_drop [where c = ?c], erule apart) (auto simp: q)
    have i: "\<And>d. distinct (waiting_on d ?r)" "\<And>d. waiting_on d ?r \<noteq> [] \<Longrightarrow> by_conversation ?r d \<noteq> None"
      using assms by (auto simp: waits_inv_def)
    have "waits_inv (act (fst ?u, snd ?u) w)"
    proof (rule waits_answer [OF assms])
      show "waiting_on d (fst ?u) \<noteq> [] \<Longrightarrow> by_conversation (fst ?u) d \<noteq> None" for d
        using i(2) [of d] by (simp add: q split: if_splits)
    qed (simp_all only: u, simp_all add: i(1) q)
    then show ?thesis by simp
  qed
qed

lemma waits_timed_out:
  assumes "waits_inv w"
  shows "waits_inv (act (wait_timed_out c n (reg w)) w)"
proof (cases "n \<in> set (waiting_on c (reg w))")
  case False
  then have "wait_timed_out c n (reg w) = (reg w, [])"
    by (auto simp: wait_timed_out_def waiting_on_def split: option.splits)
  then show ?thesis using waits_frame [OF assms, of "reg w" "[]"] by simp
next
  case True
  let ?r = "reg w" and ?u = "wait_timed_out c n (reg w)"
  have q: "waiting_on d (fst ?u) = (if d = c then removeAll n (waiting_on c ?r) else waiting_on d ?r)"
    "by_conversation (fst ?u) = by_conversation ?r" "answered (snd ?u) = [n]" for d
    using True by (cases "run_end_waiters ?r c"; auto simp: wait_timed_out_def waiting_on_def Let_def)+
  have apart: "d \<noteq> c \<Longrightarrow> set (waiting_on d ?r) \<inter> set (waiting_on c ?r) = {}" for d
    using assms unfolding waits_inv_def by blast
  have u: "(\<Union>d. set (waiting_on d ?r)) - (\<Union>d. set (waiting_on d (fst ?u))) = set (answered (snd ?u))"
    by (rule union_drop [where c = c], erule apart) (use True in \<open>auto simp: q\<close>)
  have i: "\<And>d. distinct (waiting_on d ?r)" "\<And>d. waiting_on d ?r \<noteq> [] \<Longrightarrow> by_conversation ?r d \<noteq> None"
    using assms by (auto simp: waits_inv_def)
  have "by_conversation (fst ?u) d \<noteq> None" if "waiting_on d (fst ?u) \<noteq> []" for d
    using i(2) [of d] that length_pos_if_in_set [OF True] unfolding q by (cases "d = c") auto
  then have "waits_inv (act (fst ?u, snd ?u) w)"
    by (intro waits_answer [OF assms]) (simp_all add: u, auto simp: q i(1) distinct_removeAll)
  then show ?thesis by simp
qed

lemma waits_register: "waits_inv w \<Longrightarrow> waits_inv (act (register_run h (reg w)) w)"
  by (cases "announce_activity h") (use answered_announce [of h] in \<open>auto simp: register_run_def intro!: waits_frame\<close>)

lemma waits_overwritten: "waits_inv w \<Longrightarrow> waits_inv (w\<lparr>overwritten := X\<rparr>)"
  by (simp add: waits_inv_def)

lemma waits_mutate:
  assumes "waits_inv w"
  shows "waits_inv (act (mutate s (change_handle e) (reg w)) w)"
proof -
  let ?u = "mutate s (change_handle e) (reg w)"
  have "run_end_waiters (fst ?u) = run_end_waiters (reg w)" "by_conversation (fst ?u) = by_conversation (reg w)"
    "answered (snd ?u) = []"
    using answered_change [of e] by (auto simp: mutate_def split: option.split prod.split) (metis snd_conv)
  then have "waits_inv (act (fst ?u, snd ?u) w)" using assms by (intro waits_frame) auto
  then show ?thesis by simp
qed

lemma waits_inv_step: "registry_step w w' \<Longrightarrow> waits_inv w \<Longrightarrow> waits_inv w'"
proof (induction rule: registry_step.induct)
  case (claim h w p)
  then have "p = register_run h (reg w)" by (simp add: claim_conversation_def split: if_splits)
  then show ?case using waits_register claim.prems by simp
qed (simp_all add: waits_register waits_overwritten waits_unregister waits_wait waits_timed_out waits_mutate)

lemma runs_inv_start: "runs_inv (overwritten world0) (reg world0)"
  by (auto simp: runs_inv_def world0_def empty_registry_def get_run_def)

lemma waits_inv_start: "waits_inv world0"
  by (simp add: waits_inv_def world0_def empty_registry_def waiting_on_def)

interpretation held: machine registry_step "\<lambda>w. runs_inv (overwritten w) (reg w)" world0
  using runs_inv_step runs_inv_start by unfold_locales blast+

interpretation waited: machine registry_step waits_inv world0
  using waits_inv_step waits_inv_start by unfold_locales blast+

lemmas reached_runs = held.reached_inv
lemmas reached_waits = waited.reached_inv

section \<open>Properties\<close>

lemma registered_iff:
  "distinct (map fst (runs r)) \<Longrightarrow> (s, h) \<in> set (runs r) \<longleftrightarrow> get_run s r = Some h"
  by (simp add: get_run_def)

lemma one_of_conversation:
  assumes "runs_inv X r" "c \<notin> X"
  shows "length (filter (\<lambda>p. h_conversation (snd p) = c) (runs r)) \<le> 1"
proof -
  let ?f = "filter (\<lambda>p. h_conversation (snd p) = c) (runs r)"
  have d: "distinct (map fst (runs r))" using assms by (simp add: runs_inv_def)
  have "p = q" if "p \<in> set ?f" "q \<in> set ?f" for p q
  proof -
    obtain s h t k where e: "p = (s, h)" "q = (t, k)" by (cases p, cases q)
    then have g: "get_run s r = Some h" "get_run t r = Some k" "h_conversation h = c" "h_conversation k = c"
      using that d by (simp_all add: registered_iff)
    then have "by_conversation r c = Some s" "by_conversation r c = Some t" 
      using runs_inv_entry(4) [OF assms(1) g(1)] runs_inv_entry(4) [OF assms(1) g(2)] g(3,4) assms(2) by simp_all
    then show ?thesis using g e by simp
  qed
  moreover have "distinct ?f" using d by (simp add: distinct_map)
  ultimately have "card (set ?f) \<le> 1" by (simp add: card_le_Suc0_iff_eq)
  then show ?thesis using distinct_card [OF \<open>distinct ?f\<close>] by simp
qed

text \<open>C27: whatever is claimed, registered, ended, waited for and changed, in any order, the run a conversation is looked up
  by is always one registered for it, and the conversation is busy exactly while there is such a run. As long as no run was
  registered over another in a conversation, it never has two runs, and the one registered for it is the one it is
  looked up by: a claim, or a look and a registration in one step, never takes a conversation from a
  run. Registering without looking can (\<open>compaction_overwrites_a_run\<close>).\<close>

theorem one_run_per_conversation:
  assumes "registry_step\<^sup>*\<^sup>* world0 w"
  shows "(get_run_by_conversation c (reg w) = Some h \<longrightarrow> (h_stream h, h) \<in> set (runs (reg w)) \<and> h_conversation h = c)
    \<and> (is_conversation_busy c (reg w) \<longleftrightarrow> get_run_by_conversation c (reg w) \<noteq> None)
    \<and> (c \<notin> overwritten w \<longrightarrow>
         length (filter (\<lambda>p. h_conversation (snd p) = c) (runs (reg w))) \<le> 1
         \<and> (get_run_by_conversation c (reg w) = Some h \<longleftrightarrow> (h_stream h, h) \<in> set (runs (reg w)) \<and> h_conversation h = c))"
proof -
  note i = reached_runs [OF assms]
  have d: "distinct (map fst (runs (reg w)))" using i by (simp add: runs_inv_def)
  have g: "get_run s (reg w) = Some k \<Longrightarrow> h_stream k = s \<and> s \<noteq> []" for s k using runs_inv_entry [OF i] by blast
  have 1: "(h_stream h, h) \<in> set (runs (reg w)) \<and> h_conversation h = c" if "get_run_by_conversation c (reg w) = Some h"
    using that runs_inv_held [OF i] g
    by (fastforce simp: registered_iff [OF d] get_run_by_conversation_def split: option.splits if_splits)
  have 2: "get_run_by_conversation c (reg w) = Some h" if "c \<notin> overwritten w" "(h_stream h, h) \<in> set (runs (reg w))" "h_conversation h = c"
  proof -
    have "get_run (h_stream h) (reg w) = Some h" using that(2) by (simp add: registered_iff [OF d])
    moreover from this have "by_conversation (reg w) c = Some (h_stream h)" using runs_inv_entry(4) [OF i] that(1,3) by blast
    ultimately show ?thesis using g [of "h_stream h" h] by (simp add: get_run_by_conversation_def)
  qed
  show ?thesis using 1 2 one_of_conversation [OF i] looked_up [OF i] by (auto simp: is_conversation_busy_def)
qed

definition sample_handle :: handle where
  "sample_handle = \<lparr>h_stream = ''s'', h_conversation = ''c'', h_model = None, approvals = [], steps_decision = None,
     h_parent = None, queue_position = None, announced = None, h_mode = Some PManual, mode_log = False,
     mode_listeners = [], h_limits = None, limit_listeners = []\<rparr>"

definition claimed_world :: world where
  "claimed_world = act (register_run sample_handle empty_registry) world0"

definition waiting_world :: world where
  "waiting_world = act (wait_for_run_end ''c'' 0 (reg claimed_world)) claimed_world\<lparr>waits := 1\<rparr>"

definition ended_world :: world where
  "ended_world = act (unregister_run ''s'' (reg waiting_world)) waiting_world"

lemma claimed_reached: "registry_step\<^sup>*\<^sup>* world0 claimed_world"
  unfolding claimed_world_def
  by (rule r_into_rtranclp, rule claim [where h = sample_handle])
    (simp_all add: world0_def empty_registry_def get_run_def sample_handle_def claim_conversation_def new_run_def)

lemma waiting_reached: "registry_step\<^sup>*\<^sup>* world0 waiting_world"
proof -
  have "registry_step claimed_world waiting_world"
    using wait [of claimed_world "''c''"] by (simp add: waiting_world_def claimed_world_def act_def world0_def)
  then show ?thesis using claimed_reached by (rule rtranclp.rtrancl_into_rtrancl [rotated])
qed

lemma ended_reached: "registry_step\<^sup>*\<^sup>* world0 ended_world"
  using waiting_reached unregister [of waiting_world "''s''"] unfolding ended_world_def
  by (rule rtranclp.rtrancl_into_rtrancl)

theorem one_run_per_conversation_witness:
  "length (filter (\<lambda>p. h_conversation (snd p) = ''c'') (runs (reg claimed_world))) \<le> 1
   \<and> is_conversation_busy ''c'' (reg claimed_world) \<and> get_run_by_conversation ''c'' (reg claimed_world) \<noteq> None"
proof -
  have "is_conversation_busy ''c'' (reg claimed_world)" by code_simp
  moreover have "''c'' \<notin> overwritten claimed_world" by (simp add: claimed_world_def world0_def)
  ultimately show ?thesis using one_run_per_conversation [OF claimed_reached, of "''c''" sample_handle] by blast
qed

text \<open>
  A compaction looks whether the conversation is busy, awaits the history, the parent and its producer, and registers; a send
  that claims the conversation meanwhile is overwritten. Both runs are live, and a lookup (Stop, an
  approval) reaches only the compaction.
\<close>

definition compacting_world :: world where
  "compacting_world = (act (register_run (sample_handle\<lparr>h_stream := ''t''\<rparr>) (reg claimed_world)) claimed_world)\<lparr>overwritten := {''c''}\<rparr>"

lemma compaction_overwrites_a_run:
  "registry_step\<^sup>*\<^sup>* world0 compacting_world"
  "map (\<lambda>p. (fst p, h_conversation (snd p))) (runs (reg compacting_world)) = [(''s'', ''c''), (''t'', ''c'')]"
  "map_option h_stream (get_run_by_conversation ''c'' (reg compacting_world)) = Some ''t''"
proof -
  have n: "new_run (sample_handle\<lparr>h_stream := ''t''\<rparr>) (reg claimed_world)" "is_conversation_busy ''c'' (reg claimed_world)"
    "h_conversation sample_handle = ''c''" "overwritten claimed_world = {}"
    by code_simp+
  have "registry_step claimed_world compacting_world"
    using register [OF n(1)] n(2-) by (simp add: compacting_world_def)
  then show "registry_step\<^sup>*\<^sup>* world0 compacting_world" using claimed_reached by (rule rtranclp.rtrancl_into_rtrancl [rotated])
  show "map (\<lambda>p. (fst p, h_conversation (snd p))) (runs (reg compacting_world)) = [(''s'', ''c''), (''t'', ''c'')]" by code_simp
  show "map_option h_stream (get_run_by_conversation ''c'' (reg compacting_world)) = Some ''t''" by code_simp
qed

text \<open>the watchers are told exactly when there is something to tell. In every reachable state
  what a conversation was last told about its run is what the run is doing, and a further
  change to the run announces it if and only if that changes: a run moving up the queue says so, one that
  only asks again, switches mode or changes limits says nothing.\<close>

theorem announces_exactly_changes:
  assumes "registry_step\<^sup>*\<^sup>* world0 w" "get_run s (reg w) = Some h"
    and "mutate s (change_handle e) (reg w) = (r, eff)" "get_run s r = Some h'"
  shows "announced h = Some (activity_key_of h)
    \<and> filter (\<lambda>x. \<exists>c. x = Announce c) eff =
      (if activity_key_of h' = activity_key_of h then [] else [Announce (h_conversation h)])"
proof (intro conjI)
  show a: "announced h = Some (activity_key_of h)"
    using reached_runs [OF assms(1)] assms(2) by (simp add: runs_inv_def)
  have e: "h' = fst (change_handle e h)" "eff = snd (change_handle e h)"
    using assms(2-4) by (auto simp: mutate_def get_run_def map_of_map_set split: prod.splits)
  show "filter (\<lambda>x. \<exists>c. x = Announce c) eff =
      (if activity_key_of h' = activity_key_of h then [] else [Announce (h_conversation h)])"
    unfolding e by (rule change_tells [OF a])
qed

theorem announces_exactly_changes_witness:
  "filter (\<lambda>x. \<exists>c. x = Announce c) (snd (mutate ''s'' (change_handle (SetQueue 3)) (reg claimed_world))) = [Announce ''c'']"
proof -
  let ?q = "change_handle (SetQueue 3)" and ?h = "fst (announce_activity sample_handle)"
  have 1: "get_run ''s'' (reg claimed_world) = Some ?h"
    by (simp add: claimed_world_def act_def world0_def empty_registry_def register_run_def get_run_def
      map_of_map_set sample_handle_def split: prod.split)
  have 2: "mutate ''s'' ?q (reg claimed_world) = (fst (mutate ''s'' ?q (reg claimed_world)), snd (?q ?h))"
    using 1 by (simp add: mutate_def split: prod.split)
  have 3: "get_run ''s'' (fst (mutate ''s'' ?q (reg claimed_world))) = Some (fst (?q ?h))"
    using 1 by (simp add: mutate_def get_run_def map_of_map_set split: prod.split)
  have k: "activity_key_of (fst (?q ?h)) \<noteq> activity_key_of ?h" "h_conversation ?h = ''c''" by code_simp+
  have "snd (mutate ''s'' ?q (reg claimed_world)) = snd (?q ?h)" by (subst 2) simp
  then show ?thesis using announces_exactly_changes [OF claimed_reached 1 2 3] k by simp
qed

text \<open>every wait for a run's end is answered once and only once. In every reachable
  state a wait ever started has either been answered, once, or is still pending on a conversation that
  is busy: none is lost when its run ends or when its timer fires.\<close>

theorem waits_answered_once:
  assumes "registry_step\<^sup>*\<^sup>* world0 w" "n < waits w"
  shows "distinct (answered (effects w))
    \<and> (n \<in> set (answered (effects w)) \<longleftrightarrow> (\<forall>c. n \<notin> set (waiting_on c (reg w))))
    \<and> (n \<in> set (waiting_on c (reg w)) \<longrightarrow> is_conversation_busy c (reg w))"
proof (intro conjI)
  have i: "waits_inv w" by (rule reached_waits [OF assms(1)])
  have n: "n \<in> set (answered (effects w)) \<union> (\<Union>c. set (waiting_on c (reg w)))"
    using i assms(2) unfolding waits_inv_def by blast
  show "distinct (answered (effects w))" using i by (simp add: waits_inv_def)
  show "n \<in> set (answered (effects w)) \<longleftrightarrow> (\<forall>c. n \<notin> set (waiting_on c (reg w)))"
  proof -
    have "set (waiting_on d (reg w)) \<inter> set (answered (effects w)) = {}" for d
      using i unfolding waits_inv_def by blast
    then show ?thesis using n by blast
  qed
  have "waiting_on c (reg w) \<noteq> [] \<longrightarrow> by_conversation (reg w) c \<noteq> None"
    using i unfolding waits_inv_def by (elim conjE allE [where x = c])
  then show "n \<in> set (waiting_on c (reg w)) \<longrightarrow> is_conversation_busy c (reg w)"
    unfolding is_conversation_busy_def using length_pos_if_in_set [of n "waiting_on c (reg w)"] by auto
qed

theorem waits_answered_once_witness:
  "0 \<in> set (answered (effects ended_world)) \<and> 0 \<in> set (waiting_on ''c'' (reg waiting_world))
   \<and> is_conversation_busy ''c'' (reg waiting_world)"
proof -
  have a: "0 < waits waiting_world" "0 < waits ended_world" "0 \<in> set (waiting_on ''c'' (reg waiting_world))"
    by code_simp+
  have "0 \<in> set (answered (effects ended_world))" by code_simp
  then show ?thesis
    using a(3) waits_answered_once [OF waiting_reached a(1), of "''c''"] by simp
qed

end
