(* ===== verification/EgressPush.thy ===== *)
theory EgressPush
  imports Prelude
begin

text \<open>
  What the egress proxy lets a sandbox push (\<open>egress/rules.ts\<close>): the reader of a
  receive-pack request's commands, the rule for them, and the refusal sent back. A buffer is a
  list of bytes and decoded text a list of UTF-16 units, both as numbers, so that nothing is
  assumed of a hostile body.
\<close>

type_synonym bytes = "nat list"
type_synonym units = "nat list"

definition units_of :: "js_string \<Rightarrow> units" where
  "units_of s = map of_char s"

section \<open>UTF-8, as \<open>Buffer.toString\<close> and \<open>Buffer.from\<close> have it\<close>

text \<open>A lead byte: how many bytes follow, the range of the first of them, and what to take off it.\<close>

definition lead_byte :: "nat \<Rightarrow> (nat \<times> nat \<times> nat \<times> nat) option" where
  "lead_byte b =
     (if 0xC2 \<le> b \<and> b \<le> 0xDF then Some (1, 0x80, 0xBF, 0xC0)
      else if b = 0xE0 then Some (2, 0xA0, 0xBF, 0xE0)
      else if b = 0xED then Some (2, 0x80, 0x9F, 0xE0)
      else if 0xE1 \<le> b \<and> b \<le> 0xEF then Some (2, 0x80, 0xBF, 0xE0)
      else if b = 0xF0 then Some (3, 0x90, 0xBF, 0xF0)
      else if 0xF1 \<le> b \<and> b \<le> 0xF3 then Some (3, 0x80, 0xBF, 0xF0)
      else if b = 0xF4 then Some (3, 0x80, 0x8F, 0xF0)
      else None)"

fun trailing :: "nat \<Rightarrow> nat \<Rightarrow> nat \<Rightarrow> bytes \<Rightarrow> nat" where
  "trailing 0 lo hi bs = 0"
| "trailing (Suc n) lo hi [] = 0"
| "trailing (Suc n) lo hi (c # cs) = (if lo \<le> c \<and> c \<le> hi then Suc (trailing n 0x80 0xBF cs) else 0)"

definition utf16 :: "nat \<Rightarrow> units" where
  "utf16 cp = (if cp < 0x10000 then [cp] else [0xD800 + (cp - 0x10000) div 1024, 0xDC00 + (cp - 0x10000) mod 1024])"

function utf8_text :: "bytes \<Rightarrow> units" where
  "utf8_text [] = []"
| "utf8_text (b # bs) =
     (if b < 0x80 then b # utf8_text bs
      else case lead_byte b of
        None \<Rightarrow> 0xFFFD # utf8_text bs
      | Some (need, lo, hi, base) \<Rightarrow>
          (let k = trailing need lo hi bs in
           (if k = need then utf16 (foldl (\<lambda>a c. a * 64 + (c - 0x80)) (b - base) (take k bs)) else [0xFFFD])
           @ utf8_text (drop k bs)))"
  by pat_completeness auto
termination by (relation "measure length") auto

fun utf8_bytes :: "units \<Rightarrow> bytes" where
  "utf8_bytes [] = []"
| "utf8_bytes (u # us) =
     (if u < 0x80 then u # utf8_bytes us
      else if u < 0x800 then [0xC0 + u div 64, 0x80 + u mod 64] @ utf8_bytes us
      else if 0xD800 \<le> u \<and> u < 0xE000 then
        (case us of
           v # vs \<Rightarrow>
             if u < 0xDC00 \<and> 0xDC00 \<le> v \<and> v < 0xE000 then
               (let cp = 0x10000 + (u - 0xD800) * 1024 + (v - 0xDC00) in
                [0xF0 + cp div 262144, 0x80 + cp div 4096 mod 64, 0x80 + cp div 64 mod 64, 0x80 + cp mod 64] @ utf8_bytes vs)
             else [0xEF, 0xBF, 0xBD] @ utf8_bytes us
         | [] \<Rightarrow> [0xEF, 0xBF, 0xBD])
      else [0xE0 + u div 4096, 0x80 + u div 64 mod 64, 0x80 + u mod 64] @ utf8_bytes us)"

section \<open>Reading the commands of a push\<close>

record ref_update =
  old_sha :: units
  new_sha :: units
  ref_name :: units

record receive_pack =
  ref_updates :: "ref_update list"
  capabilities :: "units list"
  pack_end :: nat

datatype pack_result = Commands receive_pack | NeedMore | PackError js_string

definition MAX_RECEIVE_PACK_HEADER :: nat where "MAX_RECEIVE_PACK_HEADER = 64 * 1024"
definition MAX_REF_UPDATES :: nat where "MAX_REF_UPDATES = 100"

definition is_hex :: "nat \<Rightarrow> bool" where
  "is_hex u \<longleftrightarrow> 48 \<le> u \<and> u \<le> 57 \<or> 97 \<le> u \<and> u \<le> 102"

definition hex_value :: "nat \<Rightarrow> nat" where
  "hex_value u = (if u \<le> 57 then u - 48 else u - 87)"

definition parse_hex :: "units \<Rightarrow> nat" where
  "parse_hex us = foldl (\<lambda>a u. a * 16 + hex_value u) 0 us"

text \<open>The class \<open>\s\<close> on UTF-16 units.\<close>

definition unit_space :: "nat \<Rightarrow> bool" where
  "unit_space u \<longleftrightarrow> 9 \<le> u \<and> u \<le> 13 \<or> u \<in> {32, 0xA0, 0x1680, 0x2028, 0x2029, 0x202F, 0x205F, 0x3000, 0xFEFF}
     \<or> 0x2000 \<le> u \<and> u \<le> 0x200A"

definition strip_newline :: "units \<Rightarrow> units" where
  "strip_newline us = (if us \<noteq> [] \<and> last us = 10 then butlast us else us)"

fun split_units :: "nat \<Rightarrow> units \<Rightarrow> units list" where
  "split_units d [] = [[]]"
| "split_units d (u # us) =
     (if u = d then [] # split_units d us
      else (case split_units d us of [] \<Rightarrow> [[u]] | w # ws \<Rightarrow> (u # w) # ws))"

text \<open>\<open>/^([0-9a-f]{40,64}) ([0-9a-f]{40,64}) (\S+)$/\<close>: a run of hex digits ends before its space.\<close>

definition parse_update :: "units \<Rightarrow> ref_update option" where
  "parse_update line =
     (let a = takeWhile is_hex line; r1 = dropWhile is_hex line;
          b = takeWhile is_hex (tl r1); r2 = dropWhile is_hex (tl r1); name = tl r2 in
      if 40 \<le> length a \<and> length a \<le> 64 \<and> r1 \<noteq> [] \<and> hd r1 = 32
         \<and> 40 \<le> length b \<and> length b \<le> 64 \<and> r2 \<noteq> [] \<and> hd r2 = 32
         \<and> name \<noteq> [] \<and> list_all (\<lambda>u. \<not> unit_space u) name
      then Some \<lparr>old_sha = a, new_sha = b, ref_name = name\<rparr> else None)"

text \<open>One pkt-line's payload: the updates and capabilities after it.\<close>

definition read_line :: "bytes \<Rightarrow> ref_update list \<Rightarrow> units list \<Rightarrow> (js_string + ref_update list \<times> units list)" where
  "read_line payload ups caps =
     (let text = strip_newline (utf8_text payload);
          line = takeWhile (\<lambda>u. u \<noteq> 0) text;
          rest = dropWhile (\<lambda>u. u \<noteq> 0) text;
          caps' = (if rest \<noteq> [] \<and> ups = [] then filter (\<lambda>c. c \<noteq> []) (split_units 32 (tl rest)) else caps) in
      if take 8 line = units_of ''shallow '' then Inr (ups, caps')
      else case parse_update line of
        None \<Rightarrow> Inl ''not a ref update''
      | Some u \<Rightarrow>
          if MAX_REF_UPDATES < length (ups @ [u]) then Inl ''too many ref updates'' else Inr (ups @ [u], caps'))"

text \<open>The loop of \<open>parseReceivePack\<close>: the buffer's length, how far it is read, and what is left of it.\<close>

function read_pkts :: "nat \<Rightarrow> nat \<Rightarrow> ref_update list \<Rightarrow> units list \<Rightarrow> bytes \<Rightarrow> pack_result" where
  "read_pkts whole i ups caps buf =
     (if length buf < 4 then (if MAX_RECEIVE_PACK_HEADER < whole then PackError ''commands too long'' else NeedMore)
      else if \<not> list_all is_hex (take 4 buf) then PackError ''not a pkt-line''
      else (let len = parse_hex (take 4 buf) in
        if len = 0 then Commands \<lparr>ref_updates = ups, capabilities = caps, pack_end = i + 4\<rparr>
        else if len < 4 then PackError ''bad pkt-line length''
        else if length buf < len then
          (if MAX_RECEIVE_PACK_HEADER < i + len then PackError ''commands too long'' else NeedMore)
        else case read_line (drop 4 (take len buf)) ups caps of
          Inl e \<Rightarrow> PackError e
        | Inr (ups', caps') \<Rightarrow> read_pkts whole (i + len) ups' caps' (drop len buf)))"
  by pat_completeness auto
termination by (relation "measure (\<lambda>(_, _, _, _, buf). length buf)") auto

declare read_pkts.simps [simp del]

definition parse_receive_pack :: "bytes \<Rightarrow> pack_result" where
  "parse_receive_pack buf = read_pkts (length buf) 0 [] [] buf"

text \<open>\<open>readPushHead\<close> of \<open>egress/proxy.ts\<close>: the chunks of the body, until the commands are all there.\<close>

fun read_push_head :: "bytes \<Rightarrow> bytes list \<Rightarrow> (js_string + bytes \<times> receive_pack)" where
  "read_push_head head [] = Inl ''the push ended before its commands''"
| "read_push_head head (c # cs) =
     (case parse_receive_pack (head @ c) of
        NeedMore \<Rightarrow> read_push_head (head @ c) cs
      | PackError e \<Rightarrow> Inl e
      | Commands r \<Rightarrow> Inr (head @ c, r))"

section \<open>The rule\<close>

record egress_scope =
  scope_repo :: "js_string option"
  scope_branch :: "js_string option"

datatype verdict = Allow | Refuse units

definition some_text :: "js_string option \<Rightarrow> bool" where
  "some_text s \<longleftrightarrow> s \<noteq> None \<and> s \<noteq> Some []"

definition may_write :: "egress_scope \<Rightarrow> bool" where
  "may_write scope \<longleftrightarrow> some_text (scope_repo scope) \<and> some_text (scope_branch scope)"

definition READ_ONLY_HERE :: js_string where
  "READ_ONLY_HERE = ''Loxaic lets this sandbox read GitHub but not write to it: only a conversation with a GitHub workspace can push or open a pull request, and only for its own repository.''"

definition only_branch :: "egress_scope \<Rightarrow> js_string" where
  "only_branch scope =
     ''Loxaic lets this workspace push only to refs/heads/''
     @ (case scope_branch scope of Some b \<Rightarrow> b | None \<Rightarrow> ''its own branch'')
     @ '' of '' @ (case scope_repo scope of Some r \<Rightarrow> r | None \<Rightarrow> ''its repository'') @ ''.''"

definition zero_sha :: "units \<Rightarrow> bool" where
  "zero_sha s \<longleftrightarrow> s \<noteq> [] \<and> list_all (\<lambda>u. u = 48) s"

definition branch_ref :: "egress_scope \<Rightarrow> units" where
  "branch_ref scope = units_of (''refs/heads/'' @ (case scope_branch scope of Some b \<Rightarrow> b | None \<Rightarrow> ''null''))"

fun check_updates :: "ref_update list \<Rightarrow> egress_scope \<Rightarrow> verdict" where
  "check_updates [] scope = Allow"
| "check_updates (u # us) scope =
     (if ref_name u \<noteq> branch_ref scope then Refuse (units_of (only_branch scope))
      else if zero_sha (new_sha u) then
        Refuse (units_of ''Loxaic does not let this workspace delete '' @ ref_name u @ units_of ''.'')
      else check_updates us scope)"

definition check_push :: "ref_update list \<Rightarrow> egress_scope \<Rightarrow> js_string \<Rightarrow> verdict" where
  "check_push ups scope repo =
     (if \<not> may_write scope then Refuse (units_of READ_ONLY_HERE)
      else if Some repo \<noteq> scope_repo scope then Refuse (units_of (only_branch scope))
      else check_updates ups scope)"

section \<open>The refusal sent back\<close>

definition hex_digit :: "nat \<Rightarrow> nat" where
  "hex_digit d = (if d < 10 then 48 + d else 87 + d)"

fun hex_digits :: "nat \<Rightarrow> bytes" where
  "hex_digits n = (if n < 16 then [hex_digit n] else hex_digits (n div 16) @ [hex_digit (n mod 16)])"

declare hex_digits.simps [simp del]

definition pkt :: "bytes \<Rightarrow> bytes" where
  "pkt body = (let h = hex_digits (length body + 4) in replicate (4 - length h) 48 @ h @ body)"

definition FLUSH :: bytes where "FLUSH = units_of ''0000''"

text \<open>\<open>replace(/[\r\n]+/g, " ")\<close>\<close>

fun one_line :: "units \<Rightarrow> units" where
  "one_line [] = []"
| "one_line (u # us) =
     (if u = 10 \<or> u = 13 then
        (case us of v # vs \<Rightarrow> if v = 10 \<or> v = 13 then one_line us else 32 # one_line us | [] \<Rightarrow> [32])
      else u # one_line us)"

definition push_report :: "ref_update list \<Rightarrow> units \<Rightarrow> bytes" where
  "push_report ups clean =
     pkt (units_of ''unpack ok'' @ [10])
     @ concat (map (\<lambda>u. pkt (utf8_bytes (units_of ''ng '' @ ref_name u @ [32] @ clean @ [10]))) ups)
     @ FLUSH"

fun side_band :: "bytes \<Rightarrow> nat \<Rightarrow> bytes" where
  "side_band report 0 = []"
| "side_band report (Suc n) =
     (if report = [] then [] else pkt (1 # take 65000 report) @ side_band (drop 65000 report) n)"

definition rejected_push_response :: "receive_pack \<Rightarrow> units \<Rightarrow> bytes" where
  "rejected_push_response commands reason =
     (let clean = take 400 (one_line reason); report = push_report (ref_updates commands) clean in
      if units_of ''side-band-64k'' \<in> set (capabilities commands) \<or> units_of ''side-band'' \<in> set (capabilities commands)
      then pkt (2 # utf8_bytes (clean @ [10])) @ side_band report (length report) @ FLUSH
      else report)"

section \<open>Lemmas: text and packets\<close>

lemma trailing_ascii: "a < 0x80 \<Longrightarrow> 0x80 \<le> lo \<Longrightarrow> trailing n lo hi (bs @ a # ys) = trailing n lo hi bs"
  by (induction n lo hi bs rule: trailing.induct) auto

lemma trailing_ascii': "a < 0x80 \<Longrightarrow> 0x80 \<le> lo \<Longrightarrow> trailing n lo hi (a # ys) = 0"
  by (cases n) auto

lemma trailing_le: "trailing n lo hi bs \<le> length bs"
  by (induction n lo hi bs rule: trailing.induct) auto

lemma lead_lo: "lead_byte b = Some (need, lo, hi, base) \<Longrightarrow> 0x80 \<le> lo \<and> 0 < need"
  by (auto simp: lead_byte_def split: if_splits)

text \<open>An ASCII byte ends whatever stands before it: text splits there.\<close>

lemma utf8_text_ascii: "a < 0x80 \<Longrightarrow> utf8_text (bs @ a # ys) = utf8_text bs @ a # utf8_text ys"
proof (induction bs rule: utf8_text.induct)
  case (2 b bs)
  show ?case
  proof (cases "b < 0x80")
    case False
    show ?thesis
    proof (cases "lead_byte b")
      case (Some l)
      obtain need lo hi base where l: "l = (need, lo, hi, base)" by (cases l)
      have t: "trailing need lo hi (bs @ a # ys) = trailing need lo hi bs"
        using trailing_ascii [OF "2.prems"] lead_lo Some l by simp
      note le = trailing_le [of need lo hi bs]
      show ?thesis
        using False Some l t le "2.IH"(3) [OF False Some l [symmetric] refl refl refl "2.prems"]
        by (simp add: Let_def)
    qed (use False 2 in simp)
  qed (use 2 in simp)
qed simp

lemma utf8_text_plain: "list_all (\<lambda>b. b < 0x80) bs \<Longrightarrow> utf8_text (bs @ ys) = bs @ utf8_text ys"
  by (induction bs) auto

lemma hex_digit_hex: "d < 16 \<Longrightarrow> is_hex (hex_digit d) \<and> hex_value (hex_digit d) = d"
  by (auto simp: is_hex_def hex_digit_def hex_value_def)

lemma hex_digits_last: "hex_digits n = (if n < 16 then [] else hex_digits (n div 16)) @ [hex_digit (n mod 16)]"
  by (subst hex_digits.simps) simp

lemma parse_hex_snoc: "parse_hex (us @ [u]) = parse_hex us * 16 + hex_value u"
  by (simp add: parse_hex_def)

lemma hex_digits_parse: "parse_hex (hex_digits n) = n \<and> list_all is_hex (hex_digits n)"
proof (induction n rule: hex_digits.induct)
  case (1 n)
  show ?case
  proof (cases "n < 16")
    case True
    then show ?thesis using hex_digit_hex [of n] by (subst (1 2) hex_digits.simps) (simp add: parse_hex_def)
  next
    case False
    then show ?thesis using 1 hex_digit_hex [of "n mod 16"]
      by (subst (1 2) hex_digits.simps) (simp add: parse_hex_snoc)
  qed
qed

lemma hex_digits_length: "n < 16 ^ Suc k \<Longrightarrow> length (hex_digits n) \<le> Suc k"
proof (induction k arbitrary: n)
  case 0
  then show ?case by (subst hex_digits.simps) simp
next
  case (Suc k)
  then have "n div 16 < 16 ^ Suc k" by (simp add: less_mult_imp_div_less mult.commute)
  with Suc.IH [OF this] show ?case by (subst hex_digits.simps) simp
qed

lemma parse_hex_zeros: "parse_hex (replicate k 48 @ us) = parse_hex us"
  by (induction k) (simp_all add: parse_hex_def hex_value_def)

text \<open>A packet's length as its reader sees it.\<close>

lemma pkt_header:
  assumes "length body < 0x10000 - 4"
  shows "\<exists>h. pkt body = h @ body \<and> length h = 4 \<and> list_all is_hex h \<and> parse_hex h = length body + 4"
proof -
  let ?d = "hex_digits (length body + 4)"
  have "length ?d \<le> 4" using hex_digits_length [of "length body + 4" 3] assms by simp
  then show ?thesis
    using hex_digits_parse [of "length body + 4"]
    by (intro exI [of _ "replicate (4 - length ?d) 48 @ ?d"])
      (auto simp: pkt_def Let_def parse_hex_zeros list_all_iff is_hex_def)
qed

section \<open>Reading what git writes\<close>

text \<open>A command as git writes it: two object names and the bytes of the ref.\<close>

type_synonym command = "bytes \<times> bytes \<times> bytes"

definition command_line :: "command \<Rightarrow> bytes" where
  "command_line c = (case c of (a, b, r) \<Rightarrow> a @ [32] @ b @ [32] @ r)"

definition update_of :: "command \<Rightarrow> ref_update" where
  "update_of c = (case c of (a, b, r) \<Rightarrow> \<lparr>old_sha = a, new_sha = b, ref_name = utf8_text r\<rparr>)"

definition object_name :: "bytes \<Rightarrow> bool" where
  "object_name a \<longleftrightarrow> 40 \<le> length a \<and> length a \<le> 64 \<and> list_all is_hex a"

definition valid_command :: "command \<Rightarrow> bool" where
  "valid_command c = (case c of (a, b, r) \<Rightarrow> object_name a \<and> object_name b
     \<and> utf8_text r \<noteq> [] \<and> list_all (\<lambda>u. \<not> unit_space u \<and> u \<noteq> 0) (utf8_text r))"

definition push_wire :: "bytes \<Rightarrow> command \<Rightarrow> command list \<Rightarrow> bytes" where
  "push_wire caps c cs = pkt (command_line c @ 0 # caps) @ concat (map (\<lambda>d. pkt (command_line d)) cs) @ FLUSH"

lemma hex_ascii: "is_hex u \<Longrightarrow> u < 0x80 \<and> u \<noteq> 32 \<and> u \<noteq> 0 \<and> u \<noteq> 115"
  by (auto simp: is_hex_def)

lemma command_text:
  assumes "valid_command (a, b, r)"
  shows "utf8_text (command_line (a, b, r)) = a @ 32 # b @ 32 # utf8_text r"
proof -
  have "list_all (\<lambda>u. u < 0x80) a" "list_all (\<lambda>u. u < 0x80) b"
    using assms by (auto simp: valid_command_def object_name_def list_all_iff hex_ascii)
  then show ?thesis by (simp add: command_line_def utf8_text_plain)
qed

lemma takeWhile_run: "list_all P xs \<Longrightarrow> \<not> P y \<Longrightarrow> takeWhile P (xs @ y # ys) = xs \<and> dropWhile P (xs @ y # ys) = y # ys"
  by (induction xs) auto

lemma parse_update_command:
  assumes "valid_command (a, b, r)"
  shows "parse_update (a @ 32 # b @ 32 # utf8_text r) = Some (update_of (a, b, r))"
proof -
  have h: "list_all is_hex a" "list_all is_hex b" "\<not> is_hex 32"
    using assms by (auto simp: valid_command_def object_name_def is_hex_def)
  show ?thesis
    using assms takeWhile_run [OF h(1,3)] takeWhile_run [OF h(2,3)]
    by (auto simp: parse_update_def Let_def update_of_def valid_command_def object_name_def list_all_iff)
qed

lemma strip_newline_id: "us = [] \<or> last us \<noteq> 10 \<Longrightarrow> strip_newline us = us"
  by (auto simp: strip_newline_def)

lemma strip_newline_zero: "strip_newline (us @ 0 # vs) = us @ 0 # strip_newline vs"
  by (auto simp: strip_newline_def butlast_append)

lemma command_not_shallow:
  assumes "valid_command (a, b, r)"
  shows "take 8 (a @ ys) \<noteq> units_of ''shallow ''"
proof -
  obtain u us where "a = u # us" "is_hex u"
    using assms by (cases a) (auto simp: valid_command_def object_name_def)
  then show ?thesis using hex_ascii by (auto simp: units_of_def)
qed

lemma command_no_zero:
  assumes "valid_command (a, b, r)"
  shows "list_all (\<lambda>u. u \<noteq> 0) (a @ 32 # b @ 32 # utf8_text r)"
  using assms by (auto simp: valid_command_def object_name_def list_all_iff dest: hex_ascii)

definition read_caps :: "bytes \<Rightarrow> units list" where
  "read_caps caps = filter (\<lambda>c. c \<noteq> []) (split_units 32 (strip_newline (utf8_text caps)))"

lemma read_line_command:
  assumes "valid_command c" "length ups < MAX_REF_UPDATES"
  shows "read_line (command_line c) ups caps = Inr (ups @ [update_of c], caps)"
    and "read_line (command_line c @ 0 # cs) [] caps = Inr ([update_of c], read_caps cs)"
proof -
  obtain a b r where c: "c = (a, b, r)" by (cases c)
  let ?l = "a @ 32 # b @ 32 # utf8_text r"
  note v = assms(1) [unfolded c]
  have ne: "utf8_text r \<noteq> []" and sp: "\<forall>u \<in> set (utf8_text r). \<not> unit_space u"
    using v by (simp_all add: valid_command_def list_all_iff)
  have "\<not> unit_space (last (utf8_text r))" using sp last_in_set [OF ne] by blast
  then have e: "utf8_text r \<noteq> []" "last (utf8_text r) \<noteq> 10" using ne by (auto simp: unit_space_def)
  then have s: "strip_newline ?l = ?l" by (intro strip_newline_id) (simp add: last_append)
  have z: "takeWhile (\<lambda>u. u \<noteq> 0) ?l = ?l" "dropWhile (\<lambda>u. u \<noteq> 0) ?l = []"
    using command_no_zero [OF v] by (auto simp: takeWhile_eq_all_conv dropWhile_eq_Nil_conv list_all_iff)
  show "read_line (command_line c) ups caps = Inr (ups @ [update_of c], caps)"
    using assms(2) command_not_shallow [OF v] parse_update_command [OF v]
    by (simp only: read_line_def c command_text [OF v] Let_def s z) simp
  have t: "strip_newline (utf8_text (command_line c @ 0 # cs)) = ?l @ 0 # strip_newline (utf8_text cs)"
  proof -
    have "utf8_text (command_line c @ 0 # cs) = ?l @ 0 # utf8_text cs"
      unfolding c using utf8_text_ascii [of 0 "command_line (a, b, r)" cs] command_text [OF v] by simp
    then show ?thesis by (simp only: strip_newline_zero)
  qed
  have z': "takeWhile (\<lambda>u. u \<noteq> 0) (?l @ 0 # vs) = ?l" "dropWhile (\<lambda>u. u \<noteq> 0) (?l @ 0 # vs) = 0 # vs" for vs
    using takeWhile_run [OF command_no_zero [OF v], of 0 vs] by auto
  show "read_line (command_line c @ 0 # cs) [] caps = Inr ([update_of c], read_caps cs)"
    using command_not_shallow [OF v] parse_update_command [OF v]
    by (simp only: read_line_def t z' Let_def) (simp add: read_caps_def c MAX_REF_UPDATES_def)
qed

text \<open>One packet read, and the flush.\<close>

lemma read_pkt:
  assumes "length body < 0x10000 - 4" "body \<noteq> []" "read_line body ups caps = Inr (ups', caps')"
  shows "read_pkts whole i ups caps (pkt body @ rest) = read_pkts whole (i + length (pkt body)) ups' caps' rest"
proof -
  obtain h where h: "pkt body = h @ body" "length h = 4" "list_all is_hex h" "parse_hex h = length body + 4"
    using pkt_header [OF assms(1)] by blast
  show ?thesis
    using h assms(3) by (subst read_pkts.simps) (simp add: Let_def add.commute)
qed

lemma read_flush: "read_pkts whole i ups caps (FLUSH @ rest) = Commands \<lparr>ref_updates = ups, capabilities = caps, pack_end = i + 4\<rparr>"
  by (subst read_pkts.simps) (simp add: FLUSH_def units_of_def is_hex_def parse_hex_def hex_value_def Let_def)

lemma pkt_length: "length body < 0x10000 - 4 \<Longrightarrow> length (pkt body) = length body + 4"
  using pkt_header [of body] by auto

lemma read_commands:
  assumes "\<forall>c \<in> set cs. valid_command c" "length ups + length cs \<le> MAX_REF_UPDATES"
    and "\<forall>c \<in> set cs. length (command_line c) < 0x10000 - 4"
  shows "read_pkts whole i ups caps (concat (map (\<lambda>d. pkt (command_line d)) cs) @ FLUSH @ pack)
    = Commands \<lparr>ref_updates = ups @ map update_of cs, capabilities = caps,
        pack_end = i + length (concat (map (\<lambda>d. pkt (command_line d)) cs)) + 4\<rparr>"
  using assms
proof (induction cs arbitrary: i ups)
  case Nil
  then show ?case by (simp add: read_flush)
next
  case (Cons c cs)
  have "read_line (command_line c) ups caps = Inr (ups @ [update_of c], caps)"
    using Cons.prems by (intro read_line_command) auto
  moreover have "command_line c \<noteq> []" by (cases c) (simp add: command_line_def)
  ultimately show ?case
    using Cons by (simp add: read_pkt)
qed

lemma hex_digits_ne: "hex_digits n \<noteq> []"
  by (subst hex_digits.simps) simp

lemma pkt_length_ge: "length body + 4 \<le> length (pkt body)"
  by (simp add: pkt_def Let_def)

lemma length_le_concat: "x \<in> set xs \<Longrightarrow> length x \<le> length (concat xs)"
  by (induction xs) auto

lemma parse_push_wire:
  assumes "\<forall>d \<in> set (c # cs). valid_command d" "length (c # cs) \<le> MAX_REF_UPDATES"
    and "length (push_wire caps c cs) \<le> MAX_RECEIVE_PACK_HEADER"
  shows "parse_receive_pack (push_wire caps c cs @ pack)
    = Commands \<lparr>ref_updates = map update_of (c # cs), capabilities = read_caps caps,
        pack_end = length (push_wire caps c cs)\<rparr>"
proof -
  let ?first = "command_line c @ 0 # caps" and ?rest = "concat (map (\<lambda>d. pkt (command_line d)) cs)"
  have w: "length (pkt ?first) + length ?rest + 4 \<le> 0x10000"
    using assms(3) by (simp add: push_wire_def FLUSH_def units_of_def MAX_RECEIVE_PACK_HEADER_def)
  then have f: "length ?first < 0x10000 - 4" using pkt_length_ge [of ?first] by simp
  have l: "length (command_line d) < 0x10000 - 4" if "d \<in> set cs" for d
    using length_le_concat [of "pkt (command_line d)" "map (\<lambda>d. pkt (command_line d)) cs"]
      pkt_length_ge [of "command_line d"] w that by simp
  have r: "read_line ?first [] [] = Inr ([update_of c], read_caps caps)"
    using assms(1) read_line_command(2) [of c "[]" caps "[]"] by (simp add: MAX_REF_UPDATES_def)
  show ?thesis
    unfolding parse_receive_pack_def push_wire_def
    using read_pkt [OF f _ r] read_commands [of cs "[update_of c]"] assms(1,2) l
    by (simp add: FLUSH_def units_of_def)
qed

section \<open>Whatever the chunks\<close>

text \<open>The branches of one turn of the loop.\<close>

lemma read_pkts_short:
  "length buf < 4 \<Longrightarrow>
   read_pkts w i ups caps buf = (if MAX_RECEIVE_PACK_HEADER < w then PackError ''commands too long'' else NeedMore)"
  by (subst read_pkts.simps) simp

lemma read_pkts_part_of:
  "4 \<le> length buf \<Longrightarrow> list_all is_hex (take 4 buf) \<Longrightarrow> 4 \<le> parse_hex (take 4 buf) \<Longrightarrow> length buf < parse_hex (take 4 buf) \<Longrightarrow>
   read_pkts w i ups caps buf =
     (if MAX_RECEIVE_PACK_HEADER < i + parse_hex (take 4 buf) then PackError ''commands too long'' else NeedMore)"
  by (subst read_pkts.simps) (simp add: Let_def)

lemma read_pkts_whole:
  "4 \<le> length buf \<Longrightarrow> list_all is_hex (take 4 buf) \<Longrightarrow> 4 \<le> parse_hex (take 4 buf) \<Longrightarrow> parse_hex (take 4 buf) \<le> length buf \<Longrightarrow>
   read_pkts w i ups caps buf =
     (case read_line (drop 4 (take (parse_hex (take 4 buf)) buf)) ups caps of
        Inl e \<Rightarrow> PackError e
      | Inr (ups', caps') \<Rightarrow> read_pkts w (i + parse_hex (take 4 buf)) ups' caps' (drop (parse_hex (take 4 buf)) buf))"
  by (subst read_pkts.simps) (simp add: Let_def)

lemma read_pkts_flush:
  "4 \<le> length buf \<Longrightarrow> list_all is_hex (take 4 buf) \<Longrightarrow> parse_hex (take 4 buf) = 0 \<Longrightarrow>
   read_pkts w i ups caps buf = Commands \<lparr>ref_updates = ups, capabilities = caps, pack_end = i + 4\<rparr>"
  by (subst read_pkts.simps) (simp add: Let_def)

text \<open>A conclusion is reached by a flush, or by a whole packet and what follows it.\<close>

lemma read_pkts_Commands:
  assumes "read_pkts w i ups caps buf = Commands r"
  obtains (flush) "4 \<le> length buf" "list_all is_hex (take 4 buf)" "parse_hex (take 4 buf) = 0"
      "r = \<lparr>ref_updates = ups, capabilities = caps, pack_end = i + 4\<rparr>"
    | (packet) ups' caps' where "4 \<le> length buf" "list_all is_hex (take 4 buf)" "4 \<le> parse_hex (take 4 buf)"
      "parse_hex (take 4 buf) \<le> length buf"
      "read_line (drop 4 (take (parse_hex (take 4 buf)) buf)) ups caps = Inr (ups', caps')"
      "read_pkts w (i + parse_hex (take 4 buf)) ups' caps' (drop (parse_hex (take 4 buf)) buf) = Commands r"
proof -
  note u = assms [unfolded read_pkts.simps [of w i ups caps buf] Let_def]
  consider "parse_hex (take 4 buf) = 0" "4 \<le> length buf" "list_all is_hex (take 4 buf)"
    | "4 \<le> parse_hex (take 4 buf)" "parse_hex (take 4 buf) \<le> length buf" "4 \<le> length buf" "list_all is_hex (take 4 buf)"
    using u by (auto split: if_splits)
  then show ?thesis
  proof cases
    case 1
    then show ?thesis using assms flush by (simp add: read_pkts_flush)
  next
    case 2
    then show ?thesis
      using assms packet by (auto simp: read_pkts_whole split: sum.splits)
  qed
qed

lemma read_pkts_end: "read_pkts w i ups caps buf = Commands r \<Longrightarrow> i + 4 \<le> pack_end r"
proof (induction w i ups caps buf rule: read_pkts.induct)
  case (1 w i ups caps buf)
  from "1.prems" show ?case
  proof (cases rule: read_pkts_Commands)
    case (packet ups' caps')
    then show ?thesis using "1.IH" [of _ "(ups', caps')" ups' caps'] by fastforce
  qed simp
qed

text \<open>What the reader has concluded does not depend on what arrives later: the part of a body
  that is there is either not enough, or gives the conclusion the whole body gives.\<close>

lemma read_pkts_part:
  "read_pkts w i ups caps (p @ q) = Commands r \<Longrightarrow> pack_end r \<le> MAX_RECEIVE_PACK_HEADER \<Longrightarrow> w' = i + length p \<Longrightarrow>
   read_pkts w' i ups caps p \<in> {NeedMore, Commands r}"
proof (induction w' i ups caps p rule: read_pkts.induct)
  case (1 w' i ups caps p)
  note e = read_pkts_end [OF "1.prems"(1)]
  show ?case
  proof (cases "length p < 4")
    case True
    then show ?thesis using e "1.prems"(2,3) by (simp add: read_pkts_short)
  next
    case False
    then have t: "take 4 (p @ q) = take 4 p" by simp
    from "1.prems"(1) show ?thesis
    proof (cases rule: read_pkts_Commands)
      case flush
      then show ?thesis using False t by (simp add: read_pkts_flush)
    next
      case (packet ups' caps')
      let ?len = "parse_hex (take 4 p)"
      have i: "i + ?len + 4 \<le> pack_end r" using read_pkts_end [OF packet(6)] by (simp only: t)
      show ?thesis
      proof (cases "length p < ?len")
        case True
        then show ?thesis using False packet t i "1.prems"(2) by (simp add: read_pkts_part_of)
      next
        case whole: False
        have "read_pkts w' (i + ?len) ups' caps' (drop ?len p) \<in> {NeedMore, Commands r}"
          using False whole packet t "1.prems"(2,3)
          by (intro "1.IH" [OF _ _ refl]) auto
        then show ?thesis using False whole packet t by (simp add: read_pkts_whole)
      qed
    qed
  qed
qed

lemma read_push_head_chunks:
  assumes "parse_receive_pack (head @ concat cs) = Commands r" "pack_end r \<le> MAX_RECEIVE_PACK_HEADER"
    and "parse_receive_pack head = NeedMore"
  shows "\<exists>n \<le> length cs. read_push_head head cs = Inr (head @ concat (take n cs), r)"
  using assms
proof (induction cs arbitrary: head)
  case (Cons c cs)
  have p: "parse_receive_pack (head @ c) \<in> {NeedMore, Commands r}"
    using read_pkts_part [of _ 0 "[]" "[]" "head @ c" "concat cs" r] Cons.prems(1,2)
    by (simp add: parse_receive_pack_def)
  then consider "parse_receive_pack (head @ c) = NeedMore" | "parse_receive_pack (head @ c) = Commands r" by blast
  then show ?case
  proof cases
    case 1
    then obtain n where "n \<le> length cs" "read_push_head (head @ c) cs = Inr ((head @ c) @ concat (take n cs), r)"
      using Cons.IH [of "head @ c"] Cons.prems by auto
    then show ?thesis using 1 by (intro exI [of _ "Suc n"]) simp
  qed (auto intro: exI [of _ 1])
qed simp

section \<open>The refusal, read back\<close>

text \<open>What git reads of a result: the payloads of its packets up to the flush.\<close>

function payloads :: "bytes \<Rightarrow> bytes list option" where
  "payloads buf =
     (if length buf < 4 \<or> \<not> list_all is_hex (take 4 buf) then None
      else (let len = parse_hex (take 4 buf) in
        if len = 0 then Some []
        else if len < 4 \<or> length buf < len then None
        else map_option (\<lambda>ps. drop 4 (take len buf) # ps) (payloads (drop len buf))))"
  by pat_completeness auto
termination by (relation "measure length") auto

declare payloads.simps [simp del]

lemma payloads_flush: "payloads (FLUSH @ rest) = Some []"
  by (subst payloads.simps) (simp add: FLUSH_def units_of_def is_hex_def parse_hex_def hex_value_def Let_def)

lemma payloads_pkt:
  assumes "length body < 0x10000 - 4"
  shows "payloads (pkt body @ rest) = map_option ((#) body) (payloads rest)"
proof -
  obtain h where "pkt body = h @ body" "length h = 4" "list_all is_hex h" "parse_hex h = length body + 4"
    using pkt_header [OF assms] by blast
  then show ?thesis by (subst payloads.simps) (simp add: Let_def)
qed

lemma payloads_pkts:
  "\<forall>b \<in> set bodies. length b < 0x10000 - 4 \<Longrightarrow> payloads (concat (map pkt bodies) @ FLUSH @ rest) = Some bodies"
  by (induction bodies) (simp_all add: payloads_pkt payloads_flush)

text \<open>The side bands taken apart: the first carries the report, the second what git shows.\<close>

definition band :: "nat \<Rightarrow> bytes list \<Rightarrow> bytes" where
  "band n ps = concat (map tl (filter (\<lambda>p. p \<noteq> [] \<and> hd p = n) ps))"

fun side_chunks :: "bytes \<Rightarrow> nat \<Rightarrow> bytes list" where
  "side_chunks report 0 = []"
| "side_chunks report (Suc n) = (if report = [] then [] else take 65000 report # side_chunks (drop 65000 report) n)"

lemma side_band_chunks: "side_band report n = concat (map pkt (map ((#) 1) (side_chunks report n)))"
  by (induction report n rule: side_chunks.induct) simp_all

lemma side_chunks_small: "c \<in> set (side_chunks report n) \<Longrightarrow> length c \<le> 65000"
  by (induction report n rule: side_chunks.induct) (auto split: if_splits)

lemma concat_side_chunks: "length report \<le> n \<Longrightarrow> concat (side_chunks report n) = report"
  by (induction report n rule: side_chunks.induct) auto

lemma band_own: "band n (map ((#) n) cs) = concat cs"
  by (induction cs) (simp_all add: band_def)

lemma band_Cons: "band n ((m # b) # ps) = (if m = n then b @ band n ps else band n ps)"
  by (simp add: band_def)

definition report_lines :: "receive_pack \<Rightarrow> units \<Rightarrow> bytes list" where
  "report_lines commands clean =
     (units_of ''unpack ok'' @ [10])
     # map (\<lambda>u. utf8_bytes (units_of ''ng '' @ ref_name u @ [32] @ clean @ [10])) (ref_updates commands)"

lemma push_report_lines: "push_report (ref_updates commands) clean = concat (map pkt (report_lines commands clean)) @ FLUSH"
  by (simp add: push_report_def report_lines_def comp_def)

lemma utf8_bytes_length: "length (utf8_bytes us) \<le> 3 * length us"
proof (induction us rule: measure_induct_rule [of length])
  case (less us)
  show ?case
  proof (cases us)
    case (Cons u vs)
    then have "length (utf8_bytes vs) \<le> 3 * length vs" "length (utf8_bytes (tl vs)) \<le> 3 * length (tl vs)"
      using less [of vs] less [of "tl vs"] by simp_all
    then show ?thesis using Cons by (cases vs) (simp_all add: Let_def)
  qed simp
qed

lemma band_other: "m \<noteq> n \<Longrightarrow> band n (map ((#) m) cs) = []"
  by (simp add: band_def filter_empty_conv)

lemma check_updates_Allow:
  "check_updates ups scope = Allow \<longleftrightarrow> (\<forall>u \<in> set ups. ref_name u = branch_ref scope \<and> \<not> zero_sha (new_sha u))"
  by (induction ups) auto

lemma check_push_commands:
  assumes "\<forall>d \<in> set cs. valid_command d"
  shows "check_push (map update_of cs) scope repo = Allow \<longleftrightarrow>
    may_write scope \<and> scope_repo scope = Some repo
    \<and> (\<forall>(a, b, name) \<in> set cs. utf8_text name = branch_ref scope \<and> \<not> list_all (\<lambda>x. x = 48) b)"
proof -
  have v: "ref_name (update_of d) = branch_ref scope \<and> \<not> zero_sha (new_sha (update_of d)) \<longleftrightarrow>
      (case d of (a, b, name) \<Rightarrow> utf8_text name = branch_ref scope \<and> \<not> list_all (\<lambda>x. x = 48) b)"
    if "valid_command d" for d
    using that by (cases d) (auto simp: valid_command_def object_name_def update_of_def zero_sha_def)
  have "(\<forall>d \<in> set cs. ref_name (update_of d) = branch_ref scope \<and> \<not> zero_sha (new_sha (update_of d))) \<longleftrightarrow>
      (\<forall>d \<in> set cs. case d of (a, b, name) \<Rightarrow> utf8_text name = branch_ref scope \<and> \<not> list_all (\<lambda>x. x = 48) b)"
    using assms v by (intro ball_cong) simp_all
  moreover have "check_push (map update_of cs) scope repo = Allow \<longleftrightarrow> may_write scope \<and> scope_repo scope = Some repo
      \<and> (\<forall>d \<in> set cs. ref_name (update_of d) = branch_ref scope \<and> \<not> zero_sha (new_sha (update_of d)))"
    by (auto simp: check_push_def check_updates_Allow)
  ultimately show ?thesis by simp
qed

section \<open>Properties\<close>

text \<open>C36: A push is judged by exactly the commands git puts on the wire. Whatever chunks the body
  arrives in and whatever pack follows, commands of up to 64 KiB are all read and read as they
  are, and the push is let through if and only if there is a workspace, it is its repository, and every
  command moves the workspace's branch to something and does not delete it. What was read of the body is a
  prefix of its chunks, so what is forwarded is the body.\<close>

theorem push_judged_on_the_wire:
  assumes "concat chunks = push_wire caps c cs @ pack"
    and "\<forall>d \<in> set (c # cs). valid_command d" "length (c # cs) \<le> MAX_REF_UPDATES"
    and "length (push_wire caps c cs) \<le> MAX_RECEIVE_PACK_HEADER"
  shows "\<exists>n r. read_push_head [] chunks = Inr (concat (take n chunks), r)
    \<and> ref_updates r = map update_of (c # cs)
    \<and> (check_push (ref_updates r) scope repo = Allow \<longleftrightarrow>
        may_write scope \<and> scope_repo scope = Some repo
        \<and> (\<forall>(a, b, name) \<in> set (c # cs). utf8_text name = branch_ref scope \<and> \<not> list_all (\<lambda>x. x = 48) b))"
proof -
  let ?r = "\<lparr>ref_updates = map update_of (c # cs), capabilities = read_caps caps, pack_end = length (push_wire caps c cs)\<rparr>"
  have p: "parse_receive_pack ([] @ concat chunks) = Commands ?r"
    using parse_push_wire [OF assms(2-4), of pack] by (simp only: assms(1) append.left_neutral)
  have n: "parse_receive_pack [] = NeedMore"
    by (simp add: parse_receive_pack_def read_pkts_short)
  obtain n where "read_push_head [] chunks = Inr (concat (take n chunks), ?r)"
    using read_push_head_chunks [OF p _ n] assms(4) by auto
  moreover have "check_push (ref_updates ?r) scope repo = Allow \<longleftrightarrow>
        may_write scope \<and> scope_repo scope = Some repo
        \<and> (\<forall>(a, b, name) \<in> set (c # cs). utf8_text name = branch_ref scope \<and> \<not> list_all (\<lambda>x. x = 48) b)"
    using check_push_commands [OF assms(2), of scope repo] by simp
  ultimately show ?thesis by force
qed

definition sample_command :: command where
  "sample_command = (replicate 40 97, replicate 40 98, units_of ''refs/heads/topic'')"

definition sample_scope :: egress_scope where
  "sample_scope = \<lparr>scope_repo = Some ''me/app'', scope_branch = Some ''topic''\<rparr>"

lemma sample_text: "utf8_text (units_of ''refs/heads/topic'') = units_of ''refs/heads/topic''"
  by (simp add: units_of_def)

lemma sample_valid: "\<forall>d \<in> set [sample_command]. valid_command d"
  using sample_text by (simp add: sample_command_def valid_command_def object_name_def list_all_iff is_hex_def)
    (simp add: units_of_def unit_space_def)

lemma sample_small: "length [sample_command] \<le> MAX_REF_UPDATES" "length (push_wire [] sample_command []) \<le> MAX_RECEIVE_PACK_HEADER"
  by (simp_all add: MAX_REF_UPDATES_def MAX_RECEIVE_PACK_HEADER_def push_wire_def pkt_length
    sample_command_def command_line_def units_of_def FLUSH_def)

theorem push_judged_on_the_wire_witness:
  "\<exists>n r. read_push_head [] [push_wire [] sample_command [], [80]] = Inr (concat (take n [push_wire [] sample_command [], [80]]), r)
     \<and> check_push (ref_updates r) sample_scope ''me/app'' = Allow"
proof -
  have a: "concat [push_wire [] sample_command [], [80]] = push_wire [] sample_command [] @ [80]" by simp
  have ok: "may_write sample_scope \<and> scope_repo sample_scope = Some ''me/app''
      \<and> (\<forall>(a, b, name) \<in> set [sample_command]. utf8_text name = branch_ref sample_scope \<and> \<not> list_all (\<lambda>x. x = 48) b)"
    using sample_text by (simp add: may_write_def some_text_def sample_scope_def sample_command_def branch_ref_def list_all_iff)
  from push_judged_on_the_wire [OF a sample_valid sample_small, of sample_scope "''me/app''"] show ?thesis
    by (elim exE conjE, intro exI conjI) (assumption, erule iffD2, rule ok)
qed

definition asks_side_band :: "receive_pack \<Rightarrow> bool" where
  "asks_side_band r \<longleftrightarrow> units_of ''side-band-64k'' \<in> set (capabilities r) \<or> units_of ''side-band'' \<in> set (capabilities r)"

text \<open>A refusal reaches the person. The result of a refused push is a stream of packets that a
  git client reads back whole: the report says that every ref was refused and why, through the side
  band when the client asked for one, with the reason on the band git prints.\<close>

theorem rejection_readable:
  assumes "\<forall>u \<in> set (ref_updates r). length (ref_name u) \<le> 21000"
  shows "\<exists>ps. payloads (rejected_push_response r reason) = Some ps
    \<and> (if asks_side_band r
       then band 2 ps = utf8_bytes (take 400 (one_line reason) @ [10])
         \<and> payloads (band 1 ps) = Some (report_lines r (take 400 (one_line reason)))
       else ps = report_lines r (take 400 (one_line reason)))"
proof -
  let ?clean = "take 400 (one_line reason)"
  let ?report = "push_report (ref_updates r) ?clean"
  have small: "length b < 0x10000 - 4" if b: "b \<in> set (report_lines r ?clean)" for b
  proof -
    have "length (utf8_bytes (units_of ''ng '' @ ref_name u @ [32] @ ?clean @ [10])) < 0x10000 - 4"
      if "u \<in> set (ref_updates r)" for u
      using utf8_bytes_length [of "units_of ''ng '' @ ref_name u @ [32] @ ?clean @ [10]"] assms that
      by (force simp: units_of_def)
    then show ?thesis using b by (auto simp: report_lines_def units_of_def)
  qed
  have report: "payloads (?report @ rest) = Some (report_lines r ?clean)" for rest
    unfolding push_report_lines append_assoc using small by (intro payloads_pkts) blast
  show ?thesis
  proof (cases "asks_side_band r")
    case False
    then show ?thesis
      using report [of "[]"] by (simp add: rejected_push_response_def asks_side_band_def Let_def)
  next
    case True
    let ?said = "2 # utf8_bytes (?clean @ [10])" and ?chunks = "map ((#) 1) (side_chunks ?report (length ?report))"
    have "length (utf8_bytes (?clean @ [10])) \<le> 3 * length (?clean @ [10])" by (rule utf8_bytes_length)
    then have "length ?said < 0x10000 - 4" by simp
    moreover have "length c < 0x10000 - 4" if "c \<in> set ?chunks" for c
      using that side_chunks_small [of _ ?report "length ?report"] by force
    ultimately have "payloads (concat (map pkt (?said # ?chunks)) @ FLUSH @ []) = Some (?said # ?chunks)"
      by (intro payloads_pkts) (simp add: ball_Un del: One_nat_def)
    then have "payloads (rejected_push_response r reason) = Some (?said # ?chunks)"
      using True by (simp add: rejected_push_response_def asks_side_band_def Let_def side_band_chunks)
    moreover have "band 2 (?said # ?chunks) = utf8_bytes (?clean @ [10])" "band 1 (?said # ?chunks) = ?report"
      using concat_side_chunks [of ?report "length ?report"]
      by (simp_all add: band_Cons band_other band_own del: One_nat_def)
    ultimately show ?thesis using True report [of "[]"] by (intro exI [of _ "?said # ?chunks"]) simp
  qed
qed

theorem rejection_readable_witness:
  "\<exists>ps. payloads (rejected_push_response
      \<lparr>ref_updates = [update_of sample_command], capabilities = [units_of ''side-band''], pack_end = 0\<rparr> (units_of ''no'')) = Some ps
     \<and> band 2 ps = units_of ''no'' @ [10]"
proof -
  let ?r = "\<lparr>ref_updates = [update_of sample_command], capabilities = [units_of ''side-band''], pack_end = 0\<rparr>"
  have a: "\<forall>u \<in> set (ref_updates ?r). length (ref_name u) \<le> 21000" by code_simp
  have "asks_side_band ?r" "utf8_bytes (take 400 (one_line (units_of ''no'')) @ [10]) = units_of ''no'' @ [10]" by code_simp+
  then show ?thesis using rejection_readable [OF a, of "units_of ''no''"] by auto
qed

end
