(* ===== verification/EgressGraphql.thy ===== *)
theory EgressGraphql
  imports Todos Subagents
begin

text \<open>
  The reader of GraphQL requests the egress proxy judges by (\<open>egress/graphql.ts\<close>): a
  tokenizer over the text and a reader over the tokens, which says of every operation whether it
  writes, which fields it writes with, and which of their arguments are variables. A thrown
  \<open>GraphqlError\<close> is the left of a sum, with its message.
\<close>

definition MAX_GRAPHQL_CHARS :: nat where "MAX_GRAPHQL_CHARS = 65536"

datatype token = Punct js_string | Word js_string | Literal

section \<open>Tokens\<close>

definition BLOCK_QUOTE :: js_string where "BLOCK_QUOTE = [DQ, DQ, DQ]"

text \<open>The text after a block string, given the character before: only an unescaped \<open>"""\<close> ends one.\<close>

function block_end :: "char \<Rightarrow> js_string \<Rightarrow> js_string option" where
  "block_end prev s =
     (case s of
        [] \<Rightarrow> None
      | c # s' \<Rightarrow>
          if starts_with s BLOCK_QUOTE then
            (if prev = BS then block_end DQ (drop 3 s) else Some (drop 3 s))
          else block_end c s')"
  by pat_completeness auto
termination by (relation "measure (length \<circ> snd)") auto

declare block_end.simps [simp del]

text \<open>The text after a string, past its opening quote.\<close>

fun string_end :: "js_string \<Rightarrow> js_string option" where
  "string_end [] = None"
| "string_end (c # s) =
     (if c = DQ then Some s
      else if c = BS then (case s of [] \<Rightarrow> None | d # s' \<Rightarrow> if d = NL then None else string_end s')
      else if c = NL then None
      else string_end s)"

definition is_ignored :: "char \<Rightarrow> bool" where
  "is_ignored c \<longleftrightarrow> c \<in> {SP, TAB, NL, CR, CHR '',''}"

definition is_punct_char :: "char \<Rightarrow> bool" where
  "is_punct_char c \<longleftrightarrow> c \<in> set ''{}()[]:$!=@|&''"

definition is_number_char :: "char \<Rightarrow> bool" where
  "is_number_char c \<longleftrightarrow> is_digit c \<or> c \<in> set ''.eE+-''"

text \<open>One turn of the loop: what is read and what is left; nothing for what is skipped.\<close>

definition next_token :: "char \<Rightarrow> js_string \<Rightarrow> js_string + token option \<times> js_string" where
  "next_token c s =
     (if is_ignored c then Inr (None, s)
      else if c = CHR ''#'' then Inr (None, dropWhile (\<lambda>d. d \<noteq> NL) s)
      else if c = DQ then
        (if starts_with (c # s) BLOCK_QUOTE then
           (case block_end DQ (drop 2 s) of
              None \<Rightarrow> Inl ''unterminated block string'' | Some r \<Rightarrow> Inr (Some Literal, r))
         else (case string_end s of None \<Rightarrow> Inl ''unterminated string'' | Some r \<Rightarrow> Inr (Some Literal, r)))
      else if starts_with (c # s) ''...'' then Inr (Some (Punct ''...''), drop 2 s)
      else if is_punct_char c then Inr (Some (Punct [c]), s)
      else if is_name_start c then
        Inr (Some (Word (c # takeWhile is_name_char s)), dropWhile is_name_char s)
      else if c = CHR ''-'' \<or> is_digit c then Inr (Some Literal, dropWhile is_number_char s)
      else Inl (''unexpected character '' @ json_string [c]))"

lemma block_end_length: "block_end prev s = Some r \<Longrightarrow> length r \<le> length s"
proof (induction prev s rule: block_end.induct)
  case (1 prev s)
  then show ?case by (subst (asm) (3) block_end.simps) (fastforce split: list.splits if_splits)
qed

lemma string_end_length: "string_end s = Some r \<Longrightarrow> length r \<le> length s"
proof (induction s rule: string_end.induct)
  case (2 c s)
  consider "c = DQ" | "c = BS" | "c = NL" | "c \<noteq> DQ" "c \<noteq> BS" "c \<noteq> NL" by blast
  then show ?case
  proof cases
    case 2
    then obtain d s' where s: "s = d # s'" "d \<noteq> NL" "string_end s' = Some r"
      using "2.prems" by (cases s) (simp_all split: if_splits)
    then show ?thesis using "2.IH"(1) [OF _ 2 s(1,2)] 2 by simp
  next
    case 4
    then show ?thesis using "2.IH"(2) "2.prems" by simp
  qed (use "2.prems" in simp_all)
qed simp

lemma next_token_length: "next_token c s = Inr (t, r) \<Longrightarrow> length r \<le> length s"
  by (auto simp: next_token_def length_dropWhile_le dest!: block_end_length string_end_length
      split: if_splits option.splits)

function tokenize :: "js_string \<Rightarrow> js_string + token list" where
  "tokenize [] = Inr []"
| "tokenize (c # s) =
     (case next_token c s of
        Inl e \<Rightarrow> Inl e
      | Inr (t, r) \<Rightarrow>
          seq_sum (tokenize r) (\<lambda>ts. Inr (case t of None \<Rightarrow> ts | Some u \<Rightarrow> u # ts)))"
  by pat_completeness auto
termination by (relation "measure length") (auto simp: less_Suc_eq_le dest: next_token_length)

section \<open>The reader\<close>

datatype arg_value = VarArg js_string | LiteralArg

record graphql_field =
  field_name :: js_string
  field_args :: "(js_string \<times> arg_value) list"  \<comment> \<open>later bindings of a name win\<close>

datatype operation_type = Query | Mutation | Subscription

record graphql_operation =
  op_type :: operation_type
  op_fields :: "graphql_field list"
  top_level_fragment :: bool

definition is_punct :: "js_string \<Rightarrow> token list \<Rightarrow> bool" where
  "is_punct p ts = (case ts of Punct q # _ \<Rightarrow> q = p | _ \<Rightarrow> False)"

definition next_tok :: "token list \<Rightarrow> js_string + token \<times> token list" where
  "next_tok ts = (case ts of [] \<Rightarrow> Inl ''unexpected end of document'' | t # r \<Rightarrow> Inr (t, r))"

definition expect_punct :: "js_string \<Rightarrow> token list \<Rightarrow> js_string + token list" where
  "expect_punct p ts =
     seq_sum (next_tok ts) (\<lambda>(t, r). if t = Punct p then Inr r else Inl (''expected '' @ p))"

definition read_name :: "token list \<Rightarrow> js_string + js_string \<times> token list" where
  "read_name ts =
     seq_sum (next_tok ts) (\<lambda>(t, r). case t of Word n \<Rightarrow> Inr (n, r) | _ \<Rightarrow> Inl ''expected a name'')"

definition opens :: "token \<Rightarrow> bool" where
  "opens t \<longleftrightarrow> t \<in> {Punct ''('', Punct ''{'', Punct ''[''}"

definition closes :: "token \<Rightarrow> bool" where
  "closes t \<longleftrightarrow> t \<in> {Punct '')'', Punct ''}'', Punct '']''}"

fun skip_depth :: "nat \<Rightarrow> token list \<Rightarrow> js_string + token list" where
  "skip_depth 0 ts = Inr ts"
| "skip_depth (Suc d) [] = Inl ''unexpected end of document''"
| "skip_depth (Suc d) (t # ts) =
     (if opens t then skip_depth (Suc (Suc d)) ts else if closes t then skip_depth d ts else skip_depth (Suc d) ts)"

definition skip_group :: "token list \<Rightarrow> js_string + token list" where
  "skip_group ts =
     seq_sum (next_tok ts) (\<lambda>(t, r). if opens t then skip_depth 1 r else Inl ''expected a group'')"

lemma skip_depth_length: "skip_depth d ts = Inr r \<Longrightarrow> length r \<le> length ts"
  by (induction d ts rule: skip_depth.induct) (fastforce split: if_splits)+

lemma next_tok_length: "next_tok ts = Inr (t, r) \<Longrightarrow> ts = t # r"
  by (auto simp: next_tok_def split: list.splits)

lemma read_name_length: "read_name ts = Inr (n, r) \<Longrightarrow> ts = Word n # r"
  by (cases ts) (auto simp: read_name_def next_tok_def split: token.splits)

lemma expect_punct_length: "expect_punct p ts = Inr r \<Longrightarrow> ts = Punct p # r"
  by (auto simp: expect_punct_def dest!: next_tok_length split: if_splits)

lemma skip_group_length: "skip_group ts = Inr r \<Longrightarrow> length r < length ts"
  by (auto simp: skip_group_def less_Suc_eq_le dest!: next_tok_length skip_depth_length split: if_splits)

text \<open>\<open>if (this.isPunct(p)) this.skipGroup()\<close>\<close>

definition skip_if :: "js_string \<Rightarrow> token list \<Rightarrow> js_string + token list" where
  "skip_if p ts = (if is_punct p ts then skip_group ts else Inr ts)"

lemma skip_if_length: "skip_if p ts = Inr r \<Longrightarrow> length r \<le> length ts"
  by (auto simp: skip_if_def dest: skip_group_length split: if_splits)

section \<open>Reading a selection set\<close>

function skip_directives :: "token list \<Rightarrow> js_string + token list" where
  "skip_directives ts =
     (if \<not> is_punct ''@'' ts then Inr ts
      else seq_sum (read_name (tl ts)) (\<lambda>(n, r). seq_sum (skip_if ''('' r) skip_directives))"
  by pat_completeness auto
termination
  by (relation "measure length")
    (auto simp: is_punct_def split: list.splits dest!: read_name_length skip_if_length)

declare skip_directives.simps [simp del]

lemma skip_directives_length: "skip_directives ts = Inr r \<Longrightarrow> length r \<le> length ts"
proof (induction ts rule: skip_directives.induct)
  case (1 ts)
  show ?case
  proof (cases "is_punct ''@'' ts")
    case True
    then obtain n r1 r2 where "ts = Punct ''@'' # tl ts" "read_name (tl ts) = Inr (n, r1)" "skip_if ''('' r1 = Inr r2"
        "skip_directives r2 = Inr r"
      using "1.prems" by (subst (asm) skip_directives.simps) (auto simp: is_punct_def split: list.splits token.splits)
    then show ?thesis
      using "1.IH" [of "(n, r1)" n r1 r2] True by (auto dest!: read_name_length skip_if_length)
  qed (use "1.prems" in \<open>subst (asm) skip_directives.simps, simp\<close>)
qed

definition read_value :: "token list \<Rightarrow> js_string + arg_value \<times> token list" where
  "read_value ts =
     (if is_punct ''$'' ts then seq_sum (read_name (tl ts)) (\<lambda>(n, r). Inr (VarArg n, r))
      else if is_punct ''{'' ts \<or> is_punct ''['' ts then seq_sum (skip_group ts) (\<lambda>r. Inr (LiteralArg, r))
      else seq_sum (next_tok ts) (\<lambda>(t, r). Inr (LiteralArg, r)))"

lemma read_value_length: "read_value ts = Inr (v, r) \<Longrightarrow> length r < length ts"
  by (auto simp: read_value_def is_punct_def split: if_splits list.splits
      dest!: read_name_length skip_group_length next_tok_length)

text \<open>The arguments up to their closing parenthesis, which is read too.\<close>

function read_args :: "token list \<Rightarrow> js_string + (js_string \<times> arg_value) list \<times> token list" where
  "read_args ts =
     (if is_punct '')'' ts then Inr ([], tl ts)
      else seq_sum (read_name ts) (\<lambda>(n, r1). seq_sum (expect_punct '':'' r1) (\<lambda>r2.
        seq_sum (read_value r2) (\<lambda>(v, r3). seq_sum (read_args r3) (\<lambda>(vs, r4). Inr ((n, v) # vs, r4))))))"
  by pat_completeness auto
termination
  by (relation "measure length") (auto dest!: read_name_length expect_punct_length read_value_length)

declare read_args.simps [simp del]

lemma read_args_length: "read_args ts = Inr (vs, r) \<Longrightarrow> length r \<le> length ts"
proof (induction ts arbitrary: vs r rule: read_args.induct)
  case (1 ts)
  show ?case
  proof (cases "is_punct '')'' ts")
    case False
    then obtain n r1 r2 v r3 ws where r: "read_name ts = Inr (n, r1)" "expect_punct '':'' r1 = Inr r2"
        "read_value r2 = Inr (v, r3)" "read_args r3 = Inr (ws, r)"
      using "1.prems" by (subst (asm) read_args.simps) auto
    then have "length r \<le> length r3" using "1.IH" [OF False r(1) refl r(2) r(3) refl r(4)] by simp
    then show ?thesis using r by (auto dest!: read_name_length expect_punct_length read_value_length)
  qed (use "1.prems" in \<open>subst (asm) read_args.simps, auto\<close>)
qed

definition skip_fragment :: "token list \<Rightarrow> js_string + token list" where
  "skip_fragment ts =
     seq_sum (case ts of
         Word n # r \<Rightarrow> if n = ''on'' then map_sum id snd (read_name r) else Inr r
       | _ \<Rightarrow> Inr ts) (\<lambda>r.
     seq_sum (skip_directives r) (skip_if ''{''))"

definition read_field :: "token list \<Rightarrow> js_string + graphql_field \<times> token list" where
  "read_field ts =
     seq_sum (read_name ts) (\<lambda>(n0, r0).
     seq_sum (if is_punct '':'' r0 then read_name (tl r0) else Inr (n0, r0)) (\<lambda>(n, r1).
     seq_sum (if is_punct ''('' r1 then read_args (tl r1) else Inr ([], r1)) (\<lambda>(vs, r2).
     seq_sum (skip_directives r2) (\<lambda>r3.
     seq_sum (skip_if ''{'' r3) (\<lambda>r4. Inr (\<lparr>field_name = n, field_args = vs\<rparr>, r4))))))"

lemma skip_fragment_length: "skip_fragment ts = Inr r \<Longrightarrow> length r \<le> length ts"
  by (fastforce simp: skip_fragment_def map_sum_def split: list.splits token.splits if_splits sum.splits
      dest!: read_name_length skip_directives_length skip_if_length)

lemma read_field_length:
  assumes "read_field ts = Inr (f, r)"
  shows "length r < length ts"
proof -
  obtain n0 r0 n r1 vs r2 r3 where r: "read_name ts = Inr (n0, r0)"
      "(if is_punct '':'' r0 then read_name (tl r0) else Inr (n0, r0)) = Inr (n, r1)"
      "(if is_punct ''('' r1 then read_args (tl r1) else Inr ([], r1)) = Inr (vs, r2)"
      "skip_directives r2 = Inr r3" "skip_if ''{'' r3 = Inr r"
    using assms by (auto simp: read_field_def)
  have "length r0 < length ts" using read_name_length [OF r(1)] by simp
  moreover have "length r1 \<le> length r0"
    using r(2) by (cases r0) (auto split: if_splits dest!: read_name_length)
  moreover have "length r2 \<le> length r1"
    using r(3) by (cases r1) (auto split: if_splits dest!: read_args_length)
  moreover have "length r3 \<le> length r2" "length r \<le> length r3"
    using skip_directives_length [OF r(4)] skip_if_length [OF r(5)] by auto
  ultimately show ?thesis by simp
qed

text \<open>The body of \<open>readSelectionSet\<close>, past its opening brace.\<close>

function read_selections :: "token list \<Rightarrow> js_string + (graphql_field list \<times> bool) \<times> token list" where
  "read_selections ts =
     (if is_punct ''}'' ts then Inr (([], False), tl ts)
      else if is_punct ''...'' ts then
        seq_sum (skip_fragment (tl ts)) (\<lambda>r.
        seq_sum (read_selections r) (\<lambda>((fs, b), r'). Inr ((fs, True), r')))
      else seq_sum (read_field ts) (\<lambda>(f, r).
        seq_sum (read_selections r) (\<lambda>((fs, b), r'). Inr ((f # fs, b), r'))))"
  by pat_completeness auto
termination
  by (relation "measure length")
    (auto simp: is_punct_def less_Suc_eq_le split: list.splits dest!: skip_fragment_length read_field_length)

declare read_selections.simps [simp del]

lemma read_selections_length: "read_selections ts = Inr (x, r) \<Longrightarrow> length r \<le> length ts"
proof (induction ts arbitrary: x r rule: read_selections.induct)
  case (1 ts)
  consider (close) "is_punct ''}'' ts" | (fragment) "\<not> is_punct ''}'' ts" "is_punct ''...'' ts"
    | (field) "\<not> is_punct ''}'' ts" "\<not> is_punct ''...'' ts" by blast
  then show ?case
  proof cases
    case close
    then show ?thesis using "1.prems" by (subst (asm) read_selections.simps) auto
  next
    case fragment
    then obtain r1 y where r: "skip_fragment (tl ts) = Inr r1" "read_selections r1 = Inr (y, r)"
      using "1.prems" by (subst (asm) read_selections.simps) auto
    then have "length r \<le> length r1" using "1.IH"(1) [OF fragment r] by simp
    then show ?thesis using skip_fragment_length [OF r(1)] by simp
  next
    case field
    then obtain f r1 y where r: "read_field ts = Inr (f, r1)" "read_selections r1 = Inr (y, r)"
      using "1.prems" by (subst (asm) read_selections.simps) auto
    then have "length r \<le> length r1" using "1.IH"(2) [OF field r(1) refl r(2)] by simp
    then show ?thesis using read_field_length [OF r(1)] by simp
  qed
qed

definition read_selection_set :: "token list \<Rightarrow> js_string + (graphql_field list \<times> bool) \<times> token list" where
  "read_selection_set ts = seq_sum (expect_punct ''{'' ts) read_selections"

section \<open>Documents\<close>

definition operation_of :: "js_string \<Rightarrow> operation_type option" where
  "operation_of k =
     (if k = ''query'' then Some Query else if k = ''mutation'' then Some Mutation
      else if k = ''subscription'' then Some Subscription else None)"

definition skip_fragment_definition :: "token list \<Rightarrow> js_string + token list" where
  "skip_fragment_definition ts =
     seq_sum (read_name ts) (\<lambda>(n, r1). seq_sum (read_name r1) (\<lambda>(w, r2).
     if w \<noteq> ''on'' then Inl ''expected on''
     else seq_sum (read_name r2) (\<lambda>(t, r3). seq_sum (skip_directives r3) skip_group)))"

definition read_operation :: "operation_type \<Rightarrow> token list \<Rightarrow> js_string + graphql_operation \<times> token list" where
  "read_operation ty ts =
     seq_sum (skip_if ''('' (case ts of Word n # r \<Rightarrow> r | _ \<Rightarrow> ts)) (\<lambda>r1.
     seq_sum (skip_directives r1) (\<lambda>r2.
     seq_sum (read_selection_set r2) (\<lambda>((fs, b), r3).
       Inr (\<lparr>op_type = ty, op_fields = fs, top_level_fragment = b\<rparr>, r3))))"

lemma skip_fragment_definition_length: "skip_fragment_definition ts = Inr r \<Longrightarrow> length r < length ts"
  by (fastforce simp: skip_fragment_definition_def split: if_splits
      dest!: read_name_length skip_directives_length skip_group_length)

lemma read_selection_set_length: "read_selection_set ts = Inr (x, r) \<Longrightarrow> length r < length ts"
  by (auto simp: read_selection_set_def less_Suc_eq_le dest!: expect_punct_length read_selections_length)

lemma read_operation_length: "read_operation ty ts = Inr (x, r) \<Longrightarrow> length r < length ts"
  by (fastforce simp: read_operation_def split: list.splits token.splits
      dest!: skip_if_length skip_directives_length read_selection_set_length)

function read_document :: "token list \<Rightarrow> js_string + graphql_operation list" where
  "read_document ts =
     (if ts = [] then Inr []
      else if is_punct ''{'' ts then
        seq_sum (read_selection_set ts) (\<lambda>(x, r).
        seq_sum (read_document r) (\<lambda>ops.
          Inr (\<lparr>op_type = Query, op_fields = fst x, top_level_fragment = snd x\<rparr> # ops)))
      else seq_sum (read_name ts) (\<lambda>(k, r).
        if k = ''fragment'' then seq_sum (skip_fragment_definition r) read_document
        else (case operation_of k of
          None \<Rightarrow> Inl (''unexpected '' @ k)
        | Some ty \<Rightarrow> seq_sum (read_operation ty r) (\<lambda>(x, r'). seq_sum (read_document r') (\<lambda>ops. Inr (x # ops))))))"
  by pat_completeness auto
termination
  by (relation "measure length")
    (auto dest!: read_selection_set_length read_name_length skip_fragment_definition_length read_operation_length)

declare read_document.simps [simp del]

definition parse_graphql :: "js_string \<Rightarrow> js_string + graphql_operation list" where
  "parse_graphql doc =
     (if MAX_GRAPHQL_CHARS < length doc then Inl ''too large to check'' else seq_sum (tokenize doc) read_document)"

end
