(* ===== verification/EgressWritten.thy ===== *)
theory EgressWritten
  imports EgressGraphql
begin

text \<open>
  GraphQL documents as the specification of the language writes them, apart from the reader (\<open>EgressGraphql\<close>): trees, the
  lexemes of a tree and the texts that spell them, with any blanks, commas and comments between. The reader finds in such a
  text what the tree says. A comment here ends at a line feed, or at a carriage return and a line feed; the grammar also ends
  one at a carriage return alone, and there the reader differs (\<open>comment_return_unseen\<close>).
\<close>

section \<open>Spelling\<close>

datatype lexeme = LPunct js_string | LName js_string | LNumber js_string | LString js_string | LBlock js_string

fun string_chars :: "js_string \<Rightarrow> bool" where
  "string_chars [] = True"
| "string_chars (c # s) =
     (if c = BS then (case s of [] \<Rightarrow> False | d # r \<Rightarrow> d \<noteq> NL \<and> d \<noteq> CR \<and> string_chars r)
      else c \<noteq> DQ \<and> c \<noteq> NL \<and> c \<noteq> CR \<and> string_chars s)"

text \<open>Between two \<open>"""\<close>: a third may stand there only behind a backslash.\<close>

inductive block_chars :: "js_string \<Rightarrow> bool" where
  empty: "block_chars []"
| escaped: "block_chars s \<Longrightarrow> block_chars (BS # BLOCK_QUOTE @ s)"
| plain: "block_chars s \<Longrightarrow> \<not> starts_with (c # s @ BLOCK_QUOTE) BLOCK_QUOTE \<Longrightarrow>
    \<not> starts_with (c # s @ BLOCK_QUOTE) (BS # BLOCK_QUOTE) \<Longrightarrow> block_chars (c # s)"

definition punctuators :: "char set" where "punctuators = set ''!$&():=@[]{|}''"

fun lexeme_ok :: "lexeme \<Rightarrow> bool" where
  "lexeme_ok (LPunct p) \<longleftrightarrow> p = ''...'' \<or> (\<exists>c\<in>punctuators. p = [c])"
| "lexeme_ok (LName w) \<longleftrightarrow> w \<noteq> [] \<and> is_name_start (hd w) \<and> list_all is_name_char w"
| "lexeme_ok (LNumber n) \<longleftrightarrow> n \<noteq> [] \<and> (hd n = CHR ''-'' \<or> is_digit (hd n)) \<and> list_all is_number_char n"
| "lexeme_ok (LString s) \<longleftrightarrow> string_chars s"
| "lexeme_ok (LBlock s) \<longleftrightarrow> block_chars s"

fun lexeme_text :: "lexeme \<Rightarrow> js_string" where
  "lexeme_text (LPunct p) = p"
| "lexeme_text (LName w) = w"
| "lexeme_text (LNumber n) = n"
| "lexeme_text (LString s) = DQ # s @ [DQ]"
| "lexeme_text (LBlock s) = BLOCK_QUOTE @ s @ BLOCK_QUOTE"

fun lexeme_token :: "lexeme \<Rightarrow> token" where
  "lexeme_token (LPunct p) = Punct p"
| "lexeme_token (LName w) = Word w"
| "lexeme_token _ = Literal"

text \<open>What may stand between two lexemes, and after the last.\<close>

inductive gap :: "js_string \<Rightarrow> bool" where
  none: "gap []"
| blank: "c \<in> {SP, TAB, NL, CR, CHR '',''} \<Longrightarrow> gap g \<Longrightarrow> gap (c # g)"
| comment: "NL \<notin> set cs \<Longrightarrow> CR \<notin> set cs \<Longrightarrow> e = [NL] \<or> e = [CR, NL] \<Longrightarrow> gap g \<Longrightarrow> gap (CHR ''#'' # cs @ e @ g)"

inductive ending :: "js_string \<Rightarrow> bool" where
  gap: "gap g \<Longrightarrow> ending g"
| comment: "gap g \<Longrightarrow> NL \<notin> set cs \<Longrightarrow> CR \<notin> set cs \<Longrightarrow> ending (g @ CHR ''#'' # cs)"

text \<open>Two lexemes that may touch, and a text that starts with a gap.\<close>

fun may_touch :: "lexeme \<Rightarrow> lexeme \<Rightarrow> bool" where
  "may_touch (LPunct p) r = True"
| "may_touch (LName w) r = (case r of LName v \<Rightarrow> False | LNumber n \<Rightarrow> False | _ \<Rightarrow> True)"
| "may_touch (LNumber n) r = (case r of LPunct p \<Rightarrow> p \<noteq> ''...'' | LString s \<Rightarrow> True | LBlock s \<Rightarrow> True | _ \<Rightarrow> False)"
| "may_touch (LString s) r = (case r of LString s \<Rightarrow> False | LBlock s \<Rightarrow> False | _ \<Rightarrow> True)"
| "may_touch (LBlock s) r = True"

definition parted :: "js_string \<Rightarrow> bool" where
  "parted s \<longleftrightarrow> s \<noteq> [] \<and> hd s \<in> {SP, TAB, NL, CR, CHR '','', CHR ''#''}"

inductive spelled :: "lexeme list \<Rightarrow> js_string \<Rightarrow> bool" where
  over: "ending g \<Longrightarrow> spelled [] g"
| spell: "gap g \<Longrightarrow> lexeme_ok l \<Longrightarrow> spelled ls s \<Longrightarrow> ls = [] \<or> parted s \<or> may_touch l (hd ls) \<Longrightarrow>
    spelled (l # ls) (g @ lexeme_text l @ s)"

lemma starts_with_Cons [simp]: "starts_with (c # s) (d # p) \<longleftrightarrow> c = d \<and> starts_with s p"
  by (auto simp: starts_with_def)

lemma tokenize_blank: "c \<in> {SP, TAB, NL, CR, CHR '',''} \<Longrightarrow> tokenize (c # s) = tokenize s"
  by (auto simp: next_token_def is_ignored_def seq_sum_def split: sum.split)

text \<open>A comment runs to the next line feed.\<close>

lemma tokenize_comment_end: "tokenize (CHR ''#'' # s) = tokenize (dropWhile (\<lambda>c. c \<noteq> NL) s)"
proof -
  have "next_token (CHR ''#'') s = Inr (None, dropWhile (\<lambda>c. c \<noteq> NL) s)" by (simp add: next_token_def is_ignored_def)
  then show ?thesis by (simp add: seq_sum_def split: sum.split)
qed

lemma tokenize_comment: "NL \<notin> set s \<Longrightarrow> tokenize (CHR ''#'' # s) = Inr []"
proof -
  assume "NL \<notin> set s"
  then have "dropWhile (\<lambda>c. c \<noteq> NL) s = []" by (auto simp: dropWhile_eq_Nil_conv)
  then show ?thesis by (simp only: tokenize_comment_end tokenize.simps(1))
qed

lemma tokenize_gap: "gap g \<Longrightarrow> tokenize (g @ s) = tokenize s"
proof (induction rule: gap.induct)
  case (blank c g)
  then show ?case using tokenize_blank [of c "g @ s"] by simp
next
  case (comment cs e g)
  have "dropWhile (\<lambda>c. c \<noteq> NL) (cs @ e @ g @ s) = NL # g @ s"
    using comment(1,3) by (subst dropWhile_append2) auto
  then show ?case using comment.IH tokenize_blank [of NL "g @ s"] tokenize_comment_end [of "cs @ e @ g @ s"] by simp
qed simp

lemma tokenize_ending: "ending g \<Longrightarrow> tokenize g = Inr []"
proof (induction rule: ending.induct)
  case (gap g)
  then show ?case using tokenize_gap [of g "[]"] by simp
next
  case (comment g cs)
  then show ?case by (simp add: tokenize_gap tokenize_comment del: tokenize.simps(2))
qed

section \<open>Lexemes\<close>

lemma string_chars_end: "string_chars s \<Longrightarrow> string_end (s @ DQ # r) = Some r"
proof (induction s rule: string_chars.induct)
  case (2 c s)
  show ?case
  proof (cases "c = BS")
    case True
    then obtain d t where "s = d # t" "d \<noteq> NL" "string_chars t" using "2.prems" by (cases s) simp_all
    then show ?thesis using "2.IH"(1) True by simp
  next
    case False
    then show ?thesis using "2.IH"(2) "2.prems" by simp
  qed
qed simp

lemma block_end_quote: "prev \<noteq> BS \<Longrightarrow> block_end prev (BLOCK_QUOTE @ r) = Some r"
  by (subst block_end.simps) (simp add: BLOCK_QUOTE_def starts_with_def)

lemma starts_block: "starts_with (c # s @ BLOCK_QUOTE @ r) BLOCK_QUOTE = starts_with (c # s @ BLOCK_QUOTE) BLOCK_QUOTE"
  "starts_with (c # s @ BLOCK_QUOTE @ r) (BS # BLOCK_QUOTE) = starts_with (c # s @ BLOCK_QUOTE) (BS # BLOCK_QUOTE)"
  by (cases s; cases "tl s"; cases "tl (tl s)"; force simp: starts_with_def BLOCK_QUOTE_def)+

lemma block_chars_end:
  "block_chars s \<Longrightarrow> prev = BS \<longrightarrow> \<not> starts_with (s @ BLOCK_QUOTE) BLOCK_QUOTE \<Longrightarrow> block_end prev (s @ BLOCK_QUOTE @ r) = Some r"
proof (induction arbitrary: prev rule: block_chars.induct)
  case empty
  then have "prev \<noteq> BS" by (auto simp: starts_with_def)
  then show ?case by (simp add: block_end_quote)
next
  case (escaped s)
  have "block_end DQ (s @ BLOCK_QUOTE @ r) = Some r" by (rule escaped.IH) simp
  then have "block_end BS (BLOCK_QUOTE @ s @ BLOCK_QUOTE @ r) = Some r"
    by (subst block_end.simps) (simp add: BLOCK_QUOTE_def starts_with_def)
  then show ?case by (subst block_end.simps) (simp add: BLOCK_QUOTE_def starts_with_def)
next
  case (plain s c)
  have "block_end c (s @ BLOCK_QUOTE @ r) = Some r" using plain.IH plain.hyps(3) by simp
  then show ?case using plain.hyps(2) starts_block(1) [of c s r] by (subst block_end.simps) simp
qed

text \<open>Where a lexeme ends.\<close>

fun stops :: "lexeme \<Rightarrow> js_string \<Rightarrow> bool" where
  "stops (LName w) s \<longleftrightarrow> s = [] \<or> \<not> is_name_char (hd s)"
| "stops (LNumber n) s \<longleftrightarrow> s = [] \<or> \<not> is_number_char (hd s)"
| "stops (LString x) s \<longleftrightarrow> s = [] \<or> hd s \<noteq> DQ"
| "stops _ s = True"

lemmas char_classes = is_name_char_def is_name_start_def is_upper_def is_lower_def is_digit_def is_number_char_def in_range_def

lemma lexeme_starts:
  "lexeme_ok l \<Longrightarrow> lexeme_text l \<noteq> [] \<and>
    (case l of LPunct p \<Rightarrow> hd p = CHR ''.'' \<or> hd p \<in> punctuators
     | LName w \<Rightarrow> is_name_start (hd w) | LNumber n \<Rightarrow> hd n = CHR ''-'' \<or> is_digit (hd n) | _ \<Rightarrow> hd (lexeme_text l) = DQ)"
  by (cases l) (auto simp: BLOCK_QUOTE_def)

lemma punct_stops: "c \<in> punctuators \<Longrightarrow> \<not> is_name_char c \<and> c \<noteq> DQ \<and> \<not> is_number_char c"
  by (auto simp: char_classes punctuators_def)

lemma dots_stop: "\<not> is_name_char (CHR ''.'')"
  by (simp add: char_classes)

lemma punct_reads: "c \<in> punctuators \<Longrightarrow> \<not> is_ignored c \<and> c \<noteq> CHR ''#'' \<and> c \<noteq> DQ \<and> c \<noteq> CHR ''.'' \<and> is_punct_char c"
  by (auto simp: is_ignored_def is_punct_char_def punctuators_def)

lemma touching_stops:
  assumes "lexeme_ok l" "may_touch k l"
  shows "stops k (lexeme_text l @ s)"
proof -
  have t: "lexeme_text l \<noteq> []" and hd: "hd (lexeme_text l @ s) = hd (lexeme_text l)"
    using lexeme_starts [OF assms(1)] by auto
  have digit: "is_digit c \<Longrightarrow> c \<noteq> DQ" and start: "is_name_start c \<Longrightarrow> c \<noteq> DQ" for c by (auto simp: char_classes)
  show ?thesis
  proof (cases l)
    case (LPunct p)
    then consider "p = ''...''" | c where "p = [c]" "c \<in> punctuators" using assms(1) by auto
    then show ?thesis
    proof cases
      case 1
      then show ?thesis using LPunct assms(2) dots_stop by (cases k) simp_all
    next
      case 2
      then show ?thesis using LPunct punct_stops [OF 2(2)] by (cases k) simp_all
    qed
  next
    case (LName w)
    then show ?thesis using lexeme_starts [OF assms(1)] assms hd start [of "hd w"] by (cases k) auto
  next
    case (LNumber n)
    then show ?thesis using lexeme_starts [OF assms(1)] assms hd digit [of "hd n"] by (cases k) auto
  next
    case (LString x)
    then show ?thesis using assms by (cases k) (auto simp: char_classes)
  next
    case (LBlock x)
    then show ?thesis using assms by (cases k) (auto simp: char_classes BLOCK_QUOTE_def)
  qed
qed

lemma parted_stops: "parted s \<Longrightarrow> stops k s"
  by (cases k) (auto simp: parted_def char_classes)

lemma gap_parted: "gap g \<Longrightarrow> g \<noteq> [] \<Longrightarrow> parted (g @ s)"
  by (induction rule: gap.induct) (auto simp: parted_def)

lemma ending_parted: "ending g \<Longrightarrow> g = [] \<or> parted g"
proof (induction rule: ending.induct)
  case (gap g)
  then show ?case using gap_parted [of g "[]"] by auto
next
  case (comment g cs)
  then show ?case using gap_parted [of g "CHR ''#'' # cs"] by (cases g) (auto simp: parted_def)
qed

lemma takeWhile_stops: "list_all P w \<Longrightarrow> s = [] \<or> \<not> P (hd s) \<Longrightarrow> takeWhile P (w @ s) = w \<and> dropWhile P (w @ s) = s"
  by (cases s) (auto simp: list_all_iff)

lemma next_token_lexeme:
  assumes "lexeme_ok l" "stops l s"
  shows "next_token (hd (lexeme_text l)) (tl (lexeme_text l) @ s) = Inr (Some (lexeme_token l), s)"
proof (cases l)
  case (LPunct p)
  show ?thesis
  proof (cases "p = ''...''")
    case True
    then show ?thesis using LPunct by (simp add: next_token_def is_ignored_def starts_with_def)
  next
    case False
    then obtain c where c: "p = [c]" "c \<in> punctuators" using LPunct assms(1) by auto
    then show ?thesis using LPunct punct_reads [OF c(2)] by (simp add: next_token_def)
  qed
next
  case (LName w)
  then obtain c v where w: "w = c # v" "is_name_start c" "list_all is_name_char v" using assms by (cases w) auto
  have "\<not> is_ignored c" "c \<noteq> CHR ''#''" "c \<noteq> DQ" "c \<noteq> CHR ''.''" "\<not> is_punct_char c"
    using w(2) by (auto simp: char_classes is_ignored_def is_punct_char_def)
  then show ?thesis using LName w assms(2) takeWhile_stops [OF w(3), of s] by (simp add: next_token_def)
next
  case (LNumber n)
  then obtain c v where n: "n = c # v" "c = CHR ''-'' \<or> is_digit c" "list_all is_number_char v" using assms by (cases n) auto
  have "\<not> is_ignored c" "c \<noteq> CHR ''#''" "c \<noteq> DQ" "c \<noteq> CHR ''.''" "\<not> is_punct_char c" "\<not> is_name_start c"
    using n(2) by (auto simp: char_classes is_ignored_def is_punct_char_def)
  then show ?thesis using LNumber n assms(2) takeWhile_stops [OF n(3), of s] by (auto simp add: next_token_def)
next
  case (LString x)
  then have x: "string_chars x" "s = [] \<or> hd s \<noteq> DQ" using assms by auto
  then have "\<not> starts_with (DQ # x @ DQ # s) BLOCK_QUOTE"
    by (cases x; cases s) (auto simp: BLOCK_QUOTE_def starts_with_def)
  then show ?thesis using LString string_chars_end [OF x(1), of s] by (simp add: next_token_def is_ignored_def)
next
  case (LBlock x)
  then have "block_chars x" using assms by simp
  then have "block_end DQ (x @ BLOCK_QUOTE @ s) = Some s" by (rule block_chars_end) simp
  moreover have "starts_with (DQ # DQ # DQ # t) BLOCK_QUOTE" for t by (simp add: BLOCK_QUOTE_def starts_with_def)
  ultimately show ?thesis using LBlock by (simp add: next_token_def is_ignored_def BLOCK_QUOTE_def)
qed

lemma tokenize_lexeme:
  assumes "lexeme_ok l" "stops l s"
  shows "tokenize (lexeme_text l @ s) = seq_sum (tokenize s) (\<lambda>ts. Inr (lexeme_token l # ts))"
proof -
  have "lexeme_text l \<noteq> []" using lexeme_starts [OF assms(1)] by simp
  then obtain c t where "lexeme_text l = c # t" by (cases "lexeme_text l") auto
  then show ?thesis using next_token_lexeme [OF assms] by simp
qed

lemma spelled_stops: "spelled ls s \<Longrightarrow> ls = [] \<or> parted s \<or> may_touch l (hd ls) \<Longrightarrow> stops l s"
proof (induction rule: spelled.induct)
  case (over g)
  then have "stops l []" and "parted g \<Longrightarrow> stops l g" by (cases l, simp_all add: parted_stops)
  then show ?case using ending_parted [OF over.hyps] by blast
next
  case (spell g k ls s)
  show ?case
  proof (cases "g = []")
    case True
    then show ?thesis using spell touching_stops [of k l s] parted_stops by auto
  next
    case False
    then show ?thesis using gap_parted [OF spell.hyps(1)] parted_stops by blast
  qed
qed

text \<open>The tokenizer finds the lexemes a text spells.\<close>

lemma tokenize_spelled: "spelled ls s \<Longrightarrow> tokenize s = Inr (map lexeme_token ls)"
proof (induction rule: spelled.induct)
  case (over g)
  then show ?case by (simp add: tokenize_ending)
next
  case (spell g l ls s)
  then show ?case using tokenize_gap [OF spell.hyps(1)] tokenize_lexeme [OF spell.hyps(2) spelled_stops [OF spell.hyps(3,4)]] by simp
qed

section \<open>Trees\<close>

text \<open>Values, types, arguments, directives and variable definitions, as the grammar of the language has them.\<close>

datatype written_value =
    WVar js_string | WName js_string | WNumber js_string | WString js_string | WBlock js_string
  | WList "written_value list" | WObject "(js_string \<times> written_value) list"

type_synonym written_args = "(js_string \<times> written_value) list"
type_synonym written_directive = "js_string \<times> written_args option"

datatype written_type = WNamed js_string | WListOf written_type | WNonNull written_type

record written_variable =
  var_name :: js_string
  var_type :: written_type
  var_default :: "written_value option"
  var_directives :: "written_directive list"

datatype written_selection =
    WField "js_string option" js_string "written_args option" "written_directive list" "written_selection list option"
      \<comment> \<open>its alias, its name and what is selected below it\<close>
  | WSpread js_string "written_directive list"
  | WInline "js_string option" "written_directive list" "written_selection list"

datatype written_definition =
    WShorthand "written_selection list"
  | WOperation operation_type "js_string option" "written_variable list option" "written_directive list" "written_selection list"
  | WFragment js_string js_string "written_directive list" "written_selection list"

text \<open>Their lexemes.\<close>

fun value_lexemes :: "written_value \<Rightarrow> lexeme list" where
  "value_lexemes (WVar n) = [LPunct ''$'', LName n]"
| "value_lexemes (WName n) = [LName n]"
| "value_lexemes (WNumber n) = [LNumber n]"
| "value_lexemes (WString s) = [LString s]"
| "value_lexemes (WBlock s) = [LBlock s]"
| "value_lexemes (WList vs) = LPunct ''['' # concat (map value_lexemes vs) @ [LPunct '']'']"
| "value_lexemes (WObject fs) = LPunct ''{'' # concat (map (\<lambda>(n, v). LName n # LPunct '':'' # value_lexemes v) fs) @ [LPunct ''}'']"

definition args_lexemes :: "written_args \<Rightarrow> lexeme list" where
  "args_lexemes vs = LPunct ''('' # concat (map (\<lambda>(n, v). LName n # LPunct '':'' # value_lexemes v) vs) @ [LPunct '')'']"

definition optional :: "('a \<Rightarrow> lexeme list) \<Rightarrow> 'a option \<Rightarrow> lexeme list" where
  "optional f x = (case x of None \<Rightarrow> [] | Some y \<Rightarrow> f y)"

lemma optional_simps [simp]: "optional f None = []" "optional f (Some y) = f y"
  by (simp_all add: optional_def)

definition directives_lexemes :: "written_directive list \<Rightarrow> lexeme list" where
  "directives_lexemes ds = concat (map (\<lambda>(n, vs). LPunct ''@'' # LName n # optional args_lexemes vs) ds)"

fun type_lexemes :: "written_type \<Rightarrow> lexeme list" where
  "type_lexemes (WNamed n) = [LName n]"
| "type_lexemes (WListOf t) = LPunct ''['' # type_lexemes t @ [LPunct '']'']"
| "type_lexemes (WNonNull t) = type_lexemes t @ [LPunct ''!'']"

definition variable_lexemes :: "written_variable \<Rightarrow> lexeme list" where
  "variable_lexemes v = LPunct ''$'' # LName (var_name v) # LPunct '':'' # type_lexemes (var_type v) @
     optional (\<lambda>d. LPunct ''='' # value_lexemes d) (var_default v) @ directives_lexemes (var_directives v)"

definition variables_lexemes :: "written_variable list \<Rightarrow> lexeme list" where
  "variables_lexemes vs = LPunct ''('' # concat (map variable_lexemes vs) @ [LPunct '')'']"

definition alias_lexemes :: "js_string option \<Rightarrow> lexeme list" where
  "alias_lexemes a = optional (\<lambda>n. [LName n, LPunct '':'']) a"

definition condition_lexemes :: "js_string option \<Rightarrow> lexeme list" where
  "condition_lexemes c = optional (\<lambda>n. [LName ''on'', LName n]) c"

fun selection_lexemes :: "written_selection \<Rightarrow> lexeme list" where
  "selection_lexemes (WField a n vs ds below) =
     alias_lexemes a @ LName n # optional args_lexemes vs @ directives_lexemes ds @
     (case below of None \<Rightarrow> [] | Some ss \<Rightarrow> LPunct ''{'' # concat (map selection_lexemes ss) @ [LPunct ''}''])"
| "selection_lexemes (WSpread n ds) = LPunct ''...'' # LName n # directives_lexemes ds"
| "selection_lexemes (WInline c ds ss) =
     LPunct ''...'' # condition_lexemes c @ directives_lexemes ds @
     LPunct ''{'' # concat (map selection_lexemes ss) @ [LPunct ''}'']"

definition selections_lexemes :: "written_selection list \<Rightarrow> lexeme list" where
  "selections_lexemes ss = LPunct ''{'' # concat (map selection_lexemes ss) @ [LPunct ''}'']"

fun operation_keyword :: "operation_type \<Rightarrow> js_string" where
  "operation_keyword Query = ''query''"
| "operation_keyword Mutation = ''mutation''"
| "operation_keyword Subscription = ''subscription''"

fun definition_lexemes :: "written_definition \<Rightarrow> lexeme list" where
  "definition_lexemes (WShorthand ss) = selections_lexemes ss"
| "definition_lexemes (WOperation ty n vs ds ss) =
     LName (operation_keyword ty) # optional (\<lambda>w. [LName w]) n @ optional variables_lexemes vs @ directives_lexemes ds @
     selections_lexemes ss"
| "definition_lexemes (WFragment n t ds ss) =
     LName ''fragment'' # LName n # LName ''on'' # LName t # directives_lexemes ds @ selections_lexemes ss"

definition document_lexemes :: "written_definition list \<Rightarrow> lexeme list" where
  "document_lexemes ds = concat (map definition_lexemes ds)"

text \<open>A fragment may not be called \<open>on\<close>, by the grammar; the reader only looks at the spreads at the top of an operation.\<close>

fun selection_ok :: "written_selection \<Rightarrow> bool" where
  "selection_ok (WSpread n ds) \<longleftrightarrow> n \<noteq> ''on''"
| "selection_ok _ \<longleftrightarrow> True"

fun definition_ok :: "written_definition \<Rightarrow> bool" where
  "definition_ok (WShorthand ss) = list_all selection_ok ss"
| "definition_ok (WOperation ty n vs ds ss) = list_all selection_ok ss"
| "definition_ok (WFragment n t ds ss) \<longleftrightarrow> True"

text \<open>What the operations of a tree do.\<close>

fun value_means :: "written_value \<Rightarrow> arg_value" where
  "value_means (WVar n) = VarArg n"
| "value_means _ = LiteralArg"

definition args_mean :: "written_args option \<Rightarrow> (js_string \<times> arg_value) list" where
  "args_mean vs = (case vs of None \<Rightarrow> [] | Some us \<Rightarrow> map (\<lambda>(n, v). (n, value_means v)) us)"

fun field_means :: "written_selection \<Rightarrow> graphql_field option" where
  "field_means (WField a n vs ds below) = Some \<lparr>field_name = n, field_args = args_mean vs\<rparr>"
| "field_means _ = None"

definition operation_means :: "operation_type \<Rightarrow> written_selection list \<Rightarrow> graphql_operation" where
  "operation_means ty ss =
     \<lparr>op_type = ty, op_fields = List.map_filter field_means ss, top_level_fragment = list_ex (\<lambda>s. field_means s = None) ss\<rparr>"

fun definition_means :: "written_definition \<Rightarrow> graphql_operation list" where
  "definition_means (WShorthand ss) = [operation_means Query ss]"
| "definition_means (WOperation ty n vs ds ss) = [operation_means ty ss]"
| "definition_means (WFragment n t ds ss) = []"

definition document_means :: "written_definition list \<Rightarrow> graphql_operation list" where
  "document_means ds = concat (map definition_means ds)"

section \<open>Groups\<close>

text \<open>Every bracket that opens is closed.\<close>

inductive nested :: "token list \<Rightarrow> bool" where
  empty: "nested []"
| plain: "\<not> opens t \<Longrightarrow> \<not> closes t \<Longrightarrow> nested ts \<Longrightarrow> nested (t # ts)"
| group: "opens t \<Longrightarrow> closes u \<Longrightarrow> nested ts \<Longrightarrow> nested us \<Longrightarrow> nested (t # ts @ u # us)"

declare nested.empty [simp]

lemma opens_simps [simp]:
  "opens (Punct p) \<longleftrightarrow> p = ''('' \<or> p = ''{'' \<or> p = ''[''" "\<not> opens (Word w)" "\<not> opens Literal"
  "closes (Punct p) \<longleftrightarrow> p = '')'' \<or> p = ''}'' \<or> p = '']''" "\<not> closes (Word w)" "\<not> closes Literal"
  by (auto simp: opens_def closes_def)

lemma nested_append: "nested a \<Longrightarrow> nested b \<Longrightarrow> nested (a @ b)"
proof (induction rule: nested.induct)
  case (group t u ts us)
  then show ?case using nested.group [of t u ts "us @ b"] by simp
qed (auto intro: nested.plain)

lemma nested_concat: "list_all nested xs \<Longrightarrow> nested (concat xs)"
  by (induction xs) (auto intro: nested_append)

lemma nested_one: "opens t \<Longrightarrow> closes u \<Longrightarrow> nested ts \<Longrightarrow> nested (t # ts @ [u])"
  using nested.group [of t u ts "[]"] by simp

lemma skip_nested: "nested b \<Longrightarrow> skip_depth (Suc d) (b @ r) = skip_depth (Suc d) r"
proof (induction arbitrary: d r rule: nested.induct)
  case (group t u ts us)
  have "\<not> opens u" using group.hyps(2) by (auto simp: opens_def closes_def)
  then show ?case using group by simp
qed simp_all

lemma skip_group_nested: "opens t \<Longrightarrow> closes u \<Longrightarrow> nested b \<Longrightarrow> skip_group (t # b @ u # r) = Inr r"
  using skip_nested [of b 0 "u # r"] by (auto simp: skip_group_def next_tok_def opens_def closes_def)

abbreviation tokens :: "lexeme list \<Rightarrow> token list" where "tokens \<equiv> map lexeme_token"

lemma nested_value: "nested (tokens (value_lexemes v))"
proof (induction v rule: value_lexemes.induct)
  case (6 vs)
  then have "nested (concat (map (tokens \<circ> value_lexemes) vs))" by (intro nested_concat) (auto simp: list_all_iff)
  then show ?case by (auto simp: map_concat intro!: nested_one)
next
  case (7 fs)
  then have "nested (concat (map (\<lambda>(n, v). Word n # Punct '':'' # tokens (value_lexemes v)) fs))"
    by (intro nested_concat) (auto simp: list_all_iff intro!: nested.plain)
  then show ?case by (auto simp: map_concat comp_def split_def intro!: nested_one)
qed (auto intro!: nested.plain)

lemma nested_args: "nested (tokens (concat (map (\<lambda>(n, v). LName n # LPunct '':'' # value_lexemes v) vs)))"
  unfolding map_concat by (rule nested_concat) (auto simp: list_all_iff nested_value intro!: nested.plain)

lemma nested_optional: "(\<And>y. nested (tokens (f y))) \<Longrightarrow> nested (tokens (optional f x))"
  by (simp add: optional_def split: option.split)

lemma nested_args_lexemes: "nested (tokens (args_lexemes vs))"
  using nested_args [of vs] by (auto simp: args_lexemes_def intro!: nested_one)

lemma nested_directives: "nested (tokens (directives_lexemes ds))"
  unfolding directives_lexemes_def map_concat
  by (rule nested_concat) (auto simp: list_all_iff intro!: nested.plain nested_optional nested_args_lexemes)

lemma nested_type: "nested (tokens (type_lexemes t))"
proof (induction t)
  case (WListOf t)
  then show ?case by (auto intro!: nested_one)
qed (auto intro!: nested_append nested.plain)

lemma nested_variables: "nested (tokens (concat (map variable_lexemes vs)))"
  unfolding map_concat
  by (rule nested_concat)
    (auto simp: list_all_iff variable_lexemes_def intro!: nested.plain nested_append nested_optional nested_type nested_value
      nested_directives)

lemma nested_selection: "nested (tokens (selection_lexemes s))"
proof (induction s rule: selection_lexemes.induct)
  case (1 a n vs ds below)
  have "nested (tokens (concat (map selection_lexemes ss)))" if "below = Some ss" for ss
    unfolding map_concat using 1 [OF that] by (intro nested_concat) (auto simp: list_all_iff)
  then have "nested (tokens (case below of None \<Rightarrow> [] | Some ss \<Rightarrow> LPunct ''{'' # concat (map selection_lexemes ss) @ [LPunct ''}'']))"
    by (auto simp del: map_concat intro!: nested_one split: option.split)
  then show ?case
    by (auto simp: alias_lexemes_def simp del: map_concat
        intro!: nested.plain nested_append nested_optional nested_args_lexemes nested_directives)
next
  case (2 n ds)
  then show ?case by (auto intro!: nested.plain nested_directives)
next
  case (3 c ds ss)
  then have "nested (tokens (concat (map selection_lexemes ss)))"
    unfolding map_concat by (intro nested_concat) (auto simp: list_all_iff)
  then show ?case
    by (auto simp: condition_lexemes_def simp del: map_concat
        intro!: nested.plain nested_append nested_one nested_optional nested_directives)
qed

lemma nested_selections: "nested (tokens (concat (map selection_lexemes ss)))"
  unfolding map_concat by (rule nested_concat) (auto simp: list_all_iff nested_selection)

section \<open>The reader on a tree\<close>

text \<open>What comes after is none of these punctuators.\<close>

definition follows :: "js_string list \<Rightarrow> token list \<Rightarrow> bool" where
  "follows ps ts \<longleftrightarrow> (\<forall>p\<in>set ps. \<not> is_punct p ts)"

lemma is_punct_simps [simp]:
  "is_punct p (Punct q # ts) \<longleftrightarrow> q = p" "\<not> is_punct p (Word w # ts)" "\<not> is_punct p (Literal # ts)" "\<not> is_punct p []"
  by (auto simp: is_punct_def)

lemma reads_simps [simp]:
  "read_name (Word w # r) = Inr (w, r)" "next_tok (t # r) = Inr (t, r)" "expect_punct p (Punct p # r) = Inr r"
  by (simp_all add: read_name_def next_tok_def expect_punct_def)

lemma skip_if_not: "\<not> is_punct p ts \<Longrightarrow> skip_if p ts = Inr ts"
  by (simp add: skip_if_def)

lemma skip_args: "skip_if ''('' (tokens (args_lexemes vs) @ r) = Inr r"
  using skip_group_nested [OF _ _ nested_args [of vs], of "Punct ''(''" "Punct '')''" r] by (simp add: skip_if_def args_lexemes_def)

lemma skip_variables: "skip_if ''('' (tokens (variables_lexemes vs) @ r) = Inr r"
  using skip_group_nested [OF _ _ nested_variables [of vs], of "Punct ''(''" "Punct '')''" r]
  by (simp add: skip_if_def variables_lexemes_def)

lemma skip_selections: "skip_group (tokens (selections_lexemes ss) @ r) = Inr r"
  using skip_group_nested [OF _ _ nested_selections [of ss], of "Punct ''{''" "Punct ''}''" r]
  by (simp add: selections_lexemes_def)

lemma skip_directives_written:
  "follows [''@'', ''(''] r \<Longrightarrow> skip_directives (tokens (directives_lexemes ds) @ r) = Inr r"
proof (induction ds)
  case Nil
  then show ?case by (subst skip_directives.simps) (simp add: directives_lexemes_def follows_def)
next
  case (Cons d ds)
  obtain n vs where d: "d = (n, vs)" by (cases d)
  let ?rest = "tokens (directives_lexemes ds) @ r"
  have "\<not> is_punct ''('' ?rest" using Cons.prems by (cases ds) (auto simp: directives_lexemes_def follows_def)
  then have "skip_if ''('' (tokens (optional args_lexemes vs) @ ?rest) = Inr ?rest"
    using skip_args by (cases vs) (simp_all add: optional_def skip_if_not)
  moreover have "tokens (directives_lexemes (d # ds)) @ r = Punct ''@'' # Word n # tokens (optional args_lexemes vs) @ ?rest"
    by (simp add: d directives_lexemes_def)
  ultimately show ?case using Cons by (subst skip_directives.simps) simp
qed

lemma follows_directives: "follows ps r \<Longrightarrow> ''@'' \<notin> set ps \<Longrightarrow> follows ps (tokens (directives_lexemes ds) @ r)"
  by (cases ds) (auto simp: directives_lexemes_def follows_def)

lemma nested_values: "nested (tokens (concat (map value_lexemes vs)))"
  unfolding map_concat by (rule nested_concat) (auto simp: list_all_iff nested_value)

lemma read_value_written: "read_value (tokens (value_lexemes v) @ r) = Inr (value_means v, r)"
proof (cases v)
  case (WList vs)
  then show ?thesis using skip_group_nested [OF _ _ nested_values [of vs], of "Punct ''[''" "Punct '']''" r]
    by (simp add: read_value_def)
next
  case (WObject fs)
  then show ?thesis using skip_group_nested [OF _ _ nested_args [of fs], of "Punct ''{''" "Punct ''}''" r]
    by (simp add: read_value_def)
qed (simp_all add: read_value_def)

lemma read_args_written:
  "read_args (tokens (concat (map (\<lambda>(n, v). LName n # LPunct '':'' # value_lexemes v) vs)) @ Punct '')'' # r) =
     Inr (args_mean (Some vs), r)"
proof (induction vs)
  case Nil
  then show ?case by (subst read_args.simps) (simp add: args_mean_def)
next
  case (Cons x vs)
  obtain n v where x: "x = (n, v)" by (cases x)
  then show ?case using Cons by (subst read_args.simps) (simp add: read_value_written args_mean_def)
qed

text \<open>The optional parts of a field, one after the other.\<close>

lemma read_field_written:
  assumes "follows ['':'', ''('', ''@'', ''{''] r"
  shows "read_field (tokens (selection_lexemes (WField a n vs ds below)) @ r) =
    Inr (\<lparr>field_name = n, field_args = args_mean vs\<rparr>, r)"
proof -
  let ?below = "tokens (optional selections_lexemes below) @ r"
  let ?dirs = "tokens (directives_lexemes ds) @ ?below"
  let ?args = "tokens (optional args_lexemes vs) @ ?dirs"
  have b: "skip_if ''{'' ?below = Inr r"
    using assms skip_selections by (cases below) (simp_all add: optional_def follows_def skip_if_def selections_lexemes_def)
  have "follows [''@'', ''('', '':''] ?below"
    using assms by (cases below) (simp_all add: optional_def follows_def selections_lexemes_def)
  then have d: "skip_directives ?dirs = Inr ?below" and f: "follows [''('', '':''] ?dirs"
    using skip_directives_written [of ?below ds] follows_directives [of "[''('', '':'']" ?below ds] by (simp_all add: follows_def)
  have v: "(if is_punct ''('' ?args then read_args (tl ?args) else Inr ([], ?args)) = Inr (args_mean vs, ?dirs)"
    using f read_args_written by (cases vs) (simp_all add: optional_def args_lexemes_def follows_def args_mean_def)
  have c: "\<not> is_punct '':'' ?args" using f by (cases vs) (simp_all add: optional_def args_lexemes_def follows_def)
  have "tokens (selection_lexemes (WField a n vs ds below)) @ r = tokens (alias_lexemes a) @ Word n # ?args"
    by (simp add: optional_def selections_lexemes_def split: option.split)
  then show ?thesis using b d v c by (cases a) (simp_all add: read_field_def alias_lexemes_def optional_def [of _ a])
qed

text \<open>What may come after a selection: another one, or the end of the set.\<close>

lemma follows_selections:
  "follows ['':'', ''('', ''@'', ''{''] (tokens (concat (map selection_lexemes ss)) @ Punct ''}'' # r)"
proof (cases ss)
  case (Cons s ss)
  then show ?thesis by (cases s) (auto simp: follows_def alias_lexemes_def optional_def split: option.split)
qed (simp add: follows_def)

lemma skip_spread:
  assumes "follows ['':'', ''('', ''@'', ''{''] r" "n \<noteq> ''on''"
  shows "skip_fragment (Word n # tokens (directives_lexemes ds) @ r) = Inr r"
  using assms skip_directives_written [of r ds] by (simp add: skip_fragment_def follows_def skip_if_not)

lemma skip_inline: "skip_fragment (tokens (condition_lexemes c) @ tokens (directives_lexemes ds) @ tokens (selections_lexemes ss) @ r) = Inr r"
proof -
  let ?sels = "tokens (selections_lexemes ss) @ r"
  let ?dirs = "tokens (directives_lexemes ds) @ ?sels"
  have "follows [''@'', ''(''] ?sels" by (simp add: follows_def selections_lexemes_def)
  then have d: "skip_directives ?dirs = Inr ?sels" by (rule skip_directives_written)
  have s: "skip_if ''{'' ?sels = Inr r" using skip_selections [of ss r] by (simp add: skip_if_def selections_lexemes_def)
  have "(case ?dirs of Word n # r \<Rightarrow> if n = ''on'' then map_sum id snd (read_name r) else Inr r | _ \<Rightarrow> Inr ?dirs) = Inr ?dirs"
    by (cases ds) (auto simp: directives_lexemes_def selections_lexemes_def)
  then show ?thesis using d s by (cases c) (simp_all add: skip_fragment_def condition_lexemes_def optional_def)
qed

lemma read_selections_written:
  "list_all selection_ok ss \<Longrightarrow> read_selections (tokens (concat (map selection_lexemes ss)) @ Punct ''}'' # r) =
     Inr ((op_fields (operation_means ty ss), top_level_fragment (operation_means ty ss)), r)"
proof (induction ss)
  case Nil
  then show ?case by (subst read_selections.simps) (simp add: operation_means_def map_filter_def)
next
  case (Cons s ss)
  let ?rest = "tokens (concat (map selection_lexemes ss)) @ Punct ''}'' # r"
  have rest: "read_selections ?rest = Inr ((op_fields (operation_means ty ss), top_level_fragment (operation_means ty ss)), r)"
    using Cons by simp
  have shape: "tokens (concat (map selection_lexemes (s # ss))) @ Punct ''}'' # r = tokens (selection_lexemes s) @ ?rest" by simp
  show ?case
  proof (cases s)
    case (WField a n vs ds below)
    let ?ts = "tokens (selection_lexemes s) @ ?rest"
    have "\<not> is_punct ''}'' ?ts" "\<not> is_punct ''...'' ?ts"
      using WField by (auto simp: alias_lexemes_def optional_def split: option.split)
    then show ?thesis
      unfolding shape using read_field_written [OF follows_selections, of a n vs ds below ss r] rest WField
      by (subst read_selections.simps) (simp add: operation_means_def map_filter_def del: selection_lexemes.simps)
  next
    case (WSpread n ds)
    then show ?thesis
      unfolding shape using skip_spread [OF follows_selections, of n ds ss r] rest Cons.prems
      by (subst read_selections.simps) (simp add: operation_means_def map_filter_def)
  next
    case (WInline c ds us)
    then show ?thesis
      unfolding shape using skip_inline [of c ds us ?rest] rest
      by (subst read_selections.simps) (simp add: operation_means_def map_filter_def selections_lexemes_def)
  qed
qed

lemma read_selection_set_written:
  "list_all selection_ok ss \<Longrightarrow> read_selection_set (tokens (selections_lexemes ss) @ r) =
     Inr ((op_fields (operation_means ty ss), top_level_fragment (operation_means ty ss)), r)"
  using read_selections_written [of ss r ty] by (simp add: read_selection_set_def selections_lexemes_def)

lemma read_operation_written:
  assumes "list_all selection_ok ss"
  shows "read_operation ty (tokens (optional (\<lambda>w. [LName w]) n) @ tokens (optional variables_lexemes vs) @
      tokens (directives_lexemes ds) @ tokens (selections_lexemes ss) @ r) = Inr (operation_means ty ss, r)"
proof -
  let ?sels = "tokens (selections_lexemes ss) @ r"
  let ?dirs = "tokens (directives_lexemes ds) @ ?sels"
  let ?vars = "tokens (optional variables_lexemes vs) @ ?dirs"
  have f: "follows [''@'', ''(''] ?sels" by (simp add: follows_def selections_lexemes_def)
  then have d: "skip_directives ?dirs = Inr ?sels" by (rule skip_directives_written)
  have "follows [''(''] ?dirs" using f by (intro follows_directives) (simp_all add: follows_def)
  then have v: "skip_if ''('' ?vars = Inr ?dirs"
    using skip_variables by (cases vs) (simp_all add: optional_def follows_def skip_if_not)
  have "(case ?vars of Word n # r \<Rightarrow> r | _ \<Rightarrow> ?vars) = ?vars"
    by (cases vs; cases ds) (auto simp: optional_def variables_lexemes_def directives_lexemes_def selections_lexemes_def)
  then show ?thesis
    using d v read_selection_set_written [OF assms, of r ty]
    by (cases n) (simp_all add: read_operation_def operation_means_def)
qed

lemma operation_of_keyword: "operation_of (operation_keyword ty) = Some ty" "operation_keyword ty \<noteq> ''fragment''"
  by (cases ty; simp add: operation_of_def)+

lemma read_definition_written:
  assumes "definition_ok x" "read_document r = Inr ops"
  shows "read_document (tokens (definition_lexemes x) @ r) = Inr (definition_means x @ ops)"
proof (cases x)
  case (WShorthand ss)
  then show ?thesis
    using assms read_selection_set_written [of ss r Query]
    by (subst read_document.simps) (simp add: selections_lexemes_def operation_means_def)
next
  case (WOperation ty n vs ds ss)
  then show ?thesis
    using assms read_operation_written [of ss ty n vs ds r]
    by (subst read_document.simps) (simp add: operation_of_keyword)
next
  case (WFragment n t ds ss)
  have "follows [''@'', ''(''] (tokens (selections_lexemes ss) @ r)" by (simp add: follows_def selections_lexemes_def)
  then have "skip_directives (tokens (directives_lexemes ds) @ tokens (selections_lexemes ss) @ r) = Inr (tokens (selections_lexemes ss) @ r)"
    by (rule skip_directives_written)
  then show ?thesis
    using assms WFragment skip_selections [of ss r]
    by (subst read_document.simps) (simp add: skip_fragment_definition_def)
qed

lemma read_document_written: "list_all definition_ok ds \<Longrightarrow> read_document (tokens (document_lexemes ds)) = Inr (document_means ds)"
proof (induction ds)
  case Nil
  then show ?case by (subst read_document.simps) (simp add: document_lexemes_def document_means_def)
next
  case (Cons x ds)
  then show ?case using read_definition_written [of x "tokens (document_lexemes ds)" "document_means ds"]
    by (simp add: document_lexemes_def document_means_def)
qed

text \<open>
  C40: the reader finds in a document what it says. However an executable document of the grammar is spelled --- with any
  blanks and commas and with comments ended by a line feed (a carriage return may stand before it), and with nothing
  between two lexemes where the grammar asks for nothing; in shorthand, with or without a title and variables; with aliases,
  arguments of every kind of value, directives, fragments and selections of any depth --- and as long as it is at most
  65536 characters, the reader returns exactly its operations in their order: the type of each, its top-level fields by
  their real names with their arguments (the variable where one is a variable), and whether a fragment stands at the top.
  A comment ended by a carriage return alone is outside: there the reader differs (\<open>comment_return_unseen\<close>).
\<close>

theorem graphql_written_read:
  assumes "list_all definition_ok ds" "spelled (document_lexemes ds) q" "length q \<le> MAX_GRAPHQL_CHARS"
  shows "parse_graphql q = Inr (document_means ds)"
  using assms tokenize_spelled [OF assms(2)] read_document_written [OF assms(1)] by (simp add: parse_graphql_def)

text \<open>
  A sample: \<open>mutation M($i:ID!) { a: merge(input: {id: $i, tags: ["}"]}, n: $i) @x { ok } }\<close> behind a comment, and its
  fragment.
\<close>

definition sample_document :: "written_definition list" where
  "sample_document =
     [WOperation Mutation (Some ''M'')
        (Some [\<lparr>var_name = ''i'', var_type = WNonNull (WNamed ''ID''), var_default = None, var_directives = []\<rparr>]) []
        [WField (Some ''a'') ''merge''
          (Some [(''input'', WObject [(''id'', WVar ''i''), (''tags'', WList [WString ''}''])]), (''n'', WVar ''i'')])
          [(''x'', None)] (Some [WField None ''ok'' None [] None])],
      WFragment ''F'' ''T'' [] [WField None ''id'' None [] None]]"

text \<open>A spelling of it: a comment, a comma and a blank before every name, and nothing before the rest.\<close>

definition gap_before :: "lexeme \<Rightarrow> js_string" where
  "gap_before l = (case l of LName w \<Rightarrow> '', '' | _ \<Rightarrow> [])"

fun spell :: "lexeme list \<Rightarrow> js_string" where
  "spell [] = []"
| "spell (l # ls) = gap_before l @ lexeme_text l @ spell ls"

fun apart :: "lexeme list \<Rightarrow> bool" where
  "apart [] = True"
| "apart [l] = True"
| "apart (k # l # ls) \<longleftrightarrow> (gap_before l \<noteq> [] \<or> may_touch k l) \<and> apart (l # ls)"

lemma gap_gap_before: "gap (gap_before l)"
  by (cases l) (auto simp: gap_before_def intro!: gap.intros)

lemma spell_spelled: "list_all lexeme_ok ls \<Longrightarrow> apart ls \<Longrightarrow> spelled ls (spell ls)"
proof (induction ls rule: apart.induct)
  case 1
  then show ?case by (simp add: spelled.over ending.gap gap.none)
next
  case (2 l)
  then show ?case using spelled.spell [OF gap_gap_before [of l] _ spelled.over [OF ending.gap [OF gap.none]]] by simp
next
  case (3 k l ls)
  then have "l # ls = [] \<or> parted (spell (l # ls)) \<or> may_touch k (hd (l # ls))"
    using gap_parted [OF gap_gap_before, of l] by auto
  then show ?case using spelled.spell [OF gap_gap_before [of k]] 3 by simp
qed

lemma spelled_comment:
  assumes "spelled ls s" "NL \<notin> set cs" "CR \<notin> set cs"
  shows "spelled ls (CHR ''#'' # cs @ [NL] @ s)"
  using assms
proof (cases rule: spelled.cases)
  case over
  have g: "gap h \<Longrightarrow> gap (CHR ''#'' # cs @ [NL] @ h)" for h using gap.comment [OF assms(2,3), of "[NL]" h] by simp
  from over(2) have "ending (CHR ''#'' # cs @ [NL] @ s)"
  proof (cases rule: ending.cases)
    case gap
    then show ?thesis using ending.gap [OF g] by simp
  next
    case (comment h cs')
    then show ?thesis using ending.comment [OF g [OF comment(2)] comment(3,4)] by simp
  qed
  then show ?thesis using over(1) spelled.over by simp
next
  case (spell g l ls s)
  then show ?thesis using spelled.spell [OF gap.comment [OF assms(2,3) _ spell(3)], of "[NL]"] by simp
qed

definition sample_spelling :: js_string where
  "sample_spelling = ''# mutation {'' @ [NL] @ spell (document_lexemes sample_document)"

lemma sample_spelled: "list_all definition_ok sample_document" "spelled (document_lexemes sample_document) sample_spelling"
  "length sample_spelling \<le> MAX_GRAPHQL_CHARS"
proof -
  let ?ls = "document_lexemes sample_document"
  have "list_all lexeme_ok ?ls" "apart ?ls"
    by (simp_all add: sample_document_def document_lexemes_def selections_lexemes_def variables_lexemes_def variable_lexemes_def
        args_lexemes_def directives_lexemes_def alias_lexemes_def gap_before_def char_classes punctuators_def)
  then have "spelled ?ls (spell ?ls)" by (rule spell_spelled)
  then show "spelled ?ls sample_spelling" using spelled_comment [of ?ls "spell ?ls" " '' mutation {''"] by (simp add: sample_spelling_def)
  show "length sample_spelling \<le> MAX_GRAPHQL_CHARS"
    by (simp add: sample_spelling_def sample_document_def document_lexemes_def selections_lexemes_def variables_lexemes_def
        variable_lexemes_def args_lexemes_def directives_lexemes_def alias_lexemes_def gap_before_def MAX_GRAPHQL_CHARS_def)
qed (simp add: sample_document_def)

theorem graphql_written_read_witness:
  "parse_graphql sample_spelling =
     Inr [\<lparr>op_type = Mutation,
           op_fields = [\<lparr>field_name = ''merge'', field_args = [(''input'', LiteralArg), (''n'', VarArg ''i'')]\<rparr>],
           top_level_fragment = False\<rparr>]"
  using graphql_written_read [OF sample_spelled]
  by (simp add: sample_document_def document_means_def operation_means_def args_mean_def map_filter_def)

end
