(* ===== verification/EgressRules.thy ===== *)
theory EgressRules
  imports EgressPush EgressWritten
begin

text \<open>
  What the egress proxy forwards to GitHub with the owner's token: the rules for REST and
  GraphQL writes (\<open>egress/rules.ts\<close>) and the proxy's own decisions (\<open>egress/proxy.ts\<close>). What
  GitHub answers to the rules' questions is the record \<open>lookups\<close>; what zlib makes of a
  compressed push and what \<open>JSON.parse\<close> makes of a body are arguments.
\<close>

section \<open>Paths\<close>

text \<open>\<open>path.replace(/\/+$/, "")\<close> and \<open>path.replace(/^\/+/, "")\<close>\<close>

definition strip_slashes :: "js_string \<Rightarrow> js_string" where
  "strip_slashes s = rev (dropWhile (\<lambda>c. c = CHR ''/'') (rev s))"

definition without_git :: "js_string \<Rightarrow> js_string" where
  "without_git name = (if ends_with (lower name) ''.git'' then take (length name - 4) name else name)"

definition repo_of_path :: "js_string \<Rightarrow> js_string option" where
  "repo_of_path path =
     (case split_on (CHR ''/'') (dropWhile (\<lambda>c. c = CHR ''/'') path) of
        owner # name # _ \<Rightarrow>
          if owner = [] \<or> name = [] then None else Some (lower (owner @ ''/'' @ without_git name))
      | _ \<Rightarrow> None)"

section \<open>git\<close>

datatype git_request = UploadPack | ReceivePackAdvert js_string | ReceivePack js_string | OtherGit

definition classify_git_request :: "js_string \<Rightarrow> js_string \<Rightarrow> js_string option \<Rightarrow> git_request" where
  "classify_git_request meth path service =
     (let repo = repo_of_path path; named = (\<lambda>f. case repo of Some r \<Rightarrow> f r | None \<Rightarrow> OtherGit) in
      if meth = ''GET'' \<and> ends_with path ''/info/refs'' then
        (if service = Some ''git-receive-pack'' \<and> repo \<noteq> None then named ReceivePackAdvert else UploadPack)
      else if meth = ''POST'' \<and> ends_with path ''/git-upload-pack'' then UploadPack
      else if meth = ''POST'' \<and> ends_with path ''/git-receive-pack'' \<and> repo \<noteq> None then named ReceivePack
      else OtherGit)"

datatype git_outcome =
    GitForward
  | GitPush bytes                    \<comment> \<open>the head of the body; the rest follows\<close>
  | GitReject receive_pack units
  | GitRefuse nat units

text \<open>A compressed push: the bytes as they came, and what they inflate to, if they do.\<close>

definition read_gzip_push_head :: "bytes \<Rightarrow> bytes list option \<Rightarrow> (js_string + bytes \<times> receive_pack)" where
  "read_gzip_push_head raw inflated =
     (case inflated of
        None \<Rightarrow> Inl ''it is not valid gzip''
      | Some chunks \<Rightarrow> map_sum id (\<lambda>(_, r). (raw, r)) (read_push_head [] chunks))"

record git_body =
  encoding :: "js_string option"
  chunks :: "bytes list"
  gz_raw :: bytes
  gz_chunks :: "bytes list option"

definition handle_git :: "js_string \<Rightarrow> js_string \<Rightarrow> js_string option \<Rightarrow> git_body \<Rightarrow> egress_scope \<Rightarrow> git_outcome" where
  "handle_git meth path service body scope =
     (case classify_git_request meth path service of
        UploadPack \<Rightarrow> GitForward
      | OtherGit \<Rightarrow>
          if meth = ''GET'' \<or> meth = ''HEAD'' then GitForward
          else GitRefuse 403 (units_of ''Loxaic lets a sandbox only read github.com pages, clone, fetch and push its own branch.'')
      | ReceivePackAdvert repo \<Rightarrow>
          (case check_push [] scope repo of Allow \<Rightarrow> GitForward | Refuse why \<Rightarrow> GitRefuse 403 why)
      | ReceivePack repo \<Rightarrow>
          if encoding body \<noteq> None \<and> encoding body \<noteq> Some ''gzip'' \<and> encoding body \<noteq> Some ''identity'' then
            GitRefuse 400 (units_of (''Loxaic can'' @ [SQ] @ ''t read a push sent as '' @ the (encoding body) @ ''.''))
          else (case (if encoding body = Some ''gzip'' then read_gzip_push_head (gz_raw body) (gz_chunks body)
                      else read_push_head [] (chunks body)) of
              Inl e \<Rightarrow> GitRefuse 400 (units_of (''This push could not be read ('' @ e @ '').''))
            | Inr (head, r) \<Rightarrow>
                (case check_push (ref_updates r) scope repo of
                   Allow \<Rightarrow> GitPush head
                 | Refuse why \<Rightarrow> GitReject r why)))"

section \<open>What GitHub is asked\<close>

record pull_info =
  pull_repo :: js_string
  head_ref :: js_string
  head_repo :: js_string

datatype node_info = PullNode pull_info | IssueNode js_string | OtherNode

record lookups =
  pull_of :: "nat \<Rightarrow> pull_info option"
  repo_node_id :: "js_string option"
  node_of :: "js_string \<Rightarrow> node_info option"

definition own_pull :: "pull_info option \<Rightarrow> egress_scope \<Rightarrow> bool" where
  "own_pull p scope = (case p of
       None \<Rightarrow> False
     | Some i \<Rightarrow> Some (pull_repo i) = scope_repo scope \<and> Some (head_repo i) = scope_repo scope
         \<and> Some (head_ref i) = scope_branch scope)"

definition head_matches :: "json option \<Rightarrow> egress_scope \<Rightarrow> bool" where
  "head_matches head scope =
     (case (head, scope_branch scope, scope_repo scope) of
        (Some (JStr h), Some b, Some r) \<Rightarrow>
          b \<noteq> [] \<and> r \<noteq> [] \<and> (h = b \<or> lower h = lower (takeWhile (\<lambda>c. c \<noteq> CHR ''/'') r @ '':'' @ b))
      | _ \<Rightarrow> False)"

definition opt_text :: "js_string option \<Rightarrow> js_string" where
  "opt_text s = (case s of Some t \<Rightarrow> t | None \<Rightarrow> ''null'')"

section \<open>REST\<close>

definition all_digits :: "js_string \<Rightarrow> bool" where
  "all_digits s \<longleftrightarrow> s \<noteq> [] \<and> list_all is_digit s"

definition number_of :: "js_string \<Rightarrow> nat" where
  "number_of s = foldl (\<lambda>a c. a * 10 + (of_char c - 48)) 0 s"

text \<open>\<open>/^\/repos\/([^/]+)\/([^/]+)\/(.*)$/\<close>: the repository and the rest.\<close>

definition repos_path :: "js_string \<Rightarrow> (js_string \<times> js_string) option" where
  "repos_path path =
     (case split_on (CHR ''/'') path of
        e # w # owner # name # r # rs \<Rightarrow>
          (let rest = join ''/'' (r # rs) in
           if e = [] \<and> w = ''repos'' \<and> owner \<noteq> [] \<and> name \<noteq> [] \<and> NL \<notin> set rest \<and> CR \<notin> set rest
           then Some (owner @ ''/'' @ name, rest) else None)
      | _ \<Rightarrow> None)"

definition check_rest_write :: "js_string \<Rightarrow> js_string \<Rightarrow> json \<Rightarrow> egress_scope \<Rightarrow> lookups \<Rightarrow> verdict" where
  "check_rest_write meth path body scope lk =
     (if \<not> may_write scope then Refuse (units_of READ_ONLY_HERE)
      else case repos_path path of
        None \<Rightarrow> Refuse (units_of (''Loxaic lets this workspace write only to '' @ opt_text (scope_repo scope) @ '' on GitHub.''))
      | Some (repo, rest0) \<Rightarrow>
          if Some (lower repo) \<noteq> scope_repo scope then
            Refuse (units_of (''Loxaic lets this workspace write only to '' @ opt_text (scope_repo scope) @ '' on GitHub.''))
          else
          (let parts = split_on (CHR ''/'') (strip_slashes rest0);
               own = (\<lambda>n why. if own_pull (pull_of lk (number_of n)) scope then Allow
                       else Refuse (units_of (why @ opt_text (scope_branch scope) @ ''.'')));
               no = Refuse (units_of (''Loxaic does not let the agent '' @ meth @ '' '' @ path @ '' on GitHub; ask the user to do that.''))
           in case parts of
             [a] \<Rightarrow>
               if meth = ''POST'' \<and> a = ''pulls'' then
                 (if head_matches (field_of body ''head'') scope then Allow
                  else Refuse (units_of (''Loxaic lets this workspace open a pull request only from '' @ opt_text (scope_branch scope) @ ''.'')))
               else no
           | [a, n] \<Rightarrow>
               if a = ''pulls'' \<and> all_digits n \<and> meth = ''PATCH'' then
                 (if field_of body ''state'' \<noteq> None then
                    Refuse (units_of ''Loxaic does not let the agent close or reopen a pull request.'')
                  else own n ''Loxaic lets this workspace edit only the pull request from '')
               else no
           | [a, n, w] \<Rightarrow>
               if meth \<noteq> ''POST'' \<or> \<not> all_digits n then no
               else if (a = ''issues'' \<or> a = ''pulls'') \<and> w = ''comments'' then Allow
               else if a = ''pulls'' \<and> w = ''requested_reviewers'' \<or> a = ''issues'' \<and> (w = ''labels'' \<or> w = ''assignees'') then
                 own n ''Loxaic lets this workspace change only the pull request from ''
               else no
           | _ \<Rightarrow> no))"

section \<open>GraphQL\<close>

definition own_pull_field :: "js_string \<Rightarrow> js_string option" where
  "own_pull_field name =
     map_of [(''updatePullRequest'', ''pullRequestId''), (''requestReviews'', ''pullRequestId''),
       (''markPullRequestReadyForReview'', ''pullRequestId''), (''addLabelsToLabelable'', ''labelableId''),
       (''addAssigneesToAssignable'', ''assignableId'')] name"

definition node_at :: "json option \<Rightarrow> lookups \<Rightarrow> node_info option" where
  "node_at v lk = (case v of Some (JStr i) \<Rightarrow> node_of lk i | _ \<Rightarrow> None)"

definition check_mutation :: "js_string \<Rightarrow> json \<Rightarrow> egress_scope \<Rightarrow> lookups \<Rightarrow> verdict" where
  "check_mutation name input scope lk =
     (let only = (\<lambda>what s. Refuse (units_of (''Loxaic lets this workspace '' @ what @ opt_text s @ ''.''))) in
      if name = ''createPullRequest'' then
        (case repo_node_id lk of
           None \<Rightarrow> only ''open a pull request only on '' (scope_repo scope)
         | Some i \<Rightarrow>
             if i = [] \<or> field_of input ''repositoryId'' \<noteq> Some (JStr i) then only ''open a pull request only on '' (scope_repo scope)
             else if field_of input ''headRepositoryId'' \<noteq> None \<and> field_of input ''headRepositoryId'' \<noteq> Some (JStr i)
               then only ''open a pull request only from '' (scope_branch scope)
             else if head_matches (field_of input ''headRefName'') scope then Allow
             else only ''open a pull request only from '' (scope_branch scope))
      else if name = ''addComment'' then
        (let repo = (case node_at (field_of input ''subjectId'') lk of
             Some (PullNode p) \<Rightarrow> Some (pull_repo p) | Some (IssueNode r) \<Rightarrow> Some r | _ \<Rightarrow> None) in
         if repo = scope_repo scope then Allow else only ''comment only on '' (scope_repo scope))
      else case own_pull_field name of
        Some k \<Rightarrow>
          if name = ''updatePullRequest'' \<and> field_of input ''state'' \<noteq> None then
            Refuse (units_of ''Loxaic does not let the agent close or reopen a pull request.'')
          else (case node_at (field_of input k) lk of
              Some (PullNode p) \<Rightarrow>
                if own_pull (Some p) scope then Allow else only ''change only the pull request from '' (scope_branch scope)
            | _ \<Rightarrow> only ''change only the pull request from '' (scope_branch scope))
      | None \<Rightarrow> Refuse (units_of (''Loxaic does not let the agent run '' @ name @ '' on GitHub; ask the user to do that.'')))"

definition is_object :: "json \<Rightarrow> bool" where
  "is_object v = (case v of JObj _ \<Rightarrow> True | JArr _ \<Rightarrow> True | _ \<Rightarrow> False)"

definition arg_of :: "graphql_field \<Rightarrow> js_string \<Rightarrow> arg_value option" where
  "arg_of f n = map_of (rev (field_args f)) n"

definition variable :: "json option \<Rightarrow> js_string \<Rightarrow> json option" where
  "variable vars n = (case vars of None \<Rightarrow> None | Some v \<Rightarrow> field_of v n)"

fun check_fields :: "graphql_field list \<Rightarrow> json option \<Rightarrow> egress_scope \<Rightarrow> lookups \<Rightarrow> verdict" where
  "check_fields [] vars scope lk = Allow"
| "check_fields (f # fs) vars scope lk =
     (case arg_of f ''input'' of
        Some (VarArg n) \<Rightarrow>
          (case variable vars n of
             Some input \<Rightarrow>
               if \<not> is_object input then Refuse (units_of (field_name f @ '' has no input.''))
               else (case check_mutation (field_name f) input scope lk of
                   Allow \<Rightarrow> check_fields fs vars scope lk
                 | Refuse why \<Rightarrow> Refuse why)
           | None \<Rightarrow> Refuse (units_of (field_name f @ '' has no input.'')))
      | _ \<Rightarrow> Refuse (units_of (''Loxaic can only check '' @ field_name f @ '' with its input passed as a variable.'')))"

fun check_graphql :: "graphql_operation list \<Rightarrow> json option \<Rightarrow> egress_scope \<Rightarrow> lookups \<Rightarrow> verdict" where
  "check_graphql [] vars scope lk = Allow"
| "check_graphql (x # xs) vars scope lk =
     (if op_type x = Subscription then Refuse (units_of ''Loxaic does not proxy GraphQL subscriptions.'')
      else if op_type x \<noteq> Mutation then check_graphql xs vars scope lk
      else if \<not> may_write scope then Refuse (units_of READ_ONLY_HERE)
      else if top_level_fragment x then Refuse (units_of (''Loxaic can'' @ [SQ] @ ''t check a mutation written with fragments.''))
      else (case check_fields (op_fields x) vars scope lk of
          Allow \<Rightarrow> check_graphql xs vars scope lk
        | Refuse why \<Rightarrow> Refuse why))"

section \<open>The API\<close>

datatype api_body = TooLarge | NotJson | ApiBody json

datatype api_outcome = ApiForward | ApiForwardBody | ApiRefuse nat units

fun check_requests :: "json list \<Rightarrow> egress_scope \<Rightarrow> lookups \<Rightarrow> api_outcome" where
  "check_requests [] scope lk = ApiForwardBody"
| "check_requests (one # others) scope lk =
     (case field_of one ''query'' of
        Some (JStr q) \<Rightarrow>
          (case parse_graphql q of
             Inl e \<Rightarrow> ApiRefuse 400 (units_of (''Loxaic could not check this GraphQL request ('' @ e @ '').''))
           | Inr ops \<Rightarrow>
               (case check_graphql ops (field_of one ''variables'') scope lk of
                  Allow \<Rightarrow> check_requests others scope lk
                | Refuse why \<Rightarrow> ApiRefuse 403 why))
      | _ \<Rightarrow> ApiRefuse 400 (units_of ''A GraphQL request needs a query.''))"

definition requests_of :: "json \<Rightarrow> json list" where
  "requests_of v = (case v of JArr vs \<Rightarrow> vs | _ \<Rightarrow> [v])"

definition handle_api :: "js_string \<Rightarrow> js_string \<Rightarrow> api_body \<Rightarrow> egress_scope \<Rightarrow> lookups \<Rightarrow> api_outcome" where
  "handle_api meth path body scope lk =
     (if meth = ''GET'' \<or> meth = ''HEAD'' then ApiForward
      else case body of
        TooLarge \<Rightarrow> ApiRefuse 413 (units_of ''This request is too large for Loxaic to check.'')
      | NotJson \<Rightarrow> ApiRefuse 400 (units_of ''Loxaic can only check a JSON request body.'')
      | ApiBody v \<Rightarrow>
          if meth = ''POST'' \<and> strip_slashes path = ''/graphql'' then check_requests (requests_of v) scope lk
          else (case check_rest_write meth path v scope lk of
              Allow \<Rightarrow> ApiForwardBody
            | Refuse why \<Rightarrow> ApiRefuse 403 why))"

section \<open>Who is asking\<close>

record egress_identity =
  for_conversation :: js_string
  for_owner :: js_string

datatype workspace_of = GithubWorkspace js_string js_string | OtherWorkspace

record caller =
  caller_scope :: egress_scope
  caller_token :: "js_string option"

definition caller_for :: "egress_identity option \<Rightarrow> (js_string \<times> workspace_of) option \<Rightarrow> js_string option \<Rightarrow> caller option" where
  "caller_for who loaded token =
     (case (who, loaded) of
        (Some i, Some (owner, GithubWorkspace repo branch)) \<Rightarrow>
          if owner \<noteq> for_owner i then None
          else Some \<lparr>caller_scope = \<lparr>scope_repo = Some (lower repo), scope_branch = Some branch\<rparr>, caller_token = token\<rparr>
      | _ \<Rightarrow> None)"

text \<open>\<open>/path?query\<close> and nothing else.\<close>

definition is_origin_form :: "js_string \<Rightarrow> bool" where
  "is_origin_form path \<longleftrightarrow> starts_with path ''/'' \<and> \<not> starts_with path ''//'' \<and> BS \<notin> set path"

definition HOP_BY_HOP :: "js_string list" where
  "HOP_BY_HOP = [''connection'', ''keep-alive'', ''proxy-authenticate'', ''proxy-authorization'', ''proxy-connection'',
     ''te'', ''trailer'', ''transfer-encoding'', ''upgrade'', ''host'', ''authorization'']"

definition forward_headers :: "(js_string \<times> js_string option) list \<Rightarrow> js_string list \<Rightarrow> (js_string \<times> js_string) list" where
  "forward_headers headers drop_names =
     List.map_filter (\<lambda>(n, v). case v of
         None \<Rightarrow> None
       | Some t \<Rightarrow> if n \<in> set HOP_BY_HOP \<or> n \<in> set drop_names then None else Some (n, t)) headers"

text \<open>A request on an intercepted connection, from its target line to its handler.\<close>

datatype proxied = NotOriginForm | AccessEnded | ToApi api_outcome | ToGit git_outcome

record proxy_request =
  on_api :: bool
  req_method :: js_string
  req_target :: js_string
  req_path :: js_string        \<comment> \<open>the target's path, as \<open>URL\<close> parses it\<close>
  req_service :: "js_string option"
  req_git :: git_body
  req_api :: api_body

definition proxy :: "proxy_request \<Rightarrow> egress_identity option \<Rightarrow> (js_string \<times> workspace_of) option \<Rightarrow> js_string option
    \<Rightarrow> (egress_scope \<Rightarrow> lookups) \<Rightarrow> proxied" where
  "proxy q who loaded token lk =
     (if \<not> is_origin_form (req_target q) then NotOriginForm
      else case caller_for who loaded token of
        None \<Rightarrow> AccessEnded
      | Some c \<Rightarrow>
          if on_api q then ToApi (handle_api (req_method q) (req_path q) (req_api q) (caller_scope c) (lk (caller_scope c)))
          else ToGit (handle_git (req_method q) (req_path q) (req_service q) (req_git q) (caller_scope c)))"

section \<open>What may be written\<close>

definition mutation_allowed :: "js_string \<Rightarrow> json \<Rightarrow> egress_scope \<Rightarrow> lookups \<Rightarrow> bool" where
  "mutation_allowed name input scope lk \<longleftrightarrow>
     name = ''createPullRequest''
       \<and> (\<exists>i. repo_node_id lk = Some i \<and> i \<noteq> [] \<and> field_of input ''repositoryId'' = Some (JStr i)
            \<and> field_of input ''headRepositoryId'' \<in> {None, Some (JStr i)})
       \<and> head_matches (field_of input ''headRefName'') scope
     \<or> name = ''addComment''
       \<and> (\<exists>r. scope_repo scope = Some r \<and> (node_at (field_of input ''subjectId'') lk = Some (IssueNode r)
            \<or> (\<exists>p. node_at (field_of input ''subjectId'') lk = Some (PullNode p) \<and> pull_repo p = r)))
     \<or> (\<exists>k p. own_pull_field name = Some k \<and> node_at (field_of input k) lk = Some (PullNode p) \<and> own_pull (Some p) scope
          \<and> (name = ''updatePullRequest'' \<longrightarrow> field_of input ''state'' = None))"

definition operation_allowed :: "json option \<Rightarrow> egress_scope \<Rightarrow> lookups \<Rightarrow> graphql_operation \<Rightarrow> bool" where
  "operation_allowed vars scope lk x \<longleftrightarrow>
     op_type x = Query
     \<or> op_type x = Mutation \<and> may_write scope \<and> \<not> top_level_fragment x
       \<and> (\<forall>f \<in> set (op_fields x). \<exists>n input. arg_of f ''input'' = Some (VarArg n) \<and> variable vars n = Some input
            \<and> is_object input \<and> mutation_allowed (field_name f) input scope lk)"

text \<open>A request whose query is a document, as the grammar spells one (\<open>EgressWritten\<close>); other text GitHub refuses itself.\<close>

definition written_request :: "json \<Rightarrow> bool" where
  "written_request one \<longleftrightarrow>
     (\<forall>q. field_of one ''query'' = Some (JStr q) \<longrightarrow> (\<exists>ds. list_all definition_ok ds \<and> spelled (document_lexemes ds) q))"

definition request_allowed :: "egress_scope \<Rightarrow> lookups \<Rightarrow> json \<Rightarrow> bool" where
  "request_allowed scope lk one \<longleftrightarrow>
     (\<exists>q ds. field_of one ''query'' = Some (JStr q) \<and> length q \<le> MAX_GRAPHQL_CHARS
        \<and> list_all definition_ok ds \<and> spelled (document_lexemes ds) q
        \<and> (\<forall>x \<in> set (document_means ds). operation_allowed (field_of one ''variables'') scope lk x))"

definition rest_target_allowed :: "js_string \<Rightarrow> js_string list \<Rightarrow> json \<Rightarrow> egress_scope \<Rightarrow> lookups \<Rightarrow> bool" where
  "rest_target_allowed meth parts body scope lk \<longleftrightarrow>
     meth = ''POST'' \<and> parts = [''pulls''] \<and> head_matches (field_of body ''head'') scope
     \<or> (\<exists>n. all_digits n \<and>
         (meth = ''PATCH'' \<and> parts = [''pulls'', n] \<and> field_of body ''state'' = None \<and> own_pull (pull_of lk (number_of n)) scope
          \<or> meth = ''POST'' \<and> (parts = [''issues'', n, ''comments''] \<or> parts = [''pulls'', n, ''comments''])
          \<or> meth = ''POST'' \<and> (parts = [''pulls'', n, ''requested_reviewers''] \<or> parts = [''issues'', n, ''labels'']
              \<or> parts = [''issues'', n, ''assignees'']) \<and> own_pull (pull_of lk (number_of n)) scope))"

definition rest_allowed :: "js_string \<Rightarrow> js_string \<Rightarrow> json \<Rightarrow> egress_scope \<Rightarrow> lookups \<Rightarrow> bool" where
  "rest_allowed meth path body scope lk \<longleftrightarrow>
     may_write scope \<and> (\<exists>repo rest. repos_path path = Some (repo, rest) \<and> scope_repo scope = Some (lower repo)
       \<and> rest_target_allowed meth (split_on (CHR ''/'') (strip_slashes rest)) body scope lk)"

lemma check_mutation_Allow:
  assumes "may_write scope"
  shows "check_mutation name input scope lk = Allow \<longleftrightarrow> mutation_allowed name input scope lk"
proof -
  obtain r where r: "scope_repo scope = Some r" using assms by (auto simp: may_write_def some_text_def)
  have o: "own_pull_field ''createPullRequest'' = None" "own_pull_field ''addComment'' = None"
    by (simp_all add: own_pull_field_def)
  consider "name = ''createPullRequest''" | "name = ''addComment''"
    | "name \<noteq> ''createPullRequest''" "name \<noteq> ''addComment''" by blast
  then show ?thesis
  proof cases
    case 1
    then show ?thesis
      by (auto simp: check_mutation_def mutation_allowed_def o Let_def split: option.split)
  next
    case 2
    then show ?thesis
      by (auto simp: check_mutation_def mutation_allowed_def o r Let_def split: option.splits node_info.splits)
  next
    case 3
    then show ?thesis
      by (cases "own_pull_field name")
        (auto simp: check_mutation_def mutation_allowed_def Let_def split: option.splits node_info.splits)
  qed
qed

lemma verdict_case [simp]:
  "(case v of Allow \<Rightarrow> x | Refuse w \<Rightarrow> Refuse w) = Allow \<longleftrightarrow> v = Allow \<and> x = Allow"
  "(case v of Allow \<Rightarrow> y | Refuse w \<Rightarrow> ApiRefuse n w) = ApiForwardBody \<longleftrightarrow> v = Allow \<and> y = ApiForwardBody"
  by (cases v; simp)+

lemma check_fields_Allow:
  "may_write scope \<Longrightarrow> check_fields fs vars scope lk = Allow \<longleftrightarrow>
   (\<forall>f \<in> set fs. \<exists>n input. arg_of f ''input'' = Some (VarArg n) \<and> variable vars n = Some input
      \<and> is_object input \<and> mutation_allowed (field_name f) input scope lk)"
  by (induction fs) (auto simp: check_mutation_Allow split: option.split arg_value.split)

lemma check_graphql_Allow: "check_graphql xs vars scope lk = Allow \<longleftrightarrow> (\<forall>x \<in> set xs. operation_allowed vars scope lk x)"
proof (induction xs)
  case (Cons x xs)
  then show ?case
    by (cases "op_type x") (auto simp: operation_allowed_def check_fields_Allow)
qed simp

lemma parse_written:
  assumes "list_all definition_ok ds" "spelled (document_lexemes ds) q"
  shows "parse_graphql q = Inr ops \<longleftrightarrow> length q \<le> MAX_GRAPHQL_CHARS \<and> ops = document_means ds"
  using tokenize_spelled [OF assms(2)] read_document_written [OF assms(1)] by (auto simp: parse_graphql_def)

lemma request_read:
  assumes "written_request one"
  shows "request_allowed scope lk one \<longleftrightarrow> (\<exists>q ops. field_of one ''query'' = Some (JStr q) \<and> parse_graphql q = Inr ops
    \<and> (\<forall>x \<in> set ops. operation_allowed (field_of one ''variables'') scope lk x))"
proof
  assume "request_allowed scope lk one"
  then show "\<exists>q ops. field_of one ''query'' = Some (JStr q) \<and> parse_graphql q = Inr ops
    \<and> (\<forall>x \<in> set ops. operation_allowed (field_of one ''variables'') scope lk x)"
    unfolding request_allowed_def by (metis parse_written)
next
  assume "\<exists>q ops. field_of one ''query'' = Some (JStr q) \<and> parse_graphql q = Inr ops
    \<and> (\<forall>x \<in> set ops. operation_allowed (field_of one ''variables'') scope lk x)"
  then obtain q ops where q: "field_of one ''query'' = Some (JStr q)" "parse_graphql q = Inr ops"
      "\<forall>x \<in> set ops. operation_allowed (field_of one ''variables'') scope lk x" by blast
  moreover obtain ds where "list_all definition_ok ds" "spelled (document_lexemes ds) q"
    using assms q(1) by (auto simp: written_request_def)
  ultimately show "request_allowed scope lk one" unfolding request_allowed_def by (metis parse_written)
qed

lemma check_requests_forward:
  "\<forall>one \<in> set vs. written_request one \<Longrightarrow>
   check_requests vs scope lk = ApiForwardBody \<longleftrightarrow> (\<forall>one \<in> set vs. request_allowed scope lk one)"
  by (induction vs) (auto simp: request_read check_graphql_Allow split: option.split json.split sum.split)

lemma three_guards:
  "(if p then Refuse x else if q then Allow else if s then (if t then Allow else Refuse y) else Refuse x) = Allow
   \<longleftrightarrow> \<not> p \<and> (q \<or> s \<and> t)"
  by simp

lemma check_rest_Allow: "check_rest_write meth path body scope lk = Allow \<longleftrightarrow> rest_allowed meth path body scope lk"
proof (cases "may_write scope \<and> (\<exists>repo rest. repos_path path = Some (repo, rest) \<and> scope_repo scope = Some (lower repo))")
  case False
  then show ?thesis
    by (auto simp: check_rest_write_def rest_allowed_def split: option.split)
next
  case True
  then obtain repo rest where r: "may_write scope" "repos_path path = Some (repo, rest)" "scope_repo scope = Some (lower repo)"
    by blast
  let ?parts = "split_on (CHR ''/'') (strip_slashes rest)"
  have spec: "rest_allowed meth path body scope lk \<longleftrightarrow> rest_target_allowed meth ?parts body scope lk"
    by (simp add: rest_allowed_def r)
  note code = check_rest_write_def [of meth path body scope lk, simplified r Let_def]
  consider "?parts = []" | a where "?parts = [a]" | a n where "?parts = [a, n]" | a n w where "?parts = [a, n, w]"
    | a n w v us where "?parts = a # n # w # v # us"
    by (metis list.exhaust)
  then show ?thesis
  proof cases
    case (2 a)
    then show ?thesis unfolding spec code by (simp add: r rest_target_allowed_def) blast
  next
    case (3 a n)
    then show ?thesis unfolding spec code by (simp add: r rest_target_allowed_def) blast
  next
    case (4 a n w)
    let ?asks = "a = ''pulls'' \<and> w = ''requested_reviewers'' \<or> a = ''issues'' \<and> (w = ''labels'' \<or> w = ''assignees'')"
    have "rest_target_allowed meth [a, n, w] body scope lk \<longleftrightarrow> meth = ''POST'' \<and> all_digits n
        \<and> ((a = ''issues'' \<or> a = ''pulls'') \<and> w = ''comments'' \<or> ?asks \<and> own_pull (pull_of lk (number_of n)) scope)"
    proof
      assume "rest_target_allowed meth [a, n, w] body scope lk"
      then show "meth = ''POST'' \<and> all_digits n
          \<and> ((a = ''issues'' \<or> a = ''pulls'') \<and> w = ''comments'' \<or> ?asks \<and> own_pull (pull_of lk (number_of n)) scope)"
        unfolding rest_target_allowed_def by (elim disjE exE conjE; simp)
    next
      assume h: "meth = ''POST'' \<and> all_digits n
          \<and> ((a = ''issues'' \<or> a = ''pulls'') \<and> w = ''comments'' \<or> ?asks \<and> own_pull (pull_of lk (number_of n)) scope)"
      then show "rest_target_allowed meth [a, n, w] body scope lk"
        unfolding rest_target_allowed_def by (intro disjI2 exI [of _ n]) (elim conjE disjE; simp)
    qed
    then show ?thesis unfolding spec code by (simp add: r 4) (cases "meth = ''POST''"; cases "all_digits n"; simp)
  qed (unfold spec code, simp_all add: r rest_target_allowed_def)
qed

section \<open>Properties\<close>

text \<open>C38: What the sandbox may do on GitHub is exactly what the rules promise, on both of the API's
  forms: a request that is not a read is forwarded with the owner's token if and only if it is one of the
  allowed REST writes, or a GraphQL request of at most 65536 characters every operation of which is a query, or a mutation, in
  a workspace, with no fragment at its top, whose fields are all among the seven allowed ones, each given its input as a
  variable and each about the workspace's own repository, branch or pull request. The operations of a GraphQL request are
  those of the document its text spells by the grammar, not those the reader makes of it; every query of the request is
  supposed to be such a document, in which a comment ends at a line feed. One ended by a carriage return
  alone is outside, and there a write that is not allowed is forwarded (\<open>comment_return_unseen\<close>).\<close>

theorem api_forwards_iff:
  assumes "\<And>v. body = ApiBody v \<Longrightarrow> meth = ''POST'' \<Longrightarrow> strip_slashes path = ''/graphql'' \<Longrightarrow>
    \<forall>one \<in> set (requests_of v). written_request one"
  shows "handle_api meth path body scope lk = ApiForwardBody \<longleftrightarrow>
    meth \<noteq> ''GET'' \<and> meth \<noteq> ''HEAD'' \<and> (\<exists>v. body = ApiBody v
      \<and> (if meth = ''POST'' \<and> strip_slashes path = ''/graphql''
         then \<forall>one \<in> set (requests_of v). request_allowed scope lk one
         else rest_allowed meth path v scope lk))"
proof (cases body)
  case (ApiBody v)
  then show ?thesis using check_requests_forward [OF assms [OF ApiBody]] by (simp add: handle_api_def check_rest_Allow)
qed (simp_all add: handle_api_def)

definition sample_lookups :: lookups where
  "sample_lookups = \<lparr>pull_of = (\<lambda>_. None), repo_node_id = Some ''R1'', node_of = (\<lambda>_. None)\<rparr>"

definition query_document :: "written_definition list" where
  "query_document = [WShorthand [WField None ''viewer'' None [] (Some [WField None ''login'' None [] None])]]"

lemma query_spelled: "list_all definition_ok query_document" "spelled (document_lexemes query_document) (spell (document_lexemes query_document))"
proof -
  show "spelled (document_lexemes query_document) (spell (document_lexemes query_document))"
    by (rule spell_spelled)
      (simp_all add: query_document_def document_lexemes_def selections_lexemes_def directives_lexemes_def alias_lexemes_def
        gap_before_def char_classes punctuators_def)
qed (simp add: query_document_def)

text \<open>The sample document merges, so a batch with it is refused; alone, the query before it is forwarded.\<close>

theorem api_forwards_iff_witness:
  "\<exists>text. field_of text ''query'' = Some (JStr (spell (document_lexemes query_document)))
     \<and> handle_api ''POST'' ''/graphql'' (ApiBody (JArr [text])) sample_scope sample_lookups = ApiForwardBody
     \<and> handle_api ''POST'' ''/graphql'' (ApiBody (JArr [text, JObj [(''query'', JStr sample_spelling)]])) sample_scope sample_lookups
         \<noteq> ApiForwardBody
     \<and> handle_api ''POST'' ''/repos/me/app/pulls'' (ApiBody (JObj [(''head'', JStr ''topic'')])) sample_scope sample_lookups = ApiForwardBody"
proof (intro exI conjI)
  let ?query = "spell (document_lexemes query_document)"
  let ?one = "JObj [(''query'', JStr ?query)]" and ?two = "JObj [(''query'', JStr sample_spelling)]"
  show "field_of ?one ''query'' = Some (JStr ?query)" by simp
  have w: "written_request ?one" "written_request ?two" using query_spelled sample_spelled by (auto simp: written_request_def)
  have "parse_graphql ?query = Inr (document_means query_document)"
    using parse_written [OF query_spelled]
    by (simp add: query_document_def document_lexemes_def selections_lexemes_def directives_lexemes_def alias_lexemes_def
        gap_before_def MAX_GRAPHQL_CHARS_def)
  then have one: "request_allowed sample_scope sample_lookups ?one"
    unfolding request_read [OF w(1)] by (simp add: operation_allowed_def query_document_def document_means_def operation_means_def)
  have "parse_graphql sample_spelling = Inr (document_means sample_document)"
    using parse_written [OF sample_spelled(1,2)] sample_spelled(3) by simp
  then have two: "\<not> request_allowed sample_scope sample_lookups ?two"
    unfolding request_read [OF w(2)]
    by (simp add: operation_allowed_def sample_document_def document_means_def operation_means_def args_mean_def map_filter_def
        arg_of_def)
  have path: "strip_slashes ''/graphql'' = ''/graphql''" by (simp add: strip_slashes_def)
  show "handle_api ''POST'' ''/graphql'' (ApiBody (JArr [?one])) sample_scope sample_lookups = ApiForwardBody"
    using w(1) one path by (subst api_forwards_iff) (auto simp: requests_of_def)
  show "handle_api ''POST'' ''/graphql'' (ApiBody (JArr [?one, ?two])) sample_scope sample_lookups \<noteq> ApiForwardBody"
    using w two path by (subst api_forwards_iff) (auto simp: requests_of_def)
  have "rest_allowed ''POST'' ''/repos/me/app/pulls'' (JObj [(''head'', JStr ''topic'')]) sample_scope sample_lookups"
    by (simp add: rest_allowed_def rest_target_allowed_def may_write_def some_text_def sample_scope_def repos_path_def strip_slashes_def
      head_matches_def lower_def lower_char_def is_upper_def in_range_def)
  moreover have "strip_slashes ''/repos/me/app/pulls'' \<noteq> ''/graphql''" by (simp add: strip_slashes_def)
  ultimately show "handle_api ''POST'' ''/repos/me/app/pulls'' (ApiBody (JObj [(''head'', JStr ''topic'')])) sample_scope sample_lookups = ApiForwardBody"
    by (subst api_forwards_iff) auto
qed

text \<open>A push goes through only for the conversation's owner and only to its own branch: when the proxy
  forwards one, the request named a path, the credential's owner owns the conversation, its workspace
  is a GitHub repository, the push is to that repository, and every command in what was read moves the
  workspace's branch and does not delete it.\<close>

theorem proxy_push_owned:
  assumes "proxy q who loaded token lk = ToGit (GitPush head)"
  shows "\<exists>i repo branch r. who = Some i \<and> loaded = Some (for_owner i, GithubWorkspace repo branch)
    \<and> is_origin_form (req_target q) \<and> repo_of_path (req_path q) = Some (lower repo)
    \<and> (if encoding (req_git q) = Some ''gzip'' then read_gzip_push_head (gz_raw (req_git q)) (gz_chunks (req_git q))
       else read_push_head [] (chunks (req_git q))) = Inr (head, r)
    \<and> (\<forall>u \<in> set (ref_updates r). ref_name u = units_of (''refs/heads/'' @ branch) \<and> \<not> zero_sha (new_sha u))"
proof -
  obtain c where c: "is_origin_form (req_target q)" "caller_for who loaded token = Some c"
      "handle_git (req_method q) (req_path q) (req_service q) (req_git q) (caller_scope c) = GitPush head"
    using assms by (auto simp: proxy_def split: if_splits option.splits)
  obtain i repo branch where i: "who = Some i" "loaded = Some (for_owner i, GithubWorkspace repo branch)"
      "caller_scope c = \<lparr>scope_repo = Some (lower repo), scope_branch = Some branch\<rparr>"
    using c(2) by (auto simp: caller_for_def split: option.splits workspace_of.splits if_splits prod.splits)
  obtain to where k: "classify_git_request (req_method q) (req_path q) (req_service q) = ReceivePack to"
    using c(3) by (auto simp: handle_git_def split: git_request.splits verdict.splits if_splits)
  then have path: "repo_of_path (req_path q) = Some to"
    by (auto simp: classify_git_request_def Let_def split: if_splits option.splits)
  obtain r where r: "(if encoding (req_git q) = Some ''gzip'' then read_gzip_push_head (gz_raw (req_git q)) (gz_chunks (req_git q))
       else read_push_head [] (chunks (req_git q))) = Inr (head, r)" "check_push (ref_updates r) (caller_scope c) to = Allow"
    using c(3) k by (auto simp: handle_git_def split: if_splits sum.splits verdict.splits)
  have "to = lower repo" "\<forall>u \<in> set (ref_updates r). ref_name u = branch_ref (caller_scope c) \<and> \<not> zero_sha (new_sha u)"
    using r(2) by (auto simp: check_push_def check_updates_Allow i(3) split: if_splits)
  then show ?thesis
    using i c(1) path r(1) by (intro exI [of _ i] exI [of _ repo] exI [of _ branch] exI [of _ r]) (simp add: branch_ref_def)
qed

definition sample_request :: proxy_request where
  "sample_request =
     \<lparr>on_api = False, req_method = ''POST'', req_target = ''/Me/App.git/git-receive-pack'', req_path = ''/Me/App.git/git-receive-pack'',
      req_service = None, req_git = \<lparr>encoding = None, chunks = [push_wire [] sample_command []], gz_raw = [], gz_chunks = None\<rparr>,
      req_api = NotJson\<rparr>"

definition sample_identity :: egress_identity where
  "sample_identity = \<lparr>for_conversation = ''c'', for_owner = ''u''\<rparr>"

theorem proxy_push_owned_witness:
  "\<exists>head. proxy sample_request (Some sample_identity) (Some (''u'', GithubWorkspace ''Me/App'' ''topic'')) None (\<lambda>_. sample_lookups)
      = ToGit (GitPush head)
    \<and> repo_of_path (req_path sample_request) = Some (lower ''Me/App'')"
proof -
  let ?r = "\<lparr>ref_updates = [update_of sample_command], capabilities = read_caps [], pack_end = length (push_wire [] sample_command [])\<rparr>"
  let ?scope = "\<lparr>scope_repo = Some (lower ''Me/App''), scope_branch = Some ''topic''\<rparr>"
  have "parse_receive_pack (push_wire [] sample_command []) = Commands ?r"
    using parse_push_wire [OF sample_valid sample_small, of "[]"] by simp
  then have read: "read_push_head [] [push_wire [] sample_command []] = Inr (push_wire [] sample_command [], ?r)" by simp
  have kind: "classify_git_request ''POST'' ''/Me/App.git/git-receive-pack'' None = ReceivePack (lower ''Me/App'')" by code_simp
  have "check_push [update_of sample_command] ?scope (lower ''Me/App'') = Allow"
    using sample_text by (simp add: check_push_def may_write_def some_text_def lower_def update_of_def sample_command_def branch_ref_def zero_sha_def list_all_iff)
  then have "proxy sample_request (Some sample_identity) (Some (''u'', GithubWorkspace ''Me/App'' ''topic'')) None (\<lambda>_. sample_lookups)
      = ToGit (GitPush (push_wire [] sample_command []))"
    using read kind
    by (simp add: proxy_def sample_request_def sample_identity_def is_origin_form_def starts_with_def caller_for_def handle_git_def del: read_push_head.simps)
  from this proxy_push_owned [OF this] show ?thesis by (intro exI conjI) auto
qed

definition HIDING :: js_string where "HIDING = ''#'' @ [CR]"

lemma hiding_tokens: "NL \<notin> set hidden \<Longrightarrow> tokenize (HIDING @ hidden) = Inr []"
  using tokenize_comment [of "CR # hidden"] by (simp add: HIDING_def del: tokenize.simps(2))

text \<open>A comment can hide a mutation. The reader ends a comment at a line feed only, and GraphQL's
  grammar also at a carriage return: whatever follows one in a comment is not looked at, so the
  document seems to have no operation and is forwarded with the token, in any workspace or none.\<close>

theorem comment_return_unseen:
  assumes "NL \<notin> set hidden" "length hidden \<le> 60000"
  shows "handle_api ''POST'' ''/graphql'' (ApiBody (JObj [(''query'', JStr (HIDING @ hidden))])) scope lk = ApiForwardBody"
proof -
  have "read_document [] = Inr []" by code_simp
  moreover have "length (HIDING @ hidden) \<le> MAX_GRAPHQL_CHARS" using assms(2) by (simp add: HIDING_def MAX_GRAPHQL_CHARS_def)
  ultimately have "parse_graphql (HIDING @ hidden) = Inr []"
    using hiding_tokens [OF assms(1)] by (simp add: parse_graphql_def)
  then show ?thesis
    by (simp add: handle_api_def strip_slashes_def requests_of_def)
qed

theorem comment_return_unseen_witness:
  "handle_api ''POST'' ''/graphql''
     (ApiBody (JObj [(''query'', JStr (HIDING @ ''mutation M($i:In!){mergePullRequest(input:$i){clientMutationId}}''))]))
     \<lparr>scope_repo = None, scope_branch = None\<rparr> sample_lookups = ApiForwardBody"
  by (rule comment_return_unseen) simp_all

end
