(* ===== verification/AddressGuard.thy ===== *)
theory AddressGuard
  imports Todos
begin

unbundle bit_operations_syntax

text \<open>
  Which addresses a model-chosen URL may reach (\<open>agent/address-guard.ts\<close>). A byte is a number
  below 256; an arrow the code writes is \<open>->\<close> here. Node's \<open>isIP\<close>, the resolver and \<open>URL\<close> are not modelled: \<open>is_ip\<close>, the records and
  the host are arguments. \<open>Number\<close> is modelled on the texts a resolver gives (decimal digits) and on
  blank text; anything else is not a number.
\<close>

section \<open>Reading an address\<close>

definition decimal :: "js_string \<Rightarrow> nat" where
  "decimal s = foldl (\<lambda>a c. a * 10 + (of_char c - 48)) 0 s"

definition js_number :: "js_string \<Rightarrow> nat option" where
  "js_number s = (if trim s = [] then Some 0 else if list_all is_digit (trim s) then Some (decimal (trim s)) else None)"

definition is_hex_char :: "char \<Rightarrow> bool" where
  "is_hex_char c \<longleftrightarrow> is_digit c \<or> in_range 97 102 c \<or> in_range 65 70 c"

definition hex_char_value :: "char \<Rightarrow> nat" where
  "hex_char_value c = (if is_digit c then of_char c - 48 else if is_lower c then of_char c - 87 else of_char c - 55)"

text \<open>\<open>Number.parseInt(h, 16)\<close> of a text without sign or prefix.\<close>

definition parse_int16 :: "js_string \<Rightarrow> nat option" where
  "parse_int16 h =
     (let ds = takeWhile is_hex_char (trim_left h) in
      if ds = [] then None else Some (foldl (\<lambda>a c. a * 16 + hex_char_value c) 0 ds))"

text \<open>\<open>s.split("::")\<close>\<close>

function split_colons :: "js_string \<Rightarrow> js_string list" where
  "split_colons s =
     (case s of
        [] \<Rightarrow> [[]]
      | c # s' \<Rightarrow>
          if starts_with s ''::'' then [] # split_colons (drop 2 s)
          else (case split_colons s' of [] \<Rightarrow> [[c]] | w # ws \<Rightarrow> (c # w) # ws))"
  by pat_completeness auto
termination by (relation "measure length") auto

declare split_colons.simps [simp del]

definition hex_words :: "js_string \<Rightarrow> nat option list" where
  "hex_words part = (if part = [] then [] else map parse_int16 (split_on (CHR '':'') part))"

text \<open>\<open>/:(\d+\.\d+\.\d+\.\d+)$/\<close>: what stands before the last colon, and the four numbers after it.\<close>

definition dotted_tail :: "js_string \<Rightarrow> (js_string \<times> js_string list) option" where
  "dotted_tail ip =
     (let tail = rev (takeWhile (\<lambda>c. c \<noteq> CHR '':'') (rev ip));
          parts = split_on (CHR ''.'') tail in
      if CHR '':'' \<in> set ip \<and> length parts = 4 \<and> list_all (\<lambda>p. p \<noteq> [] \<and> list_all is_digit p) parts
      then Some (take (length ip - length tail - 1) ip, parts) else None)"

definition strip_brackets :: "js_string \<Rightarrow> js_string" where
  "strip_brackets s = (if starts_with s ''['' \<and> ends_with s '']'' then butlast (tl s) else s)"

definition ipv6_bytes :: "(js_string \<Rightarrow> bool) \<Rightarrow> js_string \<Rightarrow> nat list option" where
  "ipv6_bytes is_ip raw =
     (let ip = takeWhile (\<lambda>c. c \<noteq> CHR ''%'') (strip_brackets (trim raw)) in
      if \<not> is_ip ip then None
      else (let dotted = dotted_tail ip;
                tail = (case dotted of None \<Rightarrow> [] | Some (_, ps) \<Rightarrow> map decimal ps);
                halves = split_colons (case dotted of None \<Rightarrow> ip | Some (p, _) \<Rightarrow> p @ '':0:0'') in
        if 2 < length halves then None
        else (let front = hex_words (hd halves);
                  rest = (if length halves = 2 then hex_words (halves ! 1) else []);
                  gap = (if length halves = 2 then 8 - int (length front) - int (length rest) else 0) in
          if gap < 0 then None
          else (let words = front @ replicate (nat gap) (Some 0) @ rest in
            if length words \<noteq> 8 \<or> list_ex (\<lambda>w. case w of None \<Rightarrow> True | Some n \<Rightarrow> 0xFFFF < n) words then None
            else (let bytes = concat (map (\<lambda>w. [the w div 256, the w mod 256]) words) in
              Some (if length tail = 4 then take 12 bytes @ tail else bytes))))))"

section \<open>The guard\<close>

definition blocked_v4 :: "nat \<Rightarrow> nat \<Rightarrow> bool" where
  "blocked_v4 a b \<longleftrightarrow>
     a = 0 \<or> a = 10 \<or> a = 127
     \<or> a = 169 \<and> b = 254
     \<or> a = 172 \<and> 16 \<le> b \<and> b \<le> 31
     \<or> a = 192 \<and> b = 168
     \<or> a = 192 \<and> b = 0
     \<or> a = 100 \<and> 64 \<le> b \<and> b \<le> 127
     \<or> a = 198 \<and> (b = 18 \<or> b = 19)
     \<or> 224 \<le> a"

definition blocked_v4_text :: "js_string \<Rightarrow> bool" where
  "blocked_v4_text ip =
     (case map js_number (split_on (CHR ''.'') ip) of
        [Some a, Some b, Some c, Some d] \<Rightarrow> blocked_v4 a b
      | _ \<Rightarrow> True)"

definition word_at :: "nat list \<Rightarrow> nat \<Rightarrow> nat" where
  "word_at bytes i = push_bit 8 (bytes ! (i * 2)) OR bytes ! (i * 2 + 1)"

definition embedded_v4 :: "nat list \<Rightarrow> nat \<Rightarrow> js_string" where
  "embedded_v4 bytes i = join ''.'' (map digits (take 4 (drop i bytes)))"

definition zero_prefix :: "nat list \<Rightarrow> nat \<Rightarrow> bool" where
  "zero_prefix bytes n \<longleftrightarrow> list_all (\<lambda>b. b = 0) (take n bytes)"

definition blocked_v6 :: "nat list \<Rightarrow> bool" where
  "blocked_v6 bytes =
     (let word = word_at bytes;
          mapped = zero_prefix bytes 10 \<and> word 5 = 0xFFFF;
          translated = zero_prefix bytes 8 \<and> word 4 = 0xFFFF \<and> word 5 = 0 in
      if translated then True
      else if mapped then blocked_v4_text (embedded_v4 bytes 12)
      else if zero_prefix bytes 12 then blocked_v4_text (embedded_v4 bytes 12)
      else if word 0 = 0x64 \<and> word 1 = 0xFF9B then
        (if word 2 \<noteq> 0 then True else blocked_v4_text (embedded_v4 bytes 12))
      else if word 0 = 0x2002 then blocked_v4_text (embedded_v4 bytes 2)
      else if word 0 = 0x2001 \<and> word 1 = 0 then True
      else if word 0 = 0x2001 \<and> word 1 = 0xDB8 then True
      else if word 0 AND 0xFFF0 = 0x3FF0 then True
      else if word 0 = 0x2001 \<and> word 1 = 2 \<and> word 2 = 0 then True
      else if word 0 = 0x5F00 then True
      else if word 0 = 0x100 \<and> word 1 = 0 \<and> word 2 = 0 \<and> word 3 = 0 then True
      else if bytes ! 0 AND 0xFE = 0xFC then True
      else if bytes ! 0 = 0xFE \<and> bytes ! 1 AND 0xC0 = 0x80 then True
      else if bytes ! 0 = 0xFE \<and> bytes ! 1 AND 0xC0 = 0xC0 then True
      else if bytes ! 0 = 0xFF then True
      else False)"

definition is_blocked_address :: "(js_string \<Rightarrow> bool) \<Rightarrow> js_string \<Rightarrow> nat \<Rightarrow> bool" where
  "is_blocked_address is_ip ip family =
     (if family = 4 then blocked_v4_text ip
      else (case ipv6_bytes is_ip ip of None \<Rightarrow> True | Some bytes \<Rightarrow> blocked_v6 bytes))"

text \<open>What the resolver answered: the error, or the records of a name.\<close>

type_synonym dns_record = "js_string \<times> nat"

definition guarded_lookup ::
    "(js_string \<Rightarrow> bool) \<Rightarrow> js_string \<Rightarrow> bool \<Rightarrow> (js_string + dns_record list) \<Rightarrow> js_string + dns_record list" where
  "guarded_lookup is_ip host wants_all answer =
     (case answer of
        Inl e \<Rightarrow> Inl e
      | Inr [] \<Rightarrow> Inl (''could not resolve host: '' @ host)
      | Inr (r # rs) \<Rightarrow>
          (case find (\<lambda>(a, f). is_blocked_address is_ip a f) (r # rs) of
             Some (a, _) \<Rightarrow> Inl (''refusing to fetch a private or loopback address ('' @ host @ '' -> '' @ a @ '')'')
           | None \<Rightarrow> Inr (if wants_all then r # rs else [r])))"

definition assert_public_url :: "(js_string \<Rightarrow> bool) \<Rightarrow> js_string \<Rightarrow> js_string \<Rightarrow> dns_record list option \<Rightarrow> js_string option" where
  "assert_public_url is_ip protocol host answer =
     (if protocol \<noteq> ''http:'' \<and> protocol \<noteq> ''https:'' then
        Some (''only http and https URLs are allowed (got '' @ protocol @ '')'')
      else case answer of
        None \<Rightarrow> Some (''could not resolve host: '' @ host)
      | Some rs \<Rightarrow>
          if rs = [] then Some (''could not resolve host: '' @ host)
          else (case find (\<lambda>(a, f). is_blocked_address is_ip a f) rs of
              Some (a, _) \<Rightarrow> Some (''refusing to fetch a private or loopback address ('' @ host @ '' -> '' @ a @ '')'')
            | None \<Rightarrow> None))"

text \<open>The end-to-end tests' exception, and what \<open>guardedFetch\<close> does with a URL: refuse it, fetch it
  without the guarded resolver, or fetch it through it.\<close>

definition test_allowed :: "js_string option \<Rightarrow> js_string option \<Rightarrow> js_string \<Rightarrow> js_string \<Rightarrow> bool" where
  "test_allowed mock allow_list host port \<longleftrightarrow>
     mock = Some ''true''
     \<and> host @ '':'' @ port \<in> set (filter (\<lambda>s. s \<noteq> []) (map trim (split_on (CHR '','') (case allow_list of Some l \<Rightarrow> l | None \<Rightarrow> []))))"

datatype fetch_way = RefuseFetch js_string | PlainFetch | GuardedFetch

definition guarded_fetch ::
    "(js_string \<Rightarrow> nat) \<Rightarrow> js_string option \<Rightarrow> js_string option \<Rightarrow> js_string \<Rightarrow> js_string \<Rightarrow> js_string \<Rightarrow> fetch_way" where
  "guarded_fetch is_ip mock allow_list protocol host url_port =
     (if protocol \<noteq> ''http:'' \<and> protocol \<noteq> ''https:'' then
        RefuseFetch (''only http and https URLs are allowed (got '' @ protocol @ '')'')
      else
      (let family = is_ip host;
           port = (if url_port \<noteq> [] then url_port else if protocol = ''https:'' then ''443'' else ''80'') in
       if host = ''localhost'' \<and> test_allowed mock allow_list host port then PlainFetch
       else if family \<noteq> 0 \<and> is_blocked_address (\<lambda>s. is_ip s \<noteq> 0) host family \<and> \<not> test_allowed mock allow_list host port then
         RefuseFetch (''refusing to fetch a private or loopback address ('' @ host @ '')'')
       else GuardedFetch))"

section \<open>Bits and numbers\<close>

lemma bit_bound: "x < 2 ^ m \<Longrightarrow> bit (x :: nat) n \<Longrightarrow> n < m"
  using bit_take_bit_iff [of m x n] by (simp add: take_bit_eq_mod)

lemma word_or: "(b::nat) < 256 \<Longrightarrow> push_bit 8 a OR b = a * 256 + b"
proof -
  assume b: "b < 256"
  have "push_bit 8 a AND b = 0"
    using bit_bound [of b 8] b by (intro bit_eqI) (fastforce simp: bit_simps)
  then show ?thesis by (simp add: disjunctive_add_eq_or [symmetric] push_bit_eq_mult)
qed

lemma and_high:
  assumes "(x::nat) < 2 ^ (n + m)"
  shows "x AND push_bit n (mask m) = x div 2 ^ n * 2 ^ n"
proof -
  have "x AND push_bit n (mask m) = push_bit n (drop_bit n x)"
    using bit_bound [OF assms] by (intro bit_eqI) (fastforce simp: bit_simps)
  then show ?thesis by (simp add: push_bit_eq_mult drop_bit_eq_div)
qed

lemma masks:
  "(x::nat) < 256 \<Longrightarrow> x AND 0xFE = 0xFC \<longleftrightarrow> x div 2 = 126"
  "x < 256 \<Longrightarrow> x AND 0xC0 = 0x80 \<longleftrightarrow> x div 64 = 2"
  "x < 256 \<Longrightarrow> x AND 0xC0 = 0xC0 \<longleftrightarrow> x div 64 = 3"
  "x < 65536 \<Longrightarrow> x AND 0xFFF0 = 0x3FF0 \<longleftrightarrow> x div 16 = 0x3FF"
  using and_high [of x 1 7] and_high [of x 6 2] and_high [of x 4 12]
  by (simp_all add: mask_eq_exp_minus_1 push_bit_eq_mult)

lemma digits_digit: "list_all is_digit (digits n) \<and> digits n \<noteq> [] \<and> decimal (digits n) = n"
proof (induction n rule: digits.induct)
  case (1 n)
  have d: "is_digit (char_of (48 + k)) \<and> of_char (char_of (48 + k) :: char) = 48 + k" if "k < 10" for k :: nat
    using that by (simp add: is_digit_def in_range_def)
  show ?case
  proof (cases "n < 10")
    case True
    then show ?thesis using d [of n] by (subst (1 2 3) digits.simps) (simp add: decimal_def)
  next
    case False
    have s: "decimal (x @ [c]) = decimal x * 10 + (of_char c - 48)" for x c by (simp add: decimal_def)
    have u: "digits n = digits (n div 10) @ [char_of (48 + n mod 10)]" using False by (subst digits.simps) simp
    show ?thesis unfolding u s using 1 [OF False] d [of "n mod 10"] by simp
  qed
qed

lemma digit_not_space: "is_digit c \<Longrightarrow> \<not> is_space c \<and> c \<noteq> CHR ''.''"
  by (auto simp: is_digit_def in_range_def is_space_def)

lemma js_number_digits: "js_number (digits n) = Some n"
proof -
  have a: "list_all is_digit (digits n)" "digits n \<noteq> []" "decimal (digits n) = n" using digits_digit by auto
  then have "\<not> is_space (hd (digits n))" "\<not> is_space (last (digits n))"
    by (auto simp: list_all_iff digit_not_space)
  then have "trim (digits n) = digits n" using a(2) by (simp add: trim_def trim_left_id trim_right_id)
  then show ?thesis using a by (simp add: js_number_def)
qed

lemma embedded_verdict:
  assumes "i + 4 \<le> length bytes"
  shows "blocked_v4_text (embedded_v4 bytes i) = blocked_v4 (bytes ! i) (bytes ! (i + 1))"
proof -
  have t: "take 4 (drop i bytes) = [bytes ! i, bytes ! (i + 1), bytes ! (i + 2), bytes ! (i + 3)]"
    using assms by (intro nth_equalityI) (auto simp: less_Suc_eq numeral_eq_Suc)
  have "CHR ''.'' \<notin> set (digits n)" for n
    using digits_digit [of n] digit_not_space by (auto simp: list_all_iff)
  then have "split_on (CHR ''.'') (embedded_v4 bytes i) = map digits (take 4 (drop i bytes))"
    unfolding embedded_v4_def t by (intro split_on_join) auto
  then show ?thesis by (simp add: blocked_v4_text_def t js_number_digits)
qed

section \<open>The ranges the guard stands for\<close>

text \<open>An address as one number, most significant word first, and a range as its first address and the length of
  its prefix.\<close>

definition words_number :: "nat list \<Rightarrow> nat" where
  "words_number ws = foldl (\<lambda>a w. a * 65536 + w) 0 ws"

definition in_cidr :: "nat \<Rightarrow> nat \<Rightarrow> nat list \<times> nat \<Rightarrow> bool" where
  "in_cidr bits n r = (case r of (ws, l) \<Rightarrow> n div 2 ^ (bits - l) = words_number ws div 2 ^ (bits - l))"

definition V4_RANGES :: "(nat list \<times> nat) list" where
  "V4_RANGES =
     [([0 * 256 + 0, 0], 8), ([10 * 256 + 0, 0], 8), ([127 * 256 + 0, 0], 8), ([169 * 256 + 254, 0], 16),
      ([172 * 256 + 16, 0], 12), ([192 * 256 + 168, 0], 16), ([192 * 256 + 0, 0], 16), ([100 * 256 + 64, 0], 10),
      ([198 * 256 + 18, 0], 15), ([224 * 256 + 0, 0], 3)]"

definition v4_private :: "nat \<Rightarrow> bool" where
  "v4_private n \<longleftrightarrow> (\<exists>r \<in> set V4_RANGES. in_cidr 32 n r)"

definition V6_RANGES :: "(nat list \<times> nat) list" where
  "V6_RANGES =
     [([0, 0, 0, 0, 0xFFFF, 0, 0, 0], 96), ([0x2001, 0, 0, 0, 0, 0, 0, 0], 32), ([0x2001, 0xDB8, 0, 0, 0, 0, 0, 0], 32),
      ([0x2001, 2, 0, 0, 0, 0, 0, 0], 48), ([0x100, 0, 0, 0, 0, 0, 0, 0], 64), ([0x5F00, 0, 0, 0, 0, 0, 0, 0], 16),
      ([0x3FF0, 0, 0, 0, 0, 0, 0, 0], 12), ([0xFC00, 0, 0, 0, 0, 0, 0, 0], 7), ([0xFE80, 0, 0, 0, 0, 0, 0, 0], 10),
      ([0xFEC0, 0, 0, 0, 0, 0, 0, 0], 10), ([0xFF00, 0, 0, 0, 0, 0, 0, 0], 8)]"

text \<open>Where an IPv4 address rides inside: mapped, compatible, NAT64, and 6to4.\<close>

definition EMBEDDINGS :: "((nat list \<times> nat) \<times> nat) list" where
  "EMBEDDINGS =
     [(([0, 0, 0, 0, 0, 0xFFFF, 0, 0], 96), 0), (([0, 0, 0, 0, 0, 0, 0, 0], 96), 0),
      (([0x64, 0xFF9B, 0, 0, 0, 0, 0, 0], 48), 0), (([0x2002, 0, 0, 0, 0, 0, 0, 0], 16), 80)]"

definition v6_private :: "nat \<Rightarrow> bool" where
  "v6_private n \<longleftrightarrow>
     (\<exists>r \<in> set V6_RANGES. in_cidr 128 n r)
     \<or> in_cidr 128 n ([0x64, 0xFF9B, 0, 0, 0, 0, 0, 0], 32) \<and> \<not> in_cidr 128 n ([0x64, 0xFF9B, 0, 0, 0, 0, 0, 0], 48)
     \<or> (\<exists>(r, k) \<in> set EMBEDDINGS. in_cidr 128 n r \<and> v4_private (n div 2 ^ k mod 2 ^ 32))"

lemma words_number_append: "words_number (xs @ ys) = words_number xs * 65536 ^ length ys + words_number ys"
proof (induction ys rule: rev_induct)
  case (snoc y ys)
  have "words_number (zs @ [z]) = words_number zs * 65536 + z" for zs z by (simp add: words_number_def)
  from this [of "xs @ ys" y] this [of ys y] snoc show ?case by (simp add: algebra_simps)
qed (simp add: words_number_def)

lemma words_number_less: "list_all (\<lambda>w. w < 65536) ws \<Longrightarrow> words_number ws < 65536 ^ length ws"
proof (induction ws rule: rev_induct)
  case (snoc w ws)
  then have "words_number ws + 1 \<le> 65536 ^ length ws" "w < 65536" by auto
  then have "(words_number ws + 1) * 65536 \<le> 65536 ^ length ws * 65536" by simp
  then show ?case using \<open>w < 65536\<close> by (simp add: words_number_append) (simp add: words_number_def)
qed (simp add: words_number_def)

lemma words_number_div:
  assumes "list_all (\<lambda>w. w < 65536) ys"
  shows "words_number (xs @ ys) div 65536 ^ length ys = words_number xs"
    "words_number (xs @ ys) mod 65536 ^ length ys = words_number ys"
  using words_number_less [OF assms] by (simp_all add: words_number_append)

lemma words_number_inj:
  "length xs = length ys \<Longrightarrow> list_all (\<lambda>w. w < 65536) xs \<Longrightarrow> list_all (\<lambda>w. w < 65536) ys \<Longrightarrow>
   words_number xs = words_number ys \<longleftrightarrow> xs = ys"
proof (induction xs ys rule: rev_induct2)
  case (4 x xs y ys)
  have "words_number (zs @ [z]) = words_number zs * 65536 + z" for zs z by (simp add: words_number_def)
  then have "words_number (xs @ [x]) = words_number (ys @ [y]) \<longleftrightarrow> words_number xs = words_number ys \<and> x = y"
    using 4 by (auto dest: arg_cong [of _ _ "\<lambda>n. n div 65536"] arg_cong [of _ _ "\<lambda>n. n mod 65536"])
  then show ?case using 4 by auto
qed auto

text \<open>A prefix of whole words is read off the words; a shorter one off the first.\<close>

lemma cidr_words:
  assumes "length ws = n" "length ps = n" "k \<le> n" "list_all (\<lambda>w. w < 65536) ws" "list_all (\<lambda>w. w < 65536) ps"
  shows "in_cidr (16 * n) (words_number ws) (ps, 16 * k) \<longleftrightarrow> take k ws = take k ps"
proof -
  have e: "(2::nat) ^ (16 * n - 16 * k) = 65536 ^ (n - k)"
    by (simp add: diff_mult_distrib2 [symmetric] power_mult)
  have d: "words_number us div 65536 ^ (n - k) = words_number (take k us)"
    if "length us = n" "list_all (\<lambda>w. w < 65536) us" for us
    using words_number_div(1) [of "drop k us" "take k us"] that assms(3) by (simp add: list_all_iff in_set_dropD)
  have t: "list_all (\<lambda>w. w < 65536) (take k us)" if "list_all (\<lambda>w. w < 65536) us" for us :: "nat list"
    using that by (auto simp: list_all_iff dest: in_set_takeD)
  show ?thesis
    unfolding in_cidr_def prod.case e using d assms t by (simp add: words_number_inj)
qed

lemma cidr_first:
  assumes "length ws = n" "length ps = n" "0 < n" "l \<le> 16" "list_all (\<lambda>w. w < 65536) ws" "list_all (\<lambda>w. w < 65536) ps"
  shows "in_cidr (16 * n) (words_number ws) (ps, l) \<longleftrightarrow> ws ! 0 div 2 ^ (16 - l) = ps ! 0 div 2 ^ (16 - l)"
proof -
  have e: "(2::nat) ^ (16 * n - l) = 65536 ^ (n - 1) * 2 ^ (16 - l)"
  proof -
    have "16 * n - l = 16 * (n - 1) + (16 - l)" using assms(3,4) by simp
    then show ?thesis by (simp add: power_add power_mult)
  qed
  have d: "words_number us div 2 ^ (16 * n - l) = us ! 0 div 2 ^ (16 - l)"
    if "length us = n" "list_all (\<lambda>w. w < 65536) us" for us
  proof -
    have "us \<noteq> []" using that assms(3) by auto
    then obtain u vs where u: "us = u # vs" by (auto simp: neq_Nil_conv)
    then have "words_number us div 65536 ^ (n - 1) = u"
      using words_number_div(1) [of vs "[u]"] that by (auto simp: words_number_def)
    then show ?thesis unfolding e div_mult2_eq using u by simp
  qed
  show ?thesis unfolding in_cidr_def prod.case using d assms by simp
qed

lemma cidr32:
  assumes "w0 < 65536" "w1 < 65536" "p0 < 65536"
  shows "l \<le> 16 \<Longrightarrow> in_cidr 32 (words_number [w0, w1]) ([p0, 0], l) \<longleftrightarrow> w0 div 2 ^ (16 - l) = p0 div 2 ^ (16 - l)"
  using cidr_first [of "[w0, w1]" 2 "[p0, 0]" l] assms by simp

lemma pair_unique:
  assumes "(b::nat) < m" "v < m"
  shows "a * m + b = u * m + v \<longleftrightarrow> a = u \<and> b = v"
proof
  assume e: "a * m + b = u * m + v"
  have "(a * m + b) div m = a" "(u * m + v) div m = u" using assms by auto
  then show "a = u \<and> b = v" using e by auto
qed simp

lemma byte_pair_div:
  assumes "(b::nat) < 256" "k * m = 256" "v < m"
  shows "(a * 256 + b) div k = u * m + v \<longleftrightarrow> a = u \<and> b div k = v"
proof -
  have k: "0 < k" using assms by (cases k) auto
  have "a * 256 + b = b + k * (a * m)" unfolding assms(2) [symmetric] by (simp only: mult.left_commute add.commute)
  then have "(a * 256 + b) div k = (b + k * (a * m)) div k" by (rule arg_cong)
  also have "\<dots> = a * m + b div k" using k by (simp only: div_mult_self2)
  finally have d: "(a * 256 + b) div k = a * m + b div k" .
  have "b div k < m" using assms(1,2) k by (intro less_mult_imp_div_less) (simp add: mult.commute)
  then show ?thesis unfolding d using assms(3) by (rule pair_unique)
qed

lemma blocked_v4_ranges:
  assumes "a < 256" "b < 256" "w < 65536"
  shows "blocked_v4 a b \<longleftrightarrow> v4_private (words_number [a * 256 + b, w])"
proof -
  have w0: "a * 256 + b < 65536" using assms by simp
  have a8: "(a * 256 + b) div 256 = a" using assms by simp
  have p1: "(a * 256 + b) div 8192 = 7 \<longleftrightarrow> 224 \<le> a"
  proof -
    have "(a * 256 + b) div 8192 = (a * 256 + b) div 256 div 32" by (simp add: div_mult2_eq [symmetric])
    then show ?thesis using a8 assms(1) by auto
  qed
  have p2: "a * 256 + b = 43518 \<longleftrightarrow> a = 169 \<and> b = 254" using pair_unique [OF assms(2), of 254 a 169] by simp
  have p3: "a * 256 + b = 49320 \<longleftrightarrow> a = 192 \<and> b = 168" using pair_unique [OF assms(2), of 168 a 192] by simp
  have p4: "a * 256 + b = 49152 \<longleftrightarrow> a = 192 \<and> b = 0" using pair_unique [OF assms(2), of 0 a 192] by simp
  have "(a * 256 + b) div 16 = 2753 \<longleftrightarrow> a = 172 \<and> b div 16 = 1"
    using byte_pair_div [OF assms(2), of 16 16 1 a 172] by simp
  also have "b div 16 = 1 \<longleftrightarrow> 16 \<le> b \<and> b \<le> 31" by arith
  finally have p5: "(a * 256 + b) div 16 = 2753 \<longleftrightarrow> a = 172 \<and> 16 \<le> b \<and> b \<le> 31" .
  have "(a * 256 + b) div 64 = 401 \<longleftrightarrow> a = 100 \<and> b div 64 = 1"
    using byte_pair_div [OF assms(2), of 64 4 1 a 100] by simp
  also have "b div 64 = 1 \<longleftrightarrow> 64 \<le> b \<and> b \<le> 127" by arith
  finally have p6: "(a * 256 + b) div 64 = 401 \<longleftrightarrow> a = 100 \<and> 64 \<le> b \<and> b \<le> 127" .
  have "(a * 256 + b) div 2 = 25353 \<longleftrightarrow> a = 198 \<and> b div 2 = 9"
    using byte_pair_div [OF assms(2), of 2 128 9 a 198] by simp
  also have "b div 2 = 9 \<longleftrightarrow> b = 18 \<or> b = 19" by arith
  finally have p7: "(a * 256 + b) div 2 = 25353 \<longleftrightarrow> a = 198 \<and> (b = 18 \<or> b = 19)" .
  show ?thesis
    unfolding blocked_v4_def v4_private_def V4_RANGES_def
    using assms(3) w0 by (simp add: cidr32 a8 p1 p2 p3 p4 p5 p6 p7)
qed

definition words_of :: "nat list \<Rightarrow> nat list" where
  "words_of bytes = map (word_at bytes) [0..<8]"

definition bytes16 :: "nat list \<Rightarrow> bool" where
  "bytes16 bytes \<longleftrightarrow> length bytes = 16 \<and> list_all (\<lambda>b. b < 256) bytes"

lemma word_at_value: "bytes16 bytes \<Longrightarrow> i < 8 \<Longrightarrow> word_at bytes i = bytes ! (i * 2) * 256 + bytes ! (i * 2 + 1) \<and> word_at bytes i < 65536"
proof -
  assume b: "bytes16 bytes" "i < 8"
  then have "bytes ! (i * 2) < 256" "bytes ! (i * 2 + 1) < 256" by (auto simp: bytes16_def list_all_length)
  then show ?thesis by (simp add: word_at_def word_or)
qed

lemma zero_prefix_words:
  assumes "bytes16 bytes" "k \<le> 8"
  shows "zero_prefix bytes (2 * k) \<longleftrightarrow> (\<forall>i < k. word_at bytes i = 0)"
proof -
  have "zero_prefix bytes (2 * k) \<longleftrightarrow> (\<forall>j < 2 * k. bytes ! j = 0)"
    using assms by (auto simp: zero_prefix_def bytes16_def list_all_length)
  also have "\<dots> \<longleftrightarrow> (\<forall>i < k. bytes ! (i * 2) = 0 \<and> bytes ! (i * 2 + 1) = 0)"
  proof safe
    fix j assume h: "\<forall>i < k. bytes ! (i * 2) = 0 \<and> bytes ! (i * 2 + 1) = 0" "j < 2 * k"
    then have "j div 2 < k" by simp
    then have "bytes ! (j div 2 * 2) = 0 \<and> bytes ! (j div 2 * 2 + 1) = 0" using h(1) by blast
    then show "bytes ! j = 0" by (cases "even j") (auto simp: mult.commute elim!: evenE oddE)
  qed auto
  also have "\<dots> \<longleftrightarrow> (\<forall>i < k. word_at bytes i = 0)"
    using assms by (auto simp: word_at_value)
  finally show ?thesis .
qed


lemma words_of_list: "words_of bytes = [word_at bytes 0, word_at bytes 1, word_at bytes 2, word_at bytes 3,
    word_at bytes 4, word_at bytes 5, word_at bytes 6, word_at bytes 7]"
  by (simp add: words_of_def upt_rec eval_nat_numeral)

lemma cidr128:
  assumes "list_all (\<lambda>w. w < 65536) [w0, w1, w2, w3, w4, w5, w6, w7]" "list_all (\<lambda>w. w < 65536) [p0, p1, p2, p3, p4, p5, p6, p7]"
  shows "in_cidr 128 (words_number [w0, w1, w2, w3, w4, w5, w6, w7]) ([p0, p1, p2, p3, p4, p5, p6, p7], 96)
      \<longleftrightarrow> w0 = p0 \<and> w1 = p1 \<and> w2 = p2 \<and> w3 = p3 \<and> w4 = p4 \<and> w5 = p5"
    and "in_cidr 128 (words_number [w0, w1, w2, w3, w4, w5, w6, w7]) ([p0, p1, p2, p3, p4, p5, p6, p7], 64)
      \<longleftrightarrow> w0 = p0 \<and> w1 = p1 \<and> w2 = p2 \<and> w3 = p3"
    and "in_cidr 128 (words_number [w0, w1, w2, w3, w4, w5, w6, w7]) ([p0, p1, p2, p3, p4, p5, p6, p7], 48)
      \<longleftrightarrow> w0 = p0 \<and> w1 = p1 \<and> w2 = p2"
    and "in_cidr 128 (words_number [w0, w1, w2, w3, w4, w5, w6, w7]) ([p0, p1, p2, p3, p4, p5, p6, p7], 32)
      \<longleftrightarrow> w0 = p0 \<and> w1 = p1"
    and "l \<le> 16 \<Longrightarrow> in_cidr 128 (words_number [w0, w1, w2, w3, w4, w5, w6, w7]) ([p0, p1, p2, p3, p4, p5, p6, p7], l)
      \<longleftrightarrow> w0 div 2 ^ (16 - l) = p0 div 2 ^ (16 - l)"
  using cidr_words [OF _ _ _ assms, of 8 6] cidr_words [OF _ _ _ assms, of 8 4] cidr_words [OF _ _ _ assms, of 8 3]
    cidr_words [OF _ _ _ assms, of 8 2] cidr_first [OF _ _ _ _ assms, of 8 l]
  by (simp_all add: numeral_eq_Suc)

lemma words_inside:
  assumes "list_all (\<lambda>w. w < 65536) [w0, w1, w2, w3, w4, w5, w6, w7]"
  shows "words_number [w0, w1, w2, w3, w4, w5, w6, w7] mod 2 ^ 32 = words_number [w6, w7]"
    and "words_number [w0, w1, w2, w3, w4, w5, w6, w7] div 2 ^ 80 mod 2 ^ 32 = words_number [w1, w2]"
  using words_number_div(2) [of "[w6, w7]" "[w0, w1, w2, w3, w4, w5]"] words_number_div(1) [of "[w3, w4, w5, w6, w7]" "[w0, w1, w2]"]
    words_number_div(2) [of "[w1, w2]" "[w0]"] assms
  by simp_all


lemma all_below:
  "(\<forall>i < 4. P i) \<longleftrightarrow> P 0 \<and> P 1 \<and> P 2 \<and> P (3 :: nat)"
  "(\<forall>i < 5. P i) \<longleftrightarrow> P 0 \<and> P 1 \<and> P 2 \<and> P (3 :: nat) \<and> P 4"
  "(\<forall>i < 6. P i) \<longleftrightarrow> P 0 \<and> P 1 \<and> P 2 \<and> P (3 :: nat) \<and> P 4 \<and> P 5"
  by (simp_all add: numeral_eq_Suc All_less_Suc conj_commute conj_left_commute)

lemma v6_private_words:
  assumes "list_all (\<lambda>w. w < 65536) [w0, w1, w2, w3, w4, w5, w6, w7]"
  shows "v6_private (words_number [w0, w1, w2, w3, w4, w5, w6, w7]) \<longleftrightarrow>
      (w0 = 0 \<and> w1 = 0 \<and> w2 = 0 \<and> w3 = 0 \<and> w4 = 0xFFFF \<and> w5 = 0
       \<or> w0 = 0x2001 \<and> w1 = 0 \<or> w0 = 0x2001 \<and> w1 = 0xDB8 \<or> w0 = 0x2001 \<and> w1 = 2 \<and> w2 = 0
       \<or> w0 = 0x100 \<and> w1 = 0 \<and> w2 = 0 \<and> w3 = 0 \<or> w0 = 0x5F00 \<or> w0 div 16 = 0x3FF
       \<or> w0 div 512 = 126 \<or> w0 div 64 = 1018 \<or> w0 div 64 = 1019 \<or> w0 div 256 = 255)
      \<or> (w0 = 0x64 \<and> w1 = 0xFF9B) \<and> \<not> (w0 = 0x64 \<and> w1 = 0xFF9B \<and> w2 = 0)
      \<or> (w0 = 0 \<and> w1 = 0 \<and> w2 = 0 \<and> w3 = 0 \<and> w4 = 0 \<and> w5 = 0xFFFF) \<and> v4_private (words_number [w6, w7])
      \<or> (w0 = 0 \<and> w1 = 0 \<and> w2 = 0 \<and> w3 = 0 \<and> w4 = 0 \<and> w5 = 0) \<and> v4_private (words_number [w6, w7])
      \<or> (w0 = 0x64 \<and> w1 = 0xFF9B \<and> w2 = 0) \<and> v4_private (words_number [w6, w7])
      \<or> w0 = 0x2002 \<and> v4_private (words_number [w1, w2])"
proof -
  note c = cidr128 [OF assms]
  have r: "in_cidr 128 (words_number [w0, w1, w2, w3, w4, w5, w6, w7]) ([p0, 0, 0, 0, 0, 0, 0, 0], l)
      \<longleftrightarrow> w0 div 2 ^ (16 - l) = p0 div 2 ^ (16 - l)" if "p0 < 65536" "l \<le> 16" for p0 l
    using c(5) [of p0 0 0 0 0 0 0 0 l] that by simp
  show ?thesis
    unfolding v6_private_def V6_RANGES_def EMBEDDINGS_def
    by (simp only: list.set insert_iff empty_iff bex_simps prod.case words_inside [OF assms] div_by_1 power_0)
      (simp add: c r)
qed

lemma v6_cases:
  "(if (w0 = 0 \<and> w1 = 0 \<and> w2 = 0 \<and> w3 = 0) \<and> w4 = 0xFFFF \<and> w5 = 0 then True
    else if (w0 = 0 \<and> w1 = 0 \<and> w2 = 0 \<and> w3 = 0 \<and> w4 = 0) \<and> w5 = 0xFFFF then v
    else if w0 = (0::nat) \<and> w1 = (0::nat) \<and> w2 = (0::nat) \<and> w3 = (0::nat) \<and> w4 = (0::nat) \<and> w5 = (0::nat) then v
    else if w0 = 0x64 \<and> w1 = 0xFF9B then (if w2 \<noteq> 0 then True else v)
    else if w0 = 0x2002 then u
    else if w0 = 0x2001 \<and> w1 = 0 then True
    else if w0 = 0x2001 \<and> w1 = 0xDB8 then True
    else if w0 div 16 = 0x3FF then True
    else if w0 = 0x2001 \<and> w1 = 2 \<and> w2 = 0 then True
    else if w0 = 0x5F00 then True
    else if w0 = 0x100 \<and> w1 = 0 \<and> w2 = 0 \<and> w3 = 0 then True
    else if w0 div 512 = 126 then True
    else if w0 div 64 = 1018 then True
    else if w0 div 64 = 1019 then True
    else if w0 div 256 = 255 then True else False) \<longleftrightarrow>
      (w0 = 0 \<and> w1 = 0 \<and> w2 = 0 \<and> w3 = 0 \<and> w4 = 0xFFFF \<and> w5 = 0
       \<or> w0 = 0x2001 \<and> w1 = 0 \<or> w0 = 0x2001 \<and> w1 = 0xDB8 \<or> w0 = 0x2001 \<and> w1 = 2 \<and> w2 = 0
       \<or> w0 = 0x100 \<and> w1 = 0 \<and> w2 = 0 \<and> w3 = 0 \<or> w0 = 0x5F00 \<or> w0 div 16 = 0x3FF
       \<or> w0 div 512 = 126 \<or> w0 div 64 = 1018 \<or> w0 div 64 = 1019 \<or> w0 div 256 = 255)
      \<or> (w0 = 0x64 \<and> w1 = 0xFF9B) \<and> \<not> (w0 = 0x64 \<and> w1 = 0xFF9B \<and> w2 = 0)
      \<or> (w0 = 0 \<and> w1 = 0 \<and> w2 = 0 \<and> w3 = 0 \<and> w4 = 0 \<and> w5 = 0xFFFF) \<and> v
      \<or> (w0 = 0 \<and> w1 = 0 \<and> w2 = 0 \<and> w3 = 0 \<and> w4 = 0 \<and> w5 = 0) \<and> v
      \<or> (w0 = 0x64 \<and> w1 = 0xFF9B \<and> w2 = 0) \<and> v
      \<or> w0 = 0x2002 \<and> u"
proof -
  consider "w0 = 0" | "w0 = 0x64" | "w0 = 0x2002" | "w0 = 0x2001" | "w0 = 0x5F00" | "w0 = 0x100"
    | "w0 \<noteq> 0" "w0 \<noteq> 0x64" "w0 \<noteq> 0x2002" "w0 \<noteq> 0x2001" "w0 \<noteq> 0x5F00" "w0 \<noteq> 0x100" by blast
  then show ?thesis
  proof cases
    case 1
    then show ?thesis by (cases "w1 = 0 \<and> w2 = 0 \<and> w3 = 0") auto
  qed (simp_all add: conj_disj_distribL)
qed

text \<open>The IPv6 guard, written as tests on words and bytes, refuses exactly the address ranges it stands for:
  the private prefixes (Teredo, documentation, benchmarking, SRv6, discard, unique local, link and site local, multicast,
  IPv4-translated), local-use NAT64, and every mapped, compatible, NAT64 or 6to4 address whose embedded IPv4 address is in
  one of the private IPv4 ranges. The ranges are stated as prefixes of the address read as one 128-bit number.\<close>
theorem v6_guard_ranges:
  assumes "bytes16 bytes"
  shows "blocked_v6 bytes \<longleftrightarrow> v6_private (words_number (words_of bytes))"
proof -
  obtain w0 w1 w2 w3 w4 w5 w6 w7 where w: "word_at bytes 0 = w0" "word_at bytes 1 = w1" "word_at bytes 2 = w2"
    "word_at bytes 3 = w3" "word_at bytes 4 = w4" "word_at bytes 5 = w5" "word_at bytes 6 = w6" "word_at bytes 7 = w7" by blast
  have b: "bytes ! i < 256" if "i < 16" for i using assms that by (auto simp: bytes16_def list_all_length)
  have lim: "list_all (\<lambda>w. w < 65536) [w0, w1, w2, w3, w4, w5, w6, w7]"
    using word_at_value [OF assms, THEN conjunct2] unfolding w [symmetric] by simp
  have v: "v4_private (words_number [w6, w7]) = blocked_v4 (bytes ! 12) (bytes ! 13)"
    "v4_private (words_number [w1, w2]) = blocked_v4 (bytes ! 2) (bytes ! 3)"
    using blocked_v4_ranges [of "bytes ! 12" "bytes ! 13" w7] blocked_v4_ranges [of "bytes ! 2" "bytes ! 3" w2]
      word_at_value [OF assms, of 6] word_at_value [OF assms, of 1] lim b [of 12] b [of 13] b [of 2] b [of 3] w
    by simp_all
  have e: "blocked_v4_text (embedded_v4 bytes 12) = blocked_v4 (bytes ! 12) (bytes ! 13)"
    "blocked_v4_text (embedded_v4 bytes 2) = blocked_v4 (bytes ! 2) (bytes ! 3)"
    using assms by (simp_all add: embedded_verdict bytes16_def)
  have w0: "w0 = bytes ! 0 * 256 + bytes ! 1" using word_at_value [OF assms, of 0] w by simp
  have h: "w0 div 256 = bytes ! 0" using b w0 by simp
  have m1: "bytes ! 0 AND 0xFE = 0xFC \<longleftrightarrow> w0 div 512 = 126"
  proof -
    have "w0 div 512 = w0 div 256 div 2" by (simp add: div_mult2_eq [symmetric])
    then show ?thesis using masks(1) [of "bytes ! 0"] b h by simp
  qed
  have m2: "bytes ! 0 = 0xFE \<and> bytes ! 1 AND 0xC0 = 0x80 \<longleftrightarrow> w0 div 64 = 1018"
    using masks(2) [of "bytes ! 1"] b byte_pair_div [of "bytes ! 1" 64 4 2 "bytes ! 0" 254] w0 by simp
  have m3: "bytes ! 0 = 0xFE \<and> bytes ! 1 AND 0xC0 = 0xC0 \<longleftrightarrow> w0 div 64 = 1019"
    using masks(3) [of "bytes ! 1"] b byte_pair_div [of "bytes ! 1" 64 4 3 "bytes ! 0" 254] w0 by simp
  have m4: "bytes ! 0 = 0xFF \<longleftrightarrow> w0 div 256 = 255" using h by simp
  have m5: "w0 AND 0xFFF0 = 0x3FF0 \<longleftrightarrow> w0 div 16 = 0x3FF" using masks(4) [of w0] lim by simp
  have z: "zero_prefix bytes 10 \<longleftrightarrow> w0 = 0 \<and> w1 = 0 \<and> w2 = 0 \<and> w3 = 0 \<and> w4 = 0"
    "zero_prefix bytes 8 \<longleftrightarrow> w0 = 0 \<and> w1 = 0 \<and> w2 = 0 \<and> w3 = 0"
    "zero_prefix bytes 12 \<longleftrightarrow> w0 = 0 \<and> w1 = 0 \<and> w2 = 0 \<and> w3 = 0 \<and> w4 = 0 \<and> w5 = 0"
    using zero_prefix_words [OF assms, of 5] zero_prefix_words [OF assms, of 4] zero_prefix_words [OF assms, of 6]
    by (simp_all add: all_below w w(2) [unfolded One_nat_def])
  show ?thesis
    unfolding blocked_v6_def Let_def w z e m1 m2 m3 m4 m5 words_of_list v6_private_words [OF lim] v
    by (rule v6_cases)
qed

lemma v6_guard_ranges_witness:
  "v6_private (words_number (words_of ([0x20, 2, 10, 0, 0, 0, 0, 0, 0, 0, 0, 0, 0, 0, 0, 0])))
    \<and> \<not> v6_private (words_number (words_of ([0x26, 6, 1, 1, 1, 1, 1, 1, 1, 1, 1, 1, 1, 1, 1, 1])))"
proof -
  have a: "bytes16 ([0x20, 2, 10, 0, 0, 0, 0, 0, 0, 0, 0, 0, 0, 0, 0, 0])" "bytes16 ([0x26, 6, 1, 1, 1, 1, 1, 1, 1, 1, 1, 1, 1, 1, 1, 1])"
    by (simp_all add: bytes16_def)
  have b: "blocked_v6 ([0x20, 2, 10, 0, 0, 0, 0, 0, 0, 0, 0, 0, 0, 0, 0, 0])" "\<not> blocked_v6 ([0x26, 6, 1, 1, 1, 1, 1, 1, 1, 1, 1, 1, 1, 1, 1, 1])"
    by (simp_all add: blocked_v6_def word_at_def zero_prefix_def embedded_verdict blocked_v4_def push_bit_eq_mult)
  show ?thesis using v6_guard_ranges [OF a(1)] v6_guard_ranges [OF a(2)] b by blast
qed

section \<open>The resolver\<close>

definition unblocked :: "(js_string \<Rightarrow> bool) \<Rightarrow> dns_record list \<Rightarrow> bool" where
  "unblocked is_ip rs \<longleftrightarrow> list_all (\<lambda>r. \<not> is_blocked_address is_ip (fst r) (snd r)) rs"

lemma find_blocked_none: "find (\<lambda>(a, f). is_blocked_address is_ip a f) rs = None \<longleftrightarrow> unblocked is_ip rs"
  by (auto simp: find_None_iff unblocked_def list_all_iff split_beta)

text \<open>The guarded resolver answers a connection with addresses if and only if the resolver gave at least one
  record and every record it gave is public; then the answer is what the resolver gave (all of it, or its first record).
  One private record among many refuses the lookup, and so does an address whose IPv6 text cannot be read.\<close>
theorem lookup_answers_iff:
  "guarded_lookup is_ip host wants_all answer = Inr rs \<longleftrightarrow>
     (\<exists>r rest. answer = Inr (r # rest) \<and> unblocked is_ip (r # rest) \<and> rs = (if wants_all then r # rest else [r]))"
proof (cases answer)
  case (Inr records)
  then show ?thesis
    using find_blocked_none [of is_ip records] by (cases records) (auto simp: guarded_lookup_def split: option.splits)
qed (simp add: guarded_lookup_def)

lemma assert_public_iff:
  "assert_public_url is_ip protocol host answer = None \<longleftrightarrow>
     (protocol = ''http:'' \<or> protocol = ''https:'') \<and> (\<exists>rs. answer = Some rs \<and> rs \<noteq> [] \<and> unblocked is_ip rs)"
proof (cases answer)
  case (Some rs)
  then show ?thesis
    using find_blocked_none [of is_ip rs] by (auto simp: assert_public_url_def split: option.splits)
qed (auto simp: assert_public_url_def)

text \<open>An address that cannot be read as IPv6 is refused, whatever it is.\<close>

lemma unreadable_refused: "ipv6_bytes is_ip ip = None \<Longrightarrow> is_blocked_address is_ip ip 6"
  by (simp add: is_blocked_address_def)

text \<open>A literal private address, with the tests' exception off, is never fetched.\<close>

lemma literal_refused:
  assumes "is_ip host = family" "0 < family" "host \<noteq> ''localhost''" "mock \<noteq> Some ''true''"
    "is_blocked_address (\<lambda>s. is_ip s \<noteq> 0) host family"
  shows "\<exists>e. guarded_fetch is_ip mock allow_list protocol host port = RefuseFetch e"
  using assms by (auto simp: guarded_fetch_def test_allowed_def Let_def)

end
