(* ===== verification/Authz.thy ===== *)
theory Authz
  imports Systems
begin

text \<open>
  Who may see and act on a conversation (\<open>streams/authz.ts\<close>), with the actions of
  \<open>ws/run-actions.ts\<close> that are decided by it. The database is the record \<open>access_db\<close> of what its
  queries answer; an id off a socket is any text.
\<close>

section \<open>Roles\<close>

datatype conversation_role = Viewer | Editor | Owner

primrec role_rank :: "conversation_role \<Rightarrow> nat" where
  "role_rank Viewer = 0" | "role_rank Editor = 1" | "role_rank Owner = 2"

definition at_least :: "conversation_role \<Rightarrow> conversation_role \<Rightarrow> bool" where
  "at_least r minimum \<longleftrightarrow> role_rank minimum \<le> role_rank r"

text \<open>The ranks make the roles a linear order, so the library's facts about orders apply to them.\<close>

instantiation conversation_role :: linorder
begin

definition less_eq_conversation_role :: "conversation_role \<Rightarrow> conversation_role \<Rightarrow> bool" where
  "less_eq_conversation_role r s \<longleftrightarrow> role_rank r \<le> role_rank s"

definition less_conversation_role :: "conversation_role \<Rightarrow> conversation_role \<Rightarrow> bool" where
  "less_conversation_role r s \<longleftrightarrow> role_rank r < role_rank s"

instance
proof
  fix r s :: conversation_role
  show "r \<le> s \<Longrightarrow> s \<le> r \<Longrightarrow> r = s"
    by (cases r; cases s) (simp_all add: less_eq_conversation_role_def)
qed (auto simp: less_eq_conversation_role_def less_conversation_role_def)

end

lemma at_least_le: "at_least r minimum \<longleftrightarrow> minimum \<le> r"
  by (simp add: at_least_def less_eq_conversation_role_def)

lemma role_order [simp]: "Viewer \<le> r" "r \<le> Owner" "Editor \<le> r \<longleftrightarrow> r \<noteq> Viewer" "r \<le> Viewer \<longleftrightarrow> r = Viewer"
  by (cases r; simp add: less_eq_conversation_role_def)+

section \<open>Access\<close>

datatype conversation_kind = ChatKind | AgentKind | RoutineKind | SubagentKind

record conversation_row =
  row_id :: js_string
  owner_id :: js_string
  is_deleted :: bool
  row_kind :: conversation_kind
  parent_conversation :: "js_string option"

text \<open>The rows of \<open>conversations\<close> and of \<open>conversation_shares\<close>, and whose role in \<open>user\<close> is admin.\<close>

record access_db =
  conversation_row_of :: "js_string \<Rightarrow> conversation_row option"
  share_of :: "js_string \<Rightarrow> js_string \<Rightarrow> conversation_role option"
  is_admin :: "js_string \<Rightarrow> bool"

record access_grant =
  grant_conversation :: js_string
  grant_role :: conversation_role
  via_admin :: bool
  grant_kind :: conversation_kind
  grant_parent :: "(js_string \<times> conversation_role) option"

definition acting_role :: "access_grant \<Rightarrow> conversation_role" where
  "acting_role g = (case grant_parent g of Some (_, r) \<Rightarrow> r | None \<Rightarrow> grant_role g)"

text \<open>\<open>CONVERSATION_ID_RE\<close>\<close>

definition uuid_char :: "char \<Rightarrow> bool" where
  "uuid_char c \<longleftrightarrow> is_digit c \<or> in_range 97 102 c \<or> in_range 65 70 c"

definition is_uuid :: "js_string \<Rightarrow> bool" where
  "is_uuid s \<longleftrightarrow>
     map length (split_on (CHR ''-'') s) = [8, 4, 4, 4, 12]
     \<and> list_all (list_all uuid_char) (split_on (CHR ''-'') s)"

function resolve_access :: "access_db \<Rightarrow> js_string \<Rightarrow> js_string \<Rightarrow> nat \<Rightarrow> access_grant option" where
  "resolve_access db user conv depth =
     (if \<not> is_uuid conv then None
      else case conversation_row_of db conv of
        None \<Rightarrow> None
      | Some row \<Rightarrow>
          if row_kind row = SubagentKind then
            (case parent_conversation row of
               None \<Rightarrow> None
             | Some p \<Rightarrow>
                 if is_deleted row \<or> p = [] \<or> depth > 0 then None
                 else (case resolve_access db user p (depth + 1) of
                     None \<Rightarrow> None
                   | Some parent \<Rightarrow>
                       if grant_kind parent = SubagentKind then None
                       else Some \<lparr>grant_conversation = conv, grant_role = Viewer, via_admin = via_admin parent,
                         grant_kind = SubagentKind, grant_parent = Some (p, grant_role parent)\<rparr>))
          else if is_deleted row then None
          else if owner_id row = user then
            Some \<lparr>grant_conversation = conv, grant_role = Owner, via_admin = False, grant_kind = row_kind row, grant_parent = None\<rparr>
          else (case share_of db conv user of
              Some r \<Rightarrow>
                Some \<lparr>grant_conversation = conv, grant_role = r, via_admin = False, grant_kind = row_kind row, grant_parent = None\<rparr>
            | None \<Rightarrow>
                if is_admin db user then
                  Some \<lparr>grant_conversation = conv, grant_role = Viewer, via_admin = True, grant_kind = row_kind row, grant_parent = None\<rparr>
                else None))"
  by pat_completeness auto
termination by (relation "measure (\<lambda>(_, _, _, depth). 1 - depth)") auto

declare resolve_access.simps [simp del]

definition assert_access :: "access_db \<Rightarrow> js_string \<Rightarrow> js_string \<Rightarrow> conversation_role \<Rightarrow> access_grant option" where
  "assert_access db user conv minimum =
     (case resolve_access db user conv 0 of
        None \<Rightarrow> None | Some g \<Rightarrow> if at_least (grant_role g) minimum then Some g else None)"

definition has_role :: "access_db \<Rightarrow> js_string \<Rightarrow> js_string \<Rightarrow> conversation_role \<Rightarrow> bool" where
  "has_role db user conv minimum \<longleftrightarrow>
     (case resolve_access db user conv 0 of None \<Rightarrow> False | Some g \<Rightarrow> at_least (grant_role g) minimum)"

text \<open>\<open>mayActOnRun\<close> of \<open>ws/run-actions.ts\<close>: stopping a run and answering its questions.\<close>

definition may_act_on_run :: "access_db \<Rightarrow> js_string \<Rightarrow> js_string \<Rightarrow> bool" where
  "may_act_on_run db user conv \<longleftrightarrow>
     (case resolve_access db user conv 0 of None \<Rightarrow> False | Some g \<Rightarrow> at_least (acting_role g) Editor)"

text \<open>\<open>filterAccessible\<close>: the rows and this user's shares of the well-formed ids, each with one query, joined
  on the ids as the database has them.\<close>

definition filter_accessible :: "access_db \<Rightarrow> js_string \<Rightarrow> js_string list \<Rightarrow> js_string set" where
  "filter_accessible db user convs =
     (let ids = filter is_uuid (remdups convs);
          rows = filter (\<lambda>row. \<not> is_deleted row) (List.map_filter (conversation_row_of db) ids);
          shared = set (map row_id (List.map_filter (\<lambda>i. case share_of db i user of
              None \<Rightarrow> None | Some _ \<Rightarrow> conversation_row_of db i) ids)) in
      set (map row_id (filter (\<lambda>row. is_admin db user \<or> owner_id row = user \<or> row_id row \<in> shared) rows)))"

definition parent_in_conversation :: "(js_string \<Rightarrow> (js_string \<times> bool) option) \<Rightarrow> js_string \<Rightarrow> js_string \<Rightarrow> bool" where
  "parent_in_conversation message_of conv parent \<longleftrightarrow>
     (case message_of parent of Some (c, deleted) \<Rightarrow> \<not> deleted \<and> c = conv | None \<Rightarrow> False)"

section \<open>Attachments\<close>

definition MAX_ATTACHMENTS :: nat where "MAX_ATTACHMENTS = 4"

record attachment_row =
  attachment_owner :: js_string
  mime :: js_string
  filename :: js_string

record attachment_ref =
  ref :: js_string
  ref_mime :: js_string
  ref_name :: "js_string option"

text \<open>\<open>[...new Set(refs)]\<close> keeps the first of each, as \<^const>\<open>remdups\<close> keeps the last.\<close>

definition first_of_each :: "'a list \<Rightarrow> 'a list" where
  "first_of_each xs = rev (remdups (rev xs))"

definition owned_attachment :: "(js_string \<Rightarrow> attachment_row option) \<Rightarrow> js_string \<Rightarrow> js_string \<Rightarrow> attachment_ref option" where
  "owned_attachment rows user r =
     (case rows r of
        None \<Rightarrow> None
      | Some row \<Rightarrow>
          if attachment_owner row = user
          then Some \<lparr>ref = r, ref_mime = mime row, ref_name = (if filename row = [] then None else Some (filename row))\<rparr>
          else None)"

definition assert_attachments_owned ::
    "(js_string \<Rightarrow> attachment_row option) \<Rightarrow> js_string \<Rightarrow> js_string list \<Rightarrow> attachment_ref list option" where
  "assert_attachments_owned rows user refs =
     (if refs = [] then Some []
      else if MAX_ATTACHMENTS < length refs then None
      else if \<not> list_all is_uuid refs then None
      else those (map (owned_attachment rows user) (first_of_each refs)))"


section \<open>Who may\<close>

text \<open>A live row of an id, and a sub-agent's parent.\<close>

definition live_row :: "access_db \<Rightarrow> js_string \<Rightarrow> conversation_row \<Rightarrow> bool" where
  "live_row db conv row \<longleftrightarrow> is_uuid conv \<and> conversation_row_of db conv = Some row \<and> \<not> is_deleted row"

definition top_row :: "access_db \<Rightarrow> js_string \<Rightarrow> conversation_row \<Rightarrow> bool" where
  "top_row db conv row \<longleftrightarrow> live_row db conv row \<and> row_kind row \<noteq> SubagentKind"

definition child_of :: "access_db \<Rightarrow> js_string \<Rightarrow> js_string \<Rightarrow> bool" where
  "child_of db conv p \<longleftrightarrow>
     (\<exists>row. live_row db conv row \<and> row_kind row = SubagentKind \<and> parent_conversation row = Some p \<and> p \<noteq> [])"

text \<open>The rules of access, as the product states them.\<close>

inductive may_access :: "access_db \<Rightarrow> js_string \<Rightarrow> js_string \<Rightarrow> conversation_role \<Rightarrow> bool" for db user where
  owner: "top_row db conv row \<Longrightarrow> owner_id row = user \<Longrightarrow> may_access db user conv Owner"
| shared: "top_row db conv row \<Longrightarrow> owner_id row \<noteq> user \<Longrightarrow> share_of db conv user = Some r \<Longrightarrow> may_access db user conv r"
| admin: "top_row db conv row \<Longrightarrow> owner_id row \<noteq> user \<Longrightarrow> share_of db conv user = None \<Longrightarrow> is_admin db user \<Longrightarrow>
    may_access db user conv Viewer"
| child: "child_of db conv p \<Longrightarrow> top_row db p row \<Longrightarrow> may_access db user p r \<Longrightarrow> may_access db user conv Viewer"

inductive_cases may_accessE: "may_access db user conv r"

definition top_grant :: "access_db \<Rightarrow> js_string \<Rightarrow> js_string \<Rightarrow> conversation_row \<Rightarrow> access_grant option" where
  "top_grant db user conv row =
     map_option (\<lambda>(r, a). \<lparr>grant_conversation = conv, grant_role = r, via_admin = a, grant_kind = row_kind row, grant_parent = None\<rparr>)
       (if owner_id row = user then Some (Owner, False)
        else case share_of db conv user of
          Some r \<Rightarrow> Some (r, False) | None \<Rightarrow> if is_admin db user then Some (Viewer, True) else None)"

lemma resolve_top: "top_row db conv row \<Longrightarrow> resolve_access db user conv depth = top_grant db user conv row"
  by (subst resolve_access.simps) (simp add: top_row_def live_row_def top_grant_def split: option.split)

lemma resolve_child:
  assumes "child_of db conv p"
  shows "resolve_access db user conv 0 =
    (case resolve_access db user p 1 of
       None \<Rightarrow> None
     | Some parent \<Rightarrow>
         if grant_kind parent = SubagentKind then None
         else Some \<lparr>grant_conversation = conv, grant_role = Viewer, via_admin = via_admin parent,
           grant_kind = SubagentKind, grant_parent = Some (p, grant_role parent)\<rparr>)"
    and "0 < depth \<Longrightarrow> resolve_access db user conv depth = None"
  using assms by (subst resolve_access.simps; auto simp: child_of_def live_row_def split: option.split)+

text \<open>A conversation is one someone can own, one of a live parent, or none at all.\<close>

lemma row_cases:
  obtains (top) row where "top_row db conv row"
  | (sub) p where "child_of db conv p"
  | (none) "\<And>user depth. resolve_access db user conv depth = None"
      "\<And>row. \<not> top_row db conv row" "\<And>p. \<not> child_of db conv p"
proof -
  consider row where "live_row db conv row" "row_kind row \<noteq> SubagentKind"
    | row p where "live_row db conv row" "row_kind row = SubagentKind" "parent_conversation row = Some p" "p \<noteq> []"
    | "\<And>row. live_row db conv row \<Longrightarrow> row_kind row = SubagentKind \<and> (\<forall>p. parent_conversation row = Some p \<longrightarrow> p = [])"
    by blast
  then show thesis
  proof cases
    case 3
    have "resolve_access db user conv depth = None" for user depth
      using 3 by (subst resolve_access.simps) (auto simp: live_row_def split: option.split)
    then show thesis using 3 by (intro none) (auto simp: top_row_def child_of_def)
  qed (use top sub in \<open>auto simp: top_row_def child_of_def\<close>)
qed

lemma row_exclusive: "top_row db conv row \<Longrightarrow> \<not> child_of db conv p"
  "top_row db conv row \<Longrightarrow> top_row db conv row' \<Longrightarrow> row = row'" "child_of db conv p \<Longrightarrow> child_of db conv q \<Longrightarrow> p = q"
  by (auto simp: top_row_def child_of_def live_row_def)

lemma resolve_deep: "resolve_access db user conv (Suc d) = (if \<exists>row. top_row db conv row then resolve_access db user conv 0 else None)"
proof (cases rule: row_cases [of db conv])
  case (top row)
  then show ?thesis by (auto simp: resolve_top)
next
  case (sub p)
  then show ?thesis using resolve_child(2) [OF sub, of "Suc d" user] row_exclusive(1) by auto
qed auto


definition child_grant :: "js_string \<Rightarrow> js_string \<Rightarrow> access_grant \<Rightarrow> access_grant" where
  "child_grant conv p g = \<lparr>grant_conversation = conv, grant_role = Viewer, via_admin = via_admin g,
     grant_kind = SubagentKind, grant_parent = Some (p, grant_role g)\<rparr>"

lemma resolve_child_top:
  assumes "child_of db conv p" "top_row db p row"
  shows "resolve_access db user conv 0 = map_option (child_grant conv p) (top_grant db user p row)"
  unfolding resolve_child(1) [OF assms(1)] resolve_top [OF assms(2)]
  using assms(2) by (auto simp: top_grant_def child_grant_def top_row_def split: option.splits)

lemma resolve_child_none:
  assumes "child_of db conv p" "\<And>row. \<not> top_row db p row"
  shows "resolve_access db user conv 0 = None"
  unfolding resolve_child(1) [OF assms(1)] using resolve_deep [of db user p 0] assms(2) by simp

lemma top_access:
  assumes "top_row db conv row"
  shows "(\<exists>g. top_grant db user conv row = Some g \<and> grant_role g = r) \<longleftrightarrow> may_access db user conv r"
proof
  show "\<exists>g. top_grant db user conv row = Some g \<and> grant_role g = r \<Longrightarrow> may_access db user conv r"
    using assms by (auto simp: top_grant_def split: option.splits if_splits intro: may_access.intros)
next
  assume "may_access db user conv r"
  then show "\<exists>g. top_grant db user conv row = Some g \<and> grant_role g = r"
    using row_exclusive(1,2) [OF assms] by cases (auto simp: top_grant_def)
qed

section \<open>Properties\<close>

text \<open>C20: Access is what the rules say: a user has a role on a conversation exactly when they own it, it is shared
  with them at that role, they are an admin (who only views), or it is a sub-agent of a conversation they may see (and
  then they only view it).\<close>

theorem access_by_the_rules:
  "(\<exists>g. resolve_access db user conv 0 = Some g \<and> grant_role g = r) \<longleftrightarrow> may_access db user conv r"
proof (cases rule: row_cases [of db conv])
  case (top row)
  then show ?thesis by (simp add: resolve_top top_access)
next
  case (sub p)
  show ?thesis
  proof (cases "\<exists>row. top_row db p row")
    case True
    then obtain row where row: "top_row db p row" by blast
    have "may_access db user conv r \<longleftrightarrow> r = Viewer \<and> (\<exists>r'. may_access db user p r')"
    proof
      assume "may_access db user conv r"
      then show "r = Viewer \<and> (\<exists>r'. may_access db user p r')"
        using row_exclusive(1) sub row_exclusive(3) [OF sub] by cases blast+
    next
      assume "r = Viewer \<and> (\<exists>r'. may_access db user p r')"
      then show "may_access db user conv r" using may_access.child [OF sub row] by blast
    qed
    then show ?thesis
      by (auto simp: resolve_child_top [OF sub row] child_grant_def top_access [OF row, symmetric])
  next
    case False
    have "\<not> may_access db user conv r"
    proof
      assume "may_access db user conv r"
      then show False using row_exclusive(1) sub row_exclusive(3) [OF sub] False by cases blast+
    qed
    then show ?thesis using False by (simp add: resolve_child_none [OF sub])
  qed
next
  case none
  have "\<not> may_access db user conv r"
  proof
    assume "may_access db user conv r"
    then show False using none(2,3) by cases blast+
  qed
  then show ?thesis by (simp add: none(1))
qed

text \<open>Only a sub-agent's grant names a parent.\<close>

lemma resolve_parent: "resolve_access db user conv 0 = Some g \<Longrightarrow> grant_kind g \<noteq> SubagentKind \<Longrightarrow> grant_parent g = None"
  by (subst (asm) resolve_access.simps) (auto split: option.splits if_splits)

text \<open>Nobody does more than look at a sub-agent's conversation, whoever they are.\<close>

lemma sub_agent_closed: "child_of db conv p \<Longrightarrow> has_role db user conv minimum \<Longrightarrow> minimum = Viewer"
  using resolve_child_top [of db conv p] resolve_child_none [of db conv p user]
  by (cases "\<exists>row. top_row db p row") (auto simp: has_role_def at_least_le child_grant_def top_grant_def split: option.splits if_splits)

text \<open>A run may be stopped or answered by exactly those with an editor's role on the conversation that
  counts: the run's own, or for a sub-agent's run, its parent.\<close>

theorem acting_on_a_run:
  "may_act_on_run db user conv \<longleftrightarrow>
     (\<exists>r c. Editor \<le> r \<and> may_access db user c r \<and> (c = conv \<or> child_of db conv c) \<and> (\<exists>row. top_row db c row))"
proof (cases rule: row_cases [of db conv])
  case (top row)
  have "may_act_on_run db user conv \<longleftrightarrow> (\<exists>g. top_grant db user conv row = Some g \<and> Editor \<le> grant_role g)"
    by (auto simp: may_act_on_run_def resolve_top [OF top] acting_role_def at_least_le top_grant_def split: option.splits)
  then show ?thesis
    using top row_exclusive(1) [OF top] by (auto simp: top_access [OF top, symmetric])
next
  case (sub p)
  have no: "\<not> top_row db conv row" for row using sub row_exclusive(1) by blast
  show ?thesis
  proof (cases "\<exists>row. top_row db p row")
    case True
    then obtain row where row: "top_row db p row" by blast
    have "may_act_on_run db user conv \<longleftrightarrow> (\<exists>g. top_grant db user p row = Some g \<and> Editor \<le> grant_role g)"
      by (auto simp: may_act_on_run_def resolve_child_top [OF sub row] child_grant_def acting_role_def at_least_le split: option.splits)
    moreover have "(\<exists>r c. Editor \<le> r \<and> may_access db user c r \<and> (c = conv \<or> child_of db conv c) \<and> (\<exists>row. top_row db c row))
        \<longleftrightarrow> (\<exists>r. Editor \<le> r \<and> may_access db user p r)"
      using row no row_exclusive(3) [OF sub] sub by blast
    ultimately show ?thesis by (auto simp: top_access [OF row, symmetric])
  next
    case False
    then show ?thesis using no row_exclusive(3) [OF sub] by (auto simp: may_act_on_run_def resolve_child_none [OF sub])
  qed
next
  case none
  then show ?thesis by (auto simp: may_act_on_run_def none(1))
qed


text \<open>What a soft delete does to the row (\<open>conversations/delete.ts\<close>).\<close>

definition delete_row :: "js_string \<Rightarrow> access_db \<Rightarrow> access_db" where
  "delete_row c db = db\<lparr>conversation_row_of := (\<lambda>i. if i = c
     then map_option (\<lambda>row. row\<lparr>is_deleted := True\<rparr>) (conversation_row_of db i) else conversation_row_of db i)\<rparr>"

lemma delete_row_rows:
  "live_row (delete_row c db) conv row \<longleftrightarrow> conv \<noteq> c \<and> live_row db conv row"
  by (auto simp: live_row_def delete_row_def)

lemma delete_row_tops:
  "top_row (delete_row c db) conv row \<longleftrightarrow> conv \<noteq> c \<and> top_row db conv row"
  "child_of (delete_row c db) conv p \<longleftrightarrow> conv \<noteq> c \<and> child_of db conv p"
  by (auto simp: top_row_def child_of_def delete_row_rows)

lemma delete_row_grant: "top_grant (delete_row c db) user conv row = top_grant db user conv row"
  by (simp add: top_grant_def delete_row_def split: option.split)

text \<open>Deleting a conversation revokes it for everyone, its owner, its guests and the admins, together with
  every sub-agent it spawned, although their rows and the shares stay; and it changes access to nothing else.\<close>

theorem delete_revokes:
  "resolve_access (delete_row c db) user conv 0 =
     (if conv = c \<or> child_of db conv c then None else resolve_access db user conv 0)"
proof (cases rule: row_cases [of "delete_row c db" conv])
  case (top row)
  then show ?thesis
    using row_exclusive(1) by (auto simp: resolve_top delete_row_tops delete_row_grant)
next
  case (sub p)
  then have s: "conv \<noteq> c" "child_of db conv p" by (auto simp: delete_row_tops)
  show ?thesis
  proof (cases "\<exists>row. top_row (delete_row c db) p row")
    case True
    then obtain row where row: "top_row (delete_row c db) p row" by blast
    then have "p \<noteq> c" and r: "top_row db p row" by (simp_all add: delete_row_tops)
    moreover have "\<not> child_of db conv c" using row_exclusive(3) [OF s(2)] \<open>p \<noteq> c\<close> by blast
    ultimately show ?thesis
      using s(1) by (simp add: resolve_child_top [OF sub row] resolve_child_top [OF s(2) r] delete_row_grant)
  next
    case False
    then have "p = c \<or> (\<forall>row. \<not> top_row db p row)" by (auto simp: delete_row_tops)
    then have "child_of db conv c \<or> resolve_access db user conv 0 = None"
    proof (elim disjE)
      assume "p = c"
      then show ?thesis using s(2) by simp
    next
      assume "\<forall>row. \<not> top_row db p row"
      then show ?thesis using resolve_child_none [OF s(2), of user] by simp
    qed
    moreover have "resolve_access (delete_row c db) user conv 0 = None"
      using False by (intro resolve_child_none [OF sub]) blast
    ultimately show ?thesis by auto
  qed
next
  case none
  have "conv = c \<or> child_of db conv c \<or> resolve_access db user conv 0 = None"
  proof (cases rule: row_cases [of db conv])
    case (top row)
    then show ?thesis using none(2) by (auto simp: delete_row_tops)
  next
    case (sub p)
    then show ?thesis using none(3) by (auto simp: delete_row_tops)
  qed simp
  then show ?thesis using none(1) by auto
qed

lemma set_map_filter_ids: "set (List.map_filter f xs) = {y. \<exists>x \<in> set xs. f x = Some y}"
  by (induction xs) (auto simp: List.map_filter_simps split: option.split)

text \<open>The batched question of the thread list and the single one agree: for conversations that are not
  sub-agents, an id is among those answered exactly when access to it resolves.\<close>

theorem filter_agrees:
  assumes "\<And>i row. conversation_row_of db i = Some row \<Longrightarrow> row_id row = i \<and> row_kind row \<noteq> SubagentKind"
  shows "filter_accessible db user convs = {i \<in> set convs. resolve_access db user i 0 \<noteq> None}"
proof -
  have r: "resolve_access db user i 0 \<noteq> None \<longleftrightarrow>
      (\<exists>row. top_row db i row \<and> (is_admin db user \<or> owner_id row = user \<or> share_of db i user \<noteq> None))" for i
  proof (cases rule: row_cases [of db i])
    case (top row)
    have "resolve_access db user i 0 \<noteq> None \<longleftrightarrow> is_admin db user \<or> owner_id row = user \<or> share_of db i user \<noteq> None"
      by (auto simp: resolve_top [OF top] top_grant_def split: option.split)
    then show ?thesis using top row_exclusive(2) [OF top] by metis
  next
    case (sub p)
    then show ?thesis using assms by (auto simp: child_of_def live_row_def)
  qed simp
  have m: "i \<in> filter_accessible db user convs \<longleftrightarrow>
      (\<exists>row. is_uuid i \<and> i \<in> set convs \<and> conversation_row_of db i = Some row \<and> \<not> is_deleted row
         \<and> (is_admin db user \<or> owner_id row = user \<or> share_of db i user \<noteq> None))" for i
  proof -
    let ?ids = "filter is_uuid (remdups convs)"
    let ?shared = "set (map row_id (List.map_filter (\<lambda>i. case share_of db i user of
              None \<Rightarrow> None | Some _ \<Rightarrow> conversation_row_of db i) ?ids))"
    have sh: "row_id row \<in> ?shared \<longleftrightarrow> share_of db j user \<noteq> None"
      if "conversation_row_of db j = Some row" "j \<in> set ?ids" for j row
    proof
      assume "row_id row \<in> ?shared"
      then obtain k row' where "conversation_row_of db k = Some row'" "share_of db k user \<noteq> None" "row_id row = row_id row'"
        by (auto simp: set_map_filter_ids split: option.splits)
      then show "share_of db j user \<noteq> None" using assms that(1) by metis
    next
      assume "share_of db j user \<noteq> None"
      then show "row_id row \<in> ?shared"
        unfolding set_map set_map_filter_ids using that by (intro imageI CollectI bexI [of _ j]) auto
    qed
    have "i \<in> filter_accessible db user convs \<longleftrightarrow>
        (\<exists>row. (\<exists>j \<in> set ?ids. conversation_row_of db j = Some row) \<and> \<not> is_deleted row
          \<and> (is_admin db user \<or> owner_id row = user \<or> row_id row \<in> ?shared) \<and> i = row_id row)"
      unfolding filter_accessible_def Let_def set_map set_filter set_map_filter_ids by blast
    also have "\<dots> \<longleftrightarrow> (\<exists>row. i \<in> set ?ids \<and> conversation_row_of db i = Some row \<and> \<not> is_deleted row
          \<and> (is_admin db user \<or> owner_id row = user \<or> row_id row \<in> ?shared))"
      using assms by blast
    also have "\<dots> \<longleftrightarrow> (\<exists>row. i \<in> set ?ids \<and> conversation_row_of db i = Some row \<and> \<not> is_deleted row
          \<and> (is_admin db user \<or> owner_id row = user \<or> share_of db i user \<noteq> None))"
      using sh by blast
    finally show ?thesis by (simp add: conj_left_commute)
  qed
  have "resolve_access db user i 0 \<noteq> None \<longleftrightarrow>
      (\<exists>row. is_uuid i \<and> conversation_row_of db i = Some row \<and> \<not> is_deleted row
         \<and> (is_admin db user \<or> owner_id row = user \<or> share_of db i user \<noteq> None))" for i
    using assms(1) [of i] unfolding r top_row_def live_row_def by blast
  then show ?thesis unfolding set_eq_iff m by simp blast
qed

definition SAMPLE_ID :: js_string where "SAMPLE_ID = ''0f8fad5b-d9cb-469f-a165-70867728950e''"

definition sample_db :: access_db where
  "sample_db = \<lparr>conversation_row_of = (\<lambda>i. if i = SAMPLE_ID
       then Some \<lparr>row_id = SAMPLE_ID, owner_id = ''ann'', is_deleted = False, row_kind = ChatKind, parent_conversation = None\<rparr> else None),
     share_of = (\<lambda>i u. if i = SAMPLE_ID \<and> u = ''bob'' then Some Editor else None), is_admin = (\<lambda>u. u = ''root'')\<rparr>"

lemma sample_id: "is_uuid SAMPLE_ID"
  by code_simp

theorem filter_agrees_witness:
  "SAMPLE_ID \<in> filter_accessible sample_db ''bob'' [SAMPLE_ID, ''x'']"
proof -
  have "row_id row = i \<and> row_kind row \<noteq> SubagentKind" if "conversation_row_of sample_db i = Some row" for i row
    using that by (auto simp: sample_db_def split: if_splits)
  from filter_agrees [of sample_db "''bob''" "[SAMPLE_ID, ''x'']", OF this]
  have "SAMPLE_ID \<in> filter_accessible sample_db ''bob'' [SAMPLE_ID, ''x''] \<longleftrightarrow> resolve_access sample_db ''bob'' SAMPLE_ID 0 \<noteq> None"
    by simp
  moreover have "resolve_access sample_db ''bob'' SAMPLE_ID 0 \<noteq> None" by code_simp
  ultimately show ?thesis by blast
qed

lemma first_of_each_set: "set (first_of_each xs) = set xs" "distinct (first_of_each xs)"
  by (simp_all add: first_of_each_def)

lemma those_Some: "those ys = Some xs \<longleftrightarrow> ys = map Some xs"
  by (induction ys arbitrary: xs) (auto split: option.splits)

lemma those_refs: "map f rs = map Some out \<Longrightarrow> (\<And>r a. f r = Some a \<Longrightarrow> ref a = r) \<Longrightarrow> map ref out = rs"
  by (induction rs arbitrary: out) auto

text \<open>What a send is given: at most four attachments, each once and each the sender's own.\<close>

lemma attachments_owned:
  assumes "assert_attachments_owned rows user refs = Some out"
  shows "length refs \<le> MAX_ATTACHMENTS" "map ref out = first_of_each refs"
    "\<forall>a \<in> set out. is_uuid (ref a) \<and> (\<exists>row. rows (ref a) = Some row \<and> attachment_owner row = user \<and> ref_mime a = mime row)"
proof -
  have o: "owned_attachment rows user r = Some a \<Longrightarrow> ref a = r \<and>
      (\<exists>row. rows r = Some row \<and> attachment_owner row = user \<and> ref_mime a = mime row)" for r a
    by (auto simp: owned_attachment_def split: option.splits if_splits)
  have c: "refs = [] \<and> out = [] \<or> length refs \<le> MAX_ATTACHMENTS \<and> list_all is_uuid refs
      \<and> map (owned_attachment rows user) (first_of_each refs) = map Some out"
    using assms by (auto simp: assert_attachments_owned_def those_Some split: if_splits)
  then show "length refs \<le> MAX_ATTACHMENTS" by auto
  show "map ref out = first_of_each refs"
    using c those_refs [of "owned_attachment rows user" "first_of_each refs" out] o by (auto simp: first_of_each_def)
  show "\<forall>a \<in> set out. is_uuid (ref a) \<and> (\<exists>row. rows (ref a) = Some row \<and> attachment_owner row = user \<and> ref_mime a = mime row)"
  proof
    fix a assume a: "a \<in> set out"
    then have "Some a \<in> set (map Some out)" "refs \<noteq> []" using c by (auto simp: first_of_each_def)
    then have "Some a \<in> set (map (owned_attachment rows user) (first_of_each refs))" "list_all is_uuid refs"
      using c a by (auto simp del: set_map)
    then obtain r where "r \<in> set refs" "owned_attachment rows user r = Some a" "is_uuid r"
      by (auto simp: first_of_each_set list_all_iff)
    then show "is_uuid (ref a) \<and> (\<exists>row. rows (ref a) = Some row \<and> attachment_owner row = user \<and> ref_mime a = mime row)"
      using o by blast
  qed
qed

end
