(* ===== verification/RunActions.thy ===== *)
theory RunActions
  imports Authz Registry
begin

text \<open>
  What a socket may do to a run that is going (\<open>ws/run-actions.ts\<close>, and \<open>stream.stop\<close> of \<open>ws/chat.ts\<close>): the
  composition of who may (\<open>Authz\<close>) with the registry of runs (\<open>Registry\<close>). A field of a client's message is \<^const>\<open>None\<close>
  when it is not of the type it should have. Every \<open>await\<close> lets the rest of the server run: \<open>meanwhile\<close> is what it does to
  the registry, and \<open>dbs\<close> what the database says, at each of them. A run is looked up again after an \<open>await\<close>, where the code
  keeps the handle: a run that ended meanwhile has settled its questions first, so both find nothing to answer.
\<close>

section \<open>Actions\<close>

datatype socket_effect =
    Settle nat bool bool                   \<comment> \<open>the approval's resolver, the answer, whether it is for always\<close>
  | Decide nat js_string                   \<comment> \<open>the check-in's resolver, the decision\<close>
  | Abort js_string
  | RememberMode js_string permission_mode
  | Registered effect

type_synonym others = "nat \<Rightarrow> registry \<Rightarrow> registry"

text \<open>The loop over the candidates, with \<open>i\<close> awaits before it.\<close>

fun answer_first :: "(nat \<Rightarrow> access_db) \<Rightarrow> others \<Rightarrow> js_string \<Rightarrow> js_string \<Rightarrow> bool \<Rightarrow> bool \<Rightarrow> nat \<Rightarrow> handle list \<Rightarrow> registry
    \<Rightarrow> registry \<times> socket_effect list" where
  "answer_first dbs meanwhile user call ok always i [] r = (r, [])"
| "answer_first dbs meanwhile user call ok always i (h # hs) r =
     (let r1 = meanwhile i r in
      if \<not> may_act_on_run (dbs i) user (h_conversation h) then answer_first dbs meanwhile user call ok always (Suc i) hs r1
      else (case get_run (h_stream h) r1 of
          None \<Rightarrow> (r1, [])
        | Some h1 \<Rightarrow>
            (case map_of (approvals h1) call of
               None \<Rightarrow> (r1, [])
             | Some resolver \<Rightarrow>
                 (case mutate (h_stream h) (clear_run_approval call) r1 of
                    (r2, es) \<Rightarrow> (r2, map Registered es @ [Settle resolver ok (ok \<and> always)])))))"

definition approval_candidates :: "js_string \<Rightarrow> js_string option \<Rightarrow> registry \<Rightarrow> handle list" where
  "approval_candidates call stream r =
     (case stream of
        Some s \<Rightarrow>
          (case get_run s r of
             None \<Rightarrow> [] | Some h \<Rightarrow> if call \<in> fst ` set (approvals h) then [h] else [])
      | None \<Rightarrow> find_runs_by_approval call r)"

definition answer_approval :: "(nat \<Rightarrow> access_db) \<Rightarrow> others \<Rightarrow> js_string \<Rightarrow> js_string option \<Rightarrow> bool \<Rightarrow> js_string option \<Rightarrow> bool
    \<Rightarrow> registry \<Rightarrow> registry \<times> socket_effect list" where
  "answer_approval dbs meanwhile user call ok stream always r =
     (case call of
        None \<Rightarrow> (r, [])
      | Some c \<Rightarrow> answer_first dbs meanwhile user c ok always 0 (approval_candidates c stream r) r)"

text \<open>\<open>valid\<close> is \<open>isStepsDecision\<close> on the claim.\<close>

definition answer_checkin :: "access_db \<Rightarrow> (registry \<Rightarrow> registry) \<Rightarrow> (js_string \<Rightarrow> bool) \<Rightarrow> js_string \<Rightarrow> js_string option
    \<Rightarrow> js_string option \<Rightarrow> registry \<Rightarrow> registry \<times> socket_effect list" where
  "answer_checkin db meanwhile valid user stream decision r =
     (case (stream, decision) of
        (Some s, Some d) \<Rightarrow>
          if \<not> valid d then (r, [])
          else (case get_run s r of
              None \<Rightarrow> (r, [])
            | Some h \<Rightarrow>
                (let r1 = meanwhile r in
                 if \<not> may_act_on_run db user (h_conversation h) then (r1, [])
                 else (case get_run s r1 of
                     None \<Rightarrow> (r1, [])
                   | Some h1 \<Rightarrow>
                       (case take_run_checkin h1 of
                          (None, _) \<Rightarrow> (r1, [])
                        | (Some resolver, h2, es) \<Rightarrow>
                            (r1\<lparr>runs := map_set s h2 (runs r1)\<rparr>, map Registered es @ [Decide resolver d])))))
      | _ \<Rightarrow> (r, []))"

definition stop_stream :: "access_db \<Rightarrow> (registry \<Rightarrow> registry) \<Rightarrow> js_string \<Rightarrow> js_string \<Rightarrow> registry \<Rightarrow> registry \<times> socket_effect list" where
  "stop_stream db meanwhile user stream r =
     (case get_run stream r of
        None \<Rightarrow> (r, [])
      | Some h \<Rightarrow> (meanwhile r, if may_act_on_run db user (h_conversation h) then [Abort stream] else []))"

fun set_modes :: "permission_mode \<Rightarrow> js_string list \<Rightarrow> registry \<Rightarrow> registry \<times> effect list" where
  "set_modes m [] r = (r, [])"
| "set_modes m (s # ss) r =
     (case mutate s (\<lambda>h. snd (set_run_mode m h)) r of
        (r1, es) \<Rightarrow> (case set_modes m ss r1 of (r2, es') \<Rightarrow> (r2, es @ es')))"

text \<open>\<open>sender\<close> gives the user a run was started by, which no operation changes.\<close>

definition change_run_mode :: "access_db \<Rightarrow> (registry \<Rightarrow> registry) \<Rightarrow> (js_string \<Rightarrow> js_string) \<Rightarrow> js_string \<Rightarrow> js_string option
    \<Rightarrow> permission_mode option \<Rightarrow> registry \<Rightarrow> registry \<times> socket_effect list" where
  "change_run_mode db meanwhile sender user conv mode r =
     (case (conv, mode) of
        (Some c, Some m) \<Rightarrow>
          (let r1 = meanwhile r in
           case resolve_access db user c 0 of
             None \<Rightarrow> (r1, [])
           | Some g \<Rightarrow>
               if grant_kind g \<noteq> AgentKind \<or> \<not> at_least (grant_role g) Editor then (r1, [])
               else
               (let remember = (if grant_role g = Owner then [RememberMode c m] else []) in
                case get_run_by_conversation c r1 of
                  Some h \<Rightarrow>
                    if sender (h_stream h) = user then
                      (case set_modes m (h_stream h # map h_stream (list_child_runs c r1)) r1 of
                         (r2, es) \<Rightarrow> (r2, map Registered es @ remember))
                    else (r1, remember)
                | None \<Rightarrow> (r1, remember)))
      | _ \<Rightarrow> (r, []))"

section \<open>Nothing is done for those who may not\<close>

text \<open>An approval is settled only for someone who may act on the run that holds it, and only one.\<close>

lemma answer_first_settles:
  assumes "answer_first dbs meanwhile user call ok always i hs r = (r', es)" "es \<noteq> []"
  shows "\<exists>j h resolver es'. h \<in> set hs \<and> may_act_on_run (dbs j) user (h_conversation h)
    \<and> es = map Registered es' @ [Settle resolver ok (ok \<and> always)]
    \<and> (\<exists>r1 h1. get_run (h_stream h) r1 = Some h1 \<and> map_of (approvals h1) call = Some resolver
        \<and> (r', es') = mutate (h_stream h) (clear_run_approval call) r1)"
  using assms
proof (induction hs arbitrary: i r)
  case (Cons h hs)
  show ?case
  proof (cases "may_act_on_run (dbs i) user (h_conversation h)")
    case False
    then have "answer_first dbs meanwhile user call ok always (Suc i) hs (meanwhile i r) = (r', es)"
      using Cons.prems(1) by simp
    from Cons.IH [OF this Cons.prems(2)] show ?thesis by (metis list.set_intros(2))
  next
    case True
    obtain h1 resolver where h1: "get_run (h_stream h) (meanwhile i r) = Some h1" "map_of (approvals h1) call = Some resolver"
      using Cons.prems True by (auto simp: Let_def split: option.splits)
    obtain r2 es' where m: "mutate (h_stream h) (clear_run_approval call) (meanwhile i r) = (r2, es')" by fastforce
    have "r' = r2" "es = map Registered es' @ [Settle resolver ok (ok \<and> always)]"
      using Cons.prems True h1 m by (auto simp: Let_def)
    then show ?thesis using True h1 m by (metis list.set_intros(1))
  qed
qed simp


lemma answer_first_refused:
  assumes "\<And>j c. \<not> may_act_on_run (dbs j) user c"
  shows "answer_first dbs meanwhile user call ok always i hs r = (fold meanwhile [i..<i + length hs] r, [])"
  using assms by (induction hs arbitrary: i r) (simp_all add: Let_def upt_conv_Cons del: upt_Suc)

lemma change_run_mode_refused:
  assumes "\<And>c. \<not> may_act_on_run db user c"
  shows "snd (change_run_mode db meanwhile sender user conv mode r) = []
    \<and> fst (change_run_mode db meanwhile sender user conv mode r) \<in> {r, meanwhile r}"
proof -
  have "\<not> at_least (grant_role g) Editor" if g: "resolve_access db user c 0 = Some g" "grant_kind g = AgentKind" for c g
  proof -
    have "acting_role g = grant_role g" using resolve_parent [OF g(1)] g(2) by (simp add: acting_role_def)
    then show ?thesis using assms [of c] g(1) by (simp add: may_act_on_run_def)
  qed
  then show ?thesis
    by (cases conv; cases mode) (auto simp: change_run_mode_def Let_def split: option.splits if_splits)
qed

section \<open>Properties\<close>

text \<open>Someone with no editor's role anywhere changes nothing: whatever fields they send, for whatever run,
  answering an approval, answering a check-in, stopping and switching modes have no effect at all, and leave the registry
  as the rest of the server left it.\<close>

theorem viewer_changes_nothing:
  assumes "\<And>j c. \<not> may_act_on_run (dbs j) user c"
  shows "(\<exists>k. answer_approval dbs meanwhile user call ok stream always r = (fold meanwhile [0..<k] r, []))
    \<and> snd (answer_checkin (dbs j) others valid user stream decision r) = []
    \<and> fst (answer_checkin (dbs j) others valid user stream decision r) \<in> {r, others r}
    \<and> snd (stop_stream (dbs j) others user s r) = []
    \<and> snd (change_run_mode (dbs j) others sender user conv mode r) = []
    \<and> fst (change_run_mode (dbs j) others sender user conv mode r) \<in> {r, others r}"
proof (intro conjI)
  show "\<exists>k. answer_approval dbs meanwhile user call ok stream always r = (fold meanwhile [0..<k] r, [])"
  proof (cases call)
    case None
    then show ?thesis by (intro exI [of _ 0]) (simp add: answer_approval_def)
  next
    case (Some c)
    then show ?thesis
      using answer_first_refused [of dbs user meanwhile c ok always 0, OF assms] by (simp add: answer_approval_def) blast
  qed
  show "snd (answer_checkin (dbs j) others valid user stream decision r) = []"
    "fst (answer_checkin (dbs j) others valid user stream decision r) \<in> {r, others r}"
    using assms by (auto simp: answer_checkin_def Let_def split: option.splits)
  show "snd (stop_stream (dbs j) others user s r) = []"
    using assms by (simp add: stop_stream_def split: option.splits)
  show "snd (change_run_mode (dbs j) others sender user conv mode r) = []"
    "fst (change_run_mode (dbs j) others sender user conv mode r) \<in> {r, others r}"
    using change_run_mode_refused [OF assms] by blast+
qed

theorem viewer_changes_nothing_witness:
  "snd (stop_stream sample_db id ''eve'' ''s'' empty_registry) = []"
proof -
  have "\<not> may_act_on_run sample_db ''eve'' c" for c
    by (simp add: may_act_on_run_def sample_db_def resolve_access.simps)
  from viewer_changes_nothing [of "\<lambda>_. sample_db" "''eve''", OF this] show ?thesis by blast
qed

text \<open>An answer settles at most one approval, one that is pending under the call it names on a run the user may act
  on, and it is removed from that run; a run named by the client is the only one considered.\<close>

theorem approval_settled_once:
  assumes "answer_approval dbs meanwhile user call ok stream always r = (r', es)" "es \<noteq> []"
  shows "\<exists>c j h resolver es'. call = Some c \<and> h \<in> set (approval_candidates c stream r)
    \<and> may_act_on_run (dbs j) user (h_conversation h) \<and> (\<forall>s. stream = Some s \<longrightarrow> get_run s r = Some h)
    \<and> es = map Registered es' @ [Settle resolver ok (ok \<and> always)]
    \<and> (\<exists>r1 h1. get_run (h_stream h) r1 = Some h1 \<and> map_of (approvals h1) c = Some resolver
        \<and> (r', es') = mutate (h_stream h) (clear_run_approval c) r1)"
proof -
  obtain c where c: "call = Some c" using assms by (auto simp: answer_approval_def split: option.splits)
  have a: "answer_first dbs meanwhile user c ok always 0 (approval_candidates c stream r) r = (r', es)"
    using assms(1) c by (simp add: answer_approval_def)
  have "\<forall>s. stream = Some s \<longrightarrow> get_run s r = Some h" if "h \<in> set (approval_candidates c stream r)" for h
    using that by (auto simp: approval_candidates_def split: option.splits if_splits)
  then show ?thesis using answer_first_settles [OF a assms(2)] c by blast
qed


definition asking_run :: handle where
  "asking_run = \<lparr>h_stream = ''s'', h_conversation = SAMPLE_ID, h_model = None, approvals = [(''call_0'', 7)], steps_decision = None,
     h_parent = None, queue_position = None, announced = None, h_mode = None, mode_log = False, mode_listeners = [],
     h_limits = None, limit_listeners = []\<rparr>"

definition asking :: registry where
  "asking = fst (register_run asking_run empty_registry)"

theorem approval_settled_once_witness:
  "\<exists>h \<in> set (approval_candidates ''call_0'' (Some ''s'') asking). may_act_on_run sample_db ''bob'' (h_conversation h)"
proof -
  let ?a = "answer_approval (\<lambda>_. sample_db) (\<lambda>_ r. r) ''bob'' (Some ''call_0'') True (Some ''s'') False asking"
  have "snd ?a = [Registered (Announce SAMPLE_ID), Settle 7 True False]" by code_simp
  then have "snd ?a \<noteq> []" by simp
  from approval_settled_once [OF prod.collapse [symmetric] this] show ?thesis by auto
qed

end
