(* ===== verification/Delivery.thy ===== *)
theory Delivery
  imports Snapshot Systems
begin

text \<open>
  How one socket follows one run (\<open>ws/delivery.ts\<close>), from a subscribe through the catch-up to the live
  events, and what the client makes of the messages (the cursor of \<open>useChatSession.ts\<close>). The stream is its durable
  log, how much of it has been delivered live, and its status. An \<open>await\<close> ends a step, so that records
  are appended and delivered in between. Two subscribes of one stream are not under way at once on a socket.
\<close>

section \<open>Messages and the client\<close>

text \<open>A sync carries the snapshot folded from some events; the model carries the events, and \<open>shown\<close> is what is sent.\<close>

datatype 'e client_msg = Sync nat stream_status "'e list" | Event nat 'e | End nat stream_status

definition shown :: "stream_status \<Rightarrow> int \<Rightarrow> 'x snapshot \<Rightarrow> 'x snapshot" where
  "shown st updated s =
     (if st = Active then s
      else s\<lparr>pending_question := None, pending_checkin := None, subagents := end_stale_sub_agents updated (subagents s)\<rparr>)"

text \<open>The client: the last number it applied, and the events what it shows is made of.\<close>

type_synonym 'e client = "nat option \<times> 'e list"

fun client_step :: "'e client_msg \<Rightarrow> 'e client \<Rightarrow> 'e client" where
  "client_step (Sync n st es) (c, v) = (if st = Active then Some n else c, es)"
| "client_step (Event n e) (c, v) = (if c \<noteq> None \<and> c \<noteq> Some (n - 1) then (c, v) else (Some n, v @ [e]))"
| "client_step (End n st) (c, v) = (c, v)"

section \<open>The socket\<close>

datatype catch_up = CatchUp | TapOnly | ForceSync

datatype 'e stage =
    AwaitRead
  | AwaitMeta "'e stream_record list"
  | AwaitReread stream_status
  | AwaitSync stream_status "'e stream_record list"
  | Following

record 'e tap =
  catch_mode :: catch_up
  from_cursor :: nat
  stage :: "'e stage"
  held :: "'e stream_record list"    \<comment> \<open>\<open>pending\<close>\<close>
  current :: nat
  sync_sent :: bool

text \<open>\<open>clients\<close> is every state the client has been in, the newest first, once it has handled all that was
  sent; \<open>dropped\<close> says that an event was not sent, for backpressure, since the last sync.\<close>

record 'e socket =
  rlog :: "'e stream_record list"
  delivered :: nat
  rstatus :: stream_status
  tap_of :: "'e tap option"
  synced_finished :: bool
  clients :: "'e client list"
  dropped :: bool

definition fresh_socket :: "'e socket" where
  "fresh_socket = \<lparr>rlog = [], delivered = 0, rstatus = Active, tap_of = None, synced_finished = False,
     clients = [(None, [])], dropped = False\<rparr>"

definition client_of :: "'e socket \<Rightarrow> 'e client" where
  "client_of s = hd (clients s)"

definition tell :: "'e client_msg \<Rightarrow> 'e socket \<Rightarrow> 'e socket" where
  "tell m s = s\<lparr>clients := client_step m (client_of s) # clients s\<rparr>"

definition set_tap :: "'e tap \<Rightarrow> 'e socket \<Rightarrow> 'e socket" where
  "set_tap t s = s\<lparr>tap_of := Some t\<rparr>"

text \<open>\<open>forward\<close>; \<open>busy\<close> says for which records the socket's buffer is over \<open>BACKPRESSURE_BYTES\<close>.\<close>

definition forward :: "(nat \<Rightarrow> bool) \<Rightarrow> 'e stream_record \<Rightarrow> 'e socket \<Rightarrow> 'e socket" where
  "forward busy r s =
     (case tap_of s of
        None \<Rightarrow> s
      | Some t \<Rightarrow>
          (let s1 = set_tap (t\<lparr>current := seq r\<rparr>) s in
           if busy (seq r) then s1\<lparr>dropped := True\<rparr> else tell (Event (seq r) (event r)) s1))"

fun forward_new :: "(nat \<Rightarrow> bool) \<Rightarrow> 'e stream_record list \<Rightarrow> 'e socket \<Rightarrow> 'e socket" where
  "forward_new busy [] s = s"
| "forward_new busy (r # rs) s =
     (case tap_of s of
        None \<Rightarrow> s
      | Some t \<Rightarrow> if seq r \<le> current t then forward_new busy rs s else forward_new busy rs (forward busy r s))"

text \<open>\<open>subscribeToStream\<close>, up to its first \<open>await\<close>, and after each.\<close>

definition subscribe_to_stream :: "catch_up \<Rightarrow> nat \<Rightarrow> 'e socket \<Rightarrow> 'e socket" where
  "subscribe_to_stream m cursor s =
     (case tap_of s of
        Some _ \<Rightarrow> s
      | None \<Rightarrow> set_tap \<lparr>catch_mode = m, from_cursor = cursor, stage = AwaitRead, held = [], current = 0, sync_sent = False\<rparr> s)"

definition unsubscribe_stream :: "'e socket \<Rightarrow> 'e socket" where
  "unsubscribe_stream s = s\<lparr>tap_of := None\<rparr>"

definition after_cursor :: "nat \<Rightarrow> 'e stream_record list \<Rightarrow> 'e stream_record list" where
  "after_cursor n rs = filter (\<lambda>r. n < seq r) rs"

definition finish_sync :: "(nat \<Rightarrow> bool) \<Rightarrow> 'e tap \<Rightarrow> stream_status \<Rightarrow> 'e stream_record list \<Rightarrow> 'e socket \<Rightarrow> 'e socket" where
  "finish_sync busy t st records s =
     (let cur = (if records = [] then 0 else seq (last records));
          s1 = set_tap (t\<lparr>current := cur, sync_sent := True, stage := Following, held := []\<rparr>) s;
          s2 = (if from_cursor t < cur \<or> catch_mode t \<noteq> CatchUp
                then (tell (Sync cur st (map event records)) s1)\<lparr>dropped := False\<rparr> else s1);
          s3 = forward_new busy (held t) s2 in
      if st \<noteq> Active then unsubscribe_stream s3 else s3)"

definition continue_tap :: "(nat \<Rightarrow> bool) \<Rightarrow> 'e socket \<Rightarrow> 'e socket" where
  "continue_tap busy s =
     (case tap_of s of
        None \<Rightarrow> s
      | Some t \<Rightarrow>
          (case stage t of
             AwaitRead \<Rightarrow>
               set_tap (t\<lparr>stage := AwaitMeta (after_cursor (if catch_mode t = TapOnly then from_cursor t else 0) (rlog s))\<rparr>) s
           | AwaitMeta records \<Rightarrow>
               if catch_mode t = TapOnly then
                 (if rstatus s = Active then
                    forward_new busy (records @ held t)
                      (set_tap (t\<lparr>current := from_cursor t, sync_sent := True, stage := Following, held := []\<rparr>) s)
                  else set_tap (t\<lparr>stage := AwaitReread (rstatus s)\<rparr>) s)
               else finish_sync busy t (rstatus s) records s
           | AwaitReread st \<Rightarrow> set_tap (t\<lparr>stage := AwaitSync st (after_cursor 0 (rlog s))\<rparr>) s
           | AwaitSync st records \<Rightarrow> finish_sync busy t st records s
           | Following \<Rightarrow> s))"

text \<open>One stream of \<open>handleSubscribe\<close>: \<open>named\<close> says that the client's cursors name it, \<open>newest\<close> and \<open>st\<close> are its metadata.\<close>

definition handle_subscribe :: "bool \<Rightarrow> nat \<Rightarrow> nat \<Rightarrow> stream_status \<Rightarrow> 'e socket \<Rightarrow> 'e socket" where
  "handle_subscribe named cursor newest st s =
     (if newest \<le> cursor then
        (if st = Active then subscribe_to_stream TapOnly cursor s
         else if named \<and> \<not> synced_finished s then subscribe_to_stream ForceSync cursor (s\<lparr>synced_finished := True\<rparr>)
         else s)
      else if st \<noteq> Active then
        (if synced_finished s then s else subscribe_to_stream CatchUp cursor (s\<lparr>synced_finished := True\<rparr>))
      else subscribe_to_stream CatchUp cursor (unsubscribe_stream s))"

text \<open>The live side: a record is delivered to the tap, and the end of the run is told.\<close>

definition deliver_live :: "(nat \<Rightarrow> bool) \<Rightarrow> 'e socket \<Rightarrow> 'e socket" where
  "deliver_live busy s =
     (let r = rlog s ! delivered s; s1 = s\<lparr>delivered := Suc (delivered s)\<rparr> in
      case tap_of s of
        None \<Rightarrow> s1
      | Some t \<Rightarrow> if sync_sent t then forward busy r s1 else set_tap (t\<lparr>held := held t @ [r]\<rparr>) s1)"

definition tell_end :: "'e socket \<Rightarrow> 'e socket" where
  "tell_end s =
     (case tap_of s of
        Some t \<Rightarrow> if stage t = Following then unsubscribe_stream (tell (End (current t) (rstatus s)) s) else s
      | None \<Rightarrow> s)"

definition append_log :: "'e list \<Rightarrow> int \<Rightarrow> 'e socket \<Rightarrow> 'e socket" where
  "append_log es now s = s\<lparr>rlog := rlog s @ number_from (length (rlog s)) now es\<rparr>"

definition reconnect :: "nat \<Rightarrow> 'e socket \<Rightarrow> 'e socket" where
  "reconnect n s = s\<lparr>tap_of := None, synced_finished := False, clients := drop n (clients s)\<rparr>"


section \<open>Steps\<close>

text \<open>
  \<open>safe\<close> is whether an event may be dropped only for a client that already has a cursor. A subscribe's cursor is one the
  client has had; metadata is of the log as it is or was. A run's end is stored once its records are delivered, as the
  producer awaits each append before it.
\<close>

definition cursor_value :: "nat option \<Rightarrow> nat" where
  "cursor_value c = (case c of None \<Rightarrow> 0 | Some n \<Rightarrow> n)"

definition may_drop :: "bool \<Rightarrow> (nat \<Rightarrow> bool) \<Rightarrow> 'e socket \<Rightarrow> bool" where
  "may_drop safe busy s \<longleftrightarrow> (\<forall>n. busy n \<longrightarrow> \<not> safe \<or> fst (client_of s) \<noteq> None)"

definition between_awaits :: "'e socket \<Rightarrow> bool" where
  "between_awaits s \<longleftrightarrow> (case tap_of s of None \<Rightarrow> True | Some t \<Rightarrow> stage t = Following)"

inductive socket_step :: "bool \<Rightarrow> 'e socket \<Rightarrow> 'e socket \<Rightarrow> bool" for safe where
  append: "rstatus s = Active \<Longrightarrow> socket_step safe s (append_log es now s)"
| live: "delivered s < length (rlog s) \<Longrightarrow> may_drop safe busy s \<Longrightarrow> socket_step safe s (deliver_live busy s)"
| finalize: "rstatus s = Active \<Longrightarrow> delivered s = length (rlog s) \<Longrightarrow> st \<noteq> Active \<Longrightarrow>
    socket_step safe s (s\<lparr>rstatus := st\<rparr>)"
| told: "rstatus s \<noteq> Active \<Longrightarrow> socket_step safe s (tell_end s)"
| subscribe: "between_awaits s \<Longrightarrow> cursor \<le> cursor_value (fst (client_of s)) \<Longrightarrow> newest \<le> length (rlog s) \<Longrightarrow>
    st = Active \<or> st = rstatus s \<Longrightarrow> socket_step safe s (handle_subscribe named cursor newest st s)"
| attach: "m \<noteq> TapOnly \<Longrightarrow> socket_step safe s (subscribe_to_stream m 0 s)"
| proceed: "may_drop safe busy s \<Longrightarrow> socket_step safe s (continue_tap busy s)"
| reconnect: "n < length (clients s) \<Longrightarrow> socket_step safe s (reconnect n s)"

end
