(* ===== verification/DeliverySend.thy ===== *)
theory DeliverySend
  imports Delivery
begin

text \<open>
  The invariant of a socket (\<open>Delivery\<close>), and what sending a stretch of the log to its client does.
\<close>

section \<open>Invariant\<close>

text \<open>What a client shows is the log up to somewhere, and its cursor is not past it; while the run is going, it is there.\<close>

definition shows_log :: "'e stream_record list \<Rightarrow> 'e client \<Rightarrow> bool" where
  "shows_log rs x \<longleftrightarrow> (case x of (c, v) \<Rightarrow>
     length v \<le> length rs \<and> v = take (length v) (map event rs) \<and> cursor_value c \<le> length v)"

definition settled :: "'e client \<Rightarrow> bool" where
  "settled x \<longleftrightarrow> (case x of (c, v) \<Rightarrow> length v = cursor_value c)"

definition log_inv :: "'e socket \<Rightarrow> bool" where
  "log_inv s \<longleftrightarrow>
     (\<forall>i < length (rlog s). seq (rlog s ! i) = Suc i) \<and> delivered s \<le> length (rlog s)
     \<and> (rstatus s \<noteq> Active \<longrightarrow> delivered s = length (rlog s))"

definition client_inv :: "'e socket \<Rightarrow> bool" where
  "client_inv s \<longleftrightarrow>
     clients s \<noteq> [] \<and> (\<forall>x \<in> set (clients s). shows_log (rlog s) x \<and> (rstatus s = Active \<longrightarrow> settled x))"

text \<open>The records held back are those delivered since the tap was attached, when \<open>b\<close> had been.\<close>

definition held_inv :: "nat \<Rightarrow> 'e tap \<Rightarrow> 'e socket \<Rightarrow> bool" where
  "held_inv b t s \<longleftrightarrow>
     b \<le> delivered s \<and> held t = drop b (take (delivered s) (rlog s)) \<and> \<not> sync_sent t
     \<and> from_cursor t \<le> cursor_value (fst (client_of s))"

text \<open>The records read are the first \<open>k\<close> of the log, or those of them past the cursor.\<close>

definition read_inv :: "nat \<Rightarrow> nat \<Rightarrow> 'e tap \<Rightarrow> 'e stream_record list \<Rightarrow> 'e socket \<Rightarrow> bool" where
  "read_inv b k t records s \<longleftrightarrow>
     b \<le> k \<and> k \<le> length (rlog s)
     \<and> (if catch_mode t = TapOnly then from_cursor t \<le> k \<and> records = drop (from_cursor t) (take k (rlog s))
        else length (snd (client_of s)) \<le> k \<and> records = take k (rlog s))"

definition tap_inv :: "'e tap \<Rightarrow> 'e socket \<Rightarrow> bool" where
  "tap_inv t s \<longleftrightarrow>
     (case stage t of
        AwaitRead \<Rightarrow> \<exists>b. held_inv b t s
      | AwaitMeta records \<Rightarrow> \<exists>b k. held_inv b t s \<and> read_inv b k t records s
      | AwaitReread st \<Rightarrow> (\<exists>b. held_inv b t s) \<and> catch_mode t \<noteq> CatchUp \<and> st \<noteq> Active \<and> rstatus s \<noteq> Active
      | AwaitSync st records \<Rightarrow>
          (\<exists>b. held_inv b t s) \<and> catch_mode t \<noteq> CatchUp \<and> st \<noteq> Active \<and> rstatus s \<noteq> Active \<and> records = rlog s
      | Following \<Rightarrow>
          sync_sent t \<and> (fst (client_of s) = None \<longrightarrow> delivered s = 0)
          \<and> (\<not> dropped s \<longrightarrow> delivered s \<le> cursor_value (fst (client_of s))))"

definition socket_inv :: "'e socket \<Rightarrow> bool" where
  "socket_inv s \<longleftrightarrow> log_inv s \<and> client_inv s \<and> (case tap_of s of None \<Rightarrow> True | Some t \<Rightarrow> tap_inv t s)"


section \<open>Sending a stretch of the log\<close>

text \<open>The client can take event \<open>m + 1\<close> next: where its cursor lets it in, it shows \<open>m\<close> events.\<close>

definition ready :: "nat \<Rightarrow> 'e socket \<Rightarrow> bool" where
  "ready m s \<longleftrightarrow> (case client_of s of (c, v) \<Rightarrow>
     (c = None \<longrightarrow> length v = m) \<and> (\<forall>n. c = Some n \<longrightarrow> m \<le> n \<longrightarrow> length v = n))"

definition complete :: "nat \<Rightarrow> 'e socket \<Rightarrow> bool" where
  "complete m s \<longleftrightarrow> (\<not> dropped s \<longrightarrow> m \<le> cursor_value (fst (client_of s)))"

definition clients_ok :: "'e socket \<Rightarrow> bool" where
  "clients_ok s \<longleftrightarrow> clients s \<noteq> [] \<and> (\<forall>x \<in> set (clients s). shows_log (rlog s) x)"

definition all_settled :: "'e socket \<Rightarrow> bool" where
  "all_settled s \<longleftrightarrow> (\<forall>x \<in> set (clients s). settled x)"

definition same_stream :: "'e socket \<Rightarrow> 'e socket \<Rightarrow> bool" where
  "same_stream s s' \<longleftrightarrow> rlog s' = rlog s \<and> delivered s' = delivered s \<and> rstatus s' = rstatus s"

text \<open>What sending up to event \<open>b\<close> does, from \<open>s\<close> to \<open>s'\<close>.\<close>

definition sent_to :: "nat \<Rightarrow> nat \<Rightarrow> 'e tap \<Rightarrow> 'e socket \<Rightarrow> 'e socket \<Rightarrow> bool" where
  "sent_to m b t s s' \<longleftrightarrow>
     same_stream s s' \<and> tap_of s' = Some (t\<lparr>current := b\<rparr>) \<and> clients_ok s' \<and> ready b s'
     \<and> (all_settled s \<longrightarrow> all_settled s') \<and> (complete m s \<longrightarrow> complete b s')
     \<and> (fst (client_of s) \<noteq> None \<or> m < b \<longrightarrow> fst (client_of s') \<noteq> None)"

lemma client_in: "clients s \<noteq> [] \<Longrightarrow> client_of s \<in> set (clients s)"
  by (simp add: client_of_def)

lemma take_Suc_event: "m < length rs \<Longrightarrow> take (Suc m) (map event rs) = take m (map event rs) @ [event (rs ! m)]"
  by (simp add: take_Suc_conv_app_nth)

lemma shows_next:
  assumes "shows_log rs (c, v)" "length v = m" "m < length rs"
  shows "shows_log rs (Some (Suc m), v @ [event (rs ! m)])"
  using assms by (auto simp: shows_log_def cursor_value_def take_Suc_event)

lemma send_next:
  assumes log: "seq (rlog s ! m) = Suc m" "m < length (rlog s)"
    and ok: "clients_ok s" "ready m s" and tap: "tap_of s = Some t"
    and drop: "busy (Suc m) \<Longrightarrow> fst (client_of s) \<noteq> None"
  shows "sent_to m (Suc m) t s (forward busy (rlog s ! m) s)"
proof -
  obtain c v where c: "client_of s = (c, v)" by fastforce
  have v: "shows_log (rlog s) (c, v)"
    using ok(1) c client_in [of s] by (auto simp: clients_ok_def)
  have set: "all_settled s \<Longrightarrow> settled (c, v)"
    using ok(1) c client_in [of s] by (auto simp: clients_ok_def all_settled_def)
  show ?thesis
  proof (cases "busy (Suc m)")
    case True
    then have f: "forward busy (rlog s ! m) s = s\<lparr>tap_of := Some (t\<lparr>current := Suc m\<rparr>), dropped := True\<rparr>"
      using log tap by (simp add: forward_def set_tap_def)
    show ?thesis
      unfolding f sent_to_def
      using ok drop [OF True] by (auto simp: same_stream_def clients_ok_def ready_def all_settled_def complete_def client_of_def)
  next
    case False
    then have f: "forward busy (rlog s ! m) s = s\<lparr>tap_of := Some (t\<lparr>current := Suc m\<rparr>),
        clients := client_step (Event (Suc m) (event (rlog s ! m))) (c, v) # clients s\<rparr>"
      using log tap c by (simp add: forward_def set_tap_def tell_def client_of_def)
    show ?thesis
    proof (cases "c = None \<or> c = Some m")
      case True
      then have l: "length v = m" using ok(2) c by (auto simp: ready_def)
      have "settled (c, v) \<Longrightarrow> settled (Some (Suc m), v @ [event (rlog s ! m)])"
        using l by (simp add: settled_def cursor_value_def)
      then show ?thesis
        unfolding f sent_to_def
        using True ok(1) c shows_next [OF v l log(2)] l
        by (auto simp: same_stream_def clients_ok_def ready_def all_settled_def complete_def client_of_def cursor_value_def settled_def)
    next
      case no: False
      then have "client_step (Event (Suc m) (event (rlog s ! m))) (c, v) = (c, v)" by simp
      then show ?thesis
        unfolding f sent_to_def
        using no ok c v set
        by (auto simp: same_stream_def clients_ok_def ready_def all_settled_def complete_def client_of_def cursor_value_def)
    qed
  qed
qed


lemma sent_none: "clients_ok s \<Longrightarrow> ready m s \<Longrightarrow> tap_of s = Some t \<Longrightarrow> current t = m \<Longrightarrow> sent_to m m t s s"
  by (auto simp: sent_to_def same_stream_def)

lemma sent_trans:
  assumes "sent_to m k t s s1" "sent_to k b (t\<lparr>current := k\<rparr>) s1 s2"
  shows "sent_to m b t s s2"
  using assms by (auto simp: sent_to_def same_stream_def)

lemma forward_seg:
  assumes "\<forall>i < length (rlog s). seq (rlog s ! i) = Suc i" "m \<le> b" "b \<le> length (rlog s)"
    and "clients_ok s" "ready m s" "tap_of s = Some t" "current t = m"
    and "\<forall>n. busy n \<longrightarrow> fst (client_of s) \<noteq> None"
  shows "sent_to m b t s (forward_new busy (drop m (take b (rlog s))) s)"
  using assms
proof (induction "b - m" arbitrary: m s t)
  case 0
  then show ?case by (simp add: sent_none)
next
  case (Suc n)
  then have m: "m < length (rlog s)" "m < b" by simp_all
  let ?r = "rlog s ! m" and ?s = "forward busy (rlog s ! m) s"
  have d: "drop m (take b (rlog s)) = ?r # drop (Suc m) (take b (rlog s))"
    using m Suc.prems(3) by (simp add: Cons_nth_drop_Suc [symmetric])
  have q: "seq ?r = Suc m" using Suc.prems(1) m by blast
  have one: "sent_to m (Suc m) t s ?s"
    using Suc.prems m q by (intro send_next) auto
  then have st: "rlog ?s = rlog s" "tap_of ?s = Some (t\<lparr>current := Suc m\<rparr>)" "clients_ok ?s" "ready (Suc m) ?s"
      "fst (client_of ?s) \<noteq> None"
    by (auto simp: sent_to_def same_stream_def)
  have "sent_to (Suc m) b (t\<lparr>current := Suc m\<rparr>) ?s (forward_new busy (drop (Suc m) (take b (rlog ?s))) ?s)"
    using Suc.hyps(2) Suc.prems st by (intro Suc.hyps(1)) auto
  moreover have "forward_new busy (drop m (take b (rlog s))) s = forward_new busy (drop (Suc m) (take b (rlog ?s))) ?s"
    unfolding d st(1) using Suc.prems(6,7) q by simp
  ultimately show ?case using one by (simp add: sent_trans)
qed

lemma forward_skip: "tap_of s = Some t \<Longrightarrow> \<forall>r \<in> set rs. seq r \<le> current t \<Longrightarrow> forward_new busy rs s = s"
  by (induction rs) auto

lemma forward_append:
  "forward_new busy (xs @ ys) s = forward_new busy ys (forward_new busy xs s)"
proof (induction xs arbitrary: s)
  case (Cons r xs)
  show ?case
  proof (cases "tap_of s")
    case None
    then have "forward_new busy zs s = s" for zs by (cases zs) simp_all
    then show ?thesis using None by simp
  qed (use Cons in auto)
qed simp

lemma take_stretch: "a \<le> m \<Longrightarrow> m \<le> b \<Longrightarrow> b \<le> length xs \<Longrightarrow> drop a (take b xs) = drop a (take m xs) @ drop m (take b xs)"
proof -
  assume a: "a \<le> m" "m \<le> b" "b \<le> length xs"
  have "take b xs = take m xs @ drop m (take b xs)"
    using append_take_drop_id [of m "take b xs"] a(2) by (simp add: min_def)
  then have "drop a (take b xs) = drop a (take m xs @ drop m (take b xs))" by (rule arg_cong)
  then show ?thesis using a by simp
qed

text \<open>A stretch that may begin before what is already sent: the records behind are passed over.\<close>

lemma forward_held:
  assumes log: "\<forall>i < length (rlog s). seq (rlog s ! i) = Suc i" and "a \<le> m" "b \<le> length (rlog s)"
    and ok: "clients_ok s" "ready m s" "tap_of s = Some t" "current t = m"
    and busy: "\<forall>n. busy n \<longrightarrow> fst (client_of s) \<noteq> None"
  shows "sent_to m (max m b) t s (forward_new busy (drop a (take b (rlog s))) s)"
proof -
  have q: "seq r \<le> k" if "r \<in> set (take k (rlog s))" for r k
    using that log by (auto simp: in_set_conv_nth)
  show ?thesis
  proof (cases "b \<le> m")
    case True
    then have "\<forall>r \<in> set (drop a (take b (rlog s))). seq r \<le> current t"
      using q ok(4) by (meson in_set_dropD le_trans)
    then show ?thesis using True ok by (simp add: forward_skip sent_none max_def)
  next
    case False
    have "drop a (take b (rlog s)) = drop a (take m (rlog s)) @ drop m (take b (rlog s))"
      using False assms(2,3) by (intro take_stretch) simp_all
    moreover have "\<forall>r \<in> set (drop a (take m (rlog s))). seq r \<le> current t"
      using q ok(4) by (meson in_set_dropD)
    ultimately show ?thesis
      using forward_seg [OF log _ assms(3) ok busy] False ok by (simp add: forward_append forward_skip max_def)
  qed
qed

end
