(* ===== verification/DeliverySafe.thy ===== *)
theory DeliverySafe
  imports DeliverySend
begin

text \<open>
  Every step of a socket keeps its invariant, and what it gives: a client only ever shows the log up to
  somewhere, and all of it once everything is delivered.
\<close>

section \<open>The log\<close>

lemma numbered_append_log:
  assumes "\<forall>i < length rs. seq (rs ! i) = Suc i" "i < length (rs @ number_from (length rs) now es)"
  shows "seq ((rs @ number_from (length rs) now es) ! i) = Suc i"
  using assms by (auto simp: nth_append number_from_def)

lemma after_cursor_numbered:
  assumes "\<forall>i < length rs. seq (rs ! i) = Suc i"
  shows "after_cursor n rs = drop n rs"
proof -
  have "after_cursor n rs = filter (\<lambda>r. n < seq r) (take n rs) @ filter (\<lambda>r. n < seq r) (drop n rs)"
    unfolding after_cursor_def by (metis append_take_drop_id filter_append)
  moreover have "filter (\<lambda>r. n < seq r) (take n rs) = []"
    using assms by (auto simp: filter_empty_conv in_set_conv_nth)
  moreover have "filter (\<lambda>r. n < seq r) (drop n rs) = drop n rs"
    using assms by (auto simp: filter_id_conv in_set_conv_nth)
  ultimately show ?thesis by simp
qed

lemma last_numbered:
  assumes "\<forall>i < length rs. seq (rs ! i) = Suc i" "k \<le> length rs"
  shows "(if take k rs = [] then 0 else seq (last (take k rs))) = k"
proof (cases k)
  case (Suc j)
  then show ?thesis using assms by (auto simp: last_conv_nth min_def)
qed simp

lemma shows_log_append: "shows_log rs x \<Longrightarrow> shows_log (rs @ ys) x"
  by (auto simp: shows_log_def)

section \<open>Every step but the subscribe's own\<close>

lemmas socket_defs = socket_inv_def log_inv_def client_inv_def

lemma append_keeps:
  assumes "socket_inv s" "rstatus s = Active"
  shows "socket_inv (append_log es now s)"
proof -
  let ?s = "append_log es now s"
  have s: "rlog ?s = rlog s @ number_from (length (rlog s)) now es" "delivered ?s = delivered s" "rstatus ?s = Active"
      "clients ?s = clients s" "tap_of ?s = tap_of s" "dropped ?s = dropped s"
    using assms(2) by (simp_all add: append_log_def)
  have cl: "client_of ?s = client_of s" by (simp add: client_of_def s)
  have l: "log_inv s" and c: "client_inv s" using assms(1) by (simp_all add: socket_inv_def)
  have "log_inv ?s"
    using l numbered_append_log [of "rlog s" _ now es] assms(2) by (simp add: log_inv_def s)
  moreover have "client_inv ?s"
    using c assms(2) by (auto simp: client_inv_def s intro: shows_log_append simp del: split_paired_All)
  moreover have "tap_inv t ?s" if t: "tap_of s = Some t" for t
  proof -
    have i: "tap_inv t s" using assms(1) t by (simp add: socket_inv_def)
    have d: "take n (rlog s @ x) = take n (rlog s)" if "n \<le> length (rlog s)" for n x using that by simp
    have h: "held_inv b t ?s" if "held_inv b t s" for b
      using that l d by (simp add: held_inv_def s client_of_def log_inv_def)
    have r: "read_inv b k t records ?s" if "read_inv b k t records s" for b k records
      using that d by (simp add: read_inv_def s cl)
    show ?thesis
      using i assms(2) by (cases "stage t") (simp_all add: tap_inv_def s cl, (blast intro: h r)+)
  qed
  ultimately show ?thesis by (simp add: socket_inv_def s split: option.split)
qed

lemma active_ready:
  assumes "socket_inv s" "rstatus s = Active" "m \<le> cursor_value (fst (client_of s))" 
  shows "ready m s"
proof -
  have "settled (client_of s)" using assms(1,2) client_in [of s] by (auto simp: socket_inv_def client_inv_def)
  then show ?thesis using assms(3) by (auto simp: settled_def ready_def cursor_value_def split: option.splits)
qed

lemma clients_ok_inv: "socket_inv s \<Longrightarrow> clients_ok s"
  by (auto simp: socket_inv_def client_inv_def clients_ok_def)

lemma all_settled_inv: "socket_inv s \<Longrightarrow> rstatus s = Active \<Longrightarrow> all_settled s"
  by (auto simp: socket_inv_def client_inv_def all_settled_def)

text \<open>What a tap that follows needs, from what sending gives.\<close>

lemma following_inv:
  assumes "log_inv s'" "clients_ok s'" "rstatus s' = Active \<Longrightarrow> all_settled s'"
    and "tap_of s' = Some t" "stage t = Following" "sync_sent t"
    and "fst (client_of s') = None \<longrightarrow> delivered s' = 0" "complete (delivered s') s'"
  shows "socket_inv s'"
  using assms by (auto simp: socket_inv_def client_inv_def clients_ok_def all_settled_def tap_inv_def complete_def)

lemma live_keeps:
  assumes inv: "socket_inv s" and d: "delivered s < length (rlog s)" and safe: "may_drop True busy s"
  shows "socket_inv (deliver_live busy s)"
proof -
  have l: "log_inv s" using inv by (simp add: socket_inv_def)
  then have act: "rstatus s = Active" using d by (auto simp: log_inv_def)
  have q: "seq (rlog s ! delivered s) = Suc (delivered s)" using l d by (simp add: log_inv_def)
  let ?r = "rlog s ! delivered s" and ?s1 = "s\<lparr>delivered := Suc (delivered s)\<rparr>"
  have l1: "log_inv ?s1" using l d act by (simp add: log_inv_def)
  have c1: "client_inv ?s1" using inv by (simp add: socket_inv_def client_inv_def)
  show ?thesis
  proof (cases "tap_of s")
    case None
    then show ?thesis using l1 c1 by (simp add: deliver_live_def Let_def socket_inv_def)
  next
    case (Some t)
    then have i: "tap_inv t s" using inv by (simp add: socket_inv_def)
    show ?thesis
    proof (cases "sync_sent t")
      case False
      let ?t = "t\<lparr>held := held t @ [?r]\<rparr>" and ?s = "set_tap (t\<lparr>held := held t @ [?r]\<rparr>) ?s1"
      have e: "deliver_live busy s = ?s" using Some False by (simp add: deliver_live_def Let_def)
      have same: "rlog ?s = rlog s" "rstatus ?s = rstatus s" "client_of ?s = client_of s" "tap_of ?s = Some ?t"
        by (simp_all add: set_tap_def client_of_def)
      have h: "held_inv b ?t ?s" if "held_inv b t s" for b
        using that d by (simp add: held_inv_def set_tap_def client_of_def take_Suc_conv_app_nth)
      have r: "read_inv b k ?t records ?s \<longleftrightarrow> read_inv b k t records s" for b k records
        by (simp add: read_inv_def same)
      have "tap_inv ?t ?s"
        using i act False h r by (cases "stage t") (auto simp: tap_inv_def)
      then show ?thesis
        unfolding e socket_inv_def using l1 c1 by (simp add: same set_tap_def log_inv_def client_inv_def)
    next
      case True
      then have st: "stage t = Following" using i by (cases "stage t") (auto simp: tap_inv_def held_inv_def)
      have n: "fst (client_of s) = None \<longrightarrow> delivered s = 0" and cm: "complete (delivered s) s"
        using i st by (auto simp: tap_inv_def complete_def)
      have e: "deliver_live busy s = forward busy ?r ?s1" using Some True by (simp add: deliver_live_def Let_def)
      have set: "settled (client_of s)" using inv act client_in [of s] by (auto simp: socket_inv_def client_inv_def)
      have r: "ready (delivered s) ?s1"
        using set n by (auto simp: ready_def settled_def client_of_def cursor_value_def)
      have "sent_to (delivered s) (Suc (delivered s)) t ?s1 (forward busy (rlog ?s1 ! delivered s) ?s1)"
        by (rule send_next)
          (use q d r Some clients_ok_inv [OF inv] safe in \<open>auto simp: clients_ok_def may_drop_def client_of_def\<close>)
      then have snt: "sent_to (delivered s) (Suc (delivered s)) t ?s1 (forward busy ?r ?s1)" by simp
      have as: "all_settled ?s1" "complete (delivered s) ?s1"
        using all_settled_inv [OF inv act] cm by (simp_all add: all_settled_def complete_def client_of_def)
      let ?s = "forward busy ?r ?s1"
      have f: "same_stream ?s1 ?s" "tap_of ?s = Some (t\<lparr>current := Suc (delivered s)\<rparr>)" "clients_ok ?s" "all_settled ?s"
          "complete (Suc (delivered s)) ?s" "fst (client_of ?s) \<noteq> None"
        using snt as by (simp_all add: sent_to_def)
      show ?thesis
        unfolding e
        by (rule following_inv [of _ "t\<lparr>current := Suc (delivered s)\<rparr>"])
          (use f l1 st True act in \<open>simp_all add: same_stream_def log_inv_def\<close>)
    qed
  qed
qed

lemma finalize_keeps:
  assumes "socket_inv s" "rstatus s = Active" "delivered s = length (rlog s)" "st \<noteq> Active"
  shows "socket_inv (s\<lparr>rstatus := st\<rparr>)"
proof -
  let ?s = "s\<lparr>rstatus := st\<rparr>"
  have "tap_inv t ?s" if t: "tap_of s = Some t" for t
  proof -
    have i: "tap_inv t s" using assms(1) t by (simp add: socket_inv_def)
    have h: "held_inv b t ?s = held_inv b t s" for b by (simp add: held_inv_def client_of_def)
    have r: "read_inv b k t records ?s = read_inv b k t records s" for b k records by (simp add: read_inv_def client_of_def)
    show ?thesis using i assms(2) by (cases "stage t") (simp_all add: tap_inv_def h r client_of_def)
  qed
  then show ?thesis using assms by (simp add: socket_inv_def log_inv_def client_inv_def split: option.split)
qed

lemma told_keeps:
  assumes "socket_inv s" "rstatus s \<noteq> Active"
  shows "socket_inv (tell_end s)"
proof (cases "\<exists>t. tap_of s = Some t \<and> stage t = Following")
  case True
  then obtain t where t: "tap_of s = Some t" "stage t = Following" by blast
  obtain c v where c: "client_of s = (c, v)" by fastforce
  have "clients s \<noteq> []" using assms(1) by (simp add: socket_inv_def client_inv_def)
  from client_in [OF this] show ?thesis
    using assms t c
    by (simp add: tell_end_def unsubscribe_stream_def tell_def socket_inv_def log_inv_def client_inv_def)
next
  case False
  then have "tell_end s = s" by (auto simp: tell_end_def split: option.split)
  then show ?thesis using assms(1) by simp
qed

lemma fresh_tap_keeps:
  assumes "socket_inv s" "cursor \<le> cursor_value (fst (client_of s))"
  shows "socket_inv (subscribe_to_stream m cursor s)"
proof (cases "tap_of s")
  case None
  let ?t = "\<lparr>catch_mode = m, from_cursor = cursor, stage = AwaitRead, held = [], current = 0, sync_sent = False\<rparr>"
  have "delivered s \<le> length (rlog s)" using assms(1) by (simp add: socket_inv_def log_inv_def)
  then have "held_inv (delivered s) ?t (set_tap ?t s)"
    using assms(2) by (simp add: held_inv_def set_tap_def client_of_def)
  then have "tap_inv ?t (set_tap ?t s)" by (auto simp: tap_inv_def)
  then show ?thesis
    using None assms(1) by (simp add: subscribe_to_stream_def socket_inv_def set_tap_def log_inv_def client_inv_def)
qed (use assms in \<open>simp add: subscribe_to_stream_def\<close>)

lemma synced_inv [simp]: "socket_inv (s\<lparr>synced_finished := x\<rparr>) \<longleftrightarrow> socket_inv s"
proof -
  have h: "held_inv b t (s\<lparr>synced_finished := x\<rparr>) \<longleftrightarrow> held_inv b t s" for b t
    by (simp add: held_inv_def client_of_def)
  have r: "read_inv b k t records (s\<lparr>synced_finished := x\<rparr>) \<longleftrightarrow> read_inv b k t records s" for b k t records
    by (simp add: read_inv_def client_of_def)
  have "tap_inv t (s\<lparr>synced_finished := x\<rparr>) \<longleftrightarrow> tap_inv t s" for t
    by (cases "stage t") (simp_all add: tap_inv_def h r client_of_def)
  then show ?thesis by (simp add: socket_inv_def log_inv_def client_inv_def split: option.split)
qed

lemma unsubscribe_keeps: "socket_inv s \<Longrightarrow> socket_inv (unsubscribe_stream s)"
  by (simp add: unsubscribe_stream_def socket_inv_def log_inv_def client_inv_def)

lemma client_kept [simp]: "client_of (s\<lparr>synced_finished := x\<rparr>) = client_of s" "client_of (unsubscribe_stream s) = client_of s"
    "client_of (set_tap t s) = client_of s"
  by (simp_all add: client_of_def unsubscribe_stream_def set_tap_def)

lemma subscribe_keeps:
  assumes "socket_inv s" "cursor \<le> cursor_value (fst (client_of s))"
  shows "socket_inv (handle_subscribe named cursor newest st s)"
  using assms by (auto simp: handle_subscribe_def intro!: fresh_tap_keeps unsubscribe_keeps)

lemma reconnect_keeps:
  assumes "socket_inv s" "n < length (clients s)"
  shows "socket_inv (reconnect n s)"
  using assms by (auto simp: reconnect_def socket_inv_def log_inv_def client_inv_def dest: in_set_dropD)

section \<open>The subscribe's own steps\<close>

lemma finish_keeps:
  fixes s :: "'e socket"
  assumes inv: "socket_inv s" and tap: "tap_of s = Some t" and safe: "may_drop True busy s"
    and held: "held_inv b t s" and k: "b \<le> k" "k \<le> length (rlog s)" "length (snd (client_of s)) \<le> k"
    and all: "st = Active \<Longrightarrow> rstatus s = Active" "rstatus s = Active \<Longrightarrow> st = Active"
  shows "socket_inv (finish_sync busy t st (take k (rlog s)) s)"
proof -
  have l: "log_inv s" and ci: "client_inv s" using inv by (simp_all add: socket_inv_def)
  then have num: "\<forall>i < length (rlog s). seq (rlog s ! i) = Suc i" and dl: "delivered s \<le> length (rlog s)"
    by (simp_all add: log_inv_def)
  obtain c v where cv: "client_of s = (c, v)" by fastforce
  have ne: "clients s \<noteq> []" using ci by (simp add: client_inv_def)
  have sv: "shows_log (rlog s) (c, v)" and st_v: "rstatus s = Active \<Longrightarrow> settled (c, v)"
    using ci client_in [OF ne] cv by (auto simp: client_inv_def)
  have cur: "cursor_value c \<le> length v" "length v \<le> k" using sv k(3) cv by (auto simp: shows_log_def)
  let ?t = "t\<lparr>current := k, sync_sent := True, stage := Following, held := []\<rparr>"
  let ?s1 = "set_tap ?t s"
  let ?sync = "from_cursor t < k \<or> catch_mode t \<noteq> CatchUp"
  let ?s2 = "if ?sync then (tell (Sync k st (map event (take k (rlog s)))) ?s1)\<lparr>dropped := False\<rparr> else ?s1"
  let ?s3 = "forward_new busy (held t) ?s2"
  have fin: "finish_sync busy t st (take k (rlog s)) s = (if st \<noteq> Active then unsubscribe_stream ?s3 else ?s3)"
    unfolding finish_sync_def Let_def last_numbered [OF num k(2)] ..
  let ?x = "(if st = Active then Some k else c, map event (take k (rlog s)))"
  have c2: "client_of ?s2 = (if ?sync then ?x else (c, v))"
    using cv by (simp add: tell_def client_of_def set_tap_def)
  have same: "rlog ?s2 = rlog s" "delivered ?s2 = delivered s" "rstatus ?s2 = rstatus s" "tap_of ?s2 = Some ?t"
      "clients ?s2 = (if ?sync then ?x # clients s else clients s)"
    using cv by (simp_all add: tell_def set_tap_def client_of_def)
  have x: "shows_log (rlog s) ?x"
    using cur k(2) by (auto simp: shows_log_def cursor_value_def take_map min_def)
  have ok: "clients_ok ?s2"
    using ne ci x by (auto simp: clients_ok_def same client_inv_def)
  have nosync: "c = Some k \<and> length v = k \<or> c = None \<and> v = [] \<and> k = 0" if "\<not> ?sync"
  proof -
    have "k \<le> from_cursor t" using that by simp
    then have "k \<le> cursor_value c" using held cv by (simp add: held_inv_def)
    then show ?thesis using cur by (cases c) (auto simp: cursor_value_def)
  qed
  have ready: "ready k ?s2"
    using c2 nosync cur k(2) by (auto simp: ready_def cursor_value_def)
  have sett: "all_settled ?s2" if "rstatus s = Active"
    using that ci all(2) k(2) by (auto simp: all_settled_def same client_inv_def settled_def cursor_value_def)
  have cmp: "complete k ?s2" if "st = Active"
    using that c2 nosync by (auto simp: complete_def cursor_value_def)
  have busy: "\<forall>n. busy n \<longrightarrow> fst (client_of ?s2) \<noteq> None"
    using safe cv c2 by (auto simp: may_drop_def)
  have "sent_to k (max k (delivered s)) ?t ?s2 (forward_new busy (drop b (take (delivered s) (rlog ?s2))) ?s2)"
    by (rule forward_held) (use num k dl ok ready busy same in simp_all)
  moreover have "held t = drop b (take (delivered s) (rlog ?s2))" using held by (simp only: held_inv_def same)
  ultimately have snt: "sent_to k (max k (delivered s)) ?t ?s2 ?s3" by simp
  then have f: "same_stream ?s2 ?s3" "tap_of ?s3 = Some (?t\<lparr>current := max k (delivered s)\<rparr>)" "clients_ok ?s3"
    and g: "rstatus s = Active \<Longrightarrow> all_settled ?s3" "st = Active \<Longrightarrow> complete (max k (delivered s)) ?s3"
      "fst (client_of ?s2) \<noteq> None \<or> k < delivered s \<Longrightarrow> fst (client_of ?s3) \<noteq> None"
    using sett cmp by (auto simp: sent_to_def)
  have s3: "rlog ?s3 = rlog s" "delivered ?s3 = delivered s" "rstatus ?s3 = rstatus s"
    using f(1) same by (simp_all only: same_stream_def)
  have l3: "log_inv ?s3" using l by (simp add: log_inv_def s3)
  show ?thesis
  proof (cases "st = Active")
    case True
    have n: "fst (client_of ?s3) = None \<longrightarrow> delivered ?s3 = 0"
    proof
      assume none: "fst (client_of ?s3) = None"
      have "fst (client_of ?s2) = None" "\<not> k < delivered s" using g(3) none by blast+
      then have "fst (client_of ?s2) = None" "delivered s \<le> k" by (simp_all only: not_less)
      then have "k = 0" using c2 True nosync by (auto split: if_splits)
      then show "delivered ?s3 = 0" using \<open>delivered s \<le> k\<close> s3 by simp
    qed
    have cm: "complete (delivered ?s3) ?s3" using g(2) [OF True] s3 by (auto simp: complete_def)
    have "socket_inv ?s3"
      by (rule following_inv [OF l3 f(3) _ f(2)]) (use g(1) s3 n cm in simp_all)
    then show ?thesis using True fin by simp
  next
    case False
    then have na: "rstatus s \<noteq> Active" using all(2) by blast
    have "client_inv ?s3" using f(3) na s3 by (simp add: client_inv_def clients_ok_def)
    then have "socket_inv (unsubscribe_stream ?s3)"
      using l3 by (simp add: unsubscribe_stream_def socket_inv_def log_inv_def client_inv_def)
    then show ?thesis using False fin by simp
  qed
qed

lemma tap_only_keeps:
  assumes inv: "socket_inv s" and tap: "tap_of s = Some t" and safe: "may_drop True busy s"
    and act: "rstatus s = Active" and held: "held_inv b t s" and k: "b \<le> k" "k \<le> length (rlog s)" "from_cursor t \<le> k"
  shows "socket_inv (forward_new busy (drop (from_cursor t) (take k (rlog s)) @ held t)
      (set_tap (t\<lparr>current := from_cursor t, sync_sent := True, stage := Following, held := []\<rparr>) s))"
proof -
  let ?f = "from_cursor t"
  let ?t = "t\<lparr>current := ?f, sync_sent := True, stage := Following, held := []\<rparr>"
  let ?s1 = "set_tap ?t s"
  have l: "log_inv s" using inv by (simp add: socket_inv_def)
  then have num: "\<forall>i < length (rlog s). seq (rlog s ! i) = Suc i" and dl: "delivered s \<le> length (rlog s)"
    by (simp_all add: log_inv_def)
  have cur: "?f \<le> cursor_value (fst (client_of s))" using held by (simp add: held_inv_def)
  have same: "rlog ?s1 = rlog s" "delivered ?s1 = delivered s" "rstatus ?s1 = rstatus s" "tap_of ?s1 = Some ?t"
      "client_of ?s1 = client_of s" "clients ?s1 = clients s" "dropped ?s1 = dropped s"
    by (simp_all add: set_tap_def client_of_def)
  have ok: "clients_ok ?s1" "ready ?f ?s1" "all_settled ?s1" "complete ?f ?s1"
    using clients_ok_inv [OF inv] active_ready [OF inv act cur] all_settled_inv [OF inv act] cur
    by (simp_all add: clients_ok_def ready_def all_settled_def complete_def same)
  have busy: "\<forall>n. busy n \<longrightarrow> fst (client_of ?s1) \<noteq> None" using safe by (auto simp: may_drop_def same)
  let ?s2 = "forward_new busy (drop ?f (take k (rlog s))) ?s1"
  have "sent_to ?f k ?t ?s1 (forward_new busy (drop ?f (take k (rlog ?s1))) ?s1)"
    by (rule forward_seg) (use num k ok busy same in simp_all)
  then have one: "sent_to ?f k ?t ?s1 ?s2" by (simp only: same)
  then have s2: "rlog ?s2 = rlog s" "delivered ?s2 = delivered s" "tap_of ?s2 = Some (?t\<lparr>current := k\<rparr>)" "clients_ok ?s2"
      "ready k ?s2" and nn: "fst (client_of ?s1) \<noteq> None \<or> ?f < k \<Longrightarrow> fst (client_of ?s2) \<noteq> None"
    by (simp_all add: sent_to_def same_stream_def same)
  have busy2: "\<forall>n. busy n \<longrightarrow> fst (client_of ?s2) \<noteq> None" using busy nn by blast
  let ?s3 = "forward_new busy (held t) ?s2"
  have "sent_to k (max k (delivered s)) (?t\<lparr>current := k\<rparr>) ?s2 (forward_new busy (drop b (take (delivered s) (rlog ?s2))) ?s2)"
    by (rule forward_held) (use num k dl s2 busy2 in simp_all)
  moreover have "held t = drop b (take (delivered s) (rlog ?s2))" using held by (simp only: held_inv_def s2)
  ultimately have "sent_to k (max k (delivered s)) (?t\<lparr>current := k\<rparr>) ?s2 ?s3" by simp
  with one have snt: "sent_to ?f (max k (delivered s)) ?t ?s1 ?s3" by (rule sent_trans)
  then have f: "tap_of ?s3 = Some (?t\<lparr>current := max k (delivered s)\<rparr>)" "clients_ok ?s3" "all_settled ?s3"
      "complete (max k (delivered s)) ?s3"
      "rlog ?s3 = rlog s" "delivered ?s3 = delivered s" "rstatus ?s3 = rstatus s"
    and g: "fst (client_of ?s1) \<noteq> None \<or> ?f < max k (delivered s) \<Longrightarrow> fst (client_of ?s3) \<noteq> None"
    using ok by (simp_all add: sent_to_def same_stream_def same)
  have l3: "log_inv ?s3" using l by (simp add: log_inv_def f)
  have n: "fst (client_of ?s3) = None \<longrightarrow> delivered ?s3 = 0"
  proof
    assume none: "fst (client_of ?s3) = None"
    have "fst (client_of ?s1) = None" using g none by blast
    then have "?f = 0" using cur by (simp add: same cursor_value_def)
    moreover have "\<not> ?f < max k (delivered s)" using g none by blast
    ultimately show "delivered ?s3 = 0" using f(6) by simp
  qed
  have cm: "complete (delivered ?s3) ?s3" using f(4,6) by (auto simp: complete_def)
  have "socket_inv ?s3"
    by (rule following_inv [OF l3 f(2) _ f(1)]) (use f n cm in simp_all)
  then show ?thesis by (simp only: forward_append)
qed

lemma proceed_keeps:
  assumes inv: "socket_inv s" and safe: "may_drop True busy s"
  shows "socket_inv (continue_tap busy s)"
proof (cases "tap_of s")
  case None
  then show ?thesis using inv by (simp add: continue_tap_def)
next
  case (Some t)
  have l: "log_inv s" and ci: "client_inv s" using inv by (simp_all add: socket_inv_def)
  then have num: "\<forall>i < length (rlog s). seq (rlog s ! i) = Suc i" and dl: "delivered s \<le> length (rlog s)"
    by (simp_all add: log_inv_def)
  have ti: "tap_inv t s" using inv Some by (simp add: socket_inv_def)
  have "client_of s \<in> set (clients s)" using ci by (simp add: client_inv_def client_in)
  then have "shows_log (rlog s) (client_of s)" using ci by (auto simp: client_inv_def)
  then have len: "length (snd (client_of s)) \<le> length (rlog s)" "cursor_value (fst (client_of s)) \<le> length (rlog s)"
    by (auto simp: shows_log_def split: prod.splits)
  have set_keeps: "socket_inv (set_tap t' s)" if "tap_inv t' (set_tap t' s)" for t'
    using that l ci by (simp add: socket_inv_def set_tap_def log_inv_def client_inv_def)
  have h: "held_inv b (t\<lparr>stage := x\<rparr>) (set_tap t' s) \<longleftrightarrow> held_inv b t s" for b x t'
    by (simp add: held_inv_def) (simp add: set_tap_def)
  show ?thesis
  proof (cases "stage t")
    case AwaitRead
    let ?n = "if catch_mode t = TapOnly then from_cursor t else 0"
    let ?t = "t\<lparr>stage := AwaitMeta (drop ?n (rlog s))\<rparr>"
    obtain b where b: "held_inv b t s" using ti AwaitRead by (auto simp: tap_inv_def)
    then have "b \<le> length (rlog s)" "from_cursor t \<le> length (rlog s)" using dl len(2) by (simp_all add: held_inv_def)
    then have "read_inv b (length (rlog s)) ?t (drop ?n (rlog s)) (set_tap ?t s)"
      using len(1) by (simp add: read_inv_def) (simp add: set_tap_def)
    then have "\<exists>b k. held_inv b t s \<and> read_inv b k ?t (drop ?n (rlog s)) (set_tap ?t s)" using b by blast
    then have "tap_inv ?t (set_tap ?t s)" by (simp add: tap_inv_def h)
    then show ?thesis
      using set_keeps Some AwaitRead after_cursor_numbered [OF num] by (simp add: continue_tap_def)
  next
    case (AwaitMeta records)
    obtain b k where b: "held_inv b t s" and r: "read_inv b k t records s" using ti AwaitMeta by (auto simp: tap_inv_def)
    show ?thesis
    proof (cases "catch_mode t = TapOnly")
      case True
      then have k: "b \<le> k" "k \<le> length (rlog s)" "from_cursor t \<le> k" "records = drop (from_cursor t) (take k (rlog s))"
        using r by (simp_all add: read_inv_def)
      show ?thesis
      proof (cases "rstatus s = Active")
        case act: True
        from tap_only_keeps [OF inv Some safe act b k(1-3)] show ?thesis
          using Some AwaitMeta True act k(4) by (simp add: continue_tap_def)
      next
        case False
        have "tap_inv (t\<lparr>stage := AwaitReread (rstatus s)\<rparr>) (set_tap (t\<lparr>stage := AwaitReread (rstatus s)\<rparr>) s)"
          using b h True False by (auto simp: tap_inv_def) (simp add: set_tap_def)
        then show ?thesis using set_keeps Some AwaitMeta True False by (simp add: continue_tap_def)
      qed
    next
      case False
      then have k: "b \<le> k" "k \<le> length (rlog s)" "length (snd (client_of s)) \<le> k" "records = take k (rlog s)"
        using r by (simp_all add: read_inv_def)
      from finish_keeps [OF inv Some safe b k(1-3), of "rstatus s"] show ?thesis
        using Some AwaitMeta False k(4) by (simp add: continue_tap_def)
    qed
  next
    case (AwaitReread st)
    have "tap_inv (t\<lparr>stage := AwaitSync st (rlog s)\<rparr>) (set_tap (t\<lparr>stage := AwaitSync st (rlog s)\<rparr>) s)"
      using ti AwaitReread by (auto simp: tap_inv_def h) (simp_all add: set_tap_def)
    then show ?thesis
      using set_keeps Some AwaitReread after_cursor_numbered [OF num] by (simp add: continue_tap_def)
  next
    case (AwaitSync st records)
    then obtain b where b: "held_inv b t s" and st: "st \<noteq> Active" "rstatus s \<noteq> Active" "records = take (length (rlog s)) (rlog s)"
      using ti by (auto simp: tap_inv_def)
    have "b \<le> length (rlog s)" using b dl by (simp add: held_inv_def)
    from finish_keeps [OF inv Some safe b this le_refl len(1), of st] st show ?thesis
      using Some AwaitSync by (simp add: continue_tap_def)
  next
    case Following
    then show ?thesis using inv Some by (simp add: continue_tap_def)
  qed
qed

lemma socket_step_keeps: "socket_step True s s' \<Longrightarrow> socket_inv s \<Longrightarrow> socket_inv s'"
proof (induction rule: socket_step.induct)
  case (attach m s)
  then show ?case by (simp add: fresh_tap_keeps)
qed (simp_all add: append_keeps live_keeps finalize_keeps told_keeps subscribe_keeps proceed_keeps reconnect_keeps)

lemma socket_inv_start: "socket_inv fresh_socket"
  by (simp add: socket_inv_def fresh_socket_def log_inv_def client_inv_def shows_log_def settled_def cursor_value_def)

interpretation socket: machine "socket_step True" socket_inv fresh_socket
  by unfold_locales (auto intro: socket_step_keeps socket_inv_start)

section \<open>Properties\<close>

text \<open>
  C24: Whatever is appended, delivered, subscribed, dropped under backpressure to a client with a cursor, ended and
  reconnected, and in whatever order between the awaits, every state of the client shows the log up to some event,
  without a gap, a repetition or a change of order, and its cursor is not past what it shows. Two things are left out of the
  steps: an event dropped to a client that has no cursor yet, which goes unnoticed (\<open>first_event_dropped\<close>), and
  a second subscribe of a stream while one is still being read.
\<close>

theorem client_shows_a_prefix:
  assumes "(socket_step True)\<^sup>*\<^sup>* fresh_socket s" "(cursor, view) \<in> set (clients s)"
  shows "length view \<le> length (rlog s) \<and> view = take (length view) (map event (rlog s)) \<and> cursor_value cursor \<le> length view"
  using socket.reached_inv [OF assms(1)] assms(2) by (auto simp: socket_inv_def client_inv_def shows_log_def)

text \<open>C34: A client that a socket follows shows the whole log once all of it has been delivered, unless an event was
  dropped since its last snapshot: nothing falls between the catch-up and the live events.\<close>

theorem follower_is_complete:
  assumes "(socket_step True)\<^sup>*\<^sup>* fresh_socket s" "tap_of s = Some t" "stage t = Following"
    and "\<not> dropped s" "delivered s = length (rlog s)"
  shows "snd (client_of s) = map event (rlog s)"
proof -
  have i: "socket_inv s" using socket.reached_inv [OF assms(1)] .
  obtain c v where c: "client_of s = (c, v)" by fastforce
  have "(c, v) \<in> set (clients s)" using i c client_in [of s] by (simp add: socket_inv_def client_inv_def)
  then have "length v \<le> length (rlog s)" "v = take (length v) (map event (rlog s))" "cursor_value c \<le> length v"
    using i by (auto simp: socket_inv_def client_inv_def shows_log_def)
  moreover have "length (rlog s) \<le> cursor_value c"
    using i assms c by (simp add: socket_inv_def tap_inv_def)
  ultimately show ?thesis using c by simp
qed

section \<open>A run of a socket\<close>

text \<open>Two events are appended before a client comes, a third while it catches up.\<close>

definition sample_socket :: "nat socket" where
  "sample_socket =
     deliver_live (\<lambda>_. False) (continue_tap (\<lambda>_. False) (deliver_live (\<lambda>_. False) (deliver_live (\<lambda>_. False)
       (append_log [30] 1 (continue_tap (\<lambda>_. False) (subscribe_to_stream CatchUp 0 (append_log [10, 20] 0 fresh_socket)))))))"

lemma sample_socket_value:
  "snd (client_of sample_socket) = [10, 20, 30]" "delivered sample_socket = length (rlog sample_socket)"
  "\<not> dropped sample_socket" "map_option stage (tap_of sample_socket) = Some Following"
  "map event (rlog sample_socket) = [10, 20, 30]"
  by code_simp+

lemma no_drop: "may_drop True (\<lambda>_. False) s"
  by (simp add: may_drop_def)

lemma sample_socket_reached: "(socket_step True)\<^sup>*\<^sup>* fresh_socket sample_socket"
proof -
  let ?b = "\<lambda>_::nat. False"
  let ?s1 = "append_log [10, 20::nat] 0 fresh_socket"
  let ?s2 = "subscribe_to_stream CatchUp 0 ?s1"
  let ?s3 = "continue_tap ?b ?s2"
  let ?s4 = "append_log [30] 1 ?s3"
  let ?s5 = "deliver_live ?b ?s4"
  let ?s6 = "deliver_live ?b ?s5"
  let ?s7 = "continue_tap ?b ?s6"
  have "rstatus fresh_socket = Active" "rstatus ?s3 = Active" by code_simp+
  moreover have "delivered ?s4 < length (rlog ?s4)" "delivered ?s5 < length (rlog ?s5)" "delivered ?s7 < length (rlog ?s7)"
    by code_simp+
  ultimately have "socket_step True fresh_socket ?s1" "socket_step True ?s1 ?s2" "socket_step True ?s2 ?s3"
    "socket_step True ?s3 ?s4" "socket_step True ?s4 ?s5" "socket_step True ?s5 ?s6" "socket_step True ?s6 ?s7"
    "socket_step True ?s7 (deliver_live ?b ?s7)"
    by (auto intro: socket_step.intros no_drop)
  then show ?thesis
    unfolding sample_socket_def by (meson rtranclp.rtrancl_refl rtranclp.rtrancl_into_rtrancl)
qed

theorem client_shows_a_prefix_witness:
  "length (snd (client_of sample_socket)) = 3 \<and> snd (client_of sample_socket) = take 3 (map event (rlog sample_socket))"
proof -
  have "clients sample_socket \<noteq> []" by code_simp
  then have "(fst (client_of sample_socket), snd (client_of sample_socket)) \<in> set (clients sample_socket)"
    by (simp add: client_in)
  from client_shows_a_prefix [OF sample_socket_reached this] show ?thesis by (simp add: sample_socket_value)
qed

theorem follower_is_complete_witness: "snd (client_of sample_socket) = map event (rlog sample_socket)"
proof -
  obtain t where "tap_of sample_socket = Some t" "stage t = Following"
    using sample_socket_value(4) by auto
  from follower_is_complete [OF sample_socket_reached this] show ?thesis by (simp add: sample_socket_value)
qed

text \<open>
  Where an event may be dropped for a client that has no cursor yet, the client takes the next one for the first, and
  shows the log with a gap: nothing tells it that it is behind.
\<close>

definition gap_socket :: "nat socket" where
  "gap_socket =
     deliver_live (\<lambda>_. False) (deliver_live (\<lambda>_. True) (append_log [10, 20] 0
       (continue_tap (\<lambda>_. False) (continue_tap (\<lambda>_. False) (subscribe_to_stream CatchUp 0 fresh_socket)))))"

lemma first_event_dropped:
  "(socket_step False)\<^sup>*\<^sup>* fresh_socket gap_socket \<and> client_of gap_socket = (Some 2, [20])
    \<and> map event (rlog gap_socket) = [10, 20]"
proof -
  let ?b = "\<lambda>_::nat. False"
  let ?s1 = "subscribe_to_stream CatchUp 0 (fresh_socket :: nat socket)"
  let ?s2 = "continue_tap ?b ?s1"
  let ?s3 = "continue_tap ?b ?s2"
  let ?s4 = "append_log [10, 20] 0 ?s3"
  let ?s5 = "deliver_live (\<lambda>_. True) ?s4"
  have "rstatus ?s3 = Active" "delivered ?s4 < length (rlog ?s4)" "delivered ?s5 < length (rlog ?s5)" by code_simp+
  moreover have "may_drop False b s" for b and s :: "nat socket" by (simp add: may_drop_def)
  ultimately have "socket_step False fresh_socket ?s1" "socket_step False ?s1 ?s2" "socket_step False ?s2 ?s3"
    "socket_step False ?s3 ?s4" "socket_step False ?s4 ?s5" "socket_step False ?s5 (deliver_live ?b ?s5)"
    by (auto intro: socket_step.intros)
  then have "(socket_step False)\<^sup>*\<^sup>* fresh_socket gap_socket"
    unfolding gap_socket_def by (meson rtranclp.rtrancl_refl rtranclp.rtrancl_into_rtrancl)
  moreover have "client_of gap_socket = (Some 2, [20])" "map event (rlog gap_socket) = [10, 20]" by code_simp+
  ultimately show ?thesis by blast
qed

text \<open>What is sent of a finished run asks nothing and shows no sub-agent at work.\<close>

lemma finished_asks_nothing:
  assumes "st \<noteq> Active"
  shows "pending_question (shown st now s) = None \<and> pending_checkin (shown st now s) = None
    \<and> list_all (\<lambda>c. status c \<noteq> SRunning) (subagents (shown st now s))"
  using assms by (auto simp: shown_def end_stale_sub_agents_def end_child_def list_all_iff)

end
