(* ===== verification/Toolset.thy ===== *)
theory Toolset
  imports BashPolicy
begin

text \<open>
  The tools of one run (\<open>mcp/registry.ts\<close>, with \<open>mcp/change-detection.ts\<close>, \<open>mcp/naming.ts\<close>, \<open>mcp-state.ts\<close> and the
  tool list of \<open>packages/agent\<close>): what is offered, what resolves, what asks, and what "Allow always" stores. A tool's
  texts for the model are left out; a tool's content is what its hash is taken of. Server and tool names are those an
  object keeps as its own keys.
\<close>

section \<open>Built-in tools\<close>

datatype tool_source =
    Builtin
  | Mcp (server_id: js_string) (server_slug: js_string) (remote_name: js_string) (read_only_claim: bool)

record resolved_tool =
  tool_name :: js_string
  requires_approval :: bool
  is_write :: bool
  source :: tool_source

definition TOOLS :: "(js_string \<times> bool) list" where
  "TOOLS = [(''fs_read'', False), (''fs_write'', True), (''fs_edit'', True), (''bash'', True), (''grep'', False),
     (''glob'', False), (''web_fetch'', False), (''todo_write'', False)]"

definition WRITE_TOOLS :: "js_string list" where
  "WRITE_TOOLS = [''fs_write'', ''fs_edit'']"

definition HANDOVER_TOOLS :: "(js_string \<times> bool) list" where
  "HANDOVER_TOOLS = [(''propose_plan'', False), (''ask_questions'', False)]"

definition is_tool_name :: "js_string \<Rightarrow> bool" where
  "is_tool_name n \<longleftrightarrow> n \<in> fst ` set TOOLS"

definition is_allowlistable :: "js_string \<Rightarrow> bool" where
  "is_allowlistable n \<longleftrightarrow> is_tool_name n \<and> n \<noteq> ''bash''"

definition resolve_builtin_tools :: "bash_mode \<Rightarrow> bool \<Rightarrow> bool \<Rightarrow> bool \<Rightarrow> resolved_tool list" where
  "resolve_builtin_tools mode handover subagents skills =
     map (\<lambda>(n, asks). \<lparr>tool_name = n, requires_approval = asks, is_write = n \<in> set WRITE_TOOLS, source = Builtin\<rparr>)
       (TOOLS @ (if mode = Planning \<and> handover then HANDOVER_TOOLS else [])
        @ (if subagents then [(''subagent'', False)] else []) @ (if skills then [(''skill'', False)] else []))"

section \<open>Names on the wire\<close>

definition MAX_TOOL_NAME :: nat where "MAX_TOOL_NAME = 64"

definition slug_char :: "char \<Rightarrow> bool" where
  "slug_char c \<longleftrightarrow> is_lower c \<or> is_digit c"

definition BUILTIN_NAMES :: "js_string list" where
  "BUILTIN_NAMES = map fst (TOOLS @ HANDOVER_TOOLS)"

definition is_valid_slug :: "js_string \<Rightarrow> bool" where
  "is_valid_slug s \<longleftrightarrow>
     (case s of [] \<Rightarrow> False
      | c # cs \<Rightarrow> slug_char c \<and> list_all (\<lambda>d. slug_char d \<or> d = CHR ''-'') cs \<and> length cs \<le> 31)
     \<and> s \<notin> set BUILTIN_NAMES"

definition safe_char :: "char \<Rightarrow> char" where
  "safe_char c = (if is_name_char c \<or> c = CHR ''-'' then c else CHR ''_'')"

definition namespace_tool :: "js_string \<Rightarrow> js_string \<Rightarrow> js_string" where
  "namespace_tool slug remote = take MAX_TOOL_NAME (slug @ ''__'' @ map safe_char remote)"

text \<open>\<open>indexOf\<close>\<close>

fun index_of :: "js_string \<Rightarrow> js_string \<Rightarrow> nat option" where
  "index_of [] p = (if p = [] then Some 0 else None)"
| "index_of (c # s) p = (if starts_with (c # s) p then Some 0 else map_option Suc (index_of s p))"

definition split_namespaced :: "js_string \<Rightarrow> (js_string \<times> js_string) option" where
  "split_namespaced n =
     (case index_of n ''__'' of
        None \<Rightarrow> None
      | Some i \<Rightarrow> if i = 0 then None else Some (take i n, drop (i + 2) n))"

section \<open>Which servers are on\<close>

datatype mcp_kind = McpChat | McpAgent | McpRoutine

record surface_defaults =
  on_in_chat :: bool
  on_in_agent :: bool
  on_in_routines :: bool

record mcp_overrides =
  disabled_ids :: "js_string list"
  enabled_ids :: "js_string list"

definition mcp_default_for :: "surface_defaults \<Rightarrow> mcp_kind \<Rightarrow> bool" where
  "mcp_default_for s k = (case k of McpAgent \<Rightarrow> on_in_agent s | McpRoutine \<Rightarrow> on_in_routines s | McpChat \<Rightarrow> on_in_chat s)"

definition mcp_explicit_choice :: "js_string \<Rightarrow> mcp_overrides option \<Rightarrow> bool option" where
  "mcp_explicit_choice i ov =
     (case ov of
        None \<Rightarrow> None
      | Some l \<Rightarrow> if i \<in> set (disabled_ids l) then Some False else if i \<in> set (enabled_ids l) then Some True else None)"

definition mcp_server_active :: "js_string \<Rightarrow> surface_defaults \<Rightarrow> mcp_kind \<Rightarrow> mcp_overrides option \<Rightarrow> bool" where
  "mcp_server_active i s k ov = (case mcp_explicit_choice i ov of Some b \<Rightarrow> b | None \<Rightarrow> mcp_default_for s k)"

definition with_mcp_choice :: "mcp_overrides option \<Rightarrow> js_string \<Rightarrow> bool \<Rightarrow> mcp_overrides" where
  "with_mcp_choice ov i on =
     (let l = (case ov of None \<Rightarrow> \<lparr>disabled_ids = [], enabled_ids = []\<rparr> | Some l \<Rightarrow> l);
          off_ids = filter (\<lambda>x. x \<noteq> i) (disabled_ids l); on_ids = filter (\<lambda>x. x \<noteq> i) (enabled_ids l) in
      if on then \<lparr>disabled_ids = off_ids, enabled_ids = on_ids @ [i]\<rparr>
      else \<lparr>disabled_ids = off_ids @ [i], enabled_ids = on_ids\<rparr>)"

text \<open>\<open>normalizeMcpOverrides\<close> on a value of the right shape.\<close>

definition normalize_overrides :: "mcp_overrides \<Rightarrow> mcp_overrides" where
  "normalize_overrides l =
     (let off_ids = rev (remdups (rev (disabled_ids l))) in
      \<lparr>disabled_ids = off_ids, enabled_ids = filter (\<lambda>i. i \<notin> set off_ids) (rev (remdups (rev (enabled_ids l))))\<rparr>)"

section \<open>Change detection\<close>

record tool_policy =
  enabled :: bool
  allows :: bool            \<comment> \<open>\<open>approval = "allow"\<close>\<close>
  read_only :: bool
  changed :: bool
  missing :: bool
  from_prompt :: bool       \<comment> \<open>\<open>grantedFrom = "prompt"\<close>\<close>

definition DEFAULT_POLICY :: tool_policy where
  "DEFAULT_POLICY = \<lparr>enabled = True, allows = False, read_only = False, changed = False, missing = False, from_prompt = False\<rparr>"

text \<open>A discovered tool is its name and its hash.\<close>

type_synonym listing = "(js_string \<times> js_string) list"

record reconciled =
  policies :: "js_string \<Rightarrow> tool_policy option"
  known :: "js_string \<Rightarrow> js_string option"
  changed_tools :: "js_string list"

fun reconcile_seen :: "(js_string \<Rightarrow> tool_policy) \<Rightarrow> (js_string \<Rightarrow> js_string option) \<Rightarrow> listing \<Rightarrow> reconciled \<Rightarrow> reconciled" where
  "reconcile_seen fresh stored [] r = r"
| "reconcile_seen fresh stored ((n, h) # ts) r =
     (let r1 = r\<lparr>known := (known r)(n \<mapsto> h)\<rparr> in
      reconcile_seen fresh stored ts
        (case policies r n of
           None \<Rightarrow> r1\<lparr>policies := (policies r)(n \<mapsto> fresh n)\<rparr>
         | Some p \<Rightarrow>
             if stored n \<noteq> None \<and> stored n \<noteq> Some h then
               r1\<lparr>policies := (policies r)(n \<mapsto>
                    p\<lparr>allows := False, read_only := False, changed := True, missing := False, from_prompt := False\<rparr>),
                  changed_tools := changed_tools r @ [n]\<rparr>
             else if missing p then r1\<lparr>policies := (policies r)(n \<mapsto> p\<lparr>missing := False\<rparr>)\<rparr>
             else r1))"

definition reconcile_tools :: "(js_string \<Rightarrow> tool_policy) \<Rightarrow> (js_string \<Rightarrow> tool_policy option) \<Rightarrow>
    (js_string \<Rightarrow> js_string option) \<Rightarrow> listing \<Rightarrow> reconciled" where
  "reconcile_tools fresh pols stored ts =
     (let r = reconcile_seen fresh stored ts \<lparr>policies = pols, known = Map.empty, changed_tools = []\<rparr>;
          seen = fst ` set ts in
      r\<lparr>policies := (\<lambda>n. if n \<in> seen then policies r n else map_option (\<lambda>p. p\<lparr>missing := True\<rparr>) (policies r n)),
        known := (\<lambda>n. if n \<in> seen then known r n
           else if policies r n \<noteq> None \<and> stored n \<noteq> Some [] then stored n else known r n)\<rparr>)"

section \<open>The toolset\<close>

record mcp_server =
  mcp_id :: js_string
  mcp_slug :: js_string
  mcp_enabled :: bool
  mcp_defaults :: surface_defaults
  tool_policies :: "js_string \<Rightarrow> tool_policy option"
  known_tools :: "js_string \<Rightarrow> js_string option"

text \<open>\<open>resolveMcpTools\<close>: \<open>listed\<close> is a server's answer (\<^const>\<open>None\<close> when it cannot be reached) and \<open>compiles\<close> whether a
  tool's schema does; \<open>overrides\<close> is \<^const>\<open>None\<close> where the conversation cannot be read. The stored rows are the
  reconciled ones afterwards.\<close>

definition policy_of :: "reconciled \<Rightarrow> js_string \<Rightarrow> tool_policy" where
  "policy_of r n = (case policies r n of Some p \<Rightarrow> p | None \<Rightarrow> DEFAULT_POLICY)"

definition server_tools :: "bash_mode \<Rightarrow> (js_string \<Rightarrow> bool) \<Rightarrow> mcp_server \<Rightarrow> listing \<Rightarrow> (resolved_tool \<times> js_string \<times> js_string) list" where
  "server_tools mode compiles s ts =
     (let r = reconcile_tools (\<lambda>_. DEFAULT_POLICY) (tool_policies s) (known_tools s) ts in
      map (\<lambda>(n, h). let p = policy_of r n in
          (\<lparr>tool_name = namespace_tool (mcp_slug s) n, requires_approval = \<not> allows p, is_write = \<not> read_only p,
            source = Mcp (mcp_id s) (mcp_slug s) n (read_only p)\<rparr>, mcp_id s, n))
        (filter (\<lambda>(n, h). let p = policy_of r n in enabled p \<and> \<not> (mode = Planning \<and> \<not> read_only p) \<and> compiles h) ts))"

definition resolve_mcp_tools :: "bash_mode \<Rightarrow> (js_string \<Rightarrow> bool) \<Rightarrow> (mcp_kind \<times> mcp_overrides option) option \<Rightarrow>
    (js_string \<Rightarrow> listing option) \<Rightarrow> mcp_server list \<Rightarrow> (resolved_tool \<times> js_string \<times> js_string) list" where
  "resolve_mcp_tools mode compiles state listed rows =
     (case state of
        None \<Rightarrow> []
      | Some (k, ov) \<Rightarrow>
          concat (map (\<lambda>s. case listed (mcp_id s) of None \<Rightarrow> [] | Some ts \<Rightarrow> server_tools mode compiles s ts)
            (filter (\<lambda>s. mcp_server_active (mcp_id s) (mcp_defaults s) k ov) (filter mcp_enabled rows))))"

record toolset =
  offered :: "resolved_tool list"
  by_name :: "js_string \<Rightarrow> resolved_tool option"
  mcp_entries :: "js_string \<Rightarrow> (js_string \<times> js_string) option"

text \<open>A \<open>Map\<close> made from pairs keeps the last of a name.\<close>

definition map_of_last :: "('k \<times> 'v) list \<Rightarrow> 'k \<Rightarrow> 'v option" where
  "map_of_last xs = map_of (rev xs)"

definition build_toolset :: "bash_mode \<Rightarrow> js_string set \<Rightarrow> resolved_tool list \<Rightarrow> (resolved_tool \<times> js_string \<times> js_string) list \<Rightarrow> toolset" where
  "build_toolset mode allowlist builtins mcp =
     (let ours = map (\<lambda>t. if tool_name t \<in> allowlist \<and> is_allowlistable (tool_name t) then t\<lparr>requires_approval := False\<rparr> else t) builtins;
          resolved = ours @ map fst mcp;
          resolvable = (if mode = Planning then filter (\<lambda>t. source t = Builtin \<or> \<not> is_write t) resolved else resolved) in
      \<lparr>offered = (if mode = Planning then filter (\<lambda>t. \<not> is_write t) resolved else resolved),
       by_name = map_of_last (map (\<lambda>t. (tool_name t, t)) resolvable),
       mcp_entries = map_of_last (map (\<lambda>(t, e). (tool_name t, e)) mcp)\<rparr>)"

definition toolset_requires_approval :: "resolved_tool \<Rightarrow> bash_mode \<Rightarrow> bool" where
  "toolset_requires_approval t mode =
     (if source t \<noteq> Builtin then requires_approval t
      else if mode = Auto then False
      else if mode = Planning then is_write t
      else requires_approval t)"

text \<open>\<open>grantTrust\<close>: the run's own tool, and what is stored (which may fail, and then is not).\<close>

datatype stored_grant = AllowTool js_string js_string | Allowlist js_string

definition grant_trust :: "resolved_tool \<Rightarrow> toolset \<Rightarrow> toolset \<times> stored_grant option" where
  "grant_trust t ts =
     (ts\<lparr>by_name := (by_name ts)(tool_name t \<mapsto> t\<lparr>requires_approval := False\<rparr>)\<rparr>,
      if source t \<noteq> Builtin then map_option (\<lambda>(s, n). AllowTool s n) (mcp_entries ts (tool_name t))
      else if is_allowlistable (tool_name t) then Some (Allowlist (tool_name t)) else None)"

text \<open>The stored policy of a tool allowed from a prompt.\<close>

definition allow_policy :: "tool_policy option \<Rightarrow> tool_policy" where
  "allow_policy p = (case p of None \<Rightarrow> DEFAULT_POLICY | Some q \<Rightarrow> q)\<lparr>allows := True, changed := False, from_prompt := True\<rparr>"

section \<open>A grant is for one content\<close>

lemma reconcile_seen_known:
  "known (reconcile_seen fresh stored ts r) n = (case map_of_last ts n of Some h \<Rightarrow> Some h | None \<Rightarrow> known r n)"
proof (induction ts arbitrary: r)
  case Nil
  then show ?case by (simp add: map_of_last_def)
next
  case (Cons t ts)
  obtain m h where t: "t = (m, h)" by fastforce
  show ?case
    by (auto simp: t Let_def Cons.IH map_of_last_def map_add_def split: option.splits)
qed

text \<open>Listings by which nothing is said of a tool, or only the content it is known by, keep its permission.\<close>

lemma reconcile_seen_same:
  assumes "policies r n = Some p" "stored n = Some g" "\<forall>h. (n, h) \<in> set ts \<longrightarrow> h = g"
  shows "\<exists>q. policies (reconcile_seen fresh stored ts r) n = Some q \<and> allows q = allows p"
  using assms(1,3)
proof (induction ts arbitrary: r p)
  case (Cons t ts)
  obtain m h where t: "t = (m, h)" by fastforce
  have rest: "\<forall>h. (n, h) \<in> set ts \<longrightarrow> h = g" using Cons.prems(2) by simp
  let ?r = "reconcile_seen fresh stored [t] r"
  have "\<exists>q. policies ?r n = Some q \<and> allows q = allows p"
  proof (cases "m = n")
    case True
    then have "h = g" using Cons.prems(2) t by simp
    then show ?thesis using Cons.prems(1) assms(2) True t by (simp add: Let_def)
  next
    case False
    then show ?thesis using Cons.prems(1) t by (simp add: Let_def split: option.split)
  qed
  then obtain q where q: "policies ?r n = Some q" "allows q = allows p" by blast
  have "reconcile_seen fresh stored (t # ts) r = reconcile_seen fresh stored ts ?r"
    by (simp add: t Let_def)
  then show ?case using Cons.IH [OF q(1) rest] q(2) by simp
qed simp

lemma reconcile_seen_asks:
  assumes "policies r n = Some p" "\<not> allows p"
  shows "\<exists>q. policies (reconcile_seen fresh stored ts r) n = Some q \<and> \<not> allows q"
  using assms
proof (induction ts arbitrary: r p)
  case (Cons t ts)
  obtain m h where t: "t = (m, h)" by fastforce
  let ?r = "reconcile_seen fresh stored [t] r"
  have "\<exists>q. policies ?r n = Some q \<and> \<not> allows q"
    using Cons.prems by (cases "m = n") (auto simp: t Let_def split: option.split)
  then obtain q where q: "policies ?r n = Some q" "\<not> allows q" by blast
  have "reconcile_seen fresh stored (t # ts) r = reconcile_seen fresh stored ts ?r"
    by (simp add: t Let_def)
  then show ?case using Cons.IH [OF q] by simp
qed simp

lemma reconcile_seen_changed:
  assumes "policies r n = Some p" "stored n = Some g" "(n, h) \<in> set ts" "h \<noteq> g"
  shows "\<exists>q. policies (reconcile_seen fresh stored ts r) n = Some q \<and> \<not> allows q"
  using assms(1,3)
proof (induction ts arbitrary: r p)
  case (Cons t ts)
  obtain m k where t: "t = (m, k)" by fastforce
  let ?r = "reconcile_seen fresh stored [t] r"
  have step: "reconcile_seen fresh stored (t # ts) r = reconcile_seen fresh stored ts ?r"
    by (simp add: t Let_def)
  show ?case
  proof (cases "t = (n, h)")
    case True
    then have "\<exists>q. policies ?r n = Some q \<and> \<not> allows q" using Cons.prems(1) assms(2,4) by (simp add: Let_def)
    then show ?thesis using reconcile_seen_asks step by metis
  next
    case False
    then have "(n, h) \<in> set ts" using Cons.prems(2) by simp
    moreover have "\<exists>q. policies ?r n = Some q"
      using Cons.prems(1) by (cases "m = n") (auto simp: t Let_def split: option.split)
    ultimately show ?thesis using Cons.IH step by metis
  qed
qed simp

text \<open>One reconciliation of a tool that is known by a content.\<close>

lemma reconcile_kept:
  assumes "pols n = Some p" "stored n = Some g" "g \<noteq> []" "\<forall>h. (n, h) \<in> set ts \<longrightarrow> h = g"
  shows "\<exists>q. policies (reconcile_tools fresh pols stored ts) n = Some q \<and> allows q = allows p"
    "known (reconcile_tools fresh pols stored ts) n = Some g"
proof -
  let ?r = "reconcile_seen fresh stored ts \<lparr>policies = pols, known = Map.empty, changed_tools = []\<rparr>"
  obtain q where q: "policies ?r n = Some q" "allows q = allows p"
    using reconcile_seen_same [of "\<lparr>policies = pols, known = Map.empty, changed_tools = []\<rparr>" n p stored g ts fresh] assms
    by auto
  then show "\<exists>q. policies (reconcile_tools fresh pols stored ts) n = Some q \<and> allows q = allows p"
    by (simp add: reconcile_tools_def Let_def)
  have "known ?r n = Some g" if "n \<in> fst ` set ts"
  proof -
    have "map_of_last ts n \<noteq> None" using that by (simp add: map_of_last_def map_of_eq_None_iff)
    then obtain h where "map_of_last ts n = Some h" by blast
    moreover from this have "(n, h) \<in> set ts" by (auto simp: map_of_last_def dest: map_of_SomeD)
    ultimately show ?thesis using assms(4) by (simp add: reconcile_seen_known)
  qed
  then show "known (reconcile_tools fresh pols stored ts) n = Some g"
    using q assms(2,3) by (simp add: reconcile_tools_def Let_def)
qed

lemma reconcile_revoked:
  assumes "pols n = Some p" "stored n = Some g" "(n, h) \<in> set ts" "h \<noteq> g"
  shows "\<exists>q. policies (reconcile_tools fresh pols stored ts) n = Some q \<and> \<not> allows q"
  using reconcile_seen_changed [of "\<lparr>policies = pols, known = Map.empty, changed_tools = []\<rparr>" n p stored g h ts fresh] assms
  by (force simp: reconcile_tools_def Let_def)

lemma reconcile_asks:
  assumes "pols n = Some p" "\<not> allows p"
  shows "\<exists>q. policies (reconcile_tools fresh pols stored ts) n = Some q \<and> \<not> allows q"
  using reconcile_seen_asks [of "\<lparr>policies = pols, known = Map.empty, changed_tools = []\<rparr>" n p fresh stored ts] assms
  by (auto simp: reconcile_tools_def Let_def)

text \<open>Any number of connections to a server, each with its listing.\<close>

definition reconcile_all :: "(js_string \<Rightarrow> tool_policy) \<Rightarrow> listing list \<Rightarrow> reconciled \<Rightarrow> reconciled" where
  "reconcile_all fresh = fold (\<lambda>ts r. reconcile_tools fresh (policies r) (known r) ts)"

lemma reconcile_all_asks:
  assumes "policies r n = Some p" "\<not> allows p"
  shows "\<exists>q. policies (reconcile_all fresh tss r) n = Some q \<and> \<not> allows q"
  using assms
proof (induction tss arbitrary: r p)
  case (Cons ts tss)
  then show ?case using reconcile_asks [of "policies r" n p fresh "known r" ts] by (auto simp: reconcile_all_def)
qed (simp add: reconcile_all_def)

section \<open>Properties\<close>

text \<open>C28: A permission to run a server's tool unasked is for one content of it: after any number of connections, the tool
  is still allowed if and only if every listing that named it had the content it was allowed with, missing listings
  included; once another content was seen it asks, whatever is listed afterwards.\<close>

theorem allowed_for_one_content:
  assumes "policies r n = Some p" "allows p" "known r n = Some g" "g \<noteq> []"
  shows "(\<exists>q. policies (reconcile_all fresh tss r) n = Some q \<and> allows q) \<longleftrightarrow>
    (\<forall>ts\<in>set tss. \<forall>h. (n, h) \<in> set ts \<longrightarrow> h = g)"
  using assms(1-3)
proof (induction tss arbitrary: r p)
  case Nil
  then show ?case by (simp add: reconcile_all_def)
next
  case (Cons ts tss)
  let ?r = "reconcile_tools fresh (policies r) (known r) ts"
  have step: "reconcile_all fresh (ts # tss) r = reconcile_all fresh tss ?r" by (simp add: reconcile_all_def)
  show ?case
  proof (cases "\<forall>h. (n, h) \<in> set ts \<longrightarrow> h = g")
    case True
    obtain q where q: "policies ?r n = Some q" "allows q"
      using reconcile_kept(1) [of "policies r" n p "known r" g ts fresh, OF Cons.prems(1,3) assms(4) True] Cons.prems(2) by blast
    have "known ?r n = Some g" using reconcile_kept(2) [of "policies r" n p "known r" g, OF Cons.prems(1,3) assms(4) True] .
    from Cons.IH [OF q this] show ?thesis using step True by simp
  next
    case False
    then obtain h where "(n, h) \<in> set ts" "h \<noteq> g" by blast
    from reconcile_revoked [of "policies r" n p "known r" g h ts fresh, OF Cons.prems(1,3) this]
    obtain q where q: "policies ?r n = Some q" "\<not> allows q" by blast
    then show ?thesis using reconcile_all_asks [OF q, of fresh tss] step False by force
  qed
qed

definition granted :: reconciled where
  "granted = \<lparr>policies = [''send'' \<mapsto> allow_policy None], known = [''send'' \<mapsto> ''h1''], changed_tools = []\<rparr>"

theorem allowed_for_one_content_witness:
  "\<not> (\<exists>q. policies (reconcile_all (\<lambda>_. DEFAULT_POLICY) [[(''send'', ''h1'')], [], [(''send'', ''h2'')], [(''send'', ''h1'')]] granted)
      ''send'' = Some q \<and> allows q)"
  by (subst allowed_for_one_content [of _ _ "allow_policy None" "''h1''"])
    (simp_all add: granted_def allow_policy_def)

text \<open>In planning mode nothing that writes is offered to the model, and whatever the model may name all the same
  either does not write or is a built-in that asks, whatever the allowlist, the servers and their policies.\<close>

theorem planning_never_writes:
  "(\<forall>t\<in>set (offered (build_toolset Planning allowlist builtins mcp)). \<not> is_write t)
   \<and> (\<forall>n t. by_name (build_toolset Planning allowlist builtins mcp) n = Some t \<longrightarrow> is_write t \<longrightarrow>
       source t = Builtin \<and> toolset_requires_approval t Planning)"
  by (auto simp: build_toolset_def Let_def map_of_last_def toolset_requires_approval_def dest!: map_of_SomeD)

theorem planning_never_writes_witness:
  "toolset_requires_approval
     \<lparr>tool_name = ''fs_write'', requires_approval = False, is_write = True, source = Builtin\<rparr> Planning"
proof -
  have "by_name (build_toolset Planning {''fs_write''} (resolve_builtin_tools Planning True False False) []) ''fs_write''
      = Some \<lparr>tool_name = ''fs_write'', requires_approval = False, is_write = True, source = Builtin\<rparr>"
    by code_simp
  then show ?thesis
    using planning_never_writes [of "{''fs_write''}" "resolve_builtin_tools Planning True False False" "[]"] by force
qed

section \<open>Names\<close>

lemma index_of_no_underscore:
  "CHR ''_'' \<notin> set s \<Longrightarrow> index_of (s @ ''__'' @ r) ''__'' = Some (length s)"
  by (induction s) (auto simp: starts_with_def)

lemma slug_plain: "is_valid_slug s \<Longrightarrow> CHR ''_'' \<notin> set s \<and> s \<noteq> [] \<and> length s \<le> 32"
  by (auto simp: is_valid_slug_def slug_char_def is_lower_def is_digit_def in_range_def list_all_iff
      split: list.splits)

text \<open>The name of a server's tool names its server: it splits into the slug and what is left of the tool's own name,
  and is never the name of a built-in tool.\<close>

theorem namespaced_roundtrip:
  assumes "is_valid_slug slug"
  shows "split_namespaced (namespace_tool slug remote) = Some (slug, take (62 - length slug) (map safe_char remote))
    \<and> namespace_tool slug remote \<notin> set BUILTIN_NAMES \<and> length (namespace_tool slug remote) \<le> MAX_TOOL_NAME"
proof -
  have s: "CHR ''_'' \<notin> set slug" "slug \<noteq> []" "length slug \<le> 32" using slug_plain [OF assms] by blast+
  have "64 - length slug = Suc (Suc (62 - length slug))" using s(3) by simp
  then have e: "namespace_tool slug remote = slug @ ''__'' @ take (62 - length slug) (map safe_char remote)"
    using s(3) by (simp add: namespace_tool_def MAX_TOOL_NAME_def)
  have i: "index_of (namespace_tool slug remote) ''__'' = Some (length slug)"
    unfolding e by (rule index_of_no_underscore [OF s(1)])
  moreover have "namespace_tool slug remote \<notin> set BUILTIN_NAMES"
  proof
    assume "namespace_tool slug remote \<in> set BUILTIN_NAMES"
    moreover have "list_all (\<lambda>n. index_of n ''__'' = None) BUILTIN_NAMES" by code_simp
    ultimately show False using i by (simp add: list_all_iff)
  qed
  moreover have "length (namespace_tool slug remote) \<le> MAX_TOOL_NAME" by (simp add: namespace_tool_def)
  ultimately show ?thesis using s(2) by (simp add: split_namespaced_def e)
qed

theorem namespaced_roundtrip_witness:
  "split_namespaced (namespace_tool ''git-hub'' ''open issue'') = Some (''git-hub'', ''open_issue'')"
proof -
  have "is_valid_slug ''git-hub''" by code_simp
  from namespaced_roundtrip [OF this, of "''open issue''"] show ?thesis
    by (simp add: safe_char_def is_name_char_def is_name_start_def is_lower_def is_upper_def is_digit_def in_range_def)
qed

text \<open>A switch is remembered for its server and changes no other.\<close>

lemma choice_remembered:
  "mcp_explicit_choice i (Some (with_mcp_choice ov s on)) = (if i = s then Some on else mcp_explicit_choice i ov)"
  by (cases ov) (auto simp: mcp_explicit_choice_def with_mcp_choice_def Let_def)

lemma normalized_choice: "mcp_explicit_choice i (Some (normalize_overrides l)) = mcp_explicit_choice i (Some l)"
  by (auto simp: mcp_explicit_choice_def normalize_overrides_def Let_def)

end
