(* ===== verification/ToolGate.thy ===== *)
theory ToolGate
  imports BashSafety Permissions Registry Toolset
begin

text \<open>
  One tool call of the tool loop (\<open>streams/runs/engine.ts\<close>: \<open>runOneToolCall\<close>, \<open>permissionGate\<close>, \<open>checkOrAsk\<close>,
  \<open>waitForApproval\<close>): the command rules, the permission check, the toolset and the registry's handle composed. What may
  change during an \<open>await\<close> is given anew to each round of the loop: the run's mode, the check's answer, the handle the
  wait starts with and what happens while it waits. Performing the tool is a parameter.
\<close>

section \<open>The gate\<close>

primrec bash_mode_of :: "permission_mode \<Rightarrow> bash_mode" where
  "bash_mode_of PManual = Manual"
| "bash_mode_of PAuto = Auto"
| "bash_mode_of PPlanning = Planning"

datatype tool_permission =
    Denied js_string
  | Refused
  | Ran ran_by "js_string option"
  | Classified "js_string option"

type_synonym check_note = "check_failure \<times> js_string option"

datatype gate =
    GRun "tool_permission option"
  | GAsk "js_string list" "check_note option"
  | GRefused js_string "tool_permission option"

type_synonym tool_args = "js_string \<Rightarrow> js_string option"   \<comment> \<open>the arguments that are strings\<close>

definition string_arg :: "tool_args \<Rightarrow> js_string \<Rightarrow> js_string" where
  "string_arg args k = (case args k of None \<Rightarrow> [] | Some v \<Rightarrow> v)"

definition STOPPED_BEFORE_RUN :: js_string where
  "STOPPED_BEFORE_RUN = ''Stopped by the user before this tool call ran.''"

definition check_or_ask :: "check_outcome \<Rightarrow> js_string list \<Rightarrow> gate" where
  "check_or_ask outcome rules =
     (case outcome of
        Rethrow _ \<Rightarrow> GRefused STOPPED_BEFORE_RUN None
      | CheckAllow reason _ \<Rightarrow> GRun (Some (Classified reason))
      | CheckNo failure reason _ \<Rightarrow> GAsk rules (Some (failure, reason)))"

text \<open>\<open>gate_mode\<close> is the mode the gate reads first, \<open>late_mode\<close> the one after it awaited the isolation.\<close>

record gate_env =
  gate_mode :: bash_mode
  late_mode :: bash_mode
  check_events :: "event list"
  check_end :: stream_end

definition check_of :: "gate_env \<Rightarrow> check_outcome" where
  "check_of e = run_permission_check (check_events e) (check_end e)"

definition bash_gate :: "command_rule list \<Rightarrow> isolation \<Rightarrow> gate_env \<Rightarrow> js_string \<Rightarrow> gate option" where
  "bash_gate rules ws e command =
     (case decide_bash command (gate_mode e) rules (gate_mode e = Auto \<and> isolated ws) of
        None \<Rightarrow> None
      | Some (Deny rule reason) \<Rightarrow> Some (GRefused reason (Some (Denied rule)))
      | Some (Refuse reason) \<Rightarrow> Some (GRefused reason (Some Refused))
      | Some (Run by rule) \<Rightarrow> Some (GRun (Some (Ran by rule)))
      | Some (Ask offers reason) \<Rightarrow> Some (GAsk offers None)
      | Some (Classify offers) \<Rightarrow> Some (check_or_ask (check_of e) offers))"

text \<open>\<^const>\<open>None\<close> is the \<open>TypeError\<close> of a table lookup (BashReadonly); the engine makes a failed result of a call that throws.\<close>

definition permission_gate :: "command_rule list \<Rightarrow> isolation \<Rightarrow> resolved_tool \<Rightarrow> tool_args \<Rightarrow> gate_env \<Rightarrow> gate option" where
  "permission_gate rules ws t args e =
     (if source t = Builtin \<and> tool_name t = ''bash'' then bash_gate rules ws e (string_arg args ''command'')
      else if gate_mode e = Auto \<and> source t = Builtin \<and> tool_name t \<in> {''fs_write'', ''fs_edit''}
        \<and> \<not> isolated ws \<and> is_sensitive_write (string_arg args ''path'') (roots ws)
      then Some (check_or_ask (check_of e) [])
      else Some (if toolset_requires_approval t (late_mode e) then GAsk [] None else GRun None))"

section \<open>Waiting for an approval\<close>

datatype approval_outcome = Approved | DeniedBy | TimedOut | Aborted | Gone | Regate

record approval_answer =
  outcome :: approval_outcome
  always :: bool
  answered_by :: "js_string option"

text \<open>What happens to the run while it waits; a switch of the mode goes through the registry.\<close>

datatype wait_event = WAnswer bool js_string bool | WAbort | WTimeout | WMode permission_mode

definition nobody :: "approval_outcome \<Rightarrow> approval_answer" where
  "nobody oc = \<lparr>outcome = oc, always = False, answered_by = None\<rparr>"

definition settle :: "js_string \<Rightarrow> nat \<Rightarrow> approval_answer \<Rightarrow> handle \<Rightarrow> approval_answer option \<times> handle \<times> effect list" where
  "settle call l a h = (Some a, clear_run_approval call (stop_mode_listener l h))"

text \<open>The events in their order; the first that settles ends the wait, for good.\<close>

fun wait_events :: "js_string \<Rightarrow> nat \<Rightarrow> wait_event list \<Rightarrow> handle \<Rightarrow> approval_answer option \<times> handle \<times> effect list" where
  "wait_events call l [] h = (None, h, [])"
| "wait_events call l (WAnswer ok user alw # es) h =
     settle call l \<lparr>outcome = (if ok then Approved else DeniedBy), always = ok \<and> alw, answered_by = Some user\<rparr> h"
| "wait_events call l (WAbort # es) h = settle call l (nobody Aborted) h"
| "wait_events call l (WTimeout # es) h = settle call l (nobody TimedOut) h"
| "wait_events call l (WMode m # es) h =
     (case set_run_mode m h of
        (sw, h1, fx) \<Rightarrow>
          (case (if sw then settle call l (nobody Regate) h1 else wait_events call l es h1) of
             (a, h2, fx2) \<Rightarrow> (a, h2, fx @ fx2)))"

definition mode_or :: "bash_mode \<Rightarrow> handle \<Rightarrow> bash_mode" where
  "mode_or asked h = (case h_mode h of None \<Rightarrow> asked | Some m \<Rightarrow> bash_mode_of m)"

definition wait_for_approval :: "bool \<Rightarrow> js_string \<Rightarrow> nat \<Rightarrow> nat \<Rightarrow> bash_mode \<Rightarrow> wait_event list \<Rightarrow> handle option
    \<Rightarrow> approval_answer option \<times> handle option \<times> effect list" where
  "wait_for_approval aborted call resolver l asked_in es run =
     (if aborted then (Some (nobody Aborted), run, [])
      else (case run of
          None \<Rightarrow> (Some (nobody Gone), None, [])
        | Some h \<Rightarrow>
            (case set_run_approval call resolver (on_run_mode_change l h) of
               (h1, fx) \<Rightarrow>
                 (case (if mode_or asked_in h1 \<noteq> asked_in then settle call l (nobody Regate) h1 else wait_events call l es h1) of
                    (a, h2, fx2) \<Rightarrow> (a, Some h2, fx @ fx2)))))"

definition approval_refusal_text :: "approval_outcome \<Rightarrow> js_string" where
  "approval_refusal_text oc =
     (case oc of
        DeniedBy \<Rightarrow> ''User denied this tool call.''
      | Aborted \<Rightarrow> STOPPED_BEFORE_RUN
      | TimedOut \<Rightarrow> ''The approval request went unanswered, so this tool call did not run. ''
          @ ''Nobody refused it '' @ [CHR 0x97] @ '' the request simply expired. Ask the user to approve it.''
      | _ \<Rightarrow> ''This run was no longer active when the tool call asked for approval, so it did not run.'')"

section \<open>The call\<close>

text \<open>One round: the gate, and where it asks, the mode the question goes out in and its wait.\<close>

record round =
  r_env :: gate_env
  r_asked :: bash_mode
  r_aborted :: bool
  r_run :: "handle option"
  r_events :: "wait_event list"

datatype emitted =
    Request bash_mode "js_string list" "check_note option"
  | Perform
  | Result js_string bool "tool_permission option"

datatype gate_result =
    GateThrew
  | Waiting
  | NotRun js_string "tool_permission option"
  | Go "tool_permission option" "(js_string list \<times> approval_answer) option"

definition wait_of :: "js_string \<Rightarrow> nat \<Rightarrow> nat \<Rightarrow> round \<Rightarrow> approval_answer option" where
  "wait_of call resolver l r = fst (wait_for_approval (r_aborted r) call resolver l (r_asked r) (r_events r) (r_run r))"

fun gate_loop :: "(gate_env \<Rightarrow> gate option) \<Rightarrow> (round \<Rightarrow> approval_answer option) \<Rightarrow> round list \<Rightarrow> emitted list \<times> gate_result" where
  "gate_loop g w [] = ([], Waiting)"
| "gate_loop g w (r # rs) =
     (case g (r_env r) of
        None \<Rightarrow> ([], GateThrew)
      | Some (GRun p) \<Rightarrow> ([], Go p None)
      | Some (GRefused out p) \<Rightarrow> ([], NotRun out p)
      | Some (GAsk rules note) \<Rightarrow>
          (case w r of
             None \<Rightarrow> ([Request (r_asked r) rules note], Waiting)
           | Some a \<Rightarrow>
               (case outcome a of
                  Regate \<Rightarrow> (case gate_loop g w rs of (es, x) \<Rightarrow> (Request (r_asked r) rules note # es, x))
                | Approved \<Rightarrow> ([Request (r_asked r) rules note], Go None (Some (rules, a)))
                | oc \<Rightarrow> ([Request (r_asked r) rules note], NotRun (approval_refusal_text oc) None))))"

datatype grant = GrantRules "js_string list" | GrantTool "stored_grant option"

text \<open>The run's state that a call reads and changes: its command rules and its tools; and what is stored for later runs.\<close>

record call_state =
  rules :: "command_rule list"
  tools :: toolset
  grants :: "grant list"

definition allow_rules :: "js_string list \<Rightarrow> command_rule list" where
  "allow_rules ps = map (\<lambda>p. \<lparr>rule_pattern = p, rule_act = AllowRule\<rparr>) ps"

definition record_always :: "js_string \<Rightarrow> resolved_tool \<Rightarrow> (js_string list \<times> approval_answer) option \<Rightarrow> call_state \<Rightarrow> call_state" where
  "record_always sender t asked s =
     (case asked of
        None \<Rightarrow> s
      | Some (offers, a) \<Rightarrow>
          if \<not> (always a \<and> answered_by a = Some sender) then s
          else if offers \<noteq> [] then s\<lparr>rules := rules s @ allow_rules offers, grants := grants s @ [GrantRules offers]\<rparr>
          else (case grant_trust t (tools s) of (ts, st) \<Rightarrow> s\<lparr>tools := ts, grants := grants s @ [GrantTool st]\<rparr>))"

text \<open>What performing a tool gives: its result, or that no sandbox could be had.\<close>

datatype performed = Performed js_string bool | NoSandbox js_string

definition run_one_tool_call :: "js_string \<Rightarrow> isolation \<Rightarrow> (resolved_tool \<Rightarrow> tool_args \<Rightarrow> performed) \<Rightarrow> nat \<Rightarrow> nat \<Rightarrow> js_string \<Rightarrow>
    js_string \<Rightarrow> tool_args \<Rightarrow> round list \<Rightarrow> call_state \<Rightarrow> emitted list \<times> call_state" where
  "run_one_tool_call sender ws perform resolver l call name args rs s =
     (case by_name (tools s) name of
        None \<Rightarrow> ([Result (''Unknown tool '' @ [DQ] @ name @ [DQ] @ ''. Available tools: see the tool list.'') False None], s)
      | Some t \<Rightarrow>
          (case gate_loop (permission_gate (rules s) ws t args) (wait_of call resolver l) rs of
             (es, NotRun out p) \<Rightarrow> (es @ [Result out False p], s)
           | (es, Go p asked) \<Rightarrow>
               (es @ (case perform t args of
                   Performed out ok \<Rightarrow> [Perform, Result out ok p]
                 | NoSandbox why \<Rightarrow> [Result (''Could not start a sandbox: '' @ why) False None]),
                record_always sender t asked s)
           | (es, _) \<Rightarrow> (es, s)))"

section \<open>The wait\<close>

definition same_questions :: "handle \<Rightarrow> handle \<Rightarrow> bool" where
  "same_questions h h' \<longleftrightarrow> approvals h' = approvals h \<and> mode_listeners h' = mode_listeners h \<and> steps_decision h' = steps_decision h
     \<and> h_stream h' = h_stream h \<and> h_conversation h' = h_conversation h"

lemma announce_keeps: "same_questions h (fst (announce_activity h))"
  by (simp add: announce_activity_def same_questions_def)

lemma set_mode_keeps: "set_run_mode m h = (sw, h', fx) \<Longrightarrow> same_questions h h'"
  by (auto simp: set_run_mode_def same_questions_def split: option.splits)

lemma same_trans: "same_questions h h1 \<Longrightarrow> same_questions h1 h2 \<Longrightarrow> same_questions h h2"
  by (simp add: same_questions_def)

text \<open>What settling leaves: the handle without the question and its listener.\<close>

definition freed :: "js_string \<Rightarrow> nat \<Rightarrow> handle \<Rightarrow> handle" where
  "freed call l h = h\<lparr>mode_listeners := removeAll l (mode_listeners h), approvals := map_delete call (approvals h)\<rparr>"

lemma map_delete_absent: "k \<notin> fst ` set xs \<Longrightarrow> map_delete k xs = xs"
  by (force simp: map_delete_def filter_id_conv)

lemma map_delete_set: "k \<notin> fst ` set xs \<Longrightarrow> map_delete k (map_set k v xs) = xs"
  by (induction k v xs rule: map_set.induct) (auto simp: map_delete_def)

lemma clear_frees: "same_questions (freed call l h) (fst (clear_run_approval call (stop_mode_listener l h)))"
proof (cases "call \<in> fst ` set (approvals h)")
  case True
  then have "fst (clear_run_approval call (stop_mode_listener l h))
      = fst (announce_activity (freed call l h))"
    by (simp add: clear_run_approval_def stop_mode_listener_def freed_def)
  then show ?thesis by (simp only: announce_keeps)
next
  case False
  then have "clear_run_approval call (stop_mode_listener l h) = (stop_mode_listener l h, [])"
    by (simp add: clear_run_approval_def stop_mode_listener_def)
  then show ?thesis
    using map_delete_absent [OF False] by (simp add: freed_def stop_mode_listener_def same_questions_def)
qed

lemma settle_frees: "settle call l a h = (Some a', h', fx) \<Longrightarrow> a' = a \<and> same_questions (freed call l h) h'"
  using clear_frees [of call l h] by (auto simp: settle_def)

lemma freed_same: "same_questions h h1 \<Longrightarrow> same_questions (freed call l h1) h2 \<Longrightarrow> same_questions (freed call l h) h2"
  by (simp add: freed_def same_questions_def)

text \<open>The answer of a person, the first in the wait: before it only switches of the mode that changed nothing.\<close>

definition answered :: "wait_event list \<Rightarrow> bool \<Rightarrow> js_string \<Rightarrow> bool \<Rightarrow> bool" where
  "answered es ok user alw \<longleftrightarrow>
     (\<exists>before after. es = before @ WAnswer ok user alw # after \<and> (\<forall>e\<in>set before. \<exists>m. e = WMode m))"

lemma answered_here: "answered (WAnswer ok user alw # es) ok user alw"
  unfolding answered_def by (rule exI [of _ "[]"]) simp

lemma answered_later: "answered es ok user alw \<Longrightarrow> answered (WMode m # es) ok user alw"
  unfolding answered_def by (metis append_Cons set_ConsD)

definition answer_fits :: "wait_event list \<Rightarrow> approval_answer \<Rightarrow> bool" where
  "answer_fits es a \<longleftrightarrow>
     (outcome a \<in> {Approved, DeniedBy} \<longrightarrow>
       (\<exists>user alw. answered es (outcome a = Approved) user alw \<and> answered_by a = Some user
          \<and> (always a \<longleftrightarrow> outcome a = Approved \<and> alw)))
     \<and> (outcome a \<notin> {Approved, DeniedBy} \<longrightarrow> answered_by a = None \<and> \<not> always a)"

lemma wait_events_settled:
  assumes "wait_events call l es h = (Some a, h', fx)"
  shows "same_questions (freed call l h) h' \<and> answer_fits es a"
  using assms
proof (induction es arbitrary: h fx)
  case (Cons e es)
  show ?case
  proof (cases e)
    case (WAnswer ok user alw)
    let ?a = "\<lparr>outcome = (if ok then Approved else DeniedBy), always = ok \<and> alw, answered_by = Some user\<rparr>"
    have "settle call l ?a h = (Some a, h', fx)" using Cons.prems WAnswer by simp
    then have "a = ?a" "same_questions (freed call l h) h'" using settle_frees by blast+
    moreover have "answer_fits (e # es) ?a"
      unfolding answer_fits_def WAnswer using answered_here by (cases ok) fastforce+
    ultimately show ?thesis by simp
  next
    case WAbort
    then have "settle call l (nobody Aborted) h = (Some a, h', fx)" using Cons.prems by simp
    then show ?thesis using settle_frees by (fastforce simp: answer_fits_def nobody_def)
  next
    case WTimeout
    then have "settle call l (nobody TimedOut) h = (Some a, h', fx)" using Cons.prems by simp
    then show ?thesis using settle_frees by (fastforce simp: answer_fits_def nobody_def)
  next
    case (WMode m)
    obtain sw h1 fx1 where m: "set_run_mode m h = (sw, h1, fx1)" by (metis prod_cases3)
    have same: "same_questions h h1" using set_mode_keeps [OF m] .
    show ?thesis
    proof (cases sw)
      case True
      then obtain fx2 where "settle call l (nobody Regate) h1 = (Some a, h', fx2)"
        using Cons.prems WMode m by (auto split: prod.splits)
      then have "a = nobody Regate" "same_questions (freed call l h1) h'" using settle_frees by blast+
      then show ?thesis using freed_same [OF same] by (simp add: answer_fits_def nobody_def)
    next
      case False
      then obtain fx2 where "wait_events call l es h1 = (Some a, h', fx2)"
        using Cons.prems WMode m by (auto split: prod.splits)
      from Cons.IH [OF this] have "same_questions (freed call l h1) h'" "answer_fits es a" by blast+
      then show ?thesis
        using freed_same [OF same] WMode answered_later by (fastforce simp: answer_fits_def)
    qed
  qed
qed simp

lemma waiting_frees:
  assumes "call \<notin> fst ` set (approvals h)" "l \<notin> set (mode_listeners h)"
  shows "same_questions h (freed call l (fst (set_run_approval call resolver (on_run_mode_change l h))))"
proof -
  have "same_questions (on_run_mode_change l h\<lparr>approvals := map_set call resolver (approvals h)\<rparr>)
      (fst (set_run_approval call resolver (on_run_mode_change l h)))"
    using announce_keeps by (simp add: set_run_approval_def on_run_mode_change_def)
  moreover have "map_delete call (map_set call resolver (approvals h)) = approvals h"
    using assms(1) by (rule map_delete_set)
  moreover have "removeAll l (List.insert l (mode_listeners h)) = mode_listeners h"
    using assms(2) by (simp add: List.insert_def)
  ultimately show ?thesis by (simp add: same_questions_def freed_def on_run_mode_change_def)
qed

section \<open>Properties of the wait\<close>

text \<open>C33: However a wait for an approval ends, it leaves the run as it found it: no pending question and no listener stays
  behind; and it ends as approved or denied only by a person's answer, the first event that was not an idle switch of the
  mode, with that person's name and their "always" only on an approval.\<close>

theorem wait_leaves_nothing:
  assumes "wait_for_approval aborted call resolver l asked es (Some h) = (Some a, run, fx)"
    and "call \<notin> fst ` set (approvals h)" "l \<notin> set (mode_listeners h)"
  shows "\<exists>h'. run = Some h' \<and> same_questions h h' \<and> answer_fits es a"
proof (cases aborted)
  case True
  then have "run = Some h" "a = nobody Aborted" using assms(1) by (auto simp: wait_for_approval_def)
  then show ?thesis by (simp add: same_questions_def answer_fits_def nobody_def)
next
  case False
  let ?h1 = "fst (set_run_approval call resolver (on_run_mode_change l h))"
  have f: "same_questions h (freed call l ?h1)" using waiting_frees [OF assms(2,3)] .
  obtain h1 fx1 where s: "set_run_approval call resolver (on_run_mode_change l h) = (h1, fx1)" by fastforce
  obtain h2 fx2 where "(if mode_or asked h1 \<noteq> asked then settle call l (nobody Regate) h1 else wait_events call l es h1)
      = (Some a, h2, fx2)" and r: "run = Some h2"
    using assms(1) False s by (auto simp: wait_for_approval_def split: prod.splits)
  then have w: "(if mode_or asked ?h1 \<noteq> asked then settle call l (nobody Regate) ?h1 else wait_events call l es ?h1)
      = (Some a, h2, fx2)" by (simp only: s fst_conv)
  have "same_questions (freed call l ?h1) h2 \<and> answer_fits es a"
  proof (cases "mode_or asked ?h1 \<noteq> asked")
    case True
    then have "settle call l (nobody Regate) ?h1 = (Some a, h2, fx2)" using w by simp
    then have "a = nobody Regate" "same_questions (freed call l ?h1) h2" using settle_frees by blast+
    then show ?thesis by (simp add: answer_fits_def nobody_def)
  next
    case False
    then show ?thesis using w wait_events_settled by simp
  qed
  then show ?thesis using r same_trans [OF f] by blast
qed

text \<open>An approval given in one round.\<close>

definition approved_by :: "round \<Rightarrow> js_string \<Rightarrow> bool \<Rightarrow> bool" where
  "approved_by r user alw \<longleftrightarrow> answered (r_events r) True user alw"

lemma wait_of_fits: "wait_of call resolver l r = Some a \<Longrightarrow> answer_fits (r_events r) a"
proof (cases "r_run r")
  case None
  then show "wait_of call resolver l r = Some a \<Longrightarrow> answer_fits (r_events r) a"
    by (auto simp: wait_of_def wait_for_approval_def answer_fits_def nobody_def split: if_splits)
next
  case (Some h)
  assume w: "wait_of call resolver l r = Some a"
  let ?h1 = "fst (set_run_approval call resolver (on_run_mode_change l h))"
  show ?thesis
  proof (cases "r_aborted r")
    case True
    then show ?thesis using w by (auto simp: wait_of_def wait_for_approval_def answer_fits_def nobody_def)
  next
    case False
    then have "fst (if mode_or (r_asked r) ?h1 \<noteq> r_asked r then settle call l (nobody Regate) ?h1
        else wait_events call l (r_events r) ?h1) = Some a"
      using w Some by (simp add: wait_of_def wait_for_approval_def case_prod_beta)
    then consider "a = nobody Regate" | "fst (wait_events call l (r_events r) ?h1) = Some a"
      by (auto simp: settle_def split: if_splits)
    then show ?thesis
    proof cases
      case 2
      then show ?thesis using wait_events_settled by (metis prod.collapse)
    qed (simp add: answer_fits_def nobody_def)
  qed
qed

section \<open>Properties of a call\<close>

text \<open>How the loop can end with the tool performed.\<close>

lemma gate_loop_go:
  assumes "gate_loop g w rs = (es, Go p asked)"
  shows "\<exists>r\<in>set rs. (asked = None \<and> g (r_env r) = Some (GRun p))
    \<or> (\<exists>offers nt a. asked = Some (offers, a) \<and> g (r_env r) = Some (GAsk offers nt) \<and> w r = Some a \<and> outcome a = Approved
        \<and> es \<noteq> [] \<and> last es = Request (r_asked r) offers nt)"
  using assms
proof (induction rs arbitrary: es)
  case (Cons r rs)
  show ?case
  proof (cases "g (r_env r)")
    case (Some gt)
    show ?thesis
    proof (cases gt)
      case (GAsk offers nt)
      then obtain a where a: "w r = Some a" using Cons.prems Some by (auto split: option.splits)
      show ?thesis
      proof (cases "outcome a = Regate")
        case True
        then obtain es' where "gate_loop g w rs = (es', Go p asked)" "es = Request (r_asked r) offers nt # es'"
          using Cons.prems Some GAsk a by (auto split: prod.splits)
        then show ?thesis using Cons.IH by fastforce
      next
        case False
        then show ?thesis using Cons.prems Some GAsk a by (auto split: approval_outcome.splits)
      qed
    qed (use Cons.prems Some in auto)
  qed (use Cons.prems in simp)
qed simp

lemma gate_loop_requests: "gate_loop g w rs = (es, x) \<Longrightarrow> \<forall>e\<in>set es. \<exists>m offers nt. e = Request m offers nt"
  by (induction rs arbitrary: es)
    (auto split: option.splits gate.splits approval_outcome.splits prod.splits)









text \<open>C2: "Allow always" is the sender's alone, and is for what was shown: a call changes the run's rules and tools, and
  what is stored, only by an approval with "always" of the person the tools belong to, and then by exactly the rules the
  question offered, or where it offered none by trust in this one tool.\<close>

theorem grants_are_the_senders:
  assumes "run_one_tool_call sender ws perform resolver l call name args rs s = (es, s')" "s' \<noteq> s"
  shows "\<exists>r\<in>set rs. \<exists>offers nt t. approved_by r sender True \<and> Request (r_asked r) offers nt \<in> set es
    \<and> by_name (tools s) name = Some t
    \<and> (if offers \<noteq> [] then s' = s\<lparr>rules := rules s @ allow_rules offers, grants := grants s @ [GrantRules offers]\<rparr>
       else s' = s\<lparr>tools := fst (grant_trust t (tools s)), grants := grants s @ [GrantTool (snd (grant_trust t (tools s)))]\<rparr>)"
proof -
  obtain t where t: "by_name (tools s) name = Some t"
    using assms by (cases "by_name (tools s) name") (auto simp: run_one_tool_call_def)
  obtain es' x where g: "gate_loop (permission_gate (rules s) ws t args) (wait_of call resolver l) rs = (es', x)" by fastforce
  obtain p asked where x: "x = Go p asked" and s': "s' = record_always sender t asked s" and sub: "set es' \<subseteq> set es"
    using assms t g by (cases x) (auto simp: run_one_tool_call_def)
  obtain offers a where a: "asked = Some (offers, a)" "always a" "answered_by a = Some sender"
    using s' assms(2) by (auto simp: record_always_def split: option.splits if_splits)
  from gate_loop_go [OF g [unfolded x]] a(1) obtain r nt where r: "r \<in> set rs" "wait_of call resolver l r = Some a"
      "outcome a = Approved" "es' \<noteq> []" "last es' = Request (r_asked r) offers nt" by auto
  have "approved_by r sender True"
    using wait_of_fits [OF r(2)] r(3) a by (auto simp: answer_fits_def approved_by_def)
  moreover have "Request (r_asked r) offers nt \<in> set es" using r(4,5) sub last_in_set by (metis subsetD)
  moreover have "if offers \<noteq> [] then s' = s\<lparr>rules := rules s @ allow_rules offers, grants := grants s @ [GrantRules offers]\<rparr>
      else s' = s\<lparr>tools := fst (grant_trust t (tools s)), grants := grants s @ [GrantTool (snd (grant_trust t (tools s)))]\<rparr>"
    using s' a by (simp add: record_always_def split: prod.split)
  ultimately show ?thesis using r(1) t by blast
qed


text \<open>A call that ends gives the model exactly one result, after everything it asked; the result says it did not work
  unless the tool was performed, and a call that still waits, or whose gate failed, has changed nothing.\<close>

theorem one_result_per_call:
  "\<exists>asks. fst (run_one_tool_call sender ws perform resolver l call name args rs s) \<in>
       {asks} \<union> {asks @ [Result out False p] | out p. True} \<union> {asks @ [Perform, Result out ok p] | out ok p. True}
     \<and> (\<forall>e\<in>set asks. \<exists>m offers nt. e = Request m offers nt) \<and> length asks \<le> length rs
     \<and> (fst (run_one_tool_call sender ws perform resolver l call name args rs s) = asks \<longrightarrow>
          snd (run_one_tool_call sender ws perform resolver l call name args rs s) = s)"
proof (cases "by_name (tools s) name")
  case None
  then show ?thesis by (intro exI [of _ "[]"]) (auto simp: run_one_tool_call_def)
next
  case (Some t)
  obtain es x where g: "gate_loop (permission_gate (rules s) ws t args) (wait_of call resolver l) rs = (es, x)" by fastforce
  have "length es \<le> length rs"
    using g by (induction rs arbitrary: es)
      (auto split: option.splits gate.splits approval_outcome.splits prod.splits)
  then show ?thesis
    using Some g gate_loop_requests [OF g]
    by (intro exI [of _ es]) (cases x; auto simp: run_one_tool_call_def split: performed.split)
qed

section \<open>"Allow always" does what it says\<close>

text \<open>What a rule needs of a command to fit it again: its program is one word, its arguments are not empty and, for git,
  hold no \<open>-C\<close>.\<close>

definition rule_fits :: "segment \<Rightarrow> bool" where
  "rule_fits seg \<longleftrightarrow>
     (case unwrap (argv seg) of
        [] \<Rightarrow> True
      | head # ws \<Rightarrow> wordlike (w_text head) \<and> (\<forall>w\<in>set ws. w_text w \<noteq> [])
          \<and> (w_text head = ''git'' \<longrightarrow> (\<forall>w\<in>set ws. w_text w \<noteq> ''-C'')))"

lemma proposals_loop_all:
  assumes "proposals_loop out zs = offers" "offers \<noteq> []"
  shows "set out \<subseteq> set offers \<and> (\<forall>(seg, q)\<in>set zs. q = POpen \<or> q = PBuiltinAsk \<longrightarrow> (\<exists>r\<in>set offers. propose_rule seg = Some r))"
  using assms by (induction out zs rule: proposals_loop.induct) (auto split: option.splits if_splits)

lemma covered_allow: "covered a (rs @ allow_rules ps) seg \<longleftrightarrow>
    covered a rs seg \<or> a = AllowRule \<and> (\<exists>p\<in>set ps. rule_matches p seg True)"
  by (cases a) (force simp: covered_def allow_rules_def)+

lemma may_run_more: "may_run rs seg \<Longrightarrow> may_run (rs @ allow_rules ps) seg"
  by (auto simp: may_run_def covered_allow)

lemma proposed_may_run:
  assumes "propose_rule seg = Some p" "p \<in> set ps" "rule_fits seg"
    and "\<not> covered DenyRule rs seg" "\<not> covered AskRule rs seg"
  shows "may_run (rs @ allow_rules ps) seg"
proof -
  obtain head ws where av: "unwrap (argv seg) = head # ws"
    using assms(1) by (cases "unwrap (argv seg)") (auto simp: propose_rule_def split: if_splits)
  have "rule_matches p seg True"
    using assms(3) av by (intro propose_rule_matches [OF assms(1) av]) (auto simp: rule_fits_def)
  then show ?thesis using assms(2,4,5) by (auto simp: may_run_def covered_allow)
qed

text \<open>Every question that offers rules comes from the part of the decision that follows them.\<close>

lemma offered_parts:
  assumes "decide_parsed mode rs iso' ss = Some (Ask offers why) \<or> decide_parsed mode rs iso' ss = Some (Classify offers)"
    and "offers \<noteq> []"
  obtains ps where "judge_all rs ss = Some ps" "deny_of ps = None" "ask_rule_of ps = None" "proposals ss ps = offers"
  using assms
  by (auto simp: decide_parsed_def decide_open_def split: option.splits if_splits bool.splits)

text \<open>
  C3: Once the rules a question offered are recorded, the very line it asked about runs without a question, in manual
  and in auto mode (not in planning), contained or not. The line is one its rules fit again: each
  program is one plain word, no argument is empty, and git has no \<open>-C\<close>; others may be offered a rule that never matches them.
\<close>

theorem allow_always_sticks:
  assumes "parse_command command = ParseOk ss" "\<forall>seg\<in>set ss. rule_fits seg"
    and "decide_bash command mode rs iso' = Some (Ask offers why) \<or> decide_bash command mode rs iso' = Some (Classify offers)"
    and "offers \<noteq> []" "mode' \<noteq> Planning"
  shows "BashPolicy.runs (decide_bash command mode' (rs @ allow_rules offers) iso2)"
proof -
  have "decide_parsed mode rs iso' ss = Some (Ask offers why) \<or> decide_parsed mode rs iso' ss = Some (Classify offers)"
    using assms(1,3) by (simp add: decide_bash_def)
  then obtain ps where ps: "judge_all rs ss = Some ps" "deny_of ps = None" "ask_rule_of ps = None" "proposals ss ps = offers"
    using offered_parts assms(4) by blast
  have len: "length ss = length ps" "\<And>i. i < length ss \<Longrightarrow> judge rs (ss ! i) = Some (ps ! i)"
    using judge_all_Some [OF ps(1)] by (auto simp: list_all2_conv_all_nth)
  have "may_run (rs @ allow_rules offers) seg" if seg: "seg \<in> set ss" for seg
  proof -
    consider "may_run rs seg" | q where "judge rs seg = Some q" "q = PBuiltinAsk \<or> q = POpen"
      using part_cases [OF ps(1-3) seg] by blast
    then show ?thesis
    proof cases
      case 2
      have un: "uncovered rs seg" using 2 judge_builtin_iff judge_open_iff by blast
      obtain i where i: "i < length ss" "ss ! i = seg" using seg by (metis in_set_conv_nth)
      then have "(seg, q) \<in> set (zip ss ps)" using len 2(1) by (metis in_set_zip fst_conv snd_conv option.inject)
      then obtain p where "propose_rule seg = Some p" "p \<in> set offers"
        using proposals_loop_all [OF ps(4) [unfolded proposals_def] assms(4)] 2(2) by fastforce
      then show ?thesis
        using proposed_may_run assms(2) seg un by (simp add: uncovered_def)
    qed (rule may_run_more)
  qed
  then show ?thesis
    using assms(1,5) may_run_isolated_iff_judge may_run_iff_judge by (auto simp: decide_bash_def runs_decide_parsed may_run_isolated_def)
qed

section \<open>A call\<close>

text \<open>Ann's run in manual mode asks for a build; the mode is switched to auto and back before she allows it for good.\<close>

definition sample_run :: handle where
  "sample_run = \<lparr>h_stream = ''s'', h_conversation = ''c'', h_model = None, approvals = [], steps_decision = None,
     h_parent = None, queue_position = None, announced = None, h_mode = Some PManual, mode_log = False, mode_listeners = [],
     h_limits = None, limit_listeners = []\<rparr>"

definition sample_round :: "wait_event list \<Rightarrow> round" where
  "sample_round es = \<lparr>r_env = \<lparr>gate_mode = Manual, late_mode = Manual, check_events = [], check_end = Ended\<rparr>, r_asked = Manual,
     r_aborted = False, r_run = Some sample_run, r_events = es\<rparr>"

definition sample_state :: call_state where
  "sample_state = \<lparr>rules = [\<lparr>rule_pattern = ''rm *'', rule_act = DenyRule\<rparr>],
     tools = build_toolset Manual {} (resolve_builtin_tools Manual True False False) [], grants = []\<rparr>"

definition sample_call :: "js_string \<Rightarrow> round list \<Rightarrow> emitted list \<times> call_state" where
  "sample_call command rs = run_one_tool_call ''ann'' \<lparr>isolated = False, roots = []\<rparr> (\<lambda>_ _. Performed ''done'' True) 1 2
     ''call_0'' ''bash'' [''command'' \<mapsto> command] rs sample_state"

abbreviation BUILD_ROUNDS :: "round list" where
  "BUILD_ROUNDS \<equiv> [sample_round [WMode PManual, WMode PAuto], sample_round [WMode PManual, WAnswer True ''ann'' True]]"

lemma sample_tool:
  "by_name (tools sample_state) ''bash'' =
     Some \<lparr>tool_name = ''bash'', requires_approval = True, is_write = False, source = Builtin\<rparr>"
  by code_simp

lemma sample_gate:
  "permission_gate (rules sample_state) \<lparr>isolated = False, roots = []\<rparr>
      \<lparr>tool_name = ''bash'', requires_approval = True, is_write = False, source = Builtin\<rparr> [''command'' \<mapsto> ''npm run build'']
      (r_env (sample_round es)) = Some (GAsk [''npm run build *''] None)"
proof -
  have "decide_bash ''npm run build'' Manual (rules sample_state) False = Some (Ask [''npm run build *''] [])" by code_simp
  then show ?thesis by (simp add: permission_gate_def bash_gate_def sample_round_def string_arg_def)
qed

lemma sample_waits:
  "wait_of ''call_0'' 1 2 (sample_round [WMode PManual, WMode PAuto]) = Some (nobody Regate)"
  "wait_of ''call_0'' 1 2 (sample_round [WMode PManual, WAnswer True ''ann'' True])
     = Some \<lparr>outcome = Approved, always = True, answered_by = Some ''ann''\<rparr>"
  by code_simp+

lemma sample_call_value:
  "fst (sample_call ''npm run build'' BUILD_ROUNDS) = [Request Manual [''npm run build *''] None,
     Request Manual [''npm run build *''] None, Perform, Result ''done'' True None]"
  "grants (snd (sample_call ''npm run build'' BUILD_ROUNDS)) = [GrantRules [''npm run build *'']]"
  unfolding sample_call_def run_one_tool_call_def sample_tool
  by (simp_all add: sample_gate sample_waits [unfolded One_nat_def] nobody_def record_always_def)
    (simp_all add: sample_round_def sample_state_def)

theorem wait_leaves_nothing_witness:
  "answer_fits [WMode PManual, WAnswer True ''ann'' True] \<lparr>outcome = Approved, always = True, answered_by = Some ''ann''\<rparr>"
proof -
  let ?w = "wait_for_approval False ''call_0'' 1 2 Manual [WMode PManual, WAnswer True ''ann'' True] (Some sample_run)"
  have "fst ?w = Some \<lparr>outcome = Approved, always = True, answered_by = Some ''ann''\<rparr>" by code_simp
  then have "?w = (Some \<lparr>outcome = Approved, always = True, answered_by = Some ''ann''\<rparr>, fst (snd ?w), snd (snd ?w))"
    by (simp add: prod_eq_iff)
  from wait_leaves_nothing [OF this] show ?thesis by (auto simp: sample_run_def)
qed


theorem grants_are_the_senders_witness:
  "\<exists>r\<in>set BUILD_ROUNDS. approved_by r ''ann'' True"
proof -
  let ?c = "sample_call ''npm run build'' BUILD_ROUNDS"
  have "snd ?c \<noteq> sample_state" using sample_call_value(2) by (auto simp: sample_state_def)
  from grants_are_the_senders [OF prod.collapse [symmetric, of ?c, unfolded sample_call_def] this [unfolded sample_call_def]]
  show ?thesis by blast
qed


theorem one_result_per_call_witness:
  "\<exists>asks. length asks \<le> 2 \<and> Perform \<notin> set asks \<and> fst (sample_call ''npm run build'' BUILD_ROUNDS) \<noteq> asks"
proof -
  let ?f = "fst (sample_call ''npm run build'' BUILD_ROUNDS)"
  obtain asks where "length asks \<le> length BUILD_ROUNDS" "\<forall>e\<in>set asks. \<exists>m offers nt. e = Request m offers nt"
    using one_result_per_call [of "''ann''" "\<lparr>isolated = False, roots = []\<rparr>" "\<lambda>_ _. Performed ''done'' True" 1 2 "''call_0''" "''bash''"
        "[''command'' \<mapsto> ''npm run build'']" BUILD_ROUNDS sample_state] by blast
  moreover from this(2) have "Perform \<notin> set asks" by blast
  moreover from this have "?f \<noteq> asks" using sample_call_value(1) by auto
  ultimately show ?thesis by (intro exI [of _ asks]) simp
qed

theorem allow_always_sticks_witness:
  "BashPolicy.runs (decide_bash ''npm run build'' Manual ([] @ allow_rules [''npm run build *'']) False)"
proof (rule allow_always_sticks [where mode = Manual and iso' = False])
  show "parse_command ''npm run build'' = ParseOk [plain_segment [''npm'', ''run'', ''build'']]" by code_simp
  show "decide_bash ''npm run build'' Manual [] False = Some (Ask [''npm run build *''] [])
      \<or> decide_bash ''npm run build'' Manual [] False = Some (Classify [''npm run build *''])" by code_simp
  show "\<forall>seg\<in>set [plain_segment [''npm'', ''run'', ''build'']]. rule_fits seg"
    by (simp add: rule_fits_def) code_simp
qed simp_all

end
