(* ===== verification/Attachments.thy ===== *)
theory Attachments
  imports Markers Json
begin

text \<open>
  Which attachments one prompt carries (\<open>files/storage.ts\<close>: \<open>selectAffordableAttachments\<close>, \<open>attachmentContentParts\<close>). What is
  on disk is a parameter: \<open>size\<close> and \<open>text_size\<close> are the bytes of a file and of its extracted text, \<^const>\<open>None\<close> where it
  cannot be read.
\<close>

section \<open>Budgets\<close>

record attachment =
  a_ref :: js_string
  a_mime :: js_string
  a_name :: "js_string option"

definition IMAGE_MIMES :: "js_string list" where
  "IMAGE_MIMES = [''image/jpeg'', ''image/png'', ''image/webp'', ''image/gif'']"

definition is_image :: "attachment \<Rightarrow> bool" where
  "is_image a \<longleftrightarrow> lower (a_mime a) \<in> set IMAGE_MIMES"

definition MAX_ATTACHMENT_BYTES :: int where "MAX_ATTACHMENT_BYTES = 10 * 1024 * 1024"
definition MAX_EXTRACTED_BYTES :: int where "MAX_EXTRACTED_BYTES = 256 * 1024"
definition MAX_HISTORY_IMAGE_BYTES :: int where "MAX_HISTORY_IMAGE_BYTES = 32 * 1024 * 1024"

text \<open>\<open>estimateTokens("history", s)\<close> of a text of that length: a quarter, rounded half up.\<close>

definition estimate_tokens :: "int \<Rightarrow> int" where
  "estimate_tokens chars = (chars + 2) div 4"

definition MAX_SINGLE_DOCUMENT_TOKENS :: int where
  "MAX_SINGLE_DOCUMENT_TOKENS = estimate_tokens MAX_EXTRACTED_BYTES"

definition MAX_HISTORY_DOCUMENT_TOKENS :: int where
  "MAX_HISTORY_DOCUMENT_TOKENS = MAX_SINGLE_DOCUMENT_TOKENS * 3"

definition CURRENT_TURN_IMAGE_BYTES :: int where "CURRENT_TURN_IMAGE_BYTES = MAX_ATTACHMENT_BYTES"
definition CURRENT_TURN_DOCUMENT_TOKENS :: int where "CURRENT_TURN_DOCUMENT_TOKENS = MAX_SINGLE_DOCUMENT_TOKENS"

text \<open>The refs allowed so far, the newest last, and what is left of each budget.\<close>

record budget =
  allowed :: "js_string list"
  image_bytes :: int
  document_tokens :: int

type_synonym disk = "(js_string \<Rightarrow> nat option) \<times> (js_string \<Rightarrow> nat option)"

definition document_cost :: "nat \<Rightarrow> int" where
  "document_cost raw = estimate_tokens (min (int raw) MAX_EXTRACTED_BYTES)"

definition admit_one :: "disk \<Rightarrow> attachment \<Rightarrow> budget \<Rightarrow> budget" where
  "admit_one disk a b =
     (let r = a_ref a; ok = b\<lparr>allowed := allowed b @ [r]\<rparr> in
      if r \<in> set (allowed b) then b
      else if is_image a then
        (case fst disk r of
           None \<Rightarrow> ok
         | Some n \<Rightarrow> if image_bytes b < int n then b else ok\<lparr>image_bytes := image_bytes b - int n\<rparr>)
      else (case snd disk r of
           None \<Rightarrow> ok
         | Some n \<Rightarrow>
             if document_tokens b < document_cost n then b
             else ok\<lparr>document_tokens := document_tokens b - document_cost n\<rparr>))"

definition admit_refs :: "disk \<Rightarrow> attachment list \<Rightarrow> budget \<Rightarrow> budget" where
  "admit_refs disk = fold (admit_one disk)"

definition history_budget :: budget where
  "history_budget = \<lparr>allowed = [], image_bytes = MAX_HISTORY_IMAGE_BYTES - CURRENT_TURN_IMAGE_BYTES,
     document_tokens = MAX_HISTORY_DOCUMENT_TOKENS - CURRENT_TURN_DOCUMENT_TOKENS\<rparr>"

definition add_reserve :: "budget \<Rightarrow> budget" where
  "add_reserve b = b\<lparr>image_bytes := image_bytes b + CURRENT_TURN_IMAGE_BYTES,
     document_tokens := document_tokens b + CURRENT_TURN_DOCUMENT_TOKENS\<rparr>"

definition settled_budget :: "disk \<Rightarrow> attachment list list \<Rightarrow> budget" where
  "settled_budget disk turns =
     (let b = add_reserve (fold (admit_refs disk) (butlast turns) history_budget) in
      if turns = [] then b else admit_refs disk (last turns) b)"

definition select_affordable :: "disk \<Rightarrow> attachment list list \<Rightarrow> js_string list" where
  "select_affordable disk turns = allowed (settled_budget disk turns)"

section \<open>What a document reads as\<close>

definition MAX_FILENAME_LENGTH :: nat where "MAX_FILENAME_LENGTH = 200"

text \<open>\<open>decode_uri\<close> is \<open>decodeURIComponent\<close>, \<^const>\<open>None\<close> where it throws; the name is a value of any kind.\<close>

definition control :: "char \<Rightarrow> bool" where
  "control c \<longleftrightarrow> in_range 0 31 c \<or> in_range 127 159 c"

definition sanitize_filename :: "(js_string \<Rightarrow> js_string option) \<Rightarrow> json \<Rightarrow> js_string" where
  "sanitize_filename decode_uri raw =
     (case raw of
        JStr r \<Rightarrow>
          (let decoded = (case decode_uri r of Some d \<Rightarrow> d | None \<Rightarrow> r);
               base = rev (takeWhile (\<lambda>c. c \<noteq> CHR ''/'' \<and> c \<noteq> BS) (rev decoded));
               cleaned = trim (filter (\<lambda>c. \<not> control c) base)
           in if cleaned = [] \<or> list_all (\<lambda>c. c = CHR ''.'') cleaned then ''file''
              else take MAX_FILENAME_LENGTH cleaned)
      | _ \<Rightarrow> ''file'')"

definition DOCUMENT_CLOSE :: js_string where "DOCUMENT_CLOSE = ''</attached-file''"
definition DOCUMENT_BROKEN :: js_string where "DOCUMENT_BROKEN = CHR ''<'' # ZWSP # ''/attached-file''"

definition document_head :: "js_string \<Rightarrow> js_string \<Rightarrow> js_string" where
  "document_head name mime =
     ''<attached-file name='' @ [DQ] @ replace_all [DQ] [SQ] name @ [DQ] @ '' type='' @ [DQ] @ mime @ [DQ]
       @ '' provenance='' @ [DQ] @ ''untrusted user upload'' @ [DQ] @ ''>''"

definition wrap_document :: "js_string \<Rightarrow> js_string \<Rightarrow> js_string \<Rightarrow> js_string option \<Rightarrow> js_string" where
  "wrap_document name mime txt note =
     join [NL] ([document_head name mime, replace_all DOCUMENT_CLOSE DOCUMENT_BROKEN txt, ''</attached-file>'']
       @ (case note of None \<Rightarrow> [] | Some n \<Rightarrow> if n = [] then [] else [n]))"

definition unavailable_note :: "attachment \<Rightarrow> js_string \<Rightarrow> js_string" where
  "unavailable_note a reason =
     ''[attached file '' @ json_string (case a_name a of None \<Rightarrow> ''file'' | Some n \<Rightarrow> n) @ '' '' @ reason @ '']''"

text \<open>The cut on a character boundary: half a character decodes to U+FFFD, which is taken off.\<close>

definition truncate_for_prompt :: "js_string \<Rightarrow> nat \<Rightarrow> js_string" where
  "truncate_for_prompt txt max_bytes =
     (if length (utf8 txt) \<le> max_bytes then txt
      else (let t = decode (take max_bytes (utf8 txt)) in
            if t \<noteq> [] \<and> last t = REPLACEMENT then butlast t else t))"

definition truncation_note :: "bool \<Rightarrow> js_string option \<Rightarrow> js_string option" where
  "truncation_note overflowed path =
     (if \<not> overflowed then None
      else (let base = ''[truncated at '' @ digits (nat MAX_EXTRACTED_BYTES) @ '' bytes '' @ [EM_DASH]
              @ '' this is the start of the file, not all of it.''
            in Some (case path of
                 Some p \<Rightarrow> if p = [] then base @ '']''
                   else base @ '' Full text is at '' @ p @ '' '' @ [EM_DASH]
                     @ '' use grep to find a section, then fs_read with offset/limit to read it.]''
               | None \<Rightarrow> base @ '']'')))"

section \<open>The parts of a message\<close>

datatype content_part = TextPart js_string | ImagePart js_string

text \<open>
  \<open>pic\<close> is a file's bytes in base64, \<open>doc\<close> its extracted text, \<open>overflow\<close> what the handler of the caller answers when a
  text is cut: the path it wrote the whole one to.
\<close>

record reading =
  pic :: "js_string \<Rightarrow> js_string option"
  doc :: "js_string \<Rightarrow> js_string option"
  overflow :: "(attachment \<Rightarrow> js_string \<Rightarrow> js_string option) option"

definition document_part :: "reading \<Rightarrow> attachment \<Rightarrow> content_part" where
  "document_part rd a =
     (case doc rd (a_ref a) of
        None \<Rightarrow> TextPart (unavailable_note a ''could not be read'')
      | Some extracted \<Rightarrow>
          (let for_prompt = truncate_for_prompt extracted (nat MAX_EXTRACTED_BYTES);
               overflowed = (length for_prompt \<noteq> length extracted);
               path = (case overflow rd of Some h \<Rightarrow> if overflowed then h a extracted else None | None \<Rightarrow> None)
           in TextPart (wrap_document (case a_name a of None \<Rightarrow> ''file'' | Some n \<Rightarrow> n) (a_mime a) for_prompt
                (truncation_note overflowed path))))"

definition attachment_part :: "reading \<Rightarrow> js_string set option \<Rightarrow> attachment \<Rightarrow> content_part" where
  "attachment_part rd verdict a =
     (if (case verdict of None \<Rightarrow> False | Some v \<Rightarrow> a_ref a \<notin> v) then
        TextPart (if is_image a then ''[image omitted: over this prompt'' @ [SQ] @ ''s image budget]''
          else unavailable_note a (''omitted: over this prompt'' @ [SQ] @ ''s document budget''))
      else if is_image a then
        (case pic rd (a_ref a) of
           None \<Rightarrow> TextPart ''[image unavailable]''
         | Some b \<Rightarrow> ImagePart (''data:'' @ a_mime a @ '';base64,'' @ b))
      else document_part rd a)"

fun first_of_refs :: "js_string list \<Rightarrow> attachment list \<Rightarrow> attachment list" where
  "first_of_refs seen [] = []"
| "first_of_refs seen (a # as) =
     (if a_ref a \<in> set seen then first_of_refs seen as else a # first_of_refs (a_ref a # seen) as)"

definition attachment_content_parts :: "reading \<Rightarrow> attachment list \<Rightarrow> js_string \<Rightarrow> js_string set option \<Rightarrow> content_part list" where
  "attachment_content_parts rd atts msg verdict =
     map (attachment_part rd verdict) (first_of_refs [] atts) @ (if msg = [] then [] else [TextPart msg])"

section \<open>What is spent\<close>

definition spent_images :: "disk \<Rightarrow> (js_string \<Rightarrow> bool) \<Rightarrow> budget \<Rightarrow> int" where
  "spent_images disk img b = sum_list (map (\<lambda>r. if img r then (case fst disk r of None \<Rightarrow> 0 | Some n \<Rightarrow> int n) else 0) (allowed b))"

definition spent_documents :: "disk \<Rightarrow> (js_string \<Rightarrow> bool) \<Rightarrow> budget \<Rightarrow> int" where
  "spent_documents disk img b =
     sum_list (map (\<lambda>r. if img r then 0 else (case snd disk r of None \<Rightarrow> 0 | Some n \<Rightarrow> document_cost n)) (allowed b))"

text \<open>\<open>i\<close> and \<open>d\<close> are what both budgets had in all; \<open>img\<close> says of a ref whether it is an image.\<close>

definition budget_inv :: "disk \<Rightarrow> (js_string \<Rightarrow> bool) \<Rightarrow> int \<Rightarrow> int \<Rightarrow> budget \<Rightarrow> bool" where
  "budget_inv disk img i d b \<longleftrightarrow>
     distinct (allowed b) \<and> 0 \<le> image_bytes b \<and> 0 \<le> document_tokens b
     \<and> spent_images disk img b + image_bytes b = i \<and> spent_documents disk img b + document_tokens b = d"

lemma admit_one_inv:
  assumes "budget_inv disk img i d b" "is_image a \<longleftrightarrow> img (a_ref a)"
  shows "budget_inv disk img i d (admit_one disk a b)"
  using assms
  by (auto simp: budget_inv_def admit_one_def Let_def spent_images_def spent_documents_def split: option.split)

lemma admit_inv:
  assumes "budget_inv disk img i d b" "\<forall>a\<in>set as. is_image a \<longleftrightarrow> img (a_ref a)"
  shows "budget_inv disk img i d (admit_refs disk as b)"
  using assms by (induction as arbitrary: b) (auto simp: admit_refs_def admit_one_inv)

lemma fold_admit_inv:
  assumes "budget_inv disk img i d b" "\<forall>as\<in>set turns. \<forall>a\<in>set as. is_image a \<longleftrightarrow> img (a_ref a)"
  shows "budget_inv disk img i d (fold (admit_refs disk) turns b)"
  using assms by (induction turns arbitrary: b) (auto simp: admit_inv)

lemma reserve_inv:
  "budget_inv disk img i d b \<Longrightarrow>
   budget_inv disk img (i + CURRENT_TURN_IMAGE_BYTES) (d + CURRENT_TURN_DOCUMENT_TOKENS) (add_reserve b)"
  by (auto simp: budget_inv_def add_reserve_def spent_images_def spent_documents_def CURRENT_TURN_IMAGE_BYTES_def
      CURRENT_TURN_DOCUMENT_TOKENS_def MAX_ATTACHMENT_BYTES_def MAX_SINGLE_DOCUMENT_TOKENS_def estimate_tokens_def
      MAX_EXTRACTED_BYTES_def)

lemmas budget_constants = MAX_HISTORY_IMAGE_BYTES_def CURRENT_TURN_IMAGE_BYTES_def MAX_ATTACHMENT_BYTES_def
  MAX_HISTORY_DOCUMENT_TOKENS_def CURRENT_TURN_DOCUMENT_TOKENS_def MAX_SINGLE_DOCUMENT_TOKENS_def estimate_tokens_def
  MAX_EXTRACTED_BYTES_def

lemma history_budget_inv:
  "budget_inv disk img (MAX_HISTORY_IMAGE_BYTES - CURRENT_TURN_IMAGE_BYTES)
     (MAX_HISTORY_DOCUMENT_TOKENS - CURRENT_TURN_DOCUMENT_TOKENS) history_budget"
  by (simp add: budget_inv_def history_budget_def spent_images_def spent_documents_def budget_constants)

lemma settled_inv:
  assumes "\<forall>as\<in>set turns. \<forall>a\<in>set as. is_image a \<longleftrightarrow> img (a_ref a)"
  shows "budget_inv disk img MAX_HISTORY_IMAGE_BYTES MAX_HISTORY_DOCUMENT_TOKENS (settled_budget disk turns)"
proof -
  have "budget_inv disk img MAX_HISTORY_IMAGE_BYTES MAX_HISTORY_DOCUMENT_TOKENS
      (add_reserve (fold (admit_refs disk) (butlast turns) history_budget))"
    using reserve_inv [OF fold_admit_inv [OF history_budget_inv, where turns = "butlast turns" and img = img and disk = disk]]
      assms by (auto dest: in_set_butlastD)
  note reserved = this
  show ?thesis
  proof (cases "turns = []")
    case True
    then show ?thesis using reserved by (simp add: settled_budget_def)
  next
    case False
    then have "\<forall>a\<in>set (last turns). is_image a = img (a_ref a)" using assms last_in_set by blast
    from admit_inv [OF reserved this] show ?thesis using False by (simp add: settled_budget_def Let_def)
  qed
qed

section \<open>Whose verdict depends on what\<close>

lemma admit_one_other: "a_ref a \<noteq> r \<Longrightarrow> r \<in> set (allowed (admit_one disk a b)) \<longleftrightarrow> r \<in> set (allowed b)"
  by (auto simp: admit_one_def Let_def split: option.split)

lemma admit_other: "r \<notin> a_ref ` set as \<Longrightarrow> r \<in> set (allowed (admit_refs disk as b)) \<longleftrightarrow> r \<in> set (allowed b)"
  by (induction as arbitrary: b) (auto simp: admit_refs_def admit_one_other)

lemma fold_admit_other:
  "\<forall>as\<in>set turns. r \<notin> a_ref ` set as \<Longrightarrow> r \<in> set (allowed (fold (admit_refs disk) turns b)) \<longleftrightarrow> r \<in> set (allowed b)"
  by (induction turns arbitrary: b) (auto simp: admit_other)

lemma select_prefix:
  assumes "ys \<noteq> []" "\<forall>as\<in>set ys. r \<notin> a_ref ` set as"
  shows "r \<in> set (select_affordable disk (xs @ ys)) \<longleftrightarrow> r \<in> set (allowed (fold (admit_refs disk) xs history_budget))"
proof -
  have "last ys \<in> set ys" using assms(1) by simp
  then have "r \<notin> a_ref ` set (last ys)" using assms(2) by blast
  moreover have "\<forall>as\<in>set (butlast ys). r \<notin> a_ref ` set as" using assms(2) by (meson in_set_butlastD)
  ultimately show ?thesis
    using assms(1) by (simp add: select_affordable_def settled_budget_def Let_def butlast_append admit_other add_reserve_def fold_admit_other)
qed

section \<open>Properties\<close>

text \<open>C31: A prompt never carries more than its budgets: the images it includes are at most \<open>MAX_HISTORY_IMAGE_BYTES\<close>
  together and its documents at most \<open>MAX_HISTORY_DOCUMENT_TOKENS\<close>, each file counted once, whatever was attached.\<close>

theorem attachments_within_budget:
  assumes "\<forall>as\<in>set turns. \<forall>a\<in>set as. is_image a \<longleftrightarrow> img (a_ref a)"
  shows "distinct (select_affordable disk turns)
    \<and> spent_images disk img (settled_budget disk turns) \<le> MAX_HISTORY_IMAGE_BYTES
    \<and> spent_documents disk img (settled_budget disk turns) \<le> MAX_HISTORY_DOCUMENT_TOKENS"
  using settled_inv [OF assms, of disk] by (auto simp: budget_inv_def select_affordable_def)

text \<open>An older turn's verdict does not depend on newer turns: a file of the history that no later turn attaches again is
  included or left out whatever those later turns are.\<close>

theorem older_verdicts_stand:
  assumes "ys \<noteq> []" "zs \<noteq> []" "\<forall>as\<in>set (ys @ zs). r \<notin> a_ref ` set as"
  shows "r \<in> set (select_affordable disk (xs @ ys)) \<longleftrightarrow> r \<in> set (select_affordable disk (xs @ zs))"
  using select_prefix [of ys r disk xs] select_prefix [of zs r disk xs] assms by simp

lemma admit_one_grows: "set (allowed b) \<subseteq> set (allowed (admit_one disk a b))"
  by (auto simp: admit_one_def Let_def split: option.split)

lemma admit_grows: "set (allowed b) \<subseteq> set (allowed (admit_refs disk as b))"
proof (induction as arbitrary: b)
  case Nil
  then show ?case by (simp add: admit_refs_def)
next
  case (Cons a as)
  show ?case using order_trans [OF admit_one_grows Cons.IH [of "admit_one disk a b"]] by (simp add: admit_refs_def)
qed

definition solvent :: "int \<Rightarrow> int \<Rightarrow> budget \<Rightarrow> bool" where
  "solvent i d b \<longleftrightarrow> i \<le> image_bytes b \<and> d \<le> document_tokens b"

lemma admit_one_solvent: "solvent 0 0 b \<Longrightarrow> solvent 0 0 (admit_one disk a b)"
  by (auto simp: solvent_def admit_one_def Let_def split: option.split)

lemma admit_solvent: "solvent 0 0 b \<Longrightarrow> solvent 0 0 (admit_refs disk as b)"
  by (induction as arbitrary: b) (auto simp: admit_refs_def admit_one_solvent)

lemma history_solvent: "solvent 0 0 (fold (admit_refs disk) xs history_budget)"
  by (induction xs rule: rev_induct)
    (simp_all add: admit_solvent, simp add: solvent_def history_budget_def budget_constants)

text \<open>Attachments of the other class leave a class's budget alone.\<close>

lemma admit_other_class:
  "\<forall>p\<in>set pre. \<not> is_image p \<Longrightarrow> image_bytes (admit_refs disk pre b) = image_bytes b"
  "\<forall>p\<in>set pre. is_image p \<Longrightarrow> document_tokens (admit_refs disk pre b) = document_tokens b"
  by (induction pre arbitrary: b) (auto simp: admit_refs_def admit_one_def Let_def split: option.split)

lemma document_cost_le: "document_cost n \<le> MAX_SINGLE_DOCUMENT_TOKENS"
  by (simp add: document_cost_def MAX_SINGLE_DOCUMENT_TOKENS_def estimate_tokens_def zdiv_mono1)

text \<open>What was just sent always reaches the model: of the newest turn the first image, if it is no larger than an upload
  may be, and the first document are included, however full the history is.\<close>

theorem newest_always_included:
  assumes "\<forall>p\<in>set pre. is_image p \<noteq> is_image a"
    and "\<And>n. is_image a \<Longrightarrow> fst disk (a_ref a) = Some n \<Longrightarrow> int n \<le> MAX_ATTACHMENT_BYTES"
  shows "a_ref a \<in> set (select_affordable disk (xs @ [pre @ a # post]))"
proof -
  let ?b = "admit_refs disk pre (add_reserve (fold (admit_refs disk) xs history_budget))"
  have s: "solvent 0 0 (fold (admit_refs disk) xs history_budget)" using history_solvent .
  have i: "int n \<le> image_bytes ?b" if "is_image a" "fst disk (a_ref a) = Some n" for n
    using assms(2) [OF that] that(1) assms(1) s
    by (simp add: admit_other_class add_reserve_def solvent_def CURRENT_TURN_IMAGE_BYTES_def)
  have d: "document_cost n \<le> document_tokens ?b" if "\<not> is_image a" for n
    using document_cost_le [of n] that assms(1) s
    by (simp add: admit_other_class add_reserve_def solvent_def CURRENT_TURN_DOCUMENT_TOKENS_def)
  define b where "b = ?b"
  have "a_ref a \<in> set (allowed (admit_one disk a b))"
  proof (cases "is_image a")
    case True
    then show ?thesis using i [folded b_def, OF True] by (auto simp: admit_one_def Let_def split: option.split)
  next
    case False
    show ?thesis
    proof (cases "snd disk (a_ref a)")
      case None
      then show ?thesis using False by (simp add: admit_one_def Let_def)
    next
      case (Some n)
      then show ?thesis using False d [folded b_def, OF False, of n] by (simp add: admit_one_def Let_def)
    qed
  qed
  moreover have "select_affordable disk (xs @ [pre @ a # post]) = allowed (admit_refs disk post (admit_one disk a b))"
    by (simp add: b_def select_affordable_def settled_budget_def Let_def admit_refs_def)
  ultimately show ?thesis using admit_grows [of "admit_one disk a b" disk post] by auto
qed

section \<open>What a document cannot do\<close>

interpretation document: marker "''<''" "''/attached-file''"
  by unfold_locales simp_all

lemma document_marks: "''<'' @ ''/attached-file'' = DOCUMENT_CLOSE" "''<'' @ ZWSP # ''/attached-file'' = DOCUMENT_BROKEN"
  "NL \<notin> set DOCUMENT_CLOSE" "SP \<notin> set DOCUMENT_CLOSE" "DQ \<notin> set DOCUMENT_CLOSE" "DOCUMENT_CLOSE \<noteq> []"
  by (simp_all add: DOCUMENT_CLOSE_def DOCUMENT_BROKEN_def)

lemmas document_marker = document.no_marker [unfolded document_marks] document.skip_plain [unfolded document_marks]
  document.across [unfolded document_marks] document.neutralised [unfolded document_marks]
  document.closes_once [unfolded document_marks]

lemma trim_subset: "set (trim x) \<subseteq> set x"
  by (auto simp: trim_def trim_left_def trim_right_def dest!: set_dropWhileD)

lemma sanitized_chars: "CHR ''/'' \<notin> set (sanitize_filename d raw)"
proof (cases raw)
  case (JStr r)
  define base where "base = rev (takeWhile (\<lambda>c. c \<noteq> CHR ''/'' \<and> c \<noteq> BS) (rev (case d r of Some x \<Rightarrow> x | None \<Rightarrow> r)))"
  define cleaned where "cleaned = trim (filter (\<lambda>c. \<not> control c) base)"
  have "CHR ''/'' \<notin> set base" by (auto simp: base_def dest: set_takeWhileD)
  then have c: "CHR ''/'' \<notin> set cleaned" using trim_subset [of "filter (\<lambda>c. \<not> control c) base"] by (auto simp: cleaned_def)
  have "sanitize_filename d raw \<in> {''file'', take MAX_FILENAME_LENGTH cleaned}"
    by (simp add: sanitize_filename_def JStr cleaned_def base_def Let_def)
  then show ?thesis using c by (auto dest: in_set_takeD)
qed (simp_all add: sanitize_filename_def)

lemma contains_slash: "contains x DOCUMENT_CLOSE \<Longrightarrow> CHR ''/'' \<in> set x"
proof (induction x)
  case (Cons c x)
  then show ?case by (cases x) (auto simp: contains.simps starts_with_def DOCUMENT_CLOSE_def)
qed (simp add: contains.simps DOCUMENT_CLOSE_def)

lemma replaced_quotes: "set (replace_all [DQ] [SQ] s) \<subseteq> insert SQ (set s)"
proof (induction s)
  case (Cons c s)
  then show ?case by (subst replace_all.simps) (auto simp: starts_with_def)
qed (simp add: replace_all.simps)

lemma head_has_none:
  assumes "CHR ''/'' \<notin> set name" "CHR ''<'' \<notin> set mime"
  shows "\<not> contains (document_head name mime) DOCUMENT_CLOSE"
proof -
  let ?n = "replace_all [DQ] [SQ] name" and ?a = "''attached-file name=''"
  have "\<not> contains ?n DOCUMENT_CLOSE"
    using contains_slash [of ?n] replaced_quotes [of name] assms(1) by auto
  moreover have "\<not> contains (CHR ''<'' # ?a) DOCUMENT_CLOSE" by (rule notI, drule contains_slash) simp
  moreover have "\<not> contains ('' type='' @ DQ # mime @ DQ # '' provenance='' @ DQ # ''untrusted user upload'' @ DQ # ''>'') DOCUMENT_CLOSE"
    by (rule document_marker(1)) (simp add: assms(2))
  moreover have "document_head name mime = (CHR ''<'' # ?a) @ DQ # (?n @ DQ #
      ('' type='' @ DQ # mime @ DQ # '' provenance='' @ DQ # ''untrusted user upload'' @ DQ # ''>''))"
    by (simp add: document_head_def)
  ultimately show ?thesis by (simp only: document_marker(3) [OF document_marks(5)] simp_thms)
qed

lemma note_has_none:
  assumes "\<And>p. path = Some p \<Longrightarrow> \<not> contains p DOCUMENT_CLOSE" "truncation_note ov path = Some n"
  shows "\<not> contains n DOCUMENT_CLOSE"
proof -
  obtain b where b: "n = b @ '']'' \<or> (\<exists>p. path = Some p \<and> n = b @ '' Full text is at '' @ p @ '' '' @ [EM_DASH]
      @ '' use grep to find a section, then fs_read with offset/limit to read it.]'')" "CHR ''<'' \<notin> set b"
  proof
    let ?b = "''[truncated at '' @ digits (nat MAX_EXTRACTED_BYTES) @ '' bytes '' @ [EM_DASH]
              @ '' this is the start of the file, not all of it.''"
    show "n = ?b @ '']'' \<or> (\<exists>p. path = Some p \<and> n = ?b @ '' Full text is at '' @ p @ '' '' @ [EM_DASH]
      @ '' use grep to find a section, then fs_read with offset/limit to read it.]'')"
      using assms(2) unfolding truncation_note_def Let_def
      by (cases ov; cases path; simp only: if_True if_False option.case simp_thms) (auto split: if_splits)
    have "set (digits m) \<subseteq> {c. is_digit c}" for m
    proof (induction m rule: digits.induct)
      case (1 m)
      then show ?case by (subst digits.simps) (auto simp: is_digit_def in_range_def)
    qed
    from this [of "nat MAX_EXTRACTED_BYTES"] have "CHR ''<'' \<notin> set (digits (nat MAX_EXTRACTED_BYTES))"
      by (auto simp: is_digit_def in_range_def)
    then show "CHR ''<'' \<notin> set ?b" by simp
  qed
  show ?thesis
  proof (cases "n = b @ '']''")
    case True
    then show ?thesis using document_marker(1) [of n] b(2) by simp
  next
    case False
    let ?r = "[EM_DASH] @ '' use grep to find a section, then fs_read with offset/limit to read it.]''"
    obtain p where p: "path = Some p" "n = (b @ '' Full text is at'') @ SP # (p @ SP # ?r)" using b(1) False by auto
    have "\<not> contains (b @ '' Full text is at'') DOCUMENT_CLOSE" "\<not> contains ?r DOCUMENT_CLOSE"
      by (rule document_marker(1), simp add: b(2))+
    then show ?thesis unfolding p(2) using assms(1) [OF p(1)]
      by (simp only: document_marker(3) [OF document_marks(4)] simp_thms)
  qed
qed

text \<open>An attached document cannot end its own wrapper: whatever its text says and whatever the file was called, the first
  closing marker is the wrapper's, and none follows it.\<close>

theorem document_cannot_close_early:
  assumes "CHR ''<'' \<notin> set mime" "\<forall>p. path = Some p \<longrightarrow> \<not> contains p DOCUMENT_CLOSE"
  shows "\<exists>pre post.
      wrap_document (sanitize_filename decode_uri raw) mime txt (truncation_note ov path) = pre @ DOCUMENT_CLOSE @ post
    \<and> \<not> contains (pre @ butlast DOCUMENT_CLOSE) DOCUMENT_CLOSE \<and> \<not> contains post DOCUMENT_CLOSE"
proof -
  let ?h = "document_head (sanitize_filename decode_uri raw) mime" and ?b = "replace_all DOCUMENT_CLOSE DOCUMENT_BROKEN txt"
  let ?note = "truncation_note ov path"
  define post where "post = ''>'' @ (case ?note of None \<Rightarrow> [] | Some n \<Rightarrow> if n = [] then [] else NL # n)"
  have "\<not> contains ?h DOCUMENT_CLOSE" by (rule head_has_none [OF sanitized_chars assms(1)])
  then have "\<not> contains (?h @ NL # ?b) DOCUMENT_CLOSE"
    using document_marker(4) by (simp only: document_marker(3) [OF document_marks(3)] simp_thms)
  from document_marker(5) [OF this document_marks(3)]
  have "\<not> contains ((?h @ NL # ?b @ [NL]) @ butlast DOCUMENT_CLOSE) DOCUMENT_CLOSE" by simp
  moreover have "\<not> contains post DOCUMENT_CLOSE"
  proof (cases ?note)
    case None
    then show ?thesis using document_marker(1) [of "''>''"] by (simp add: post_def)
  next
    case (Some n)
    have "\<not> contains n DOCUMENT_CLOSE" by (rule note_has_none [OF _ Some]) (use assms(2) in blast)
    moreover have "\<not> contains ''>'' DOCUMENT_CLOSE" by (rule document_marker(1)) simp
    ultimately have "\<not> contains (''>'' @ NL # n) DOCUMENT_CLOSE"
      by (simp only: document_marker(3) [OF document_marks(3)] simp_thms)
    then show ?thesis using Some \<open>\<not> contains ''>'' DOCUMENT_CLOSE\<close> by (simp add: post_def)
  qed
  moreover have "wrap_document (sanitize_filename decode_uri raw) mime txt ?note = (?h @ NL # ?b @ [NL]) @ DOCUMENT_CLOSE @ post"
    by (simp add: wrap_document_def post_def DOCUMENT_CLOSE_def split: option.split)
  ultimately show ?thesis by blast
qed

text \<open>What of a document reaches the prompt is a beginning of it, within the ceiling and on a character boundary, and as
  much as fits.\<close>

theorem truncation_longest_prefix:
  assumes "REPLACEMENT \<notin> set txt"
  shows "\<exists>k\<le>length txt. truncate_for_prompt txt n = take k txt \<and> length (utf8 (take k txt)) \<le> n
    \<and> (k < length txt \<longrightarrow> n < length (utf8 (take (Suc k) txt)))"
proof (cases "length (utf8 txt) \<le> n")
  case True
  then show ?thesis by (intro exI [of _ "length txt"]) (simp add: truncate_for_prompt_def)
next
  case False
  show ?thesis
  proof (rule decode_take_cases [of n "txt"])
    fix k
    assume k: "decode (take n (utf8 txt)) = take k txt" "length (utf8 (take k txt)) \<le> n" "k \<le> length txt"
      "k < length txt \<Longrightarrow> n < length (utf8 (take (Suc k) txt))"
    have "take k txt = [] \<or> last (take k txt) \<noteq> REPLACEMENT"
      using assms by (metis in_set_takeD last_in_set)
    then show ?thesis using k False by (intro exI [of _ k]) (auto simp: truncate_for_prompt_def)
  next
    fix k
    assume k: "decode (take n (utf8 txt)) = take k txt @ [REPLACEMENT]" "length (utf8 (take k txt)) < n" "k < length txt"
      "n < length (utf8 (take (Suc k) txt))"
    then show ?thesis using False by (intro exI [of _ k]) (simp add: truncate_for_prompt_def)
  qed
qed

section \<open>A prompt\<close>

definition photo :: "js_string \<Rightarrow> attachment" where
  "photo r = \<lparr>a_ref = r, a_mime = ''image/png'', a_name = None\<rparr>"

text \<open>Two images of nearly the largest size, and a third.\<close>

definition photo_disk :: disk where
  "photo_disk = ((\<lambda>r. Some 9000000), (\<lambda>r. None))"

lemma photo_selected:
  "select_affordable photo_disk [[photo ''a'', photo ''b'', photo ''c''], [photo ''d'']] = [''a'', ''b'', ''d'']"
  "select_affordable photo_disk [[photo ''a'', photo ''b'', photo ''c''], [photo ''c'']] = [''a'', ''b'', ''c'']"
  by (simp_all add: select_affordable_def settled_budget_def admit_refs_def admit_one_def Let_def photo_def photo_disk_def
      history_budget_def add_reserve_def budget_constants is_image_def IMAGE_MIMES_def lower_def lower_char_def
      is_upper_def in_range_def)

theorem attachments_within_budget_witness:
  "distinct [''a'', ''b'', ''d''] \<and> spent_images photo_disk (\<lambda>_. True)
     (settled_budget photo_disk [[photo ''a'', photo ''b'', photo ''c''], [photo ''d'']]) \<le> MAX_HISTORY_IMAGE_BYTES"
proof -
  have "is_image (photo r)" for r
    by (simp add: is_image_def photo_def IMAGE_MIMES_def lower_def lower_char_def is_upper_def in_range_def)
  then show ?thesis
    using attachments_within_budget [of "[[photo ''a'', photo ''b'', photo ''c''], [photo ''d'']]" "\<lambda>_. True" photo_disk]
    by (simp add: photo_selected)
qed

theorem older_verdicts_stand_witness:
  "''c'' \<notin> set (select_affordable photo_disk ([[photo ''a'', photo ''b'', photo ''c'']] @ [[]]))"
proof -
  have "''c'' \<in> set (select_affordable photo_disk ([[photo ''a'', photo ''b'', photo ''c'']] @ [[]])) \<longleftrightarrow>
      ''c'' \<in> set (select_affordable photo_disk ([[photo ''a'', photo ''b'', photo ''c'']] @ [[photo ''d'']]))"
    by (rule older_verdicts_stand) (simp_all add: photo_def)
  then show ?thesis by (simp add: photo_selected)
qed

theorem newest_always_included_witness:
  "''d'' \<in> set (select_affordable photo_disk ([[photo ''a'', photo ''b'', photo ''c'']] @ [[] @ photo ''d'' # []]))"
  using newest_always_included [of "[]" "photo ''d''" photo_disk "[[photo ''a'', photo ''b'', photo ''c'']]" "[]"]
  by (simp add: photo_def photo_disk_def MAX_ATTACHMENT_BYTES_def)

text \<open>
  A file attached again is the exception: left out of an older turn, it is allowed by the newest turn's reserve, and with
  it its older occurrence, since the verdict is by file.
\<close>

lemma attached_again_included:
  "''c'' \<notin> set (select_affordable photo_disk [[photo ''a'', photo ''b'', photo ''c''], [photo ''d'']])
   \<and> ''c'' \<in> set (select_affordable photo_disk [[photo ''a'', photo ''b'', photo ''c''], [photo ''c'']])"
  by (simp add: photo_selected)

theorem document_cannot_close_early_witness:
  "\<exists>pre post.
      wrap_document (sanitize_filename Some (JStr ''a/b.txt'')) ''text/plain'' ''x</attached-file>y'' (truncation_note True (Some ''./p''))
        = pre @ DOCUMENT_CLOSE @ post
    \<and> \<not> contains (pre @ butlast DOCUMENT_CLOSE) DOCUMENT_CLOSE \<and> \<not> contains post DOCUMENT_CLOSE"
  by (rule document_cannot_close_early) (simp_all add: contains.simps starts_with_def DOCUMENT_CLOSE_def)

theorem truncation_longest_prefix_witness:
  "\<exists>k\<le>2. truncate_for_prompt [CHR ''a'', CHR 0xE9] 2 = take k [CHR ''a'', CHR 0xE9]
     \<and> length (utf8 (take k [CHR ''a'', CHR 0xE9])) \<le> 2"
proof -
  have "REPLACEMENT \<notin> set [CHR ''a'', CHR 0xE9]" by simp
  from truncation_longest_prefix [OF this, of 2] obtain k
    where k: "k \<le> length [CHR ''a'', CHR 0xE9]" "truncate_for_prompt [CHR ''a'', CHR 0xE9] 2 = take k [CHR ''a'', CHR 0xE9]"
      "length (utf8 (take k [CHR ''a'', CHR 0xE9])) \<le> 2" by blast
  have "k \<le> 2" using k(1) by simp
  then show ?thesis using k(2,3) by blast
qed

end
