(* ===== verification/Replay.thy ===== *)
theory Replay
  imports Attachments "HOL-Library.Char_ord" "HOL-Library.List_Lexorder" "HOL-Library.Product_Lexorder"
begin

text \<open>
  A run's prompt is what it appended while it ran; the next turn's is rebuilt from the stored rows (\<open>streams/runs/engine.ts\<close>:
  \<open>loadHistory\<close>, \<open>historyWindow\<close>, the message builders and the writes of \<open>runToolLoop\<close>; \<open>jsonb-safe.ts\<close>, \<open>screenshots.ts\<close>).
  This theory models both ways.

  \<open>JSON.parse\<close> and the \<open>jsonb\<close> column are parameters: \<open>parse\<close> gives \<^const>\<open>None\<close> where it throws, and \<open>store\<close> is what a value
  reads as once written, which has other members in another order only.
\<close>

section \<open>What can be stored\<close>

text \<open>\<open>jsonbSafe\<close>: the unit NUL is replaced; the other kind it replaces, half a surrogate pair, is not below 256.\<close>

definition NUL :: char where "NUL = CHR 0x00"

definition jsonb_safe :: "js_string \<Rightarrow> js_string" where
  "jsonb_safe = map (\<lambda>c. if c = NUL then REPLACEMENT else c)"

fun safe_json :: "json \<Rightarrow> json" where
  "safe_json (JStr s) = JStr (jsonb_safe s)"
| "safe_json (JArr xs) = JArr (map safe_json xs)"
| "safe_json (JObj ms) = JObj (map (\<lambda>(k, v). (jsonb_safe k, safe_json v)) ms)"
| "safe_json v = v"

text \<open>The members by name in order, of a name the last.\<close>

fun canonical_json :: "json \<Rightarrow> js_string" where
  "canonical_json (JArr xs) = ''['' @ commas (map canonical_json xs) @ '']''"
| "canonical_json (JObj ms) =
     (let texts = map (\<lambda>(k, v). (k, canonical_json v)) ms in
      ''{'' @ commas (map (\<lambda>k. json_string k @ '':'' @ the (map_of (rev texts) k)) (sort (remdups (map fst ms)))) @ ''}'')"
| "canonical_json JNull = ''null''"
| "canonical_json (JBool b) = (if b then ''true'' else ''false'')"
| "canonical_json (JNum n) = n"
| "canonical_json (JStr s) = json_string s"

section \<open>Messages\<close>

text \<open>A tool call on the wire: its id, the tool, and the arguments as text.\<close>

type_synonym wire_call = "js_string \<times> js_string \<times> js_string"

datatype message =
    UserText js_string
  | UserParts "content_part list"
  | AssistantMsg "js_string option" "wire_call list"
  | ToolMsg js_string "js_string option" js_string

definition tool_call_for_prompt :: "js_string \<times> js_string \<times> json \<Rightarrow> wire_call" where
  "tool_call_for_prompt c =
     (case c of (i, n, args) \<Rightarrow>
        (jsonb_safe i, jsonb_safe n, canonical_json (safe_json (if args = JNull then JObj [] else args))))"

definition tool_calls_for_prompt :: "(js_string \<times> js_string \<times> json) list \<Rightarrow> wire_call list" where
  "tool_calls_for_prompt = map tool_call_for_prompt"

definition assistant_message_for_prompt :: "js_string \<Rightarrow> wire_call list \<Rightarrow> message" where
  "assistant_message_for_prompt txt calls =
     (let content = jsonb_safe (trim txt) in AssistantMsg (if content = [] then None else Some content) calls)"

definition tool_result_message :: "js_string \<Rightarrow> js_string option \<Rightarrow> js_string \<Rightarrow> message" where
  "tool_result_message i n output = ToolMsg (jsonb_safe i) (map_option jsonb_safe n) (jsonb_safe output)"

text \<open>The user message that carries an iteration's screenshots.\<close>

type_synonym screenshot_turn = "js_string \<times> attachment list"

definition image_part :: "reading \<Rightarrow> attachment \<Rightarrow> content_part" where
  "image_part rd a =
     (case pic rd (a_ref a) of
        None \<Rightarrow> TextPart ''[image unavailable]''
      | Some b \<Rightarrow> ImagePart (''data:'' @ a_mime a @ '';base64,'' @ b))"

definition screenshot_message :: "reading \<Rightarrow> screenshot_turn list \<Rightarrow> message" where
  "screenshot_message rd turns =
     UserParts (concat (map (\<lambda>(c, images).
       TextPart (''Screenshot from web_fetch (call '' @ c @ ''):'') # map (image_part rd) images) turns))"

section \<open>Rows\<close>

text \<open>Fields no replay reads, a result's diff, permission and notice among them, are left out.\<close>

record result_block =
  rb_call :: js_string
  rb_output :: js_string
  rb_ok :: bool
  rb_images :: "attachment list option"
  rb_sent :: bool

datatype block =
    BText js_string
  | BThinking js_string
  | BCall js_string js_string json
  | BResult result_block
  | BAttachment attachment
  | BInstructionsUpdate js_string
  | BSkillsUpdate js_string
  | BSkill js_string
  | BCompaction

datatype author = ByUser | ByAssistant | BySystem | ByTool | BySummary

datatype row_status = Streaming | RowComplete | RowError | RowCancelled

record row =
  r_author :: author
  r_content :: "block list"
  r_status :: row_status
  r_lamport :: int
  r_created :: int
  r_deleted :: bool

definition safe_attachment :: "attachment \<Rightarrow> attachment" where
  "safe_attachment a =
     \<lparr>a_ref = jsonb_safe (a_ref a), a_mime = jsonb_safe (a_mime a), a_name = map_option jsonb_safe (a_name a)\<rparr>"

fun safe_block :: "block \<Rightarrow> block" where
  "safe_block (BText s) = BText (jsonb_safe s)"
| "safe_block (BThinking s) = BThinking (jsonb_safe s)"
| "safe_block (BCall i t a) = BCall (jsonb_safe i) (jsonb_safe t) (safe_json a)"
| "safe_block (BResult r) =
     BResult \<lparr>rb_call = jsonb_safe (rb_call r), rb_output = jsonb_safe (rb_output r), rb_ok = rb_ok r,
       rb_images = map_option (map safe_attachment) (rb_images r), rb_sent = rb_sent r\<rparr>"
| "safe_block (BAttachment a) = BAttachment (safe_attachment a)"
| "safe_block (BInstructionsUpdate s) = BInstructionsUpdate (jsonb_safe s)"
| "safe_block (BSkillsUpdate s) = BSkillsUpdate (jsonb_safe s)"
| "safe_block (BSkill s) = BSkill (jsonb_safe s)"
| "safe_block BCompaction = BCompaction"

text \<open>What the column gives back: the arguments of a call are the one JSON value of any shape in a row.\<close>

fun stored_block :: "(json \<Rightarrow> json) \<Rightarrow> block \<Rightarrow> block" where
  "stored_block store (BCall i t a) = BCall i t (store a)"
| "stored_block store b = b"

section \<open>Replaying\<close>

definition text_of :: "block list \<Rightarrow> js_string" where
  "text_of bs = trim (join [NL] (concat (map (\<lambda>b. case b of BText s \<Rightarrow> [s] | _ \<Rightarrow> []) bs)))"

definition attachments_of :: "block list \<Rightarrow> attachment list" where
  "attachments_of bs = concat (map (\<lambda>b. case b of BAttachment a \<Rightarrow> [a] | _ \<Rightarrow> []) bs)"

definition notices_of :: "block list \<Rightarrow> js_string" where
  "notices_of bs =
     join [NL, NL] (concat (map (\<lambda>b. case b of BInstructionsUpdate s \<Rightarrow> [s] | BSkillsUpdate s \<Rightarrow> [s] | _ \<Rightarrow> []) bs)
       @ concat (map (\<lambda>b. case b of BSkill s \<Rightarrow> [s] | _ \<Rightarrow> []) bs))"

definition calls_of :: "block list \<Rightarrow> (js_string \<times> js_string \<times> json) list" where
  "calls_of bs = concat (map (\<lambda>b. case b of BCall i t a \<Rightarrow> [(i, t, a)] | _ \<Rightarrow> []) bs)"

definition results_of :: "block list \<Rightarrow> result_block list" where
  "results_of bs = concat (map (\<lambda>b. case b of BResult r \<Rightarrow> [r] | _ \<Rightarrow> []) bs)"

definition SUMMARY_LOOKBACK :: nat where "SUMMARY_LOOKBACK = 20"

text \<open>The newest summary that says something, of the newest twenty, and the rows after it.\<close>

definition row_order :: "row \<Rightarrow> int \<times> int" where
  "row_order r = (r_lamport r, r_created r)"

definition history_window :: "row list \<Rightarrow> (js_string \<times> int) option \<times> row list" where
  "history_window db =
     (let summaries = take SUMMARY_LOOKBACK (rev (sort_key row_order
            (filter (\<lambda>r. r_author r = BySummary \<and> r_status r = RowComplete \<and> \<not> r_deleted r) db)));
          summary = find (\<lambda>(t, _). t \<noteq> []) (map (\<lambda>r. (text_of (r_content r), r_lamport r)) summaries)
      in (summary, filter (\<lambda>r. \<not> r_deleted r \<and> (case summary of None \<Rightarrow> True | Some (_, l) \<Rightarrow> l < r_lamport r)) db))"

definition history_front :: "row list \<Rightarrow> int" where
  "history_front db = (case fst (history_window db) of None \<Rightarrow> 0 | Some (_, l) \<Rightarrow> l)"

definition resolved_ids :: "row list \<Rightarrow> js_string set" where
  "resolved_ids rows = set (concat (map (\<lambda>r. if r_author r = ByTool then map rb_call (results_of (r_content r)) else []) rows))"

definition call_pairs :: "row list \<Rightarrow> (js_string \<times> js_string) list" where
  "call_pairs rows =
     concat (map (\<lambda>r. if r_author r = ByAssistant then map (\<lambda>(i, t, _). (i, t)) (calls_of (r_content r)) else []) rows)"

definition attachment_turns :: "row list \<Rightarrow> attachment list list" where
  "attachment_turns rows =
     map (\<lambda>r. attachments_of (r_content r)) (filter (\<lambda>r. r_author r = ByUser) (filter (\<lambda>r. r_status r = RowComplete) rows))"

definition affordable :: "disk \<Rightarrow> attachment list list \<Rightarrow> js_string set option" where
  "affordable disk turns = (if list_all (\<lambda>t. t = []) turns then None else Some (set (select_affordable disk turns)))"

definition user_messages :: "reading \<Rightarrow> js_string set option \<Rightarrow> block list \<Rightarrow> message list" where
  "user_messages rd verdict bs =
     (let msg = text_of bs; atts = attachments_of bs; notice = notices_of bs in
      if atts \<noteq> [] then
        [UserParts ((if notice \<noteq> [] then [TextPart notice] else []) @ attachment_content_parts rd atts msg verdict)]
      else if msg \<noteq> [] \<or> notice \<noteq> [] then
        [UserText (if notice \<noteq> [] then (if msg \<noteq> [] then notice @ [NL, NL] @ msg else notice) else msg)]
      else [])"

definition assistant_messages :: "js_string set \<Rightarrow> block list \<Rightarrow> message list" where
  "assistant_messages resolved bs =
     (let msg = text_of bs; calls = tool_calls_for_prompt (filter (\<lambda>(i, _). i \<in> resolved) (calls_of bs)) in
      if msg = [] \<and> calls = [] then [] else [assistant_message_for_prompt msg calls])"

definition screenshot_turns_of :: "js_string set \<Rightarrow> block list \<Rightarrow> screenshot_turn list" where
  "screenshot_turns_of present bs =
     concat (map (\<lambda>r. case rb_images r of
         Some (x # xs) \<Rightarrow> if rb_sent r \<and> rb_call r \<in> present then [(rb_call r, x # xs)] else []
       | _ \<Rightarrow> []) (results_of bs))"

definition tool_messages :: "reading \<Rightarrow> (js_string \<times> js_string) list \<Rightarrow> block list \<Rightarrow> message list" where
  "tool_messages rd pairs bs =
     (let present = set (map fst pairs); shots = screenshot_turns_of present bs in
      map (\<lambda>r. tool_result_message (rb_call r) (map_of (rev pairs) (rb_call r)) (rb_output r))
        (filter (\<lambda>r. rb_call r \<in> present) (results_of bs))
      @ (if shots \<noteq> [] then [screenshot_message rd shots] else []))"

definition row_messages :: "reading \<Rightarrow> js_string set option \<Rightarrow> js_string set \<Rightarrow> (js_string \<times> js_string) list \<Rightarrow> row
    \<Rightarrow> message list" where
  "row_messages rd verdict resolved pairs r =
     (case r_author r of
        ByUser \<Rightarrow> user_messages rd verdict (r_content r)
      | ByAssistant \<Rightarrow> assistant_messages resolved (r_content r)
      | ByTool \<Rightarrow> tool_messages rd pairs (r_content r)
      | _ \<Rightarrow> [])"

text \<open>The messages of rows that are in order, under a verdict on the attachments.\<close>

definition replay_under :: "reading \<Rightarrow> js_string set option \<Rightarrow> row list \<Rightarrow> message list" where
  "replay_under rd verdict ordered =
     concat (map (row_messages rd verdict (resolved_ids ordered) (call_pairs ordered))
       (filter (\<lambda>r. r_status r = RowComplete) ordered))"

fun first_by_ref :: "js_string list \<Rightarrow> attachment list \<Rightarrow> js_string list" where
  "first_by_ref seen [] = []"
| "first_by_ref seen (a # as) = (if a_ref a \<in> set seen then first_by_ref seen as else a_ref a # first_by_ref (a_ref a # seen) as)"

definition omitted_refs :: "disk \<Rightarrow> attachment list list \<Rightarrow> js_string list" where
  "omitted_refs disk turns =
     (case affordable disk turns of
        None \<Rightarrow> []
      | Some v \<Rightarrow> first_by_ref [] (filter (\<lambda>a. a_ref a \<notin> v) (concat turns)))"

record history =
  h_messages :: "message list"
  h_summary :: "js_string option"
  h_omitted :: "js_string list"

definition ordered_rows :: "row list \<Rightarrow> row list" where
  "ordered_rows db = sort_key row_order (snd (history_window db))"

definition load_history :: "reading \<Rightarrow> disk \<Rightarrow> row list \<Rightarrow> history" where
  "load_history rd disk db =
     (let ordered = ordered_rows db; turns = attachment_turns ordered in
      \<lparr>h_messages = replay_under rd (affordable disk turns) ordered,
       h_summary = map_option fst (fst (history_window db)),
       h_omitted = omitted_refs disk turns\<rparr>)"

section \<open>Running\<close>

text \<open>A call as the model sent it, the arguments its text; what came of it.\<close>

record turn_call =
  tc_id :: js_string
  tc_name :: js_string
  tc_args :: js_string

record call_result =
  cr_output :: js_string
  cr_ok :: bool
  cr_images :: "attachment list option"
  cr_sent :: bool

definition safe_parse_args :: "(js_string \<Rightarrow> json option) \<Rightarrow> js_string \<Rightarrow> json" where
  "safe_parse_args parse raw =
     (case parse (if raw = [] then ''{}'' else raw) of Some (JObj ms) \<Rightarrow> JObj ms | _ \<Rightarrow> JObj [])"

definition monotonic_lamport :: "int \<Rightarrow> int \<Rightarrow> int" where
  "monotonic_lamport previous now = max now (previous + 1)"

text \<open>What a run has written and what its next request carries, and the last lamport value it used.\<close>

record live =
  l_rows :: "row list"
  l_chat :: "message list"
  l_lamport :: int

definition write_row :: "author \<Rightarrow> block list \<Rightarrow> row_status \<Rightarrow> int \<Rightarrow> live \<Rightarrow> live" where
  "write_row w content st now s =
     (let l = monotonic_lamport (l_lamport s) now in
      s\<lparr>l_rows := l_rows s @ [\<lparr>r_author = w, r_content = content, r_status = st, r_lamport = l, r_created = now, r_deleted = False\<rparr>],
        l_lamport := l\<rparr>)"

definition streamed_blocks :: "js_string \<Rightarrow> js_string \<Rightarrow> block list" where
  "streamed_blocks thinking txt =
     (if thinking = [] then [] else [BThinking thinking]) @ (if txt = [] then [] else [BText txt])"

definition assistant_blocks :: "(json \<Rightarrow> json) \<Rightarrow> (js_string \<Rightarrow> json option) \<Rightarrow> js_string \<Rightarrow> js_string \<Rightarrow> turn_call list
    \<Rightarrow> block list" where
  "assistant_blocks store parse thinking txt calls =
     (let blocks = streamed_blocks thinking txt
            @ map (\<lambda>c. BCall (tc_id c) (tc_name c) (safe_parse_args parse (tc_args c))) calls
      in if blocks = [] then [BText []] else map (stored_block store \<circ> safe_block) blocks)"

definition result_blocks :: "(turn_call \<times> call_result) list \<Rightarrow> block list" where
  "result_blocks = map (\<lambda>(c, r). safe_block (BResult \<lparr>rb_call = tc_id c, rb_output = cr_output r, rb_ok = cr_ok r,
     rb_images = cr_images r, rb_sent = (cr_images r \<noteq> None \<and> cr_sent r)\<rparr>))"

definition prompt_calls :: "(js_string \<Rightarrow> json option) \<Rightarrow> turn_call list \<Rightarrow> wire_call list" where
  "prompt_calls parse calls =
     tool_calls_for_prompt (map (\<lambda>c. (tc_id c, tc_name c, safe_parse_args parse (tc_args c))) calls)"

definition shown_shots :: "(turn_call \<times> call_result) list \<Rightarrow> screenshot_turn list" where
  "shown_shots xs =
     concat (map (\<lambda>(c, r). case cr_images r of Some images \<Rightarrow> if cr_sent r then [(tc_id c, images)] else [] | None \<Rightarrow> []) xs)"

text \<open>What an iteration that called tools pushes, and what it writes: the reply with its calls, then one row of their results.\<close>

definition iteration_pushes :: "reading \<Rightarrow> (js_string \<Rightarrow> json option) \<Rightarrow> js_string \<Rightarrow> (turn_call \<times> call_result) list
    \<Rightarrow> message list" where
  "iteration_pushes rd parse txt xs =
     assistant_message_for_prompt txt (prompt_calls parse (map fst xs))
     # map (\<lambda>(c, r). tool_result_message (tc_id c) (Some (tc_name c)) (cr_output r)) xs
     @ (if shown_shots xs \<noteq> [] then [screenshot_message rd (shown_shots xs)] else [])"

definition push_all :: "message list \<Rightarrow> live \<Rightarrow> live" where
  "push_all ms s = s\<lparr>l_chat := l_chat s @ ms\<rparr>"

definition CHECKIN_ANSWER_NUDGE :: js_string where
  "CHECKIN_ANSWER_NUDGE = ''Please stop using tools and give your best final answer now from what you have so far.''"

definition PLAN_REQUIRED_NUDGE :: js_string where
  "PLAN_REQUIRED_NUDGE =
     ''Finish by calling propose_plan with your plan, or ask_questions if you need answers from me first.''"

definition ANSWER_NOW_NOT_RUN :: js_string where
  "ANSWER_NOW_NOT_RUN = ''Not run '' @ [EM_DASH] @ '' the user asked for a final answer without tools.''"

text \<open>
  What happens to a conversation, with what the clock shows at each write: a message is sent; an iteration calls tools; a
  planning turn answers in prose and is asked for its plan; a check-in is answered with "answer now"; that last reply calls
  tools all the same; a reply ends the turn; one fails or is stopped; the server ends between the write of a reply and that of
  its results; a compaction writes its summary.
\<close>

datatype run_step =
    Said "block list" int
  | Iteration js_string js_string "(turn_call \<times> call_result) list" int int
  | PlanNudge js_string js_string int int
  | AnswerNudge int
  | Refused js_string js_string "turn_call list" int int
  | Final js_string js_string int
  | Failed js_string js_string row_status int
  | Interrupted js_string js_string "turn_call list" int
  | Summarised js_string int

definition do_step :: "reading \<Rightarrow> (json \<Rightarrow> json) \<Rightarrow> (js_string \<Rightarrow> json option) \<Rightarrow> run_step \<Rightarrow> live \<Rightarrow> live" where
  "do_step rd store parse step s =
     (case step of
        Said content t \<Rightarrow> write_row ByUser content RowComplete t s
      | Iteration thinking txt xs t1 t2 \<Rightarrow>
          push_all (iteration_pushes rd parse txt xs)
            (write_row ByTool (result_blocks xs) RowComplete t2
              (write_row ByAssistant (assistant_blocks store parse thinking txt (map fst xs)) RowComplete t1 s))
      | PlanNudge thinking txt t1 t2 \<Rightarrow>
          push_all ((if trim txt \<noteq> [] then [assistant_message_for_prompt txt []] else []) @ [UserText PLAN_REQUIRED_NUDGE])
            (write_row ByUser [BText PLAN_REQUIRED_NUDGE] RowComplete t2
              (write_row ByAssistant (assistant_blocks store parse thinking txt []) RowComplete t1 s))
      | AnswerNudge t \<Rightarrow>
          push_all [UserText CHECKIN_ANSWER_NUDGE] (write_row ByUser [BText CHECKIN_ANSWER_NUDGE] RowComplete t s)
      | Refused thinking txt calls t1 t2 \<Rightarrow>
          write_row ByTool
            (map (\<lambda>c. BResult \<lparr>rb_call = tc_id c, rb_output = ANSWER_NOW_NOT_RUN, rb_ok = False, rb_images = None,
               rb_sent = False\<rparr>) calls) RowComplete t2
            (push_all [assistant_message_for_prompt txt (prompt_calls parse calls)]
              (write_row ByAssistant (assistant_blocks store parse thinking txt calls) RowComplete t1 s))
      | Final thinking txt t \<Rightarrow> write_row ByAssistant (assistant_blocks store parse thinking txt []) RowComplete t s
      | Failed thinking txt st t \<Rightarrow> write_row ByAssistant (map safe_block (streamed_blocks thinking txt)) st t s
      | Interrupted thinking txt calls t \<Rightarrow>
          write_row ByAssistant (assistant_blocks store parse thinking txt calls) RowComplete t s
      | Summarised txt t \<Rightarrow> write_row BySummary [BText txt] RowComplete t s)"

definition run_steps :: "reading \<Rightarrow> (json \<Rightarrow> json) \<Rightarrow> (js_string \<Rightarrow> json option) \<Rightarrow> run_step list \<Rightarrow> live \<Rightarrow> live" where
  "run_steps rd store parse = fold (do_step rd store parse)"

end
