(* ===== verification/Tokens.thy ===== *)
theory Tokens
  imports Replay Rounding "HOL-Library.AList"
begin

text \<open>
  The size of a prompt, by the characters of its parts (\<open>server/inference/context.ts\<close>): what a request is estimated at before
  it is sent, and how the backend's own count is split between the parts afterwards. Fractions are rational, where the code has
  doubles; the divisors make the figures that are rounded the same.
\<close>

section \<open>Estimates\<close>

datatype category = CSystem | CTools | CSummary | CHistory | CReasoning | CToolIo | CCurrent | CResponse

definition CHARS_PER_TOKEN :: "category \<Rightarrow> rat" where
  "CHARS_PER_TOKEN c = (case c of CTools \<Rightarrow> 3 | CToolIo \<Rightarrow> 16 / 5 | _ \<Rightarrow> 4)"

definition estimate_tokens_from_chars :: "category \<Rightarrow> nat \<Rightarrow> int" where
  "estimate_tokens_from_chars c n = js_round (of_nat n / CHARS_PER_TOKEN c)"

definition estimate_text_tokens :: "category \<Rightarrow> js_string \<Rightarrow> int" where
  "estimate_text_tokens c s = estimate_tokens_from_chars c (length s)"

text \<open>A tally is an object: its categories in the order they were first counted.\<close>

type_synonym tally = "(category \<times> nat) list"

definition estimated :: "category \<times> nat \<Rightarrow> rat" where
  "estimated e = of_nat (snd e) / CHARS_PER_TOKEN (fst e)"

definition estimate_tally_tokens :: "tally \<Rightarrow> int" where
  "estimate_tally_tokens t = js_round (sum_list (map estimated t))"

definition add_chars :: "category \<Rightarrow> js_string \<Rightarrow> tally \<Rightarrow> tally" where
  "add_chars c s t =
     (if s = [] then t else AList.update c ((case map_of t c of Some n \<Rightarrow> n | None \<Rightarrow> 0) + length s) t)"

section \<open>Prompts\<close>

text \<open>What a request carries: system messages, the summary's among them, and the replayed turns.\<close>

datatype prompt_message = SystemMsg js_string | Turn message

definition SUMMARY_PREAMBLE :: js_string where
  "SUMMARY_PREAMBLE = ''Summary of the conversation so far. Earlier messages were compacted into this summary; treat it as the authoritative history.'' @ [NL, NL]"

definition summary_message :: "js_string \<Rightarrow> prompt_message" where
  "summary_message s = SystemMsg (SUMMARY_PREAMBLE @ s)"

definition part_text :: "content_part \<Rightarrow> js_string list" where
  "part_text p = (case p of TextPart s \<Rightarrow> [s] | ImagePart u \<Rightarrow> [])"

definition text_of_parts :: "content_part list \<Rightarrow> js_string" where
  "text_of_parts ps = join [NL] (concat (map part_text ps))"

text \<open>\<open>textOfContent\<close> of a message's content.\<close>

fun text_of_content :: "message \<Rightarrow> js_string" where
  "text_of_content (UserText s) = s"
| "text_of_content (UserParts ps) = text_of_parts ps"
| "text_of_content (AssistantMsg c calls) = (case c of Some s \<Rightarrow> s | None \<Rightarrow> [])"
| "text_of_content (ToolMsg i n out) = out"

definition wire_call_json :: "wire_call \<Rightarrow> json" where
  "wire_call_json c =
     (case c of (i, n, args) \<Rightarrow>
        JObj [(''id'', JStr i), (''type'', JStr ''function''),
          (''function'', JObj [(''name'', JStr n), (''arguments'', JStr args)])])"

fun is_user :: "message \<Rightarrow> bool" where
  "is_user (UserText s) = True"
| "is_user (UserParts ps) = True"
| "is_user _ = False"

definition user_turn :: "prompt_message \<Rightarrow> bool" where
  "user_turn p = (case p of Turn m \<Rightarrow> is_user m | _ \<Rightarrow> False)"

text \<open>The last user message is the turn's own; the first argument says whether this is it.\<close>

fun tally_message :: "bool \<Rightarrow> prompt_message \<Rightarrow> tally \<Rightarrow> tally" where
  "tally_message newest (SystemMsg s) t = add_chars CSystem s t"
| "tally_message newest (Turn (AssistantMsg c calls)) t =
     (let t' = add_chars CHistory (text_of_content (AssistantMsg c calls)) t
      in if calls \<noteq> [] then add_chars CToolIo (stringify (JArr (map wire_call_json calls))) t' else t')"
| "tally_message newest (Turn (ToolMsg i n out)) t = add_chars CToolIo out t"
| "tally_message newest (Turn m) t = add_chars (if newest then CCurrent else CHistory) (text_of_content m) t"

fun tally_messages :: "prompt_message list \<Rightarrow> tally \<Rightarrow> tally" where
  "tally_messages [] t = t"
| "tally_messages (p # ps) t = tally_messages ps (tally_message (\<not> list_ex user_turn ps) p t)"

definition tally_chat_messages :: "prompt_message list \<Rightarrow> json list \<Rightarrow> tally" where
  "tally_chat_messages ps tools =
     tally_messages ps (if tools \<noteq> [] then add_chars CTools (stringify (JArr tools)) [] else [])"

section \<open>Where the tool schemas come from\<close>

text \<open>A tool's name is its \<open>function.name\<close>; \<open>source_of\<close> is the id of the MCP server a name is of, and \<^const>\<open>None\<close> for the rest.\<close>

record source_tally =
  ts_key :: js_string
  ts_mcp :: bool
  ts_name :: "js_string option"
  ts_tools :: nat
  ts_chars :: nat

definition BUILTIN_TOOLS_LABEL :: js_string where
  "BUILTIN_TOOLS_LABEL = ''Built-in tools''"

fun add_tool :: "js_string option \<Rightarrow> nat \<Rightarrow> source_tally list \<Rightarrow> source_tally list" where
  "add_tool server n [] =
     [case server of
        Some i \<Rightarrow> \<lparr>ts_key = i, ts_mcp = True, ts_name = None, ts_tools = 1, ts_chars = n\<rparr>
      | None \<Rightarrow> \<lparr>ts_key = ''builtin'', ts_mcp = False, ts_name = Some BUILTIN_TOOLS_LABEL, ts_tools = 1, ts_chars = n\<rparr>]"
| "add_tool server n (e # es) =
     (if ts_key e = (case server of Some i \<Rightarrow> i | None \<Rightarrow> ''builtin'')
      then e\<lparr>ts_tools := ts_tools e + 1, ts_chars := ts_chars e + n\<rparr> # es
      else e # add_tool server n es)"

definition tool_name :: "json \<Rightarrow> js_string" where
  "tool_name t =
     (case field_of t ''function'' of Some f \<Rightarrow> (case field_of f ''name'' of Some (JStr n) \<Rightarrow> n | _ \<Rightarrow> []) | None \<Rightarrow> [])"

definition tally_tool_sources :: "json list \<Rightarrow> (js_string \<Rightarrow> js_string option) \<Rightarrow> source_tally list" where
  "tally_tool_sources tools source_of =
     (let all = fold (\<lambda>t. add_tool (source_of (tool_name t)) (length (stringify t))) tools []
      in filter (\<lambda>e. \<not> ts_mcp e) all @ filter ts_mcp all)"

text \<open>The shares by largest remainder: whole tokens, then one more each in the order of the fractions.\<close>

fun hand_out :: "nat list \<Rightarrow> nat \<Rightarrow> nat \<Rightarrow> int list \<Rightarrow> int list" where
  "hand_out order k 0 shares = shares"
| "hand_out order k (Suc left) shares =
     (let i = order ! k in hand_out order ((k + 1) mod length order) left (shares[i := shares ! i + 1]))"

definition split_tool_tokens :: "int \<Rightarrow> source_tally list \<Rightarrow> (source_tally \<times> int) list" where
  "split_tool_tokens tokens sources =
     (let total = sum_list (map ts_chars sources) in
      if sources = [] \<or> total = 0 then []
      else
        let exact = map (\<lambda>s. (of_nat (ts_chars s) / of_nat total) * of_int tokens :: rat) sources;
            shares = map floor exact;
            left = tokens - sum_list shares;
            order = sort_key (\<lambda>i. - frac (exact ! i)) [0..<length exact]
        in zip sources (hand_out order 0 (nat left) shares))"

section \<open>The split of a measured prompt\<close>

type_synonym context_part = "category \<times> int"

record breakdown =
  used_tokens :: int
  bd_parts :: "context_part list"
  tool_sources :: "(source_tally \<times> int) list"

text \<open>The first of the largest parts takes what rounding left.\<close>

fun add_largest :: "int \<Rightarrow> context_part list \<Rightarrow> context_part list" where
  "add_largest d [] = []"
| "add_largest d ((c, n) # ps) =
     (if list_all (\<lambda>p. snd p \<le> n) ps then (c, n + d) # ps else (c, n) # add_largest d ps)"

definition prompt_parts :: "tally \<Rightarrow> int \<Rightarrow> context_part list" where
  "prompt_parts t prompt_tokens =
     (let counted = filter (\<lambda>e. 0 < snd e) t; total = sum_list (map estimated counted) in
      if 0 < total \<and> 0 < prompt_tokens then
        let scale = of_int prompt_tokens / total;
            parts = map (\<lambda>e. (fst e, js_round (estimated e * scale))) counted
        in add_largest (prompt_tokens - sum_list (map snd parts)) parts
      else [])"

definition apportion :: "tally \<Rightarrow> int \<Rightarrow> int \<Rightarrow> source_tally list option \<Rightarrow> breakdown" where
  "apportion t prompt_tokens completion_tokens sources =
     (let parts = prompt_parts t prompt_tokens
            @ (if 0 < completion_tokens then [(CResponse, completion_tokens)] else [])
      in \<lparr>used_tokens = prompt_tokens + completion_tokens, bd_parts = parts,
          tool_sources = (case (find (\<lambda>p. fst p = CTools) parts, sources) of
             (Some (_, n), Some ss) \<Rightarrow> split_tool_tokens n ss
           | _ \<Rightarrow> [])\<rparr>)"

section \<open>The split is exact\<close>

lemma sum_list_add_largest: "ps \<noteq> [] \<Longrightarrow> sum_list (map snd (add_largest d ps)) = sum_list (map snd ps) + d"
proof (induction d ps rule: add_largest.induct)
  case (2 d c n ps)
  then show ?case by (cases "ps = []") auto
qed simp

lemma sum_list_bump: "i < length xs \<Longrightarrow> sum_list (xs[i := xs ! i + 1]) = sum_list xs + (1 :: int)"
proof (induction xs arbitrary: i)
  case (Cons x xs)
  then show ?case by (cases i) simp_all
qed simp

lemma hand_out_sum:
  assumes "k < length order" "\<forall>i\<in>set order. i < length shares"
  shows "sum_list (hand_out order k left shares) = sum_list shares + int left
    \<and> length (hand_out order k left shares) = length shares"
  using assms
proof (induction order k left shares rule: hand_out.induct)
  case (2 order k left shares)
  let ?i = "order ! k"
  have i: "?i < length shares" using 2(2,3) by simp
  have k: "(k + 1) mod length order < length order" by (intro mod_less_divisor) (use 2(2) in linarith)
  have "sum_list (hand_out order ((k + 1) mod length order) left (shares[?i := shares ! ?i + 1]))
      = sum_list (shares[?i := shares ! ?i + 1]) + int left
    \<and> length (hand_out order ((k + 1) mod length order) left (shares[?i := shares ! ?i + 1]))
      = length (shares[?i := shares ! ?i + 1])"
    using 2(1) [OF refl k] 2(3) by simp
  then show ?case using sum_list_bump [OF i] by (simp add: Let_def)
qed simp

text \<open>As long as the order has not come round, each index gets one at most.\<close>

lemma hand_out_nth:
  assumes "distinct order" "k + left \<le> length order" "\<forall>i\<in>set order. i < length shares" "j < length shares"
  shows "hand_out order k left shares ! j = shares ! j + (if j \<in> set (take left (drop k order)) then 1 else 0)"
  using assms
proof (induction left arbitrary: k shares)
  case (Suc left)
  let ?i = "order ! k" and ?s = "shares[order ! k := shares ! (order ! k) + 1]"
  have k: "k < length order" using Suc.prems(2) by simp
  have t: "take (Suc left) (drop k order) = ?i # take left (drop (Suc k) order)"
    using k by (simp add: Cons_nth_drop_Suc [symmetric])
  show ?case
  proof (cases "Suc k = length order")
    case True
    then have "left = 0" using Suc.prems(2) by simp
    then show ?thesis using t Suc.prems(3,4) k by (auto simp: Let_def nth_list_update)
  next
    case False
    then have m: "(k + 1) mod length order = Suc k" using k by simp
    have "hand_out order (Suc k) left ?s ! j = ?s ! j + (if j \<in> set (take left (drop (Suc k) order)) then 1 else 0)"
      using Suc.prems False by (intro Suc.IH) simp_all
    moreover have "?i \<notin> set (take left (drop (Suc k) order))"
    proof
      assume "?i \<in> set (take left (drop (Suc k) order))"
      then have "?i \<in> set (drop (Suc k) order)" by (rule in_set_takeD)
      moreover have "distinct (drop k order)" using Suc.prems(1) by simp
      ultimately show False using k by (simp add: Cons_nth_drop_Suc [symmetric])
    qed
    ultimately show ?thesis using t m Suc.prems(3,4) k by (auto simp: Let_def nth_list_update)
  qed
qed simp

lemma sum_exact:
  assumes "0 < sum_list (map ts_chars ss)"
  shows "sum_list (map (\<lambda>s. (of_nat (ts_chars s) / of_nat (sum_list (map ts_chars ss))) * of_int n :: rat) ss) = of_int n"
proof -
  have key: "sum_list (map (\<lambda>s. (of_nat (ts_chars s) / d) * x) ss) = of_nat (sum_list (map ts_chars ss)) / d * (x :: rat)" for d x
    by (induction ss) (simp_all add: add_divide_distrib distrib_right)
  have "(of_nat (sum_list (map ts_chars ss)) :: rat) \<noteq> 0" using assms by (simp only: of_nat_eq_0_iff)
  from divide_self [OF this] show ?thesis by (simp only: key mult_1)
qed

lemma floor_sum:
  fixes xs :: "rat list"
  shows "of_int (sum_list (map floor xs)) \<le> sum_list xs \<and> sum_list xs \<le> of_int (sum_list (map floor xs)) + of_nat (length xs)
    \<and> (xs \<noteq> [] \<longrightarrow> sum_list xs < of_int (sum_list (map floor xs)) + of_nat (length xs))"
proof (induction xs)
  case (Cons x xs)
  have "of_int \<lfloor>x\<rfloor> \<le> x" "x < of_int \<lfloor>x\<rfloor> + 1" by linarith+
  with Cons show ?case unfolding list.map sum_list.Cons length_Cons of_int_add of_nat_Suc by linarith
qed simp

text \<open>The shares of a tools part: a row for every source, in order, within one token of its proportion, and all of the part.\<close>

lemma split_tool_tokens_exact:
  assumes "0 < sum_list (map ts_chars ss)"
  shows "map fst (split_tool_tokens n ss) = ss" "sum_list (map snd (split_tool_tokens n ss)) = n"
    "(s, k) \<in> set (split_tool_tokens n ss) \<Longrightarrow>
       \<bar>of_int k - of_nat (ts_chars s) / of_nat (sum_list (map ts_chars ss)) * of_int n\<bar> \<le> (1 :: rat)"
proof -
  define xs where "xs = map (\<lambda>s. (of_nat (ts_chars s) / of_nat (sum_list (map ts_chars ss))) * of_int n :: rat) ss"
  define order where "order = sort_key (\<lambda>i. - frac (xs ! i)) [0..<length xs]"
  define left where "left = nat (n - sum_list (map floor xs))"
  have ne: "ss \<noteq> []" using assms by auto
  have split: "split_tool_tokens n ss = zip ss (hand_out order 0 left (map floor xs))"
    using assms ne unfolding split_tool_tokens_def Let_def order_def left_def xs_def by (simp only: if_False less_numeral_extra(3) de_Morgan_disj not_gr_zero [symmetric] simp_thms)
  have len: "length xs = length ss" by (simp add: xs_def)
  have sum: "sum_list xs = of_int n" unfolding xs_def by (rule sum_exact [OF assms])
  have "of_int (sum_list (map floor xs)) \<le> (of_int n :: rat)" using floor_sum [of xs] sum by simp
  then have lo: "sum_list (map floor xs) \<le> n" by linarith
  have "(of_int n :: rat) < of_int (sum_list (map floor xs)) + of_nat (length xs)"
    using floor_sum [of xs] sum len ne by fastforce
  then have "(of_int n :: rat) < of_int (sum_list (map floor xs) + int (length xs))" by simp
  then have hi: "n < sum_list (map floor xs) + int (length xs)" by (simp only: of_int_less_iff)
  have o: "distinct order" "length order = length xs" "set order = {0..<length xs}" by (simp_all add: order_def)
  have "0 < length order" using o(2) len ne by simp
  note h = hand_out_sum [OF this, of "map floor xs" left]
  have "length (hand_out order 0 left (map floor xs)) = length ss" using h o(3) len by simp
  then show "map fst (split_tool_tokens n ss) = ss" and s: "sum_list (map snd (split_tool_tokens n ss)) = n"
    using h o(3) lo by (simp_all add: split left_def)
  show "\<bar>of_int k - of_nat (ts_chars s) / of_nat (sum_list (map ts_chars ss)) * of_int n\<bar> \<le> (1 :: rat)"
    if m: "(s, k) \<in> set (split_tool_tokens n ss)"
  proof -
    obtain j where j: "j < length ss" "s = ss ! j" "k = hand_out order 0 left (map floor xs) ! j"
      using m by (auto simp: split set_zip)
    have b: "0 + left \<le> length order" using hi o(2) by (simp add: left_def)
    have "k = \<lfloor>xs ! j\<rfloor> + (if j \<in> set (take left (drop 0 order)) then 1 else 0)"
      unfolding j(3) using hand_out_nth [OF o(1) b, of "map floor xs" j] o(3) j(1) len by simp
    then have "\<lfloor>xs ! j\<rfloor> \<le> k \<and> k \<le> \<lfloor>xs ! j\<rfloor> + 1" by simp
    then have "\<bar>of_int k - xs ! j\<bar> \<le> 1" by linarith
    then show ?thesis using j(1) by (simp add: xs_def j(2))
  qed
qed

lemma prompt_parts_sum:
  assumes "0 < sum_list (map estimated (filter (\<lambda>e. 0 < snd e) t))" "0 < n"
  shows "sum_list (map snd (prompt_parts t n)) = n"
proof -
  have "filter (\<lambda>e. 0 < snd e) t \<noteq> []" using assms(1) by auto
  then show ?thesis using assms by (simp add: prompt_parts_def Let_def sum_list_add_largest)
qed

text \<open>The parts a measured prompt is split into sum to exactly what the backend counted, and the shares of the tools' sources
  to exactly the tools' part.\<close>

theorem apportion_exact:
  assumes "0 < sum_list (map estimated (filter (\<lambda>e. 0 < snd e) t))" "0 < prompt" "0 \<le> completion"
  shows "sum_list (map snd (bd_parts (apportion t prompt completion sources))) = used_tokens (apportion t prompt completion sources)
    \<and> (tool_sources (apportion t prompt completion sources) \<noteq> [] \<longrightarrow>
        (\<exists>c. find (\<lambda>p. fst p = CTools) (bd_parts (apportion t prompt completion sources))
          = Some (c, sum_list (map snd (tool_sources (apportion t prompt completion sources))))))"
proof (rule conjI)
  let ?b = "apportion t prompt completion sources"
  show "sum_list (map snd (bd_parts ?b)) = used_tokens ?b"
    using prompt_parts_sum [OF assms(1,2)] assms(3) by (simp add: apportion_def Let_def)
  show "tool_sources ?b \<noteq> [] \<longrightarrow>
      (\<exists>c. find (\<lambda>p. fst p = CTools) (bd_parts ?b) = Some (c, sum_list (map snd (tool_sources ?b))))"
  proof
    assume ne: "tool_sources ?b \<noteq> []"
    then obtain c n ss where f: "find (\<lambda>p. fst p = CTools) (bd_parts ?b) = Some (c, n)" "sources = Some ss"
      "tool_sources ?b = split_tool_tokens n ss"
      by (auto simp: apportion_def Let_def split: option.splits prod.splits)
    have "sum_list (map ts_chars ss) \<noteq> 0"
    proof
      assume "sum_list (map ts_chars ss) = 0"
      then have "split_tool_tokens n ss = []" unfolding split_tool_tokens_def Let_def by (simp only: simp_thms if_True)
      then show False using ne f(3) by simp
    qed
    then have "0 < sum_list (map ts_chars ss)" by (simp only: not_gr_zero [symmetric] not_not)
    from split_tool_tokens_exact(2) [OF this, of n] f
    show "\<exists>c. find (\<lambda>p. fst p = CTools) (bd_parts ?b) = Some (c, sum_list (map snd (tool_sources ?b)))" by simp
  qed
qed

definition sample_tally :: tally where
  "sample_tally = [(CTools, 300), (CSystem, 100), (CCurrent, 10)]"

theorem apportion_exact_witness:
  "sum_list (map snd (bd_parts (apportion sample_tally 100 7 None))) = used_tokens (apportion sample_tally 100 7 None)"
  by (rule conjunct1 [OF apportion_exact]) (simp_all add: sample_tally_def estimated_def CHARS_PER_TOKEN_def)

end
