(* ===== verification/Compaction.thy ===== *)
theory Compaction
  imports Tokens
begin

text \<open>
  Replacing a conversation's history by a summary (\<open>server/streams/runs/compactRun.ts\<close>): what is asked of the model, in one
  request or in parts that each fit its window, what a message too large for one is cut to, and what the card says was saved.
  The model is a parameter: what it answers to a request.
\<close>

section \<open>The request\<close>

definition dashed :: "js_string \<Rightarrow> js_string \<Rightarrow> js_string" where
  "dashed x y = x @ '' '' @ [EM_DASH] @ '' '' @ y"

definition COMPACT_INSTRUCTION :: js_string where
  "COMPACT_INSTRUCTION = join [NL]
    [''Summarize this conversation into a single structured document. The summary will REPLACE the'',
     ''conversation history in future prompts, so it must carry everything needed to continue the work'',
     dashed ''seamlessly'' ''err on the side of including technical detail rather than dropping it.'',
     [],
     ''Use exactly these sections:'',
     dashed ''1. Primary Request and Intent'' ''what the user is trying to achieve, in detail.'',
     dashed ''2. Key Technical Concepts'' ''technologies, approaches, and decisions in play.'',
     dashed ''3. Files and Code Sections'' ''specific files, functions, and code discussed, with the important fragments.'',
     dashed ''4. Errors and Fixes'' ''problems hit and how they were resolved, including feedback given.'',
     dashed ''5. Problem Solving'' ''what has been solved and any ongoing troubleshooting.'',
     dashed ''6. All User Messages'' ''every user message so far, condensed but none omitted.'',
     dashed ''7. Pending Tasks'' ''what was asked for but not yet done.'',
     dashed ''8. Current Work'' ''precisely what was in progress at the point of this summary.'',
     dashed ''9. Optional Next Step'' ''the immediate next action, only if one clearly follows from the above.'',
     [],
     ''Weight recency. The most recent exchanges are what the work is actually standing on, so keep'',
     dashed ''them in near-full detail'' ''exact file paths, function names, error text, numbers, and whatever'',
     ''was mid-flight. Compress older material harder the further back it goes, down to the decisions'',
     ''and conclusions that still constrain the work. Section 6 is the exception and stays exhaustive:'',
     ''every user message must appear, however tersely, because nothing else survives verbatim.'',
     [],
     ''Leave out the <project-instructions-update> notices: after this summary the system prompt carries'',
     ''the project'' @ SQ # ''s current instructions, so a copy here would only repeat them in a lossier form.'',
     [],
     ''Name every skill whose instructions were loaded (<skill-content name='' @ [DQ, ELLIPSIS, DQ] @ ''> blocks) and what it'',
     ''was being used for, but do not copy its instructions: they can be loaded again with the skill'',
     ''tool, and the <skills-update> notices are superseded by the skill list after this summary.'',
     [],
     ''Respond with ONLY the summary document. No preamble, no commentary, no questions.'']"

text \<open>Guidance that was not given or is empty adds nothing.\<close>

definition build_instruction :: "js_string \<Rightarrow> js_string" where
  "build_instruction guidance =
     (if guidance = [] then COMPACT_INSTRUCTION
      else COMPACT_INSTRUCTION @ [NL, NL]
        @ dashed ''Additional instructions from the user for this summary''
            ''follow them when deciding what to emphasise or include:'' @ [NL] @ guidance)"

fun strip_images :: "message \<Rightarrow> message" where
  "strip_images (UserParts ps) = UserText (text_of_parts ps)"
| "strip_images m = m"

definition strip_images_for_compaction :: "message list \<Rightarrow> message list" where
  "strip_images_for_compaction = map strip_images"

definition summary_headroom_tokens :: "int \<Rightarrow> int" where
  "summary_headroom_tokens window = min 8192 (window div 4)"

text \<open>What the conversation's last run sent before its history (\<open>request-shape.ts\<close>); its thinking fields are one value.\<close>

record request_shape =
  sh_model :: js_string
  sh_system :: "js_string option"
  sh_tools :: "json list"
  sh_thinking :: json

record request =
  rq_messages :: "prompt_message list"
  rq_tools :: "json list"
  rq_thinking :: "json option"
  rq_reuses :: bool

text \<open>A run's prompt: the system prompt, the summary, and the rest.\<close>

definition prompt_of :: "js_string option \<Rightarrow> js_string option \<Rightarrow> message list \<Rightarrow> prompt_message list" where
  "prompt_of system summary ms =
     (case system of Some s \<Rightarrow> if s = [] then [] else [SystemMsg s] | None \<Rightarrow> [])
     @ (case summary of Some s \<Rightarrow> if s = [] then [] else [summary_message s] | None \<Rightarrow> []) @ map Turn ms"

definition compaction_request :: "request_shape option \<Rightarrow> js_string \<Rightarrow> message list \<Rightarrow> js_string option \<Rightarrow> js_string \<Rightarrow> bool
    \<Rightarrow> request" where
  "compaction_request shape model history summary instruction has_room =
     (case shape of
        Some sh \<Rightarrow>
          if sh_model sh = model \<and> has_room
          then \<lparr>rq_messages = prompt_of (sh_system sh) summary (history @ [UserText instruction]), rq_tools = sh_tools sh,
                rq_thinking = Some (sh_thinking sh), rq_reuses = True\<rparr>
          else \<lparr>rq_messages = prompt_of None summary (strip_images_for_compaction history @ [UserText instruction]),
                rq_tools = [], rq_thinking = None, rq_reuses = False\<rparr>
      | None \<Rightarrow>
          \<lparr>rq_messages = prompt_of None summary (strip_images_for_compaction history @ [UserText instruction]),
           rq_tools = [], rq_thinking = None, rq_reuses = False\<rparr>)"

definition compaction_has_room :: "int option \<Rightarrow> int option \<Rightarrow> int \<Rightarrow> bool" where
  "compaction_has_room window before instruction_tokens =
     (case (window, before) of
        (Some w, Some b) \<Rightarrow> b + instruction_tokens + summary_headroom_tokens w \<le> w
      | _ \<Rightarrow> False)"

section \<open>What was saved\<close>

record compaction_stats =
  messages_compacted :: nat
  before_tokens :: int
  after_tokens :: int
  saved_tokens :: int
  before_estimated :: bool
  cs_guidance :: "js_string option"
  cs_auto :: bool

definition compute_compaction_stats :: "nat \<Rightarrow> int option \<Rightarrow> int \<Rightarrow> int \<Rightarrow> int \<Rightarrow> js_string \<Rightarrow> js_string \<Rightarrow> bool
    \<Rightarrow> compaction_stats" where
  "compute_compaction_stats n last_turn_tokens prompt_tokens completion_tokens instruction_tokens summary guidance auto_run =
     (let after_estimated = (completion_tokens \<le> 0);
          after = (if after_estimated then estimate_text_tokens CSummary summary else completion_tokens);
          before = (case last_turn_tokens of None \<Rightarrow> max 0 (prompt_tokens - instruction_tokens) | Some n \<Rightarrow> n)
      in \<lparr>messages_compacted = n, before_tokens = before, after_tokens = after, saved_tokens = max 0 (before - after),
          before_estimated = (last_turn_tokens = None \<or> after_estimated),
          cs_guidance = (if guidance = [] then None else Some guidance), cs_auto = auto_run\<rparr>)"

section \<open>Parts\<close>

definition message_tokens :: "message \<Rightarrow> int" where
  "message_tokens m = estimate_tally_tokens (tally_chat_messages [Turn m] [])"

definition SUMMARY_CUT_MARKER :: js_string where
  "SUMMARY_CUT_MARKER =
     [NL, NL] @ ''['' @ [ELLIPSIS] @ '' cut here: too long to summarise in one request '' @ [ELLIPSIS] @ '']''"

text \<open>One attempt at fitting a message, each piece of it to \<open>share\<close> characters.\<close>

definition cut_text :: "nat \<Rightarrow> js_string \<Rightarrow> js_string" where
  "cut_text share s = (if share < length s then take (share - length SUMMARY_CUT_MARKER) s @ SUMMARY_CUT_MARKER else s)"

definition cut_arguments :: "nat \<Rightarrow> js_string \<Rightarrow> js_string" where
  "cut_arguments share s =
     (if share < length s
      then stringify (JObj [(''cut'', JStr (take (share - length SUMMARY_CUT_MARKER) s @ SUMMARY_CUT_MARKER))]) else s)"

fun fit_once :: "nat \<Rightarrow> message \<Rightarrow> message" where
  "fit_once share (AssistantMsg c calls) =
     (let content = cut_text share (text_of_content (AssistantMsg c calls))
      in AssistantMsg (if c = None \<and> content = [] then None else Some content)
           (map (\<lambda>(i, n, args). (i, n, cut_arguments share args)) calls))"
| "fit_once share (ToolMsg i n out) = ToolMsg i n (cut_text share out)"
| "fit_once share m = UserText (cut_text share (text_of_content m))"

text \<open>The share shrinks by a fifth until the message fits or nothing is left of it.\<close>

function fit_from :: "nat \<Rightarrow> int \<Rightarrow> message \<Rightarrow> message" where
  "fit_from share tokens m =
     (if share = 0 \<or> message_tokens (fit_once share m) \<le> tokens then fit_once share m
      else fit_from (share * 4 div 5) tokens m)"
  by pat_completeness auto
termination
  by (relation "measure (\<lambda>(share, _, _). share)") auto

declare fit_from.simps [simp del]

fun calls_in :: "message \<Rightarrow> wire_call list" where
  "calls_in (AssistantMsg c calls) = calls"
| "calls_in _ = []"

definition fit_message :: "message \<Rightarrow> int \<Rightarrow> message" where
  "fit_message m tokens =
     (if message_tokens m \<le> tokens then m
      else fit_from (nat (tokens * 3 div (1 + int (length (calls_in m))))) tokens m)"

text \<open>A reply with its calls and the results after it are one unit, every other message is one alone.\<close>

fun is_tool :: "message \<Rightarrow> bool" where
  "is_tool (ToolMsg i n out) = True"
| "is_tool _ = False"

definition add_to_units :: "message \<Rightarrow> message list list \<Rightarrow> message list list" where
  "add_to_units m units =
     (if is_tool m \<and> units \<noteq> [] \<and> calls_in (hd (last units)) \<noteq> []
      then butlast units @ [last units @ [m]] else units @ [[m]])"

definition message_units :: "message list \<Rightarrow> message list list" where
  "message_units ms = fold add_to_units ms []"

definition unit_tokens :: "message list \<Rightarrow> int" where
  "unit_tokens u = sum_list (map message_tokens u)"

type_synonym packing = "message list list \<times> message list \<times> int"

definition flush_part :: "bool \<Rightarrow> packing \<Rightarrow> packing" where
  "flush_part b p = (case p of (parts, part, used) \<Rightarrow> if part \<noteq> [] \<and> b then (parts @ [part], [], 0) else p)"

definition add_unit :: "int \<Rightarrow> message list \<Rightarrow> packing \<Rightarrow> packing" where
  "add_unit budget u p =
     (let size = unit_tokens u in
      case flush_part (budget < snd (snd p) + size) p of (parts, part, used) \<Rightarrow>
        if budget < size
        then (parts @ [map (\<lambda>m. fit_message m (max 1 (budget div int (length u)))) u], part, used)
        else (parts, part @ u, used + size))"

definition summary_parts :: "message list \<Rightarrow> int \<Rightarrow> message list list" where
  "summary_parts ms budget_tokens =
     (case fold (add_unit (max 1 budget_tokens)) (message_units ms) ([], [], 0) of
        (parts, part, _) \<Rightarrow> parts @ (if part \<noteq> [] then [part] else []))"

section \<open>Generating\<close>

text \<open>
  The model's answer to a request, with the prompt tokens it reports: \<^const>\<open>None\<close> where the request fails or is stopped. An
  answer that says nothing is an error as well.
\<close>

type_synonym answerer = "prompt_message list \<Rightarrow> json list \<Rightarrow> (js_string \<times> int) option"

definition ask :: "answerer \<Rightarrow> prompt_message list \<Rightarrow> json list \<Rightarrow> (js_string \<times> int) option" where
  "ask model ps tools = (case model ps tools of None \<Rightarrow> None | Some (t, n) \<Rightarrow> if trim t = [] then None else Some (t, n))"

definition part_request :: "js_string option \<Rightarrow> js_string \<Rightarrow> message list \<Rightarrow> prompt_message list" where
  "part_request running instruction part = prompt_of None running (part @ [UserText instruction])"

text \<open>Each part is read with the summary of those before it; the prompts' tokens are counted less the summary and instruction.\<close>

fun ask_parts :: "answerer \<Rightarrow> js_string \<Rightarrow> js_string option \<Rightarrow> int \<Rightarrow> message list list \<Rightarrow> (js_string \<times> int) option" where
  "ask_parts model instruction running read [] = map_option (\<lambda>t. (t, read)) running"
| "ask_parts model instruction running read (part # parts) =
     (case ask model (part_request running instruction part) [] of
        None \<Rightarrow> None
      | Some (t, n) \<Rightarrow>
          (let carried = (case running of Some s \<Rightarrow> estimate_text_tokens CSummary s | None \<Rightarrow> 0)
           in ask_parts model instruction (Some t) (read + max 0 (n - estimate_text_tokens CCurrent instruction - carried)) parts))"

definition request_parts :: "request \<Rightarrow> message list \<Rightarrow> js_string \<Rightarrow> int option \<Rightarrow> message list list option" where
  "request_parts request history instruction window =
     (case window of
        Some w \<Rightarrow>
          if \<not> rq_reuses request
            \<and> w < estimate_tally_tokens (tally_chat_messages (rq_messages request) []) + summary_headroom_tokens w
          then Some (summary_parts (strip_images_for_compaction history)
                       (w - 2 * summary_headroom_tokens w - estimate_text_tokens CCurrent instruction))
          else None
      | None \<Rightarrow> None)"

text \<open>The summary, and what its parts cost to read when it was read in parts.\<close>

definition generate_summary :: "answerer \<Rightarrow> request \<Rightarrow> message list \<Rightarrow> js_string option \<Rightarrow> js_string \<Rightarrow> int option
    \<Rightarrow> (js_string \<times> int option) option" where
  "generate_summary model request history summary instruction window =
     (case request_parts request history instruction window of
        Some (p # q # ps) \<Rightarrow> map_option (\<lambda>(t, n). (t, Some n)) (ask_parts model instruction summary 0 (p # q # ps))
      | _ \<Rightarrow> map_option (\<lambda>(t, n). (t, None)) (ask model (rq_messages request) (rq_tools request)))"

end
