(* ===== verification/ReplayParts.thy ===== *)
theory ReplayParts
  imports Replay "HOL-Library.Multiset"
begin

text \<open>
  How a replay splits (\<open>Replay\<close>): what the order of a value's members does to its text, rows that share no call id, the rows
  in order, and what each step writes and shows.
\<close>

section \<open>Values\<close>

text \<open>The same value, its members in any order and of a name the last.\<close>

inductive same_json :: "json \<Rightarrow> json \<Rightarrow> bool" where
  same_null: "same_json JNull JNull"
| same_bool: "same_json (JBool b) (JBool b)"
| same_num: "same_json (JNum n) (JNum n)"
| same_str: "same_json (JStr t) (JStr t)"
| same_arr: "list_all2 same_json xs ys \<Longrightarrow> same_json (JArr xs) (JArr ys)"
| same_obj: "\<forall>k. (map_of (rev ms) k = None \<and> map_of (rev ns) k = None)
      \<or> (\<exists>v w. map_of (rev ms) k = Some v \<and> map_of (rev ns) k = Some w \<and> same_json v w)
    \<Longrightarrow> same_json (JObj ms) (JObj ns)"

inductive_cases same_jsonE: "same_json (JArr xs) w" "same_json (JObj ms) w"

lemma map_of_values: "map_of (rev (map (\<lambda>(k, v). (k, f v)) ms)) k = map_option f (map_of (rev ms) k)"
  by (induction ms) (auto simp: map_add_def split: option.split)

lemma keys_of_map_of: "k \<in> set (map fst ms) \<longleftrightarrow> map_of (rev ms) k \<noteq> None"
  using map_of_eq_None_iff [of "rev ms" k] by (simp only: set_map set_rev) blast

lemma sorted_keys:
  assumes "\<And>k. map_of (rev ms) k = None \<longleftrightarrow> map_of (rev ns) k = None"
  shows "sort (remdups (map fst ms)) = sort (remdups (map fst ns))"
proof -
  have "k \<in> set (map fst ms) \<longleftrightarrow> k \<in> set (map fst ns)" for k
    by (simp only: keys_of_map_of assms)
  then have "set (map fst ms) = set (map fst ns)" by (rule set_eqI)
  then show ?thesis
    by (intro sorted_distinct_set_unique) (simp_all only: set_sort set_remdups sorted_sort distinct_sort distinct_remdups)
qed

lemma canonical_json_obj:
  "canonical_json (JObj ms) = ''{'' @ commas (map (\<lambda>k. json_string k @ '':'' @ canonical_json (the (map_of (rev ms) k)))
     (sort (remdups (map fst ms)))) @ ''}''"
proof -
  have "map (\<lambda>k. json_string k @ '':'' @ the (map_of (rev (map (\<lambda>(k, v). (k, canonical_json v)) ms)) k)) (sort (remdups (map fst ms)))
      = map (\<lambda>k. json_string k @ '':'' @ canonical_json (the (map_of (rev ms) k))) (sort (remdups (map fst ms)))"
  proof (rule map_cong [OF refl])
    fix k assume "k \<in> set (sort (remdups (map fst ms)))"
    then obtain v where "map_of (rev ms) k = Some v" using keys_of_map_of [of k ms] by auto
    then show "json_string k @ '':'' @ the (map_of (rev (map (\<lambda>(k, v). (k, canonical_json v)) ms)) k)
        = json_string k @ '':'' @ canonical_json (the (map_of (rev ms) k))"
      by (simp add: map_of_values)
  qed
  then show ?thesis by (simp only: canonical_json.simps Let_def)
qed

declare canonical_json.simps(2) [simp del]

lemma canonical_same: "same_json v w \<Longrightarrow> canonical_json v = canonical_json w"
proof (induction rule: same_json.induct)
  case (same_arr xs ys)
  then have "map canonical_json xs = map canonical_json ys"
    by (induction rule: list_all2_induct) auto
  then show ?case by simp
next
  case (same_obj ms ns)
  then have n: "map_of (rev ms) k = None \<longleftrightarrow> map_of (rev ns) k = None" for k by (metis option.distinct(1))
  have "map (\<lambda>k. json_string k @ '':'' @ canonical_json (the (map_of (rev ms) k))) (sort (remdups (map fst ms)))
      = map (\<lambda>k. json_string k @ '':'' @ canonical_json (the (map_of (rev ns) k))) (sort (remdups (map fst ns)))"
  proof (rule map_cong [OF sorted_keys [OF n]])
    fix k assume "k \<in> set (sort (remdups (map fst ns)))"
    then have "map_of (rev ns) k \<noteq> None" using keys_of_map_of [of k ns] by simp
    then show "json_string k @ '':'' @ canonical_json (the (map_of (rev ms) k))
        = json_string k @ '':'' @ canonical_json (the (map_of (rev ns) k))"
      using same_obj by (metis option.sel)
  qed
  then show ?case by (simp add: canonical_json_obj)
qed simp_all

section \<open>What can be stored\<close>

lemma jsonb_safe_idem [simp]: "jsonb_safe (jsonb_safe s) = jsonb_safe s"
  by (simp add: jsonb_safe_def NUL_def)

lemma jsonb_safe_append [simp]: "jsonb_safe (s @ t) = jsonb_safe s @ jsonb_safe t" "jsonb_safe [] = []"
  by (simp_all add: jsonb_safe_def)

lemma jsonb_safe_Nil [simp]: "jsonb_safe s = [] \<longleftrightarrow> s = []"
  by (simp add: jsonb_safe_def)

lemma jsonb_safe_plain: "NUL \<notin> set s \<Longrightarrow> jsonb_safe s = s"
  by (induction s) (auto simp: jsonb_safe_def)

lemma jsonb_safe_trim: "trim (jsonb_safe s) = jsonb_safe (trim s)"
proof -
  have sp: "is_space (if c = NUL then REPLACEMENT else c) = is_space c" for c
    by (simp add: is_space_def NUL_def in_range_def)
  have l: "trim_left (map (\<lambda>c. if c = NUL then REPLACEMENT else c) x) = map (\<lambda>c. if c = NUL then REPLACEMENT else c) (trim_left x)" for x
    by (simp add: trim_left_def dropWhile_map o_def sp)
  have r: "trim_right (map (\<lambda>c. if c = NUL then REPLACEMENT else c) x) = map (\<lambda>c. if c = NUL then REPLACEMENT else c) (trim_right x)" for x
    by (simp add: trim_right_def dropWhile_map o_def sp rev_map)
  show ?thesis by (simp add: trim_def jsonb_safe_def l r)
qed

lemma safe_json_idem: "safe_json (safe_json v) = safe_json v"
  by (induction v rule: safe_json.induct) (auto simp: jsonb_safe_idem)

lemma safe_fixed: "map f ms = ms \<Longrightarrow> p \<in> set ms \<Longrightarrow> f p = p"
  by (induction ms) auto

lemma same_json_safe: "same_json v w \<Longrightarrow> safe_json v = v \<Longrightarrow> same_json v (safe_json w)"
proof (induction rule: same_json.induct)
  case (same_arr xs ys)
  have "safe_json x = x" if "x \<in> set xs" for x using same_arr.prems safe_fixed [of safe_json xs x] that by simp
  then have "list_all2 same_json xs (map safe_json ys)"
    using same_arr.IH by (auto simp: list_all2_conv_all_nth)
  then show ?case by (simp add: same_json.same_arr)
next
  case (same_obj ms ns)
  have fixed: "jsonb_safe k = k \<and> safe_json v = v" if "(k, v) \<in> set ms" for k v
    using same_obj.prems safe_fixed [of "\<lambda>(k, v). (jsonb_safe k, safe_json v)" ms "(k, v)"] that by simp
  have "jsonb_safe k = k" if "(k, w) \<in> set ns" for k w
  proof -
    have "map_of (rev ns) k \<noteq> None" using that keys_of_map_of [of k ns] by force
    then obtain v where "map_of (rev ms) k = Some v" using same_obj.IH by (metis option.distinct(1))
    then show ?thesis using fixed [of k v] map_of_SomeD by fastforce
  qed
  then have "map (\<lambda>(k, v). (jsonb_safe k, safe_json v)) ns = map (\<lambda>(k, v). (k, safe_json v)) ns" by (intro map_cong) auto
  moreover have "same_json (JObj ms) (JObj (map (\<lambda>(k, v). (k, safe_json v)) ns))"
  proof (intro same_json.same_obj allI)
    fix k
    show "(map_of (rev ms) k = None \<and> map_of (rev (map (\<lambda>(k, v). (k, safe_json v)) ns)) k = None)
      \<or> (\<exists>v w. map_of (rev ms) k = Some v \<and> map_of (rev (map (\<lambda>(k, v). (k, safe_json v)) ns)) k = Some w \<and> same_json v w)"
    proof (cases "map_of (rev ms) k")
      case None
      then have "map_of (rev ns) k = None" using same_obj.IH by (metis option.distinct(1))
      then show ?thesis using None by (simp add: map_of_values)
    next
      case (Some v)
      then have "safe_json v = v" using fixed [of k v] map_of_SomeD by fastforce
      then show ?thesis using Some same_obj.IH by (fastforce simp: map_of_values)
    qed
  qed
  ultimately show ?case unfolding safe_json.simps by (simp only:)
qed (simp_all add: same_json.intros)

lemma stored_call:
  assumes "\<And>v. same_json v (store v)"
  shows "tool_call_for_prompt (jsonb_safe i, jsonb_safe n, store (safe_json (JObj ms))) = tool_call_for_prompt (i, n, JObj ms)"
proof -
  let ?v = "safe_json (JObj ms)"
  obtain ns where ns: "store ?v = JObj ns" using assms [of ?v] by (auto elim: same_jsonE)
  have "canonical_json (safe_json (store ?v)) = canonical_json ?v"
    using canonical_same [OF same_json_safe [OF assms [of ?v]]] by (simp only: safe_json_idem)
  then show ?thesis unfolding ns by (simp add: tool_call_for_prompt_def)
qed

section \<open>A replay in parts\<close>

definition row_ids :: "row \<Rightarrow> js_string set" where
  "row_ids r =
     (case r_author r of
        ByAssistant \<Rightarrow> fst ` set (calls_of (r_content r))
      | ByTool \<Rightarrow> rb_call ` set (results_of (r_content r))
      | _ \<Rightarrow> {})"

definition rows_ids :: "row list \<Rightarrow> js_string set" where
  "rows_ids rows = (\<Union>r\<in>set rows. row_ids r)"

lemma rows_ids_simps [simp]: "rows_ids [] = {}" "rows_ids (r # rows) = row_ids r \<union> rows_ids rows"
  "rows_ids (xs @ ys) = rows_ids xs \<union> rows_ids ys"
  by (auto simp: rows_ids_def)

lemma resolved_append: "resolved_ids (xs @ ys) = resolved_ids xs \<union> resolved_ids ys"
  by (auto simp: resolved_ids_def)

lemma pairs_append: "call_pairs (xs @ ys) = call_pairs xs @ call_pairs ys"
  by (simp add: call_pairs_def)

lemma resolved_in: "resolved_ids rows \<subseteq> rows_ids rows"
  by (auto simp: resolved_ids_def rows_ids_def row_ids_def split: if_splits)

lemma pairs_in: "fst ` set (call_pairs rows) \<subseteq> rows_ids rows"
  by (force simp: call_pairs_def rows_ids_def row_ids_def split: if_splits)

lemma present_iff: "i \<in> set (map fst ps) \<longleftrightarrow> map_of (rev ps) i \<noteq> None"
  by (rule keys_of_map_of)

text \<open>A row reads the run's calls at its own ids only.\<close>

lemma row_messages_cong:
  assumes "\<And>i. i \<in> row_ids r \<Longrightarrow> (i \<in> R \<longleftrightarrow> i \<in> R') \<and> map_of (rev P) i = map_of (rev P') i"
  shows "row_messages rd v R P r = row_messages rd v R' P' r"
proof (cases "r_author r")
  case ByAssistant
  then have "filter (\<lambda>(i, _). i \<in> R) (calls_of (r_content r)) = filter (\<lambda>(i, _). i \<in> R') (calls_of (r_content r))"
    using assms by (intro filter_cong) (force simp: row_ids_def)+
  then show ?thesis using ByAssistant by (simp add: row_messages_def assistant_messages_def)
next
  case ByTool
  have at: "map_of (rev P) (rb_call b) = map_of (rev P') (rb_call b)" if "b \<in> set (results_of (r_content r))" for b
    using assms ByTool that by (simp add: row_ids_def)
  then have pr: "rb_call b \<in> set (map fst P) \<longleftrightarrow> rb_call b \<in> set (map fst P')" if "b \<in> set (results_of (r_content r))" for b
    using that by (simp only: present_iff)
  have "screenshot_turns_of (set (map fst P)) (r_content r) = screenshot_turns_of (set (map fst P')) (r_content r)"
    unfolding screenshot_turns_of_def using pr by (intro arg_cong [where f = concat] map_cong) (auto split: option.split list.split)
  moreover have "map (\<lambda>b. tool_result_message (rb_call b) (map_of (rev P) (rb_call b)) (rb_output b))
        (filter (\<lambda>b. rb_call b \<in> set (map fst P)) (results_of (r_content r)))
      = map (\<lambda>b. tool_result_message (rb_call b) (map_of (rev P') (rb_call b)) (rb_output b))
        (filter (\<lambda>b. rb_call b \<in> set (map fst P')) (results_of (r_content r)))"
    using at pr by (intro map_cong filter_cong) auto
  ultimately show ?thesis using ByTool by (simp add: row_messages_def tool_messages_def Let_def)
qed (simp_all add: row_messages_def)

text \<open>Rows that share no call id replay one after the other.\<close>

lemma replay_append:
  assumes "rows_ids xs \<inter> rows_ids ys = {}"
  shows "replay_under rd v (xs @ ys) = replay_under rd v xs @ replay_under rd v ys"
proof -
  have left: "row_messages rd v (resolved_ids (xs @ ys)) (call_pairs (xs @ ys)) r = row_messages rd v (resolved_ids xs) (call_pairs xs) r"
    if "r \<in> set xs" for r
  proof (rule row_messages_cong)
    fix i assume "i \<in> row_ids r"
    then have i: "i \<notin> rows_ids ys" using that assms by (auto simp: rows_ids_def)
    then have "i \<notin> fst ` set (call_pairs ys)" "i \<notin> resolved_ids ys" using pairs_in resolved_in by blast+
    then have "map_of (rev (call_pairs ys)) i = None" "i \<notin> resolved_ids ys" by (simp_all add: map_of_eq_None_iff)
    then show "(i \<in> resolved_ids (xs @ ys) \<longleftrightarrow> i \<in> resolved_ids xs)
        \<and> map_of (rev (call_pairs (xs @ ys))) i = map_of (rev (call_pairs xs)) i"
      by (simp add: resolved_append pairs_append map_add_def)
  qed
  have right: "row_messages rd v (resolved_ids (xs @ ys)) (call_pairs (xs @ ys)) r = row_messages rd v (resolved_ids ys) (call_pairs ys) r"
    if "r \<in> set ys" for r
  proof (rule row_messages_cong)
    fix i assume "i \<in> row_ids r"
    then have i: "i \<notin> rows_ids xs" using that assms by (auto simp: rows_ids_def)
    then have "i \<notin> fst ` set (call_pairs xs)" "i \<notin> resolved_ids xs" using pairs_in resolved_in by blast+
    then have "map_of (rev (call_pairs xs)) i = None" "i \<notin> resolved_ids xs" by (simp_all add: map_of_eq_None_iff)
    then show "(i \<in> resolved_ids (xs @ ys) \<longleftrightarrow> i \<in> resolved_ids ys)
        \<and> map_of (rev (call_pairs (xs @ ys))) i = map_of (rev (call_pairs ys)) i"
      by (simp add: resolved_append pairs_append map_add_def split: option.split)
  qed
  have "map (row_messages rd v (resolved_ids (xs @ ys)) (call_pairs (xs @ ys))) (filter (\<lambda>r. r_status r = RowComplete) xs)
      = map (row_messages rd v (resolved_ids xs) (call_pairs xs)) (filter (\<lambda>r. r_status r = RowComplete) xs)"
    using left by (intro map_cong) auto
  moreover have "map (row_messages rd v (resolved_ids (xs @ ys)) (call_pairs (xs @ ys))) (filter (\<lambda>r. r_status r = RowComplete) ys)
      = map (row_messages rd v (resolved_ids ys) (call_pairs ys)) (filter (\<lambda>r. r_status r = RowComplete) ys)"
    using right by (intro map_cong) auto
  ultimately show ?thesis unfolding replay_under_def filter_append map_append concat_append by (simp only:)
qed

section \<open>Blocks\<close>

lemma blocks_simps [simp]:
  "calls_of (xs @ ys) = calls_of xs @ calls_of ys" "calls_of [] = []"
  "calls_of [BText t] = []" "calls_of [BThinking t] = []"
  "results_of (xs @ ys) = results_of xs @ results_of ys" "results_of [] = []"
  by (simp_all add: calls_of_def results_of_def)

lemma text_of_simps [simp]: "text_of [BText t] = trim t" "text_of [] = trim []"
  by (simp_all add: text_of_def)

lemma calls_of_calls [simp]: "calls_of (map (\<lambda>c. BCall (f c) (g c) (h c)) cs) = map (\<lambda>c. (f c, g c, h c)) cs"
  by (induction cs) (simp_all add: calls_of_def)

lemma trim_Nil [simp]: "trim [] = []"
  by (simp add: trim_def trim_left_def trim_right_def)

text \<open>What a stored reply holds: the text it streamed, less its edges, and its calls as they come back.\<close>

lemma assistant_blocks_calls:
  "calls_of (assistant_blocks store parse th t calls)
   = map (\<lambda>c. (jsonb_safe (tc_id c), jsonb_safe (tc_name c), store (safe_json (safe_parse_args parse (tc_args c))))) calls"
proof (cases "streamed_blocks th t @ map (\<lambda>c. BCall (tc_id c) (tc_name c) (safe_parse_args parse (tc_args c))) calls = []")
  case True
  then show ?thesis by (simp add: assistant_blocks_def)
next
  case False
  have "calls_of (map (stored_block store \<circ> safe_block) (streamed_blocks th t)) = []"
    by (simp add: streamed_blocks_def calls_of_def)
  moreover have "map (stored_block store \<circ> safe_block) (map (\<lambda>c. BCall (tc_id c) (tc_name c) (safe_parse_args parse (tc_args c))) calls)
      = map (\<lambda>c. BCall (jsonb_safe (tc_id c)) (jsonb_safe (tc_name c)) (store (safe_json (safe_parse_args parse (tc_args c))))) calls"
    by simp
  ultimately show ?thesis
    unfolding assistant_blocks_def Let_def if_not_P [OF False] map_append blocks_simps by (simp only: calls_of_calls append.simps)
qed

lemma assistant_blocks_text: "text_of (assistant_blocks store parse th t calls) = jsonb_safe (trim t)"
proof -
  have c: "concat (map (\<lambda>x. []) cs) = []" for cs :: "turn_call list"
    by (induction cs) simp_all
  show ?thesis
    by (auto simp: assistant_blocks_def Let_def text_of_def streamed_blocks_def jsonb_safe_trim c o_def)
qed

lemma assistant_blocks_attachments: "attachments_of (assistant_blocks store parse th t calls) = []"
  by (auto simp: assistant_blocks_def Let_def attachments_of_def streamed_blocks_def)

lemma result_blocks_results:
  "results_of (result_blocks xs) =
   map (\<lambda>(c, r). \<lparr>rb_call = jsonb_safe (tc_id c), rb_output = jsonb_safe (cr_output r), rb_ok = cr_ok r,
     rb_images = map_option (map safe_attachment) (cr_images r), rb_sent = (cr_images r \<noteq> None \<and> cr_sent r)\<rparr>) xs"
  by (induction xs) (auto simp: result_blocks_def results_of_def)

section \<open>Rows in order\<close>

lemma insort_key_snoc: "f x \<le> f y \<Longrightarrow> insort_key f x (zs @ [y]) = insort_key f x zs @ [y]"
  by (induction zs) auto

lemma sort_key_snoc: "\<forall>x\<in>set xs. f x \<le> f y \<Longrightarrow> sort_key f (xs @ [y]) = sort_key f xs @ [y]"
  by (induction xs) (auto simp: insort_key_snoc)

lemma find_in_set: "find P xs = Some x \<Longrightarrow> x \<in> set xs"
  by (induction xs) (auto split: if_splits)

lemma window_summary:
  assumes "fst (history_window db) = Some (t, l)"
  shows "\<exists>r\<in>set db. r_lamport r = l"
proof -
  let ?s = "take SUMMARY_LOOKBACK (rev (sort_key row_order (filter (\<lambda>r. r_author r = BySummary \<and> r_status r = RowComplete \<and> \<not> r_deleted r) db)))"
  have "(t, l) \<in> set (map (\<lambda>r. (text_of (r_content r), r_lamport r)) ?s)"
    using assms unfolding history_window_def Let_def fst_conv by (rule find_in_set)
  then obtain r where "r \<in> set ?s" "r_lamport r = l" by auto
  then show ?thesis by (intro bexI [of _ r]) (auto dest: in_set_takeD)
qed

text \<open>A row newer than every other comes last, and one that is no summary moves nothing.\<close>

lemma ordered_snoc:
  assumes "\<forall>q\<in>set db. r_lamport q < r_lamport r" "\<not> r_deleted r" "r_author r \<noteq> BySummary"
  shows "ordered_rows (db @ [r]) = ordered_rows db @ [r]"
proof -
  have f: "fst (history_window (db @ [r])) = fst (history_window db)" using assms(3) by (simp add: history_window_def Let_def)
  have "case fst (history_window db) of None \<Rightarrow> True | Some (_, l) \<Rightarrow> l < r_lamport r"
    using window_summary [of db] assms(1) by (fastforce split: option.split)
  then have "snd (history_window (db @ [r])) = snd (history_window db) @ [r]"
    using f assms(2,3) by (simp add: history_window_def Let_def)
  moreover have "\<forall>q\<in>set (snd (history_window db)). row_order q \<le> row_order r"
    using assms(1) by (auto simp: history_window_def Let_def row_order_def less_eq_prod_def)
  ultimately show ?thesis unfolding ordered_rows_def by (simp only: sort_key_snoc)
qed

text \<open>A summary that says something leaves nothing before it.\<close>

lemma ordered_summary:
  assumes "\<forall>q\<in>set db. r_lamport q < r_lamport r" "\<not> r_deleted r" "r_author r = BySummary" "r_status r = RowComplete"
    "text_of (r_content r) \<noteq> []"
  shows "ordered_rows (db @ [r]) = []" "fst (history_window (db @ [r])) = Some (text_of (r_content r), r_lamport r)"
proof -
  let ?s = "filter (\<lambda>r. r_author r = BySummary \<and> r_status r = RowComplete \<and> \<not> r_deleted r) db"
  have "\<forall>q\<in>set ?s. row_order q \<le> row_order r" using assms(1) by (auto simp: row_order_def less_eq_prod_def)
  then have "sort_key row_order (?s @ [r]) = sort_key row_order ?s @ [r]" by (rule sort_key_snoc)
  then show w: "fst (history_window (db @ [r])) = Some (text_of (r_content r), r_lamport r)"
    using assms(2-5) by (simp add: history_window_def Let_def SUMMARY_LOOKBACK_def)
  have "filter (\<lambda>q. \<not> r_deleted q \<and> r_lamport r < r_lamport q) (db @ [r]) = []"
    using assms(1) by (auto simp: filter_empty_conv dest: less_asym)
  then have "snd (history_window (db @ [r])) = []"
    using w by (simp add: history_window_def Let_def)
  then show "ordered_rows (db @ [r]) = []" by (simp add: ordered_rows_def)
qed

section \<open>Steps\<close>

definition row_of :: "author \<Rightarrow> block list \<Rightarrow> row_status \<Rightarrow> int \<Rightarrow> int \<Rightarrow> row" where
  "row_of w content st l t =
     \<lparr>r_author = w, r_content = content, r_status = st, r_lamport = l, r_created = t, r_deleted = False\<rparr>"

lemma row_of_simps [simp]: "r_author (row_of w c st l t) = w" "r_content (row_of w c st l t) = c" "r_status (row_of w c st l t) = st"
  "r_lamport (row_of w c st l t) = l" "\<not> r_deleted (row_of w c st l t)"
  by (simp_all add: row_of_def)

text \<open>No row is newer than the run's clock.\<close>

definition clock_ahead :: "row list \<Rightarrow> live \<Rightarrow> bool" where
  "clock_ahead db s \<longleftrightarrow> (\<forall>r\<in>set (db @ l_rows s). r_lamport r \<le> l_lamport s)"

lemma write_row_simps [simp]:
  "l_rows (write_row w c st t s) = l_rows s @ [row_of w c st (monotonic_lamport (l_lamport s) t) t]"
  "l_chat (write_row w c st t s) = l_chat s" "l_lamport (write_row w c st t s) = monotonic_lamport (l_lamport s) t"
  "l_rows (push_all ms s) = l_rows s" "l_chat (push_all ms s) = l_chat s @ ms" "l_lamport (push_all ms s) = l_lamport s"
  by (simp_all add: write_row_def Let_def push_all_def row_of_def)

lemma write_push: "l_rows (write_row w c st t (push_all ms s)) = l_rows (write_row w c st t s)"
  by simp

lemma lamport_grows: "x \<le> l \<Longrightarrow> x < monotonic_lamport l t"
  by (simp add: monotonic_lamport_def less_max_iff_disj)

lemma clock_write: "clock_ahead db s \<Longrightarrow> clock_ahead db (write_row w c st t s)"
  by (auto simp: clock_ahead_def lamport_grows less_imp_le)

lemma clock_push [simp]: "clock_ahead db (push_all ms s) = clock_ahead db s"
  by (simp add: clock_ahead_def)

lemma ordered_write:
  assumes "clock_ahead db s" "w \<noteq> BySummary"
  shows "ordered_rows (db @ l_rows (write_row w c st t s))
    = ordered_rows (db @ l_rows s) @ [row_of w c st (monotonic_lamport (l_lamport s) t) t]"
proof -
  have "\<forall>q\<in>set (db @ l_rows s). r_lamport q < r_lamport (row_of w c st (monotonic_lamport (l_lamport s) t) t)"
    using assms(1) by (simp add: clock_ahead_def lamport_grows)
  from ordered_snoc [OF this] show ?thesis using assms(2) by simp
qed

lemma ordered_write_summary:
  assumes "clock_ahead db s" "text_of c \<noteq> []"
  shows "ordered_rows (db @ l_rows (write_row BySummary c RowComplete t s)) = []"
proof -
  have "\<forall>q\<in>set (db @ l_rows s). r_lamport q < r_lamport (row_of BySummary c RowComplete (monotonic_lamport (l_lamport s) t) t)"
    using assms(1) by (simp add: clock_ahead_def lamport_grows)
  from ordered_summary(1) [OF this] show ?thesis using assms(2) by simp
qed

lemma trim_idem [simp]: "trim (trim s) = trim s"
proof -
  have r: "trim_right (trim_right x) = trim_right x" for x by (simp add: trim_right_def)
  have "trim_left (trim_right (trim_left x)) = trim_right (trim_left x)" for x
  proof (cases "trim_right (trim_left x) = []")
    case True
    then show ?thesis by (simp add: trim_left_def)
  next
    case False
    obtain y where "trim_left x = trim_right (trim_left x) @ y"
      by (metis append_take_drop_id rev_append rev_rev_ident takeWhile_dropWhile_id trim_right_def)
    then have "hd (trim_right (trim_left x)) = hd (trim_left x)" "trim_left x \<noteq> []" using False by (metis hd_append2, force)
    then have "\<not> is_space (hd (trim_right (trim_left x)))" using hd_dropWhile [of is_space x] by (simp add: trim_left_def)
    then show ?thesis by (rule trim_left_id [OF False])
  qed
  then show ?thesis using r by (simp add: trim_def)
qed

lemma assistant_message_stored: "assistant_message_for_prompt (jsonb_safe (trim t)) cs = assistant_message_for_prompt t cs"
  by (simp add: assistant_message_for_prompt_def jsonb_safe_trim)

definition prose_shown :: "js_string \<Rightarrow> message list" where
  "prose_shown t = (if trim t \<noteq> [] then [assistant_message_for_prompt t []] else [])"

text \<open>A reply whose calls have no results replays as its text, if it has any.\<close>

lemma replay_reply:
  "replay_under rd v [row_of ByAssistant (assistant_blocks store parse th t calls) RowComplete l now] = prose_shown t"
  by (simp add: replay_under_def row_messages_def assistant_messages_def assistant_blocks_text prose_shown_def
      resolved_ids_def tool_calls_for_prompt_def assistant_message_stored)

lemma replay_said: "replay_under rd v [row_of ByUser content RowComplete l now] = user_messages rd v content"
  by (simp add: replay_under_def row_messages_def)

lemma replay_not_complete: "st \<noteq> RowComplete \<Longrightarrow> replay_under rd v [row_of w c st l now] = []"
  by (simp add: replay_under_def)

section \<open>An iteration\<close>

text \<open>Screenshots that were shown: there are some, and nothing in them had to be replaced to be stored.\<close>

definition shots_storable :: "turn_call \<times> call_result \<Rightarrow> bool" where
  "shots_storable x =
     (case cr_images (snd x) of
        None \<Rightarrow> True
      | Some images \<Rightarrow> \<not> cr_sent (snd x) \<or>
          (images \<noteq> [] \<and> NUL \<notin> set (tc_id (fst x)) \<and> list_all (\<lambda>a. safe_attachment a = a) images))"

definition safe_ids :: "turn_call list \<Rightarrow> js_string list" where
  "safe_ids = map (\<lambda>c. jsonb_safe (tc_id c))"

lemma parsed_object: "\<exists>ms. safe_parse_args parse raw = JObj ms"
  by (auto simp: safe_parse_args_def split: option.split json.split)

lemma stored_prompt_calls:
  assumes "\<And>v. same_json v (store v)"
  shows "tool_calls_for_prompt (calls_of (assistant_blocks store parse th t calls)) = prompt_calls parse calls"
proof -
  have "tool_call_for_prompt (jsonb_safe (tc_id c), jsonb_safe (tc_name c), store (safe_json (safe_parse_args parse (tc_args c))))
      = tool_call_for_prompt (tc_id c, tc_name c, safe_parse_args parse (tc_args c))" for c :: turn_call
    using parsed_object [of parse "tc_args c"] stored_call [of store, OF assms] by metis
  then show ?thesis by (simp add: assistant_blocks_calls tool_calls_for_prompt_def prompt_calls_def)
qed

lemma map_of_rev: "distinct (map fst ps) \<Longrightarrow> (k, v) \<in> set ps \<Longrightarrow> map_of (rev ps) k = Some v"
  by (simp add: map_of_eq_Some_iff rev_map [symmetric])

lemma shots_replayed:
  assumes "\<forall>x\<in>set xs. shots_storable x" "set (safe_ids (map fst xs)) \<subseteq> present"
  shows "screenshot_turns_of present (result_blocks xs) = shown_shots xs"
  unfolding screenshot_turns_of_def shown_shots_def result_blocks_results map_map
proof (intro arg_cong [where f = concat] map_cong refl)
  fix x assume x: "x \<in> set xs"
  obtain c r where cr: "x = (c, r)" by (cases x)
  have p: "jsonb_safe (tc_id c) \<in> present" using x cr assms(2) by (force simp: safe_ids_def)
  show "((\<lambda>b. case rb_images b of Some (a # as) \<Rightarrow> if rb_sent b \<and> rb_call b \<in> present then [(rb_call b, a # as)] else [] | _ \<Rightarrow> [])
      \<circ> (\<lambda>(c, r). \<lparr>rb_call = jsonb_safe (tc_id c), rb_output = jsonb_safe (cr_output r), rb_ok = cr_ok r,
     rb_images = map_option (map safe_attachment) (cr_images r), rb_sent = (cr_images r \<noteq> None \<and> cr_sent r)\<rparr>)) x
     = (case x of (c, r) \<Rightarrow> case cr_images r of Some images \<Rightarrow> if cr_sent r then [(tc_id c, images)] else [] | None \<Rightarrow> [])"
  proof (cases "cr_images r")
    case None
    then show ?thesis by (simp add: cr)
  next
    case (Some images)
    show ?thesis
    proof (cases "cr_sent r")
      case False
      then show ?thesis using Some by (simp add: cr split: list.split)
    next
      case True
      then have s: "images \<noteq> []" "jsonb_safe (tc_id c) = tc_id c" "map safe_attachment images = images"
        using bspec [OF assms(1) x] cr Some
        by (auto simp: shots_storable_def jsonb_safe_plain list_all_iff intro!: map_idI)
      obtain a as where "images = a # as" using s(1) by (cases images) auto
      then show ?thesis using s(2,3) Some True p by (simp add: cr)
    qed
  qed
qed

lemma replay_iteration:
  assumes store: "\<And>v. same_json v (store v)" and ids: "distinct (safe_ids (map fst xs))" and ne: "xs \<noteq> []"
    and shots: "\<forall>x\<in>set xs. shots_storable x"
  shows "replay_under rd v [row_of ByAssistant (assistant_blocks store parse th t (map fst xs)) RowComplete l now,
      row_of ByTool (result_blocks xs) RowComplete l' now'] = iteration_pushes rd parse t xs"
proof -
  let ?a = "assistant_blocks store parse th t (map fst xs)"
  let ?rows = "[row_of ByAssistant ?a RowComplete l now, row_of ByTool (result_blocks xs) RowComplete l' now']"
  let ?pairs = "map (\<lambda>(c, r). (jsonb_safe (tc_id c), jsonb_safe (tc_name c))) xs"
  have p: "call_pairs ?rows = ?pairs"
    by (simp add: call_pairs_def assistant_blocks_calls case_prod_unfold o_def)
  have r: "resolved_ids ?rows = set (safe_ids (map fst xs))"
    by (simp add: resolved_ids_def result_blocks_results safe_ids_def case_prod_unfold o_def)
  have f: "map fst ?pairs = safe_ids (map fst xs)" by (simp add: safe_ids_def case_prod_unfold o_def)
  have "filter (\<lambda>(i, _). i \<in> resolved_ids ?rows) (calls_of ?a) = calls_of ?a"
    unfolding r by (auto simp: assistant_blocks_calls safe_ids_def intro!: filter_True)
  moreover have "prompt_calls parse (map fst xs) \<noteq> []" using ne by (simp add: prompt_calls_def tool_calls_for_prompt_def)
  ultimately have a: "assistant_messages (resolved_ids ?rows) ?a = [assistant_message_for_prompt t (prompt_calls parse (map fst xs))]"
    by (simp add: assistant_messages_def Let_def stored_prompt_calls [OF store] assistant_blocks_text assistant_message_stored)
  have "filter (\<lambda>b. rb_call b \<in> set (map fst ?pairs)) (results_of (result_blocks xs)) = results_of (result_blocks xs)"
    unfolding f by (intro filter_True) (force simp: result_blocks_results safe_ids_def)
  moreover have "map (\<lambda>b. tool_result_message (rb_call b) (map_of (rev ?pairs) (rb_call b)) (rb_output b)) (results_of (result_blocks xs))
      = map (\<lambda>(c, r). tool_result_message (tc_id c) (Some (tc_name c)) (cr_output r)) xs"
    unfolding result_blocks_results map_map
  proof (rule map_cong [OF refl])
    fix x assume x: "x \<in> set xs"
    obtain c r where cr: "x = (c, r)" by (cases x)
    have "map_of (rev ?pairs) (jsonb_safe (tc_id c)) = Some (jsonb_safe (tc_name c))"
      using ids x cr by (intro map_of_rev) (auto simp only: f, force)
    then show "((\<lambda>b. tool_result_message (rb_call b) (map_of (rev ?pairs) (rb_call b)) (rb_output b))
        \<circ> (\<lambda>(c, r). \<lparr>rb_call = jsonb_safe (tc_id c), rb_output = jsonb_safe (cr_output r), rb_ok = cr_ok r,
          rb_images = map_option (map safe_attachment) (cr_images r), rb_sent = (cr_images r \<noteq> None \<and> cr_sent r)\<rparr>)) x
      = (case x of (c, r) \<Rightarrow> tool_result_message (tc_id c) (Some (tc_name c)) (cr_output r))"
      by (simp add: cr tool_result_message_def)
  qed
  moreover have "screenshot_turns_of (set (map fst ?pairs)) (result_blocks xs) = shown_shots xs"
    using shots_replayed [OF shots, of "set (map fst ?pairs)"] unfolding f by simp
  ultimately have t: "tool_messages rd ?pairs (result_blocks xs)
      = map (\<lambda>(c, r). tool_result_message (tc_id c) (Some (tc_name c)) (cr_output r)) xs
        @ (if shown_shots xs \<noteq> [] then [screenshot_message rd (shown_shots xs)] else [])"
    unfolding tool_messages_def Let_def by (simp only:)
  have "replay_under rd v ?rows = assistant_messages (resolved_ids ?rows) ?a @ tool_messages rd ?pairs (result_blocks xs)"
    unfolding replay_under_def p by (simp add: row_messages_def)
  then show ?thesis unfolding a t iteration_pushes_def by simp
qed

section \<open>What a step leaves\<close>

fun step_calls :: "run_step \<Rightarrow> turn_call list" where
  "step_calls (Iteration th t xs t1 t2) = map fst xs"
| "step_calls (Refused th t calls t1 t2) = calls"
| "step_calls (Interrupted th t calls t1) = calls"
| "step_calls _ = []"

text \<open>What the code keeps of every step: an iteration has calls, a failed reply is not complete, a summary says something.
  Ids apart once they can be stored, and shots that can be, are the model's and the server's part.\<close>

fun step_fits :: "run_step \<Rightarrow> bool" where
  "step_fits (Iteration th t xs t1 t2) \<longleftrightarrow> xs \<noteq> [] \<and> distinct (safe_ids (map fst xs)) \<and> list_all shots_storable xs"
| "step_fits (Refused th t calls t1 t2) \<longleftrightarrow>
     calls \<noteq> [] \<and> distinct (safe_ids calls) \<and> list_all (\<lambda>c. NUL \<notin> set (tc_id c)) calls"
| "step_fits (Failed th t st t1) \<longleftrightarrow> st \<noteq> RowComplete"
| "step_fits (Summarised t t1) \<longleftrightarrow> trim t \<noteq> []"
| "step_fits _ \<longleftrightarrow> True"

definition refused :: call_result where
  "refused = \<lparr>cr_output = ANSWER_NOW_NOT_RUN, cr_ok = False, cr_images = None, cr_sent = False\<rparr>"

fun step_shows :: "reading \<Rightarrow> (js_string \<Rightarrow> json option) \<Rightarrow> js_string set option \<Rightarrow> run_step \<Rightarrow> message list" where
  "step_shows rd parse v (Said content t) = user_messages rd v content"
| "step_shows rd parse v (Iteration th t xs t1 t2) = iteration_pushes rd parse t xs"
| "step_shows rd parse v (PlanNudge th t t1 t2) = prose_shown t @ [UserText PLAN_REQUIRED_NUDGE]"
| "step_shows rd parse v (AnswerNudge t) = [UserText CHECKIN_ANSWER_NUDGE]"
| "step_shows rd parse v (Refused th t calls t1 t2) = iteration_pushes rd parse t (map (\<lambda>c. (c, refused)) calls)"
| "step_shows rd parse v (Final th t t1) = prose_shown t"
| "step_shows rd parse v (Failed th t st t1) = []"
| "step_shows rd parse v (Interrupted th t calls t1) = prose_shown t"
| "step_shows rd parse v (Summarised t t1) = []"

fun step_turns :: "run_step \<Rightarrow> attachment list list" where
  "step_turns (Said content t) = [attachments_of content]"
| "step_turns (PlanNudge th t t1 t2) = [[]]"
| "step_turns (AnswerNudge t) = [[]]"
| "step_turns _ = []"

lemma nudges_trimmed: "trim PLAN_REQUIRED_NUDGE = PLAN_REQUIRED_NUDGE" "trim CHECKIN_ANSWER_NUDGE = CHECKIN_ANSWER_NUDGE"
  by code_simp+

lemma nudge_shown: "user_messages rd v [BText PLAN_REQUIRED_NUDGE] = [UserText PLAN_REQUIRED_NUDGE]"
  "user_messages rd v [BText CHECKIN_ANSWER_NUDGE] = [UserText CHECKIN_ANSWER_NUDGE]"
proof -
  have "PLAN_REQUIRED_NUDGE \<noteq> []" "CHECKIN_ANSWER_NUDGE \<noteq> []"
    by (simp_all add: PLAN_REQUIRED_NUDGE_def CHECKIN_ANSWER_NUDGE_def)
  then show "user_messages rd v [BText PLAN_REQUIRED_NUDGE] = [UserText PLAN_REQUIRED_NUDGE]"
    "user_messages rd v [BText CHECKIN_ANSWER_NUDGE] = [UserText CHECKIN_ANSWER_NUDGE]"
    by (simp_all add: user_messages_def attachments_of_def notices_of_def nudges_trimmed)
qed

lemma refused_blocks:
  assumes "list_all (\<lambda>c. NUL \<notin> set (tc_id c)) calls"
  shows "map (\<lambda>c. BResult \<lparr>rb_call = tc_id c, rb_output = ANSWER_NOW_NOT_RUN, rb_ok = False, rb_images = None, rb_sent = False\<rparr>) calls
    = result_blocks (map (\<lambda>c. (c, refused)) calls)"
proof -
  have "jsonb_safe ANSWER_NOW_NOT_RUN = ANSWER_NOW_NOT_RUN"
    by (rule jsonb_safe_plain) (simp add: ANSWER_NOW_NOT_RUN_def NUL_def)
  then show ?thesis using assms by (auto simp: result_blocks_def refused_def list_all_iff jsonb_safe_plain)
qed

lemma row_ids_of [simp]:
  "row_ids (row_of ByUser c st l t) = {}" "row_ids (row_of BySummary c st l t) = {}"
  "row_ids (row_of ByAssistant (assistant_blocks store parse th x calls) st l t) = set (safe_ids calls)"
  "row_ids (row_of ByTool (result_blocks xs) st l t) = set (safe_ids (map fst xs))"
  by (force simp: row_ids_def assistant_blocks_calls result_blocks_results safe_ids_def)+

lemma row_ids_streamed [simp]: "row_ids (row_of ByAssistant (map safe_block (streamed_blocks th x)) st l t) = {}"
  by (simp add: row_ids_def streamed_blocks_def calls_of_def)

lemma attachment_turns_of [simp]:
  "attachment_turns (xs @ ys) = attachment_turns xs @ attachment_turns ys" "attachment_turns [] = []"
  "attachment_turns [row_of w c st l t] = (if w = ByUser \<and> st = RowComplete then [attachments_of c] else [])"
  by (simp_all add: attachment_turns_def)

lemma step_leaves:
  assumes store: "\<And>v. same_json v (store v)" and clock: "clock_ahead db s" and fits: "step_fits step"
    and live: "\<forall>t t1. step \<noteq> Summarised t t1"
  obtains N where "ordered_rows (db @ l_rows (do_step rd store parse step s)) = ordered_rows (db @ l_rows s) @ N"
    "rows_ids N = set (safe_ids (step_calls step))" "\<And>v. replay_under rd v N = step_shows rd parse v step"
    "attachment_turns N = step_turns step"
proof -
  let ?l = "l_lamport s" and ?o = "ordered_rows (db @ l_rows s)"
  note clock' = clock_write [OF clock]
  have one: "ordered_rows (db @ l_rows (write_row w c st t s)) = ?o @ [row_of w c st (monotonic_lamport ?l t) t]"
    if "w \<noteq> BySummary" for w c st t
    by (rule ordered_write [OF clock that])
  have two: "ordered_rows (db @ l_rows (write_row w c st t (write_row w' c' st' t' s)))
      = ?o @ [row_of w' c' st' (monotonic_lamport ?l t') t', row_of w c st (monotonic_lamport (monotonic_lamport ?l t') t) t]"
    if "w \<noteq> BySummary" "w' \<noteq> BySummary" for w c st t w' c' st' t'
    using ordered_write [OF clock' that(1)] one [OF that(2)] by simp
  show thesis
  proof (cases step)
    case (Said content t)
    show ?thesis
      by (rule that [of "[row_of ByUser content RowComplete (monotonic_lamport ?l t) t]"])
        (simp_all add: Said do_step_def one replay_said safe_ids_def del: write_row_simps(1))
  next
    case (Iteration th x xs t1 t2)
    have f: "distinct (safe_ids (map fst xs))" "xs \<noteq> []" "\<forall>y\<in>set xs. shots_storable y"
      using fits unfolding Iteration by (simp_all add: list_all_iff)
    show ?thesis
      by (rule that [of "[row_of ByAssistant (assistant_blocks store parse th x (map fst xs)) RowComplete (monotonic_lamport ?l t1) t1,
          row_of ByTool (result_blocks xs) RowComplete (monotonic_lamport (monotonic_lamport ?l t1) t2) t2]"])
        (simp_all add: Iteration do_step_def two replay_iteration [OF store f] attachment_turns_def del: write_row_simps(1))
  next
    case (PlanNudge th x t1 t2)
    let ?a = "row_of ByAssistant (assistant_blocks store parse th x []) RowComplete (monotonic_lamport ?l t1) t1"
    let ?b = "row_of ByUser [BText PLAN_REQUIRED_NUDGE] RowComplete (monotonic_lamport (monotonic_lamport ?l t1) t2) t2"
    have "replay_under rd v ([?a] @ [?b]) = prose_shown x @ [UserText PLAN_REQUIRED_NUDGE]" for v
      by (subst replay_append) (simp_all add: replay_reply replay_said nudge_shown)
    then show ?thesis
      by (intro that [of "[?a, ?b]"])
        (simp_all add: PlanNudge do_step_def two safe_ids_def attachment_turns_def attachments_of_def del: write_row_simps(1))
  next
    case (AnswerNudge t)
    show ?thesis
      by (rule that [of "[row_of ByUser [BText CHECKIN_ANSWER_NUDGE] RowComplete (monotonic_lamport ?l t) t]"])
        (simp_all add: AnswerNudge do_step_def one replay_said nudge_shown safe_ids_def attachments_of_def del: write_row_simps(1))
  next
    case (Refused th x calls t1 t2)
    let ?xs = "map (\<lambda>c. (c, refused)) calls"
    have m: "map fst ?xs = calls" by (simp add: o_def)
    have f: "distinct (safe_ids (map fst ?xs))" "?xs \<noteq> []" "\<forall>y\<in>set ?xs. shots_storable y" "list_all (\<lambda>c. NUL \<notin> set (tc_id c)) calls"
      using fits unfolding Refused m by (auto simp: shots_storable_def refused_def)
    note r = replay_iteration [OF store f(1-3), unfolded m]
    show ?thesis
      by (rule that [of "[row_of ByAssistant (assistant_blocks store parse th x calls) RowComplete (monotonic_lamport ?l t1) t1,
          row_of ByTool (result_blocks ?xs) RowComplete (monotonic_lamport (monotonic_lamport ?l t1) t2) t2]"])
        (simp_all add: Refused do_step_def write_push two r refused_blocks [OF f(4)] o_def attachment_turns_def
          del: write_row_simps(1))
  next
    case (Final th x t)
    show ?thesis
      by (rule that [of "[row_of ByAssistant (assistant_blocks store parse th x []) RowComplete (monotonic_lamport ?l t) t]"])
        (simp_all add: Final do_step_def one replay_reply safe_ids_def del: write_row_simps(1))
  next
    case (Failed th x st t)
    have "st \<noteq> RowComplete" using fits unfolding Failed by simp
    then show ?thesis
      by (intro that [of "[row_of ByAssistant (map safe_block (streamed_blocks th x)) st (monotonic_lamport ?l t) t]"])
        (simp_all add: Failed do_step_def one replay_not_complete safe_ids_def del: write_row_simps(1))
  next
    case (Interrupted th x calls t)
    show ?thesis
      by (rule that [of "[row_of ByAssistant (assistant_blocks store parse th x calls) RowComplete (monotonic_lamport ?l t) t]"])
        (simp_all add: Interrupted do_step_def one replay_reply del: write_row_simps(1))
  next
    case (Summarised t t1)
    then show ?thesis using live by blast
  qed
qed

lemma clock_step: "clock_ahead db s \<Longrightarrow> clock_ahead db (do_step rd store parse step s)"
  by (cases step) (simp_all add: do_step_def clock_write)

end
