(* ===== verification/ReplayFaithful.thy ===== *)
theory ReplayFaithful
  imports ReplayParts
begin

text \<open>
  The replay of stored rows is the prompt the run had (\<open>Replay\<close>): a run's chat, however it ends, and any conversation's
  exchanges.
\<close>

section \<open>A run\<close>

text \<open>The steps a run goes on after: it pushes what the replay will show.\<close>

fun continues :: "run_step \<Rightarrow> bool" where
  "continues (Iteration th t xs t1 t2) = True"
| "continues (PlanNudge th t t1 t2) = True"
| "continues (AnswerNudge t) = True"
| "continues _ = False"

fun nudges :: "run_step \<Rightarrow> bool" where
  "nudges (PlanNudge th t t1 t2) = True"
| "nudges (AnswerNudge t) = True"
| "nudges _ = False"

text \<open>No call id of a step was seen before.\<close>

fun fresh_steps :: "js_string set \<Rightarrow> run_step list \<Rightarrow> bool" where
  "fresh_steps seen [] = True"
| "fresh_steps seen (st # sts) \<longleftrightarrow>
     set (safe_ids (step_calls st)) \<inter> seen = {} \<and> fresh_steps (seen \<union> set (safe_ids (step_calls st))) sts"

lemma fresh_append: "fresh_steps seen (xs @ ys) \<longleftrightarrow> fresh_steps seen xs
    \<and> fresh_steps (seen \<union> set (safe_ids (concat (map step_calls xs)))) ys"
  by (induction xs arbitrary: seen) (auto simp: safe_ids_def Un_assoc)

lemma continues_pushes:
  "continues step \<Longrightarrow> l_chat (do_step rd store parse step s) = l_chat s @ step_shows rd parse v step"
  by (cases step) (simp_all add: do_step_def prose_shown_def)

lemma continues_turns: "continues step \<Longrightarrow> step_turns step = (if nudges step then [[]] else [])"
  by (cases step) simp_all

text \<open>After any steps the replayed rows hold the calls seen and no others, and replay as what each step shows.\<close>

lemma steps_leave:
  assumes store: "\<And>v. same_json v (store v)" and clock: "clock_ahead db s"
    and fits: "list_all step_fits steps" "list_all (\<lambda>st. \<forall>t t1. st \<noteq> Summarised t t1) steps"
    and fresh: "fresh_steps (rows_ids (ordered_rows (db @ l_rows s))) steps"
  shows "clock_ahead db (run_steps rd store parse steps s)
    \<and> replay_under rd v (ordered_rows (db @ l_rows (run_steps rd store parse steps s)))
      = replay_under rd v (ordered_rows (db @ l_rows s)) @ concat (map (step_shows rd parse v) steps)
    \<and> rows_ids (ordered_rows (db @ l_rows (run_steps rd store parse steps s)))
      = rows_ids (ordered_rows (db @ l_rows s)) \<union> set (safe_ids (concat (map step_calls steps)))
    \<and> attachment_turns (ordered_rows (db @ l_rows (run_steps rd store parse steps s)))
      = attachment_turns (ordered_rows (db @ l_rows s)) @ concat (map step_turns steps)"
  using clock fits fresh
proof (induction steps arbitrary: s)
  case Nil
  then show ?case by (simp add: run_steps_def safe_ids_def)
next
  case (Cons st steps)
  let ?s = "do_step rd store parse st s"
  have f: "step_fits st" "\<forall>t t1. st \<noteq> Summarised t t1" using Cons.prems by simp_all
  obtain N where N: "ordered_rows (db @ l_rows ?s) = ordered_rows (db @ l_rows s) @ N"
    "rows_ids N = set (safe_ids (step_calls st))" "replay_under rd v N = step_shows rd parse v st"
    "attachment_turns N = step_turns st"
    using step_leaves [OF store Cons.prems(1) f, of rd parse] by metis
  have "rows_ids (ordered_rows (db @ l_rows s)) \<inter> rows_ids N = {}" using Cons.prems(4) N(2) by auto
  from replay_append [OF this, of rd v] have r: "replay_under rd v (ordered_rows (db @ l_rows s) @ N)
      = replay_under rd v (ordered_rows (db @ l_rows s)) @ step_shows rd parse v st" by (simp add: N)
  have "fresh_steps (rows_ids (ordered_rows (db @ l_rows ?s))) steps" using Cons.prems(4) by (simp add: N)
  from Cons.IH [OF clock_step [OF Cons.prems(1)] _ _ this] Cons.prems(2,3)
  show ?case by (simp add: r N run_steps_def safe_ids_def Un_assoc)
qed

definition started :: "reading \<Rightarrow> disk \<Rightarrow> row list \<Rightarrow> int \<Rightarrow> live" where
  "started rd disk db clock = \<lparr>l_rows = [], l_chat = h_messages (load_history rd disk db), l_lamport = clock\<rparr>"

lemma chat_of_steps:
  assumes "list_all continues steps"
  shows "l_chat (run_steps rd store parse steps s) = l_chat s @ concat (map (step_shows rd parse v) steps)"
  using assms
proof (induction steps arbitrary: s)
  case (Cons st steps)
  have "l_chat (do_step rd store parse st s) = l_chat s @ step_shows rd parse v st"
    using Cons.prems by (intro continues_pushes) simp
  then show ?case using Cons by (simp add: run_steps_def)
qed (simp add: run_steps_def)

lemma verdict_kept:
  assumes "list_all continues steps" "list_all (\<lambda>t. t = []) turns \<or> \<not> list_ex nudges steps"
  shows "affordable disk (turns @ concat (map step_turns steps)) = affordable disk turns"
  using assms(2)
proof
  assume "list_all (\<lambda>t. t = []) turns"
  moreover have "list_all (\<lambda>t. t = []) (concat (map step_turns steps))"
    using assms(1) by (auto simp: list_all_iff continues_turns split: if_splits)
  ultimately show ?thesis by (simp add: affordable_def)
next
  assume "\<not> list_ex nudges steps"
  then have "concat (map step_turns steps) = []"
    using assms(1) by (auto simp: list_all_iff list_ex_iff continues_turns)
  then show ?thesis by (simp only: append_Nil2)
qed

text \<open>A run that holds what its rows replay as goes on holding it, under the same summary.\<close>

lemma step_window:
  assumes "\<forall>t t1. st \<noteq> Summarised t t1"
  shows "fst (history_window (db @ l_rows (do_step rd store parse st s))) = fst (history_window (db @ l_rows s))"
  using assms by (cases st) (simp_all add: do_step_def history_window_def Let_def)

lemma steps_window:
  assumes "list_all (\<lambda>st. \<forall>t t1. st \<noteq> Summarised t t1) steps"
  shows "fst (history_window (db @ l_rows (run_steps rd store parse steps s))) = fst (history_window (db @ l_rows s))"
  using assms
proof (induction steps arbitrary: s)
  case (Cons st steps)
  then show ?case using step_window [of st db rd store parse s] by (simp add: run_steps_def)
qed (simp add: run_steps_def)

lemma continues_live: "list_all continues steps \<Longrightarrow> list_all (\<lambda>st. \<forall>t t1. st \<noteq> Summarised t t1) steps"
  by (auto simp: list_all_iff)

lemma run_replays:
  assumes "\<And>v. same_json v (store v)" "clock_ahead db s"
    and chat: "l_chat s = h_messages (load_history rd disk (db @ l_rows s))"
    and "list_all continues steps" "list_all step_fits steps" "fresh_steps (rows_ids (ordered_rows (db @ l_rows s))) steps"
    and "list_all (\<lambda>t. t = []) (attachment_turns (ordered_rows (db @ l_rows s))) \<or> \<not> list_ex nudges steps"
  shows "h_messages (load_history rd disk (db @ l_rows (run_steps rd store parse steps s))) = l_chat (run_steps rd store parse steps s)"
    "h_summary (load_history rd disk (db @ l_rows (run_steps rd store parse steps s))) = h_summary (load_history rd disk (db @ l_rows s))"
proof -
  let ?o = "ordered_rows (db @ l_rows s)"
  let ?v = "affordable disk (attachment_turns ?o)"
  note l = steps_leave [OF assms(1,2,5) continues_live [OF assms(4)] assms(6), of rd parse ?v]
  have "attachment_turns (ordered_rows (db @ l_rows (run_steps rd store parse steps s))) = attachment_turns ?o @ concat (map step_turns steps)"
    "replay_under rd ?v (ordered_rows (db @ l_rows (run_steps rd store parse steps s)))
      = replay_under rd ?v ?o @ concat (map (step_shows rd parse ?v) steps)"
    using l by simp_all
  then show "h_messages (load_history rd disk (db @ l_rows (run_steps rd store parse steps s))) = l_chat (run_steps rd store parse steps s)"
    using chat_of_steps [OF assms(4), of rd store parse s ?v] verdict_kept [OF assms(4,7), of disk] chat
    by (simp add: load_history_def Let_def)
  show "h_summary (load_history rd disk (db @ l_rows (run_steps rd store parse steps s))) = h_summary (load_history rd disk (db @ l_rows s))"
    using steps_window [OF continues_live [OF assms(4)], of db rd store parse s] by (simp add: load_history_def Let_def)
qed

lemma started_clock: "\<forall>r\<in>set db. r_lamport r \<le> clock \<Longrightarrow> clock_ahead db (started rd disk db clock)"
  by (simp add: clock_ahead_def started_def)

lemma started_simps [simp]:
  "l_rows (started rd disk db clock) = []" "l_chat (started rd disk db clock) = h_messages (load_history rd disk db)"
  by (simp_all add: started_def)

text \<open>
  C4: The next turn rebuilds from the stored rows exactly the messages the run had appended, whatever its iterations
  called and streamed: the cached front of the prompt holds. The ids of the calls are new to the conversation, and it has no
  attachments or the run is not nudged: after a nudge, a file that only the newest message's reserve paid for is left out.
\<close>

theorem replay_is_the_live_prompt:
  assumes "\<And>v. same_json v (store v)" "\<forall>r\<in>set db. r_lamport r \<le> clock"
    and "list_all continues steps" "list_all step_fits steps" "fresh_steps (rows_ids (ordered_rows db)) steps"
    and "list_all (\<lambda>t. t = []) (attachment_turns (ordered_rows db)) \<or> \<not> list_ex nudges steps"
  shows "h_messages (load_history rd disk (db @ l_rows (run_steps rd store parse steps (started rd disk db clock))))
    = l_chat (run_steps rd store parse steps (started rd disk db clock))"
  using run_replays(1) [OF assms(1) started_clock [OF assms(2), of rd disk], of rd disk steps parse] assms(3-6) by simp

section \<open>The end of a run\<close>

fun ends :: "run_step \<Rightarrow> bool" where
  "ends (Refused th t calls t1 t2) = True"
| "ends (Final th t t1) = True"
| "ends (Failed th t st t1) = True"
| "ends (Interrupted th t calls t1) = True"
| "ends _ = False"

lemma ends_pushes:
  assumes "ends step"
  shows "\<exists>ms. l_chat s @ step_shows rd parse v step = l_chat (do_step rd store parse step s) @ ms"
  using assms by (cases step) (auto simp: do_step_def iteration_pushes_def o_def)

lemma ends_turns: "ends step \<Longrightarrow> step_turns step = [] \<and> (\<forall>t t1. step \<noteq> Summarised t t1)"
  by (cases step) simp_all

lemma run_extended:
  assumes "\<And>v. same_json v (store v)" "\<forall>r\<in>set db. r_lamport r \<le> clock"
    and "list_all continues steps" "ends step" "list_all step_fits (steps @ [step])"
    and "fresh_steps (rows_ids (ordered_rows db)) (steps @ [step])"
    and "list_all (\<lambda>t. t = []) (attachment_turns (ordered_rows db)) \<or> \<not> list_ex nudges steps"
  obtains ms where "h_messages (load_history rd disk (db @ l_rows (run_steps rd store parse (steps @ [step]) (started rd disk db clock))))
      = l_chat (run_steps rd store parse (steps @ [step]) (started rd disk db clock)) @ ms"
    "h_summary (load_history rd disk (db @ l_rows (run_steps rd store parse (steps @ [step]) (started rd disk db clock))))
      = h_summary (load_history rd disk db)"
proof -
  let ?s = "started rd disk db clock" and ?o = "ordered_rows db"
  let ?v = "affordable disk (attachment_turns ?o)"
  have rows: "l_rows ?s = []" and chat: "l_chat ?s = replay_under rd ?v ?o"
    by (simp_all add: started_def load_history_def Let_def)
  have c: "clock_ahead db ?s" using assms(2) by (simp add: clock_ahead_def started_def)
  have n: "list_all (\<lambda>st. \<forall>t t1. st \<noteq> Summarised t t1) (steps @ [step])"
    using assms(3) ends_turns [OF assms(4)] by (auto simp: list_all_iff)
  note l = steps_leave [OF assms(1) c assms(5) n, of rd parse ?v]
  have t: "attachment_turns (ordered_rows (db @ l_rows (run_steps rd store parse (steps @ [step]) ?s)))
      = attachment_turns ?o @ concat (map step_turns steps)"
    and r: "replay_under rd ?v (ordered_rows (db @ l_rows (run_steps rd store parse (steps @ [step]) ?s)))
      = (replay_under rd ?v ?o @ concat (map (step_shows rd parse ?v) steps)) @ step_shows rd parse ?v step"
    using l assms(6) ends_turns [OF assms(4)] by (simp_all add: rows)
  obtain ms where "l_chat (run_steps rd store parse steps ?s) @ step_shows rd parse ?v step
      = l_chat (do_step rd store parse step (run_steps rd store parse steps ?s)) @ ms"
    using ends_pushes [OF assms(4)] by blast
  then have "h_messages (load_history rd disk (db @ l_rows (run_steps rd store parse (steps @ [step]) ?s)))
      = l_chat (run_steps rd store parse (steps @ [step]) ?s) @ ms"
    using t r chat_of_steps [OF assms(3), of rd store parse ?s ?v] verdict_kept [OF assms(3,7), of disk]
    by (simp add: load_history_def Let_def chat run_steps_def)
  moreover have "h_summary (load_history rd disk (db @ l_rows (run_steps rd store parse (steps @ [step]) ?s)))
      = h_summary (load_history rd disk db)"
    using steps_window [OF n, of db rd store parse ?s] rows by (simp add: load_history_def Let_def)
  ultimately show ?thesis by (rule that)
qed

text \<open>A history with nothing attached reads the same under any verdict, so the next message may attach what it likes.\<close>

lemma unattached_replay:
  assumes "list_all (\<lambda>t. t = []) (attachment_turns o')"
  shows "replay_under rd v o' = replay_under rd None o'"
proof -
  have "row_messages rd v res pairs r = row_messages rd None res pairs r" if "r \<in> set o'" "r_status r = RowComplete" for r res pairs
    using assms that by (auto simp: row_messages_def user_messages_def attachment_turns_def list_all_iff Let_def split: author.split)
  then show ?thesis unfolding replay_under_def by (intro arg_cong [where f = concat] map_cong) auto
qed

lemma next_message_loaded:
  assumes "\<And>v. same_json v (store v)" "\<forall>r\<in>set db. r_lamport r \<le> clock"
    and "list_all continues steps" "ends step" "list_all step_fits (steps @ [step])"
    and "fresh_steps (rows_ids (ordered_rows db)) (steps @ [step])"
    and none: "list_all (\<lambda>t. t = []) (attachment_turns (ordered_rows db))"
  shows "\<exists>ms. h_messages (load_history rd disk (db @ l_rows (run_steps rd store parse (steps @ [step, Said content t]) (started rd disk db clock))))
    = l_chat (run_steps rd store parse (steps @ [step]) (started rd disk db clock)) @ ms"
proof -
  let ?s = "started rd disk db clock" and ?o = "ordered_rows db" and ?steps = "steps @ [step, Said content t]"
  let ?all = "ordered_rows (db @ l_rows (run_steps rd store parse ?steps ?s))"
  define v where "v = affordable disk (attachment_turns ?all)"
  have n: "list_all (\<lambda>st. \<forall>t t1. st \<noteq> Summarised t t1) ?steps"
    using continues_live [OF assms(3)] ends_turns [OF assms(4)] by simp
  have fits: "list_all step_fits ?steps" using assms(5) by simp
  have fresh: "fresh_steps (rows_ids (ordered_rows (db @ l_rows ?s))) ?steps"
    using assms(6) fresh_append [of _ "steps @ [step]" "[Said content t]"] by (simp add: safe_ids_def)
  note l = steps_leave [OF assms(1) started_clock [OF assms(2)] fits n fresh, of rd parse v]
  have loaded: "h_messages (load_history rd disk (db @ l_rows (run_steps rd store parse ?steps ?s)))
      = replay_under rd None ?o @ concat (map (step_shows rd parse v) steps) @ step_shows rd parse v step
        @ step_shows rd parse v (Said content t)"
    using l [THEN conjunct2, THEN conjunct1] unattached_replay [OF none, of rd v] by (simp add: load_history_def Let_def flip: v_def)
  have chat: "l_chat (run_steps rd store parse steps ?s) = replay_under rd None ?o @ concat (map (step_shows rd parse v) steps)"
    using chat_of_steps [OF assms(3), of rd store parse ?s v] none by (simp add: load_history_def Let_def affordable_def)
  obtain ms where "l_chat (run_steps rd store parse steps ?s) @ step_shows rd parse v step
      = l_chat (do_step rd store parse step (run_steps rd store parse steps ?s)) @ ms"
    using ends_pushes [OF assms(4)] by blast
  then have end_of_run: "l_chat (run_steps rd store parse steps ?s) @ step_shows rd parse v step
      = l_chat (run_steps rd store parse (steps @ [step]) ?s) @ ms"
    by (simp add: run_steps_def)
  have "h_messages (load_history rd disk (db @ l_rows (run_steps rd store parse ?steps ?s)))
      = (l_chat (run_steps rd store parse steps ?s) @ step_shows rd parse v step) @ step_shows rd parse v (Said content t)"
    unfolding loaded chat by (simp only: append_assoc)
  then show ?thesis unfolding end_of_run append_assoc by blast
qed

text \<open>C21: However a run ends, in a reply, on calls it refused, on a failure, a stop or a crash of the server, what the
  conversation's rows replay as begins with what the run had sent: as the rows stand, when no replayed message has attachments or the run
  was not nudged; and when the next turn loads them, with the user's new message and whatever that attaches, when
  no earlier message has attachments. The ids of the run's calls are new to the conversation. With attachments, one that
  only fits the newest message's reserve is left out once another message comes, and the front of the prompt moves.\<close>

theorem next_turn_extends_the_prompt:
  assumes "\<And>v. same_json v (store v)" "\<forall>r\<in>set db. r_lamport r \<le> clock"
    and "list_all continues steps" "ends step" "list_all step_fits (steps @ [step])"
    and "fresh_steps (rows_ids (ordered_rows db)) (steps @ [step])"
    and "list_all (\<lambda>t. t = []) (attachment_turns (ordered_rows db)) \<or> \<not> list_ex nudges steps"
  shows "(\<exists>ms. h_messages (load_history rd disk (db @ l_rows (run_steps rd store parse (steps @ [step]) (started rd disk db clock))))
      = l_chat (run_steps rd store parse (steps @ [step]) (started rd disk db clock)) @ ms)
    \<and> (list_all (\<lambda>t. t = []) (attachment_turns (ordered_rows db)) \<longrightarrow>
        (\<exists>ms. h_messages (load_history rd disk
            (db @ l_rows (run_steps rd store parse (steps @ [step, Said content t]) (started rd disk db clock))))
          = l_chat (run_steps rd store parse (steps @ [step]) (started rd disk db clock)) @ ms))"
  using run_extended [OF assms(1-7), of rd disk parse] next_message_loaded [OF assms(1-6)] by metis

section \<open>Exchanges\<close>

text \<open>What a strict backend asks of a list of messages: a reply says or calls something, its calls are answered at once, each
  once, in order and under the tool's name, and nothing else answers a call. The first argument is what is still unanswered.\<close>

fun exchanges_ok :: "(js_string \<times> js_string) list \<Rightarrow> message list \<Rightarrow> bool" where
  "exchanges_ok pending [] \<longleftrightarrow> pending = []"
| "exchanges_ok pending (ToolMsg i n out # ms) \<longleftrightarrow>
     (case pending of [] \<Rightarrow> False | p # ps \<Rightarrow> p = (i, case n of Some x \<Rightarrow> x | None \<Rightarrow> []) \<and> n \<noteq> None \<and> exchanges_ok ps ms)"
| "exchanges_ok pending (AssistantMsg c calls # ms) \<longleftrightarrow>
     pending = [] \<and> (c \<noteq> None \<or> calls \<noteq> []) \<and> exchanges_ok (map (\<lambda>(i, n, _). (i, n)) calls) ms"
| "exchanges_ok pending (UserText t # ms) \<longleftrightarrow> pending = [] \<and> exchanges_ok [] ms"
| "exchanges_ok pending (UserParts ps # ms) \<longleftrightarrow> pending = [] \<and> exchanges_ok [] ms"

lemma exchanges_append: "exchanges_ok p xs \<Longrightarrow> exchanges_ok [] ys \<Longrightarrow> exchanges_ok p (xs @ ys)"
  by (induction p xs rule: exchanges_ok.induct) (auto split: list.splits)

lemma answers_ok:
  "exchanges_ok [] ms \<Longrightarrow> exchanges_ok (map (\<lambda>(i, n, _). (i, n)) (prompt_calls parse (map fst xs)))
     (map (\<lambda>(c, r). tool_result_message (tc_id c) (Some (tc_name c)) (cr_output r)) xs @ ms)"
  by (induction xs) (auto simp: prompt_calls_def tool_calls_for_prompt_def tool_call_for_prompt_def tool_result_message_def)

lemma iteration_ok:
  assumes "xs \<noteq> []"
  shows "exchanges_ok [] (iteration_pushes rd parse t xs)"
proof -
  have "exchanges_ok [] (if shown_shots xs \<noteq> [] then [screenshot_message rd (shown_shots xs)] else [])"
    by (simp add: screenshot_message_def)
  note answered = answers_ok [OF this, of parse xs]
  have "prompt_calls parse (map fst xs) \<noteq> []" using assms by (simp add: prompt_calls_def tool_calls_for_prompt_def)
  then show ?thesis
    unfolding iteration_pushes_def assistant_message_for_prompt_def Let_def exchanges_ok.simps
    using answered by blast
qed

lemma prose_ok: "exchanges_ok [] (prose_shown t)"
  by (simp add: prose_shown_def assistant_message_for_prompt_def Let_def)

lemma user_ok: "exchanges_ok [] (user_messages rd v content)"
  by (simp add: user_messages_def Let_def)

lemma step_ok: "step_fits step \<Longrightarrow> exchanges_ok [] (step_shows rd parse v step)"
  by (cases step) (simp_all add: iteration_ok prose_ok user_ok exchanges_append)

lemma conversation_ok:
  assumes store: "\<And>v. same_json v (store v)" and clock: "clock_ahead [] s" and fits: "list_all step_fits steps"
    and seen: "rows_ids (ordered_rows (l_rows s)) \<subseteq> seen" "fresh_steps seen steps"
    and ok: "exchanges_ok [] (replay_under rd v (ordered_rows (l_rows s)))"
  shows "exchanges_ok [] (replay_under rd v (ordered_rows (l_rows (run_steps rd store parse steps s))))"
  using clock fits seen ok
proof (induction steps arbitrary: s seen)
  case Nil
  then show ?case by (simp add: run_steps_def)
next
  case (Cons st steps)
  let ?s = "do_step rd store parse st s"
  have f: "step_fits st" using Cons.prems(2) by simp
  have fr: "set (safe_ids (step_calls st)) \<inter> seen = {}" "fresh_steps (seen \<union> set (safe_ids (step_calls st))) steps"
    using Cons.prems(4) by simp_all
  have "rows_ids (ordered_rows (l_rows ?s)) \<subseteq> seen \<union> set (safe_ids (step_calls st))
      \<and> exchanges_ok [] (replay_under rd v (ordered_rows (l_rows ?s)))"
  proof (cases "\<exists>t t1. st = Summarised t t1")
    case True
    then obtain t t1 where st: "st = Summarised t t1" by blast
    have "text_of [BText t] \<noteq> []" using f st by simp
    from ordered_write_summary [OF Cons.prems(1) this, of t1] have "ordered_rows (l_rows ?s) = []"
      by (simp add: st do_step_def)
    then show ?thesis by (simp add: replay_under_def)
  next
    case False
    then have live: "\<forall>t t1. st \<noteq> Summarised t t1" by blast
    obtain N where N: "ordered_rows (l_rows ?s) = ordered_rows (l_rows s) @ N"
      "rows_ids N = set (safe_ids (step_calls st))" "replay_under rd v N = step_shows rd parse v st"
      using step_leaves [OF store Cons.prems(1) f live, of rd parse] by (metis append_Nil)
    have "rows_ids (ordered_rows (l_rows s)) \<inter> rows_ids N = {}" using Cons.prems(3) fr(1) N(2) by auto
    from replay_append [OF this, of rd v]
    have "replay_under rd v (ordered_rows (l_rows ?s)) = replay_under rd v (ordered_rows (l_rows s)) @ step_shows rd parse v st"
      by (simp add: N)
    then show ?thesis using exchanges_append [OF Cons.prems(5) step_ok [OF f]] Cons.prems(3) N(1,2) by auto
  qed
  then show ?case using Cons.IH [OF clock_step [OF Cons.prems(1)] _ _ fr(2), of rd store parse st] Cons.prems(2)
    by (simp add: run_steps_def)
qed

text \<open>
  C5: The messages of any conversation in which no call id comes back, whatever was interrupted, failed, refused or summarised in
  it, are a list of well-formed exchanges: no call without its answer, no answer without its call. Where an id comes back they need
  not be (\<open>revived_call_unanswered\<close>).
\<close>

theorem replay_well_formed:
  assumes "\<And>v. same_json v (store v)" "list_all step_fits steps" "fresh_steps {} steps"
  shows "exchanges_ok [] (h_messages (load_history rd disk
    (l_rows (run_steps rd store parse steps \<lparr>l_rows = [], l_chat = [], l_lamport = 0\<rparr>))))"
proof -
  have "clock_ahead [] \<lparr>l_rows = [], l_chat = [], l_lamport = 0\<rparr>" by (simp add: clock_ahead_def)
  moreover have "ordered_rows [] = []" by (simp add: ordered_rows_def history_window_def Let_def)
  ultimately show ?thesis
    unfolding load_history_def Let_def history.simps
    using conversation_ok [OF assms(1) _ assms(2) _ assms(3), of "\<lparr>l_rows = [], l_chat = [], l_lamport = 0\<rparr>"]
    by (simp add: replay_under_def)
qed

section \<open>A conversation\<close>

text \<open>The column as PostgreSQL documents it: members by length of name and then by name, of a name the last.\<close>

fun jsonb_column :: "json \<Rightarrow> json" where
  "jsonb_column (JArr xs) = JArr (map jsonb_column xs)"
| "jsonb_column (JObj ms) =
     (let vs = map (\<lambda>(k, v). (k, jsonb_column v)) ms in
      JObj (map (\<lambda>k. (k, the (map_of (rev vs) k))) (sort_key (\<lambda>k. (length k, k)) (remdups (map fst ms)))))"
| "jsonb_column v = v"

lemma map_of_keys: "distinct ks \<Longrightarrow> map_of (rev (map (\<lambda>k. (k, g k)) ks)) k = (if k \<in> set ks then Some (g k) else None)"
  by (induction ks) (auto simp: map_add_def split: option.split)

lemma jsonb_column_same: "same_json v (jsonb_column v)"
proof (induction v)
  case (JArr xs)
  then show ?case by (auto intro!: same_arr simp: list_all2_conv_all_nth)
next
  case (JObj ms)
  let ?ks = "sort_key (\<lambda>k. (length k, k)) (remdups (map fst ms))"
  let ?g = "\<lambda>k. the (map_of (rev (map (\<lambda>(k, v). (k, jsonb_column v)) ms)) k)"
  have "same_json (JObj ms) (JObj (map (\<lambda>k. (k, ?g k)) ?ks))"
  proof (rule same_obj, rule allI)
    fix k
    have d: "distinct ?ks" by simp
    show "(map_of (rev ms) k = None \<and> map_of (rev (map (\<lambda>k. (k, ?g k)) ?ks)) k = None)
      \<or> (\<exists>v w. map_of (rev ms) k = Some v \<and> map_of (rev (map (\<lambda>k. (k, ?g k)) ?ks)) k = Some w \<and> same_json v w)"
    proof (cases "map_of (rev ms) k")
      case None
      then have "k \<notin> set ?ks" using keys_of_map_of [of k ms] by simp
      then show ?thesis using None by (simp only: map_of_keys [OF d] if_False) simp
    next
      case (Some v)
      then have "k \<in> set ?ks" using keys_of_map_of [of k ms] by simp
      moreover have "(k, v) \<in> set ms" using map_of_SomeD [OF Some] by simp
      then have "same_json v (jsonb_column v)" using JObj by fastforce
      ultimately show ?thesis using Some by (simp only: map_of_keys [OF d] if_True map_of_values) simp
    qed
  qed
  then show ?case by (simp only: jsonb_column.simps Let_def)
qed (auto intro: same_json.intros)

definition sample_reading :: reading where
  "sample_reading = \<lparr>pic = (\<lambda>_. None), doc = (\<lambda>_. None), overflow = None\<rparr>"

definition sample_parse :: "js_string \<Rightarrow> json option" where
  "sample_parse raw = Some (JObj [(''command'', JStr ''ls''), (''cwd'', JStr ''/'')])"

definition sample_disk :: disk where
  "sample_disk = ((\<lambda>_. None), (\<lambda>_. None))"

definition call :: "js_string \<Rightarrow> js_string \<Rightarrow> turn_call" where
  "call i n = \<lparr>tc_id = i, tc_name = n, tc_args = ''{}''\<rparr>"

definition gives :: "js_string \<Rightarrow> call_result" where
  "gives out = \<lparr>cr_output = out, cr_ok = True, cr_images = None, cr_sent = False\<rparr>"

definition sample_db :: "row list" where
  "sample_db = [row_of ByUser [BText ''list it''] RowComplete 1 1]"

definition sample_steps :: "run_step list" where
  "sample_steps = [Iteration [] ''Listing.'' [(call ''c1'' ''bash'', gives ''a b'')] 2 3, AnswerNudge 3]"

lemma sample_ordered: "ordered_rows sample_db = sample_db" "attachment_turns sample_db = [[]]" "rows_ids sample_db = {}"
proof -
  have "\<forall>q\<in>set []. r_lamport q < r_lamport (row_of ByUser [BText ''list it''] RowComplete 1 1)" by simp
  from ordered_snoc [OF this] have "ordered_rows sample_db = ordered_rows [] @ sample_db" by (simp add: sample_db_def)
  then show "ordered_rows sample_db = sample_db" by (simp add: ordered_rows_def history_window_def Let_def)
  show "attachment_turns sample_db = [[]]" "rows_ids sample_db = {}"
    by (simp_all add: sample_db_def attachments_of_def)
qed

lemma sample_fits:
  "list_all continues sample_steps" "list_all step_fits sample_steps" "fresh_steps {} sample_steps"
  "list_all step_fits (sample_steps @ [Final [] ''Done.'' 4])" "fresh_steps {} (sample_steps @ [Final [] ''Done.'' 4])"
  by (simp_all add: sample_steps_def safe_ids_def call_def gives_def shots_storable_def)

theorem replay_is_the_live_prompt_witness:
  "h_messages (load_history sample_reading sample_disk
      (sample_db @ l_rows (run_steps sample_reading jsonb_column sample_parse sample_steps (started sample_reading sample_disk sample_db 1))))
    = l_chat (run_steps sample_reading jsonb_column sample_parse sample_steps (started sample_reading sample_disk sample_db 1))"
proof (rule replay_is_the_live_prompt [OF jsonb_column_same])
  show "\<forall>r\<in>set sample_db. r_lamport r \<le> 1" by (simp add: sample_db_def)
qed (simp_all add: sample_fits sample_ordered)

theorem next_turn_extends_the_prompt_witness:
  "\<exists>ms. h_messages (load_history sample_reading sample_disk (sample_db @ l_rows (run_steps sample_reading jsonb_column sample_parse
      (sample_steps @ [Final [] ''Done.'' 4, Said [BText ''More.''] 5]) (started sample_reading sample_disk sample_db 1))))
    = l_chat (run_steps sample_reading jsonb_column sample_parse (sample_steps @ [Final [] ''Done.'' 4])
        (started sample_reading sample_disk sample_db 1)) @ ms"
proof -
  have "\<forall>r\<in>set sample_db. r_lamport r \<le> 1" by (simp add: sample_db_def)
  from next_turn_extends_the_prompt [OF jsonb_column_same this, of sample_steps "Final [] ''Done.'' 4"]
  show ?thesis by (simp add: sample_fits sample_ordered)
qed

theorem replay_well_formed_witness:
  "exchanges_ok [] (h_messages (load_history sample_reading sample_disk (l_rows (run_steps sample_reading jsonb_column sample_parse
    (sample_steps @ [Final [] ''Done.'' 4]) \<lparr>l_rows = [], l_chat = [], l_lamport = 0\<rparr>))))"
  by (rule replay_well_formed [OF jsonb_column_same]) (simp_all only: sample_fits)

section \<open>Ids that come back\<close>

text \<open>
  The ids are the backend's. One that numbers its calls from the start of every reply makes the replay answer an earlier call
  under a later tool's name, and gives a call the server was interrupted at a partner it never had.
\<close>

definition empty_run :: live where
  "empty_run = \<lparr>l_rows = [], l_chat = [], l_lamport = 0\<rparr>"

definition reused :: live where
  "reused = run_steps sample_reading jsonb_column sample_parse
     [Iteration [] ''A'' [(call ''0'' ''grep'', gives ''x'')] 1 2, Iteration [] ''B'' [(call ''0'' ''bash'', gives ''y'')] 3 4] empty_run"

definition revived :: live where
  "revived = run_steps sample_reading jsonb_column sample_parse
     [Interrupted [] ''A'' [call ''0'' ''grep''] 1, Iteration [] ''B'' [(call ''0'' ''bash'', gives ''y'')] 3 4] empty_run"

lemma reused_id_renames:
  "ToolMsg ''0'' (Some ''grep'') ''x'' \<in> set (l_chat reused)
   \<and> ToolMsg ''0'' (Some ''grep'') ''x'' \<notin> set (h_messages (load_history sample_reading sample_disk (l_rows reused)))"
  by code_simp

lemma revived_call_unanswered:
  "\<not> exchanges_ok [] (h_messages (load_history sample_reading sample_disk (l_rows revived)))"
  by code_simp

text \<open>A screenshot's label is the one text of a run that is sent as it is and replayed as it was stored.\<close>

lemma shot_label_differs:
  "screenshot_message rd [([NUL], images)] \<noteq> screenshot_message rd [(jsonb_safe [NUL], images)]"
  by (simp add: screenshot_message_def jsonb_safe_def NUL_def)

text \<open>The note under a cut document names the path it was written to in a sandbox that is running, and none when it is not: what
  a message reads as depends on when it is replayed.\<close>

lemma cut_note_moves:
  assumes "doc rd (a_ref a) = Some t" "nat MAX_EXTRACTED_BYTES < length (utf8 t)" "REPLACEMENT \<notin> set t" "p \<noteq> []"
  shows "document_part (rd\<lparr>overflow := Some (\<lambda>_ _. None)\<rparr>) a \<noteq> document_part (rd\<lparr>overflow := Some (\<lambda>_ _. Some p)\<rparr>) a"
proof -
  let ?cut = "truncate_for_prompt t (nat MAX_EXTRACTED_BYTES)"
  obtain k where k: "?cut = take k t" "length (utf8 (take k t)) \<le> nat MAX_EXTRACTED_BYTES" "k \<le> length t"
    using truncation_longest_prefix [OF assms(3)] by blast
  then have "length ?cut \<noteq> length t" using assms(2) by (cases "k = length t") auto
  moreover obtain b c where n: "truncation_note True None = Some (b @ '']'')" "truncation_note True (Some p) = Some (b @ '' '' @ c)"
    using assms(4) unfolding truncation_note_def Let_def by simp
  then have "wrap_document n m x (truncation_note True None) \<noteq> wrap_document n m x (truncation_note True (Some p))" for n m x
    by (simp add: wrap_document_def)
  ultimately show ?thesis using assms(1) by (simp add: document_part_def Let_def)
qed

end
