(* ===== verification/SummaryParts.thy ===== *)
theory SummaryParts
  imports Compaction ReplayFaithful
begin

text \<open>
  A history read in parts (\<open>Compaction\<close>): nothing is left out or moved, calls stay with their results, and the parts fit.
\<close>

section \<open>Cutting\<close>

text \<open>What may stand for a message in a request: itself, or itself cut down.\<close>

definition cut_of :: "message \<Rightarrow> message \<Rightarrow> bool" where
  "cut_of m m' \<longleftrightarrow> m' = m \<or> (\<exists>share. m' = fit_once share m)"

lemma fit_from_cut: "\<exists>share. fit_from share0 tokens m = fit_once share m"
  by (induction share0 tokens m rule: fit_from.induct) (subst fit_from.simps, auto)

lemma fit_message_cut: "cut_of m (fit_message m tokens)"
  using fit_from_cut by (auto simp: fit_message_def cut_of_def)

text \<open>A message is cut until it fits or only the markers are left of it.\<close>

lemma fit_from_fits: "message_tokens (fit_from share tokens m) \<le> max tokens (message_tokens (fit_once 0 m))"
proof (induction share tokens m rule: fit_from.induct)
  case (1 share tokens m)
  show ?case
  proof (cases "share = 0 \<or> message_tokens (fit_once share m) \<le> tokens")
    case True
    then have "fit_from share tokens m = fit_once share m" by (simp add: fit_from.simps [of share])
    then show ?thesis using True by (auto simp: le_max_iff_disj)
  next
    case False
    then have "fit_from share tokens m = fit_from (share * 4 div 5) tokens m" by (simp add: fit_from.simps [of share])
    then show ?thesis using 1 False by simp
  qed
qed

lemma fit_message_fits: "message_tokens (fit_message m tokens) \<le> max tokens (message_tokens (fit_once 0 m))"
  using fit_from_fits by (simp add: fit_message_def le_max_iff_disj)

section \<open>Units\<close>

text \<open>The units, read off the list from its front.\<close>

function unit_list :: "message list \<Rightarrow> message list list" where
  "unit_list [] = []"
| "unit_list (m # ms) =
     (if calls_in m \<noteq> [] then (m # takeWhile is_tool ms) # unit_list (dropWhile is_tool ms) else [m] # unit_list ms)"
  by pat_completeness auto
termination
  by (relation "measure length") (auto simp: le_imp_less_Suc length_dropWhile_le)

lemma calls_in_tool: "calls_in m \<noteq> [] \<Longrightarrow> \<not> is_tool m"
  by (cases m) auto

lemma add_answers:
  assumes "u \<noteq> []" "calls_in (hd u) \<noteq> []" "list_all is_tool ts"
  shows "fold add_to_units ts (us @ [u]) = us @ [u @ ts]"
  using assms by (induction ts arbitrary: u) (simp_all add: add_to_units_def)

lemma fold_units:
  "ms = [] \<or> \<not> is_tool (hd ms) \<or> us = [] \<or> calls_in (hd (last us)) = [] \<Longrightarrow> fold add_to_units ms us = us @ unit_list ms"
proof (induction ms arbitrary: us rule: unit_list.induct)
  case (2 m ms)
  have a: "add_to_units m us = us @ [[m]]" using "2.prems" by (auto simp: add_to_units_def)
  show ?case
  proof (cases "calls_in m = []")
    case True
    then show ?thesis using 2 a by simp
  next
    case False
    let ?t = "takeWhile is_tool ms" and ?d = "dropWhile is_tool ms"
    have t: "list_all is_tool ?t" by (auto simp: list_all_iff dest: set_takeWhileD)
    have "fold add_to_units ms (us @ [[m]]) = fold add_to_units ?d (fold add_to_units ?t (us @ [[m]]))"
      by (metis comp_apply fold_append takeWhile_dropWhile_id)
    also have "fold add_to_units ?t (us @ [[m]]) = us @ [[m] @ ?t]" using add_answers [OF _ _ t, of "[m]" us] False by simp
    also have "fold add_to_units ?d (us @ [[m] @ ?t]) = (us @ [[m] @ ?t]) @ unit_list ?d"
      using "2.IH"(1) [OF False, of "us @ [[m] @ ?t]"] hd_dropWhile [of is_tool ms] by blast
    finally show ?thesis using a False by simp
  qed
qed simp

lemma message_units_eq: "message_units ms = unit_list ms"
  using fold_units [of ms "[]"] by (simp add: message_units_def)

lemma concat_units: "concat (unit_list ms) = ms"
  by (induction ms rule: unit_list.induct) auto

lemma units_nonempty: "u \<in> set (unit_list ms) \<Longrightarrow> u \<noteq> []"
  by (induction ms rule: unit_list.induct) (auto split: if_splits)

lemma answers_split:
  "exchanges_ok p ms \<Longrightarrow> exchanges_ok p (takeWhile is_tool ms) \<and> exchanges_ok [] (dropWhile is_tool ms)"
  by (induction p ms rule: exchanges_ok.induct) (auto split: list.splits)

lemma units_ok: "exchanges_ok [] ms \<Longrightarrow> list_all (exchanges_ok []) (unit_list ms)"
proof (induction ms rule: unit_list.induct)
  case (2 m ms)
  show ?case
  proof (cases "calls_in m = []")
    case True
    then have "exchanges_ok [] [m] \<and> exchanges_ok [] ms" using "2.prems" by (cases m) auto
    then show ?thesis using 2 True by simp
  next
    case False
    then obtain c calls where m: "m = AssistantMsg c calls" by (cases m) auto
    show ?thesis using answers_split [of "map (\<lambda>(i, n, _). (i, n)) calls" ms] 2 False by (simp add: m)
  qed
qed simp

lemma cut_assistant:
  assumes "cut_of (AssistantMsg c cs) m'"
  shows "\<exists>c' cs'. m' = AssistantMsg c' cs' \<and> map (\<lambda>(i, n, _). (i, n)) cs' = map (\<lambda>(i, n, _). (i, n)) cs
    \<and> (c \<noteq> None \<longrightarrow> c' \<noteq> None)"
proof -
  have calls: "map (\<lambda>(i, n, _). (i, n)) (map (\<lambda>(i, n, args). (i, n, cut_arguments share args)) cs) = map (\<lambda>(i, n, _). (i, n)) cs"
    for share by (induction cs) auto
  show ?thesis using assms calls unfolding cut_of_def fit_once.simps Let_def by (elim disjE exE) simp_all
qed

lemma cut_keeps_exchanges: "list_all2 cut_of ms ms' \<Longrightarrow> exchanges_ok p ms \<Longrightarrow> exchanges_ok p ms'"
proof (induction ms ms' arbitrary: p rule: list_all2_induct)
  case (Cons m ms m' ms')
  show ?case
  proof (cases m)
    case (AssistantMsg c cs)
    obtain c' cs' where m': "m' = AssistantMsg c' cs'" "map (\<lambda>(i, n, _). (i, n)) cs' = map (\<lambda>(i, n, _). (i, n)) cs"
      "c \<noteq> None \<longrightarrow> c' \<noteq> None"
      using cut_assistant [of c cs m'] Cons.hyps(1) AssistantMsg by blast
    have n: "cs' = [] \<longleftrightarrow> cs = []" using arg_cong [OF m'(2), of length] by auto
    have ok: "p = []" "c \<noteq> None \<or> cs \<noteq> []" "exchanges_ok (map (\<lambda>(i, n, _). (i, n)) cs) ms"
      using Cons.prems unfolding AssistantMsg exchanges_ok.simps by blast+
    show ?thesis unfolding m'(1) exchanges_ok.simps m'(2) using ok m'(3) n Cons.IH [OF ok(3)] by blast
  next
    case (ToolMsg i n out)
    then show ?thesis using Cons by (auto simp: cut_of_def split: list.splits)
  qed (use Cons in \<open>auto simp: cut_of_def\<close>)
qed simp

section \<open>Packing\<close>

lemma estimated_nonneg: "0 \<le> estimated e"
  by (simp add: estimated_def CHARS_PER_TOKEN_def split: category.split)

lemma message_tokens_nonneg: "0 \<le> message_tokens m"
proof -
  have "0 \<le> sum_list (map estimated t)" for t by (induction t) (simp_all add: estimated_nonneg)
  from this [of "tally_chat_messages [Turn m] []"]
  show ?thesis unfolding message_tokens_def estimate_tally_tokens_def js_round_def zero_le_floor by linarith
qed

lemma unit_tokens_nonneg: "0 \<le> unit_tokens u"
  by (induction u) (simp_all add: unit_tokens_def message_tokens_nonneg)

definition cut_unit :: "int \<Rightarrow> message list \<Rightarrow> message list" where
  "cut_unit budget u = map (\<lambda>m. fit_message m (max 1 (budget div int (length u)))) u"

text \<open>What a list of parts must be: made of whole units, in order, each part within the budget or one unit cut to it.\<close>

definition packed :: "int \<Rightarrow> message list list \<Rightarrow> packing \<Rightarrow> bool" where
  "packed budget us p \<longleftrightarrow>
     (case p of (parts, part, used) \<Rightarrow>
        list_all2 cut_of (concat us) (concat parts @ part)
        \<and> used = unit_tokens part \<and> used \<le> budget
        \<and> (\<forall>q\<in>set parts. q \<noteq> [] \<and> (unit_tokens q \<le> budget \<or> (\<exists>u\<in>set us. q = cut_unit budget u)))
        \<and> (list_all (exchanges_ok []) us \<longrightarrow> list_all (exchanges_ok []) (parts @ [part])))"

lemma cut_unit_cut: "list_all2 cut_of u (cut_unit budget u)"
  by (simp add: cut_unit_def list_all2_conv_all_nth fit_message_cut)

lemma cut_of_refl: "list_all2 cut_of u u"
  by (simp add: list_all2_conv_all_nth cut_of_def)

lemma packed_flush:
  assumes "packed budget us p" "0 \<le> budget"
  shows "packed budget us (flush_part b p)"
proof -
  obtain parts part used where p: "p = (parts, part, used)" by (cases p)
  show ?thesis using assms unfolding p by (auto simp: packed_def flush_part_def unit_tokens_def)
qed

lemma packed_add:
  assumes p: "packed budget us p" and b: "0 \<le> budget" and u: "u \<noteq> []"
  shows "packed budget (us @ [u]) (add_unit budget u p)"
proof -
  define s where "s = unit_tokens u"
  obtain parts0 part0 used0 where p0: "p = (parts0, part0, used0)" by (cases p)
  obtain parts part used where f: "flush_part (budget < used0 + s) p = (parts, part, used)" by (cases "flush_part (budget < used0 + s) p")
  have k: "packed budget us (parts, part, used)" using packed_flush [OF p b, of "budget < used0 + s"] f by simp
  have fits: "used + s \<le> budget \<or> part = []" using f p0 by (auto simp: flush_part_def split: if_splits)
  have a: "add_unit budget u p = (if budget < s then (parts @ [cut_unit budget u], part, used) else (parts, part @ u, used + s))"
    using f by (simp add: add_unit_def p0 s_def cut_unit_def Let_def)
  show ?thesis
  proof (cases "budget < s")
    case True
    have "part = []"
    proof (rule ccontr)
      assume "part \<noteq> []"
      then have "used = used0" "part = part0" "\<not> budget < used0 + s" "used0 = unit_tokens part0" "part0 \<noteq> []"
        using f p0 p by (auto simp: flush_part_def packed_def split: if_splits)
      then show False using True p p0 unit_tokens_nonneg [of part0] by simp
    qed
    then show ?thesis using k True u cut_keeps_exchanges [OF cut_unit_cut, of "[]"] cut_unit_cut [of u budget]
      by (auto simp: a packed_def cut_unit_def intro: list_all2_appendI)
  next
    case False
    then show ?thesis using k fits unfolding a
      by (auto simp: packed_def unit_tokens_def s_def intro!: list_all2_appendI cut_of_refl exchanges_append
          simp flip: append_assoc)
  qed
qed

lemma packed_all:
  assumes "0 \<le> budget" "\<forall>u\<in>set us. u \<noteq> []" "packed budget vs p"
  shows "packed budget (vs @ us) (fold (add_unit budget) us p)"
  using assms(2,3)
proof (induction us arbitrary: vs p)
  case (Cons u us)
  have "packed budget (vs @ [u]) (add_unit budget u p)" using Cons.prems by (intro packed_add assms(1)) simp_all
  from Cons.IH [OF _ this] show ?case using Cons.prems(1) by simp
qed simp

text \<open>All at once: the packing of a history's units.\<close>

lemma parts_packed:
  obtains parts part used where "packed (max 1 b) (unit_list ms) (parts, part, used)"
    "summary_parts ms b = parts @ (if part \<noteq> [] then [part] else [])"
proof -
  obtain parts part used where p: "fold (add_unit (max 1 b)) (unit_list ms) ([], [], 0) = (parts, part, used)"
    by (cases "fold (add_unit (max 1 b)) (unit_list ms) ([], [], 0)")
  have "packed (max 1 b) [] ([], [], 0)" by (simp add: packed_def unit_tokens_def)
  from packed_all [OF _ _ this, of "unit_list ms"] units_nonempty [of _ ms] p
  have "packed (max 1 b) (unit_list ms) (parts, part, used)" by simp
  then show thesis by (rule that) (simp add: summary_parts_def message_units_eq p)
qed

text \<open>C9: A history too large for one request is read in parts that leave nothing out: in order, each message itself or cut down
  with a marker, no part empty, and every tool call in the same part as its results.\<close>

theorem summary_parts_keep_everything:
  assumes "exchanges_ok [] ms"
  shows "list_all2 cut_of ms (concat (summary_parts ms b))
    \<and> list_all (\<lambda>p. p \<noteq> [] \<and> exchanges_ok [] p) (summary_parts ms b)"
proof -
  obtain parts part used where p: "packed (max 1 b) (unit_list ms) (parts, part, used)"
    "summary_parts ms b = parts @ (if part \<noteq> [] then [part] else [])" by (rule parts_packed)
  have c: "concat (summary_parts ms b) = concat parts @ part" using p(2) by simp
  show ?thesis unfolding c using p units_ok [OF assms] by (auto simp: packed_def concat_units list_all_iff)
qed

lemma cut_unit_fits:
  assumes "u \<noteq> []" "1 \<le> b" "\<forall>m\<in>set u. message_tokens (fit_once 0 m) \<le> b div int (length u)" "0 < b div int (length u)"
  shows "unit_tokens (cut_unit b u) \<le> b"
proof -
  let ?each = "b div int (length u)"
  have e: "max 1 ?each = ?each" using assms(4) by simp
  have "\<forall>m\<in>set u. message_tokens (fit_message m ?each) \<le> ?each" using fit_message_fits assms(3) by (meson max.boundedI order.trans order_refl)
  then have "sum_list (map (\<lambda>m. message_tokens (fit_message m ?each)) u) \<le> sum_list (map (\<lambda>m. ?each) u)"
    by (intro sum_list_mono) simp
  also have "\<dots> = int (length u) * ?each" by (simp add: sum_list_triv)
  also have "\<dots> \<le> b"
  proof -
    have "0 \<le> b mod int (length u)" using assms(1) by (intro pos_mod_sign) simp
    then show ?thesis using mult_div_mod_eq [of "int (length u)" b] by linarith
  qed
  finally show ?thesis by (simp add: unit_tokens_def cut_unit_def e o_def)
qed

text \<open>Every part is within its budget, as long as the budget leaves each message of an exchange the room its own markers
  take.\<close>

theorem summary_parts_fit:
  assumes "1 \<le> b" "\<forall>u\<in>set (message_units ms). \<forall>m\<in>set u. message_tokens (fit_once 0 m) \<le> b div int (length u) \<and> int (length u) \<le> b"
    and "p \<in> set (summary_parts ms b)"
  shows "unit_tokens p \<le> b"
proof -
  have b: "max 1 b = b" using assms(1) by simp
  obtain parts part used where p: "packed b (unit_list ms) (parts, part, used)"
    "summary_parts ms b = parts @ (if part \<noteq> [] then [part] else [])" using parts_packed [of b ms] b by metis
  have "p \<in> set parts \<or> p = part" using assms(3) p(2) by (auto split: if_splits)
  then show ?thesis
  proof
    assume "p \<in> set parts"
    then consider "unit_tokens p \<le> b" | u where "u \<in> set (unit_list ms)" "p = cut_unit b u" using p(1) by (auto simp: packed_def)
    then show ?thesis
    proof cases
      case 2
      then have u: "u \<noteq> []" "\<forall>m\<in>set u. message_tokens (fit_once 0 m) \<le> b div int (length u) \<and> int (length u) \<le> b"
        using units_nonempty assms(2) by (auto simp: message_units_eq)
      then have "int (length u) \<le> b" by (cases u) auto
      then have "0 < b div int (length u)" using u(1) by (simp add: pos_imp_zdiv_pos_iff)
      then show ?thesis using cut_unit_fits [OF u(1) assms(1)] u(2) 2(2) by simp
    qed simp
  next
    assume "p = part"
    then show ?thesis using p(1) by (auto simp: packed_def)
  qed
qed

section \<open>Reading the parts\<close>

lemma ask_says: "ask model ps tools = Some (t, n) \<Longrightarrow> trim t \<noteq> []"
  by (auto simp: ask_def split: option.splits if_splits)

text \<open>The requests of a history read in parts, with what is carried from one to the next.\<close>

lemma ask_parts_reads:
  assumes "ask_parts model instruction running read parts = Some (t, n)" "parts \<noteq> []"
  shows "\<exists>texts. length texts = length parts \<and> t = last texts \<and> (\<forall>i<length parts. trim (texts ! i) \<noteq> []
    \<and> (\<exists>k. model (part_request ((running # map Some texts) ! i) instruction (parts ! i)) [] = Some (texts ! i, k)))"
  using assms
proof (induction parts arbitrary: running read)
  case (Cons part parts)
  obtain t1 n1 where a: "ask model (part_request running instruction part) [] = Some (t1, n1)"
    "ask_parts model instruction (Some t1) (read + max 0 (n1 - estimate_text_tokens CCurrent instruction
       - (case running of Some s \<Rightarrow> estimate_text_tokens CSummary s | None \<Rightarrow> 0))) parts = Some (t, n)"
    using Cons.prems(1) by (auto simp: Let_def split: option.splits)
  have m: "model (part_request running instruction part) [] = Some (t1, n1)" "trim t1 \<noteq> []"
    using a(1) by (auto simp: ask_def split: option.splits if_splits)
  show ?case
  proof (cases "parts = []")
    case True
    then have "t = t1" using a(2) by simp
    then show ?thesis using m True by (intro exI [of _ "[t1]"]) auto
  next
    case False
    obtain texts where x: "length texts = length parts" "t = last texts" "\<forall>i<length parts. trim (texts ! i) \<noteq> []
      \<and> (\<exists>k. model (part_request ((Some t1 # map Some texts) ! i) instruction (parts ! i)) [] = Some (texts ! i, k))"
      using Cons.IH [OF a(2) False] by blast
    have "texts \<noteq> []" using x(1) False by auto
    moreover have "trim ((t1 # texts) ! i) \<noteq> [] \<and> (\<exists>k. model (part_request ((running # map Some (t1 # texts)) ! i)
        instruction ((part # parts) ! i)) [] = Some ((t1 # texts) ! i, k))" if "i < length (part # parts)" for i
      using that m x(3) by (cases i) auto
    ultimately show ?thesis using x(1,2) by (intro exI [of _ "t1 # texts"]) auto
  qed
qed simp

lemma ask_parts_says: "ask_parts model instruction running read parts = Some (t, n) \<Longrightarrow> parts \<noteq> [] \<Longrightarrow> trim t \<noteq> []"
proof (induction parts arbitrary: running read)
  case (Cons part parts)
  then show ?case by (cases parts) (auto simp: Let_def ask_says split: option.splits)
qed simp

text \<open>A summary that was generated says something: the replay after it starts there.\<close>

lemma generated_says:
  assumes "generate_summary model request history summary instruction window = Some (t, r)"
  shows "trim t \<noteq> []"
  using assms ask_says ask_parts_says
  by (fastforce simp: generate_summary_def split: option.splits list.splits)

section \<open>Instances\<close>

definition long_exchange :: "message list" where
  "long_exchange =
     [UserText ''List it.'', AssistantMsg None [(''c1'', ''bash'', ''{}'')], ToolMsg ''c1'' (Some ''bash'') (replicate 200 CHR ''a''),
      UserText ''Thanks.'']"

theorem summary_parts_keep_everything_witness:
  "list_all2 cut_of long_exchange (concat (summary_parts long_exchange 50))
    \<and> list_all (\<lambda>p. p \<noteq> [] \<and> exchanges_ok [] p) (summary_parts long_exchange 50)"
  by (rule summary_parts_keep_everything) (simp add: long_exchange_def)

theorem summary_parts_fit_witness:
  "unit_tokens (hd (summary_parts [UserText (replicate 200 CHR ''a'')] 20)) \<le> 20"
proof (rule summary_parts_fit)
  show "\<forall>u\<in>set (message_units [UserText (replicate 200 CHR ''a'')]). \<forall>m\<in>set u.
      message_tokens (fit_once 0 m) \<le> 20 div int (length u) \<and> int (length u) \<le> 20" by code_simp
  show "hd (summary_parts [UserText (replicate 200 CHR ''a'')] 20) \<in> set (summary_parts [UserText (replicate 200 CHR ''a'')] 20)"
  proof (rule hd_in_set)
    show "summary_parts [UserText (replicate 200 CHR ''a'')] 20 \<noteq> []" by code_simp
  qed
qed simp

lemma long_exchange_parts: "map length (summary_parts long_exchange 50) = [1, 2, 1]"
  by code_simp

end
