(* ===== verification/CompactedRun.thy ===== *)
theory CompactedRun
  imports SummaryParts
begin

text \<open>
  A compaction and the stored conversation (\<open>compactRun.ts\<close>: \<open>startCompactRun\<close>, \<open>commitSummary\<close>, \<open>failSummary\<close>,
  \<open>cutoffBefore\<close>, \<open>compactWithinRun\<close>): the row it leaves, and what a run that compacts between two requests goes on from.
\<close>

section \<open>Summaries of a conversation\<close>

text \<open>Who is asked for a summary, with what the server knows of the conversation.\<close>

record compactor =
  cp_answers :: answerer
  cp_shape :: "request_shape option"
  cp_model :: js_string
  cp_guidance :: js_string
  cp_before :: "int option"
  cp_window :: "int option"

definition summarise :: "compactor \<Rightarrow> message list \<Rightarrow> js_string option \<Rightarrow> (js_string \<times> int option) option" where
  "summarise cp history summary =
     (let instruction = build_instruction (cp_guidance cp);
          room = compaction_has_room (cp_window cp) (cp_before cp) (estimate_text_tokens CCurrent instruction);
          request = compaction_request (cp_shape cp) (cp_model cp) history summary instruction room
      in generate_summary (cp_answers cp) request history summary instruction (cp_window cp))"

text \<open>The text as it is committed. It is not made safe for the column: one with the unit NUL fails to write.\<close>

definition summary_outcome :: "compactor \<Rightarrow> message list \<Rightarrow> js_string option \<Rightarrow> js_string option" where
  "summary_outcome cp history summary =
     (case summarise cp history summary of None \<Rightarrow> None | Some (t, _) \<Rightarrow> if NUL \<in> set t then None else Some t)"

definition committed_row :: "js_string \<Rightarrow> int \<Rightarrow> int \<Rightarrow> row" where
  "committed_row t l now = row_of BySummary [BText t, BCompaction] RowComplete l now"

definition failed_row :: "bool \<Rightarrow> int \<Rightarrow> int \<Rightarrow> row" where
  "failed_row stopped l now = row_of BySummary [BText []] (if stopped then RowCancelled else RowError) l now"

definition skip_card :: "int \<Rightarrow> int \<Rightarrow> row" where
  "skip_card l now = row_of BySummary [BCompaction] RowComplete l now"

definition newest_lamport :: "row list \<Rightarrow> int" where
  "newest_lamport rows = (case map r_lamport rows of [] \<Rightarrow> 0 | l # ls \<Rightarrow> fold max ls l)"

definition next_conversation_lamport :: "row list \<Rightarrow> int \<Rightarrow> int" where
  "next_conversation_lamport db now = max now (newest_lamport db + 1)"

datatype skip_reason = AlreadyCompacted | TooShort

definition compact_skip :: "history \<Rightarrow> skip_reason option" where
  "compact_skip h =
     (if h_summary h \<noteq> None \<and> h_messages h = [] then Some AlreadyCompacted
      else if length (h_messages h) < 2 then Some TooShort else None)"

text \<open>\<open>/compact\<close>, from the history as it is loaded to the row it ends in.\<close>

definition start_compact :: "reading \<Rightarrow> disk \<Rightarrow> compactor \<Rightarrow> bool \<Rightarrow> int \<Rightarrow> row list \<Rightarrow> row list" where
  "start_compact rd disk cp stopped now db =
     (let h = load_history rd disk db; l = next_conversation_lamport db now in
      db @ [if compact_skip h \<noteq> None then skip_card l now
            else case summary_outcome cp (h_messages h) (h_summary h) of
                Some t \<Rightarrow> committed_row t l now
              | None \<Rightarrow> failed_row stopped l now])"

section \<open>A compaction inside a run\<close>

definition cutoff_before :: "row list \<Rightarrow> row \<Rightarrow> int option" where
  "cutoff_before db r =
     (let l = r_lamport r - 1 in
      if r \<notin> set db \<or> l < newest_lamport (filter (\<lambda>q. \<not> r_deleted q) (remove1 r db)) then None else Some l)"

definition COMPACTION_CONTINUE_NUDGE :: js_string where
  "COMPACTION_CONTINUE_NUDGE =
     ''The conversation above was compacted into the summary. Continue the task from where it left off.''"

text \<open>What the run goes on from: its rows and chat, the summary in front of it, and the row it has yet to answer.\<close>

datatype in_run = Compacted live js_string row | NotCompacted live

definition push_row :: "row \<Rightarrow> live \<Rightarrow> live" where
  "push_row r s = s\<lparr>l_rows := l_rows s @ [r]\<rparr>"

definition kept_cutoff :: "row list \<Rightarrow> row option \<Rightarrow> live \<Rightarrow> (row \<times> int) option" where
  "kept_cutoff db unanswered s =
     (case unanswered of
        Some r \<Rightarrow> if is_user (last (l_chat s)) then map_option (Pair r) (cutoff_before (db @ l_rows s) r) else None
      | None \<Rightarrow> None)"

definition compact_within_run :: "compactor \<Rightarrow> bool \<Rightarrow> row option \<Rightarrow> js_string option \<Rightarrow> int \<Rightarrow> int \<Rightarrow> row list \<Rightarrow> live \<Rightarrow> in_run" where
  "compact_within_run cp stopped unanswered summary t1 t2 db s =
     (if length (l_chat s) < 2 then NotCompacted s
      else case kept_cutoff db unanswered s of
        Some (r, l) \<Rightarrow>
          (case summary_outcome cp (butlast (l_chat s)) summary of
             None \<Rightarrow> NotCompacted (push_row (failed_row stopped l t1) s)
           | Some t \<Rightarrow> Compacted ((push_row (committed_row t l t1) s)\<lparr>l_chat := [last (l_chat s)]\<rparr>) t r)
      | None \<Rightarrow>
          (let l = monotonic_lamport (l_lamport s) t1; s' = s\<lparr>l_lamport := l\<rparr> in
           case summary_outcome cp (l_chat s) summary of
             None \<Rightarrow> NotCompacted (push_row (failed_row stopped l t1) s')
           | Some t \<Rightarrow>
               (let s2 = write_row ByUser [BText COMPACTION_CONTINUE_NUDGE] RowComplete t2 (push_row (committed_row t l t1) s')
                in Compacted (s2\<lparr>l_chat := [UserText COMPACTION_CONTINUE_NUDGE]\<rparr>) t (last (l_rows s2)))))"

section \<open>Windows\<close>

definition summaries_of :: "row list \<Rightarrow> row list" where
  "summaries_of db = rev (sort_key row_order (filter (\<lambda>r. r_author r = BySummary \<and> r_status r = RowComplete \<and> \<not> r_deleted r) db))"

text \<open>The skip cards since the newest summary.\<close>

definition cards_since :: "row list \<Rightarrow> nat" where
  "cards_since db = length (takeWhile (\<lambda>r. text_of (r_content r) = []) (summaries_of db))"

lemma window_eq:
  "history_window db =
     (let summary = find (\<lambda>(t, _). t \<noteq> []) (map (\<lambda>r. (text_of (r_content r), r_lamport r)) (take SUMMARY_LOOKBACK (summaries_of db)))
      in (summary, filter (\<lambda>r. \<not> r_deleted r \<and> (case summary of None \<Rightarrow> True | Some (_, l) \<Rightarrow> l < r_lamport r)) db))"
  unfolding history_window_def summaries_of_def Let_def ..

lemma summaries_snoc:
  assumes "\<forall>q\<in>set db. r_author q = BySummary \<and> \<not> r_deleted q \<longrightarrow> row_order q \<le> row_order r" "r_author r = BySummary" "r_status r = RowComplete"
    "\<not> r_deleted r"
  shows "summaries_of (db @ [r]) = r # summaries_of db"
proof -
  let ?s = "filter (\<lambda>r. r_author r = BySummary \<and> r_status r = RowComplete \<and> \<not> r_deleted r) db"
  have "\<forall>q\<in>set ?s. row_order q \<le> row_order r" using assms(1) by simp
  from sort_key_snoc [OF this] show ?thesis using assms(2-4) by (simp add: summaries_of_def)
qed

lemma summaries_other: "r_author r \<noteq> BySummary \<or> r_status r \<noteq> RowComplete \<Longrightarrow> summaries_of (db @ [r]) = summaries_of db"
  by (auto simp: summaries_of_def)

lemma window_new_summary:
  assumes "\<forall>q\<in>set db. r_author q = BySummary \<and> \<not> r_deleted q \<longrightarrow> row_order q \<le> row_order r" "r_author r = BySummary" "r_status r = RowComplete"
    "\<not> r_deleted r" "text_of (r_content r) \<noteq> []"
  shows "history_window (db @ [r]) =
    (Some (text_of (r_content r), r_lamport r), filter (\<lambda>q. \<not> r_deleted q \<and> r_lamport r < r_lamport q) db)"
  using summaries_snoc [OF assms(1-4)] assms(5) by (simp add: window_eq SUMMARY_LOOKBACK_def)

lemma find_take: "length (takeWhile (\<lambda>x. \<not> P x) xs) < n \<Longrightarrow> find P (take n xs) = find P xs"
proof (induction xs arbitrary: n)
  case (Cons x xs)
  then obtain k where n: "n = Suc k" by (cases n) auto
  then show ?case using Cons by (cases "P x") simp_all
qed simp

lemma find_take_none: "find P (take n xs) = None \<Longrightarrow> m \<le> n \<Longrightarrow> find P (take m xs) = None"
  using set_take_subset_set_take [of m n xs] by (auto simp: find_None_iff)

lemma find_map_fst: "find (\<lambda>(t, _). t \<noteq> []) (map (\<lambda>r. (f r, g r)) rs) = map_option (\<lambda>r. (f r, g r)) (find (\<lambda>r. f r \<noteq> []) rs)"
  by (induction rs) auto

text \<open>A card is one more summary without text; the newest with text is still found, unless twenty are before it.\<close>

lemma window_card:
  assumes "\<forall>q\<in>set db. row_order q \<le> row_order (skip_card l now)" "fst (history_window db) = None \<or> cards_since db < 19"
  shows "fst (history_window (db @ [skip_card l now])) = fst (history_window db)"
proof -
  let ?P = "\<lambda>r. text_of (r_content r) \<noteq> []" and ?S = "summaries_of db"
  have t: "text_of (r_content (skip_card l now)) = []" by (simp add: skip_card_def text_of_def)
  have c: "summaries_of (db @ [skip_card l now]) = skip_card l now # ?S"
    using assms(1) by (intro summaries_snoc) (simp_all add: skip_card_def)
  have w: "fst (history_window d) = map_option (\<lambda>r. (text_of (r_content r), r_lamport r)) (find ?P (take 20 (summaries_of d)))" for d
    by (simp add: window_eq Let_def find_map_fst SUMMARY_LOOKBACK_def)
  have "take 20 (skip_card l now # ?S) = skip_card l now # take 19 ?S" by (simp add: take_Cons')
  then have "find ?P (take 20 (summaries_of (db @ [skip_card l now]))) = find ?P (take 19 ?S)" using t c by simp
  also have "\<dots> = find ?P (take 20 ?S)"
    using assms(2)
  proof
    assume "fst (history_window db) = None"
    then have "find ?P (take 20 ?S) = None" by (simp add: w)
    then show ?thesis using find_take_none [of ?P 20 ?S 19] by simp
  next
    assume "cards_since db < 19"
    then have "length (takeWhile (\<lambda>r. \<not> ?P r) ?S) < 19" by (simp add: cards_since_def)
    from find_take [OF this] find_take [of ?P ?S 20] this show ?thesis by simp
  qed
  finally show ?thesis by (simp add: w)
qed

text \<open>A summary row the window does not start from, newer than all others, is not seen by the replay.\<close>

lemma load_unseen_summary:
  assumes "\<forall>q\<in>set db. r_lamport q < r_lamport r" "r_author r = BySummary" "\<not> r_deleted r"
    "fst (history_window (db @ [r])) = fst (history_window db)"
  shows "load_history rd disk (db @ [r]) = load_history rd disk db"
proof -
  have "case fst (history_window db) of None \<Rightarrow> True | Some (_, l) \<Rightarrow> l < r_lamport r"
    using window_summary [of db] assms(1) by (fastforce split: option.split)
  then have "snd (history_window (db @ [r])) = snd (history_window db) @ [r]"
    using assms(3,4) by (simp add: history_window_def Let_def)
  moreover have "\<forall>q\<in>set (snd (history_window db)). row_order q \<le> row_order r"
    using assms(1) by (auto simp: history_window_def Let_def row_order_def less_eq_prod_def)
  ultimately have o: "ordered_rows (db @ [r]) = ordered_rows db @ [r]" unfolding ordered_rows_def by (simp only: sort_key_snoc)
  have "rows_ids [r] = {}" using assms(2) by (simp add: row_ids_def)
  then have "replay_under rd v (ordered_rows db @ [r]) = replay_under rd v (ordered_rows db)" for v
    using replay_append [of "ordered_rows db" "[r]" rd v] assms(2) by (simp add: replay_under_def row_messages_def)
  moreover have "attachment_turns (ordered_rows db @ [r]) = attachment_turns (ordered_rows db)"
    using assms(2) by (simp add: attachment_turns_def)
  ultimately show ?thesis using assms(4) o by (simp add: load_history_def Let_def)
qed

lemma fold_max_ge: "(a :: int) \<le> fold max xs a"
proof (induction xs arbitrary: a)
  case (Cons x xs)
  show ?case using order.trans [OF max.cobounded2 Cons.IH [of "max x a"]] by simp
qed simp

lemma fold_max_in: "x \<in> set xs \<Longrightarrow> x \<le> fold max xs (a :: int)"
proof (induction xs arbitrary: a)
  case (Cons y ys)
  then show ?case using order.trans [OF max.cobounded1 fold_max_ge [of "max y a" ys]] by auto
qed simp

lemma newest_lamport_ge: "q \<in> set db \<Longrightarrow> r_lamport q \<le> newest_lamport db"
  unfolding newest_lamport_def by (cases db) (auto simp: fold_max_ge fold_max_in)


section \<open>Compacting a conversation\<close>

lemma outcome_says:
  assumes "summary_outcome cp h s = Some t"
  shows "trim t \<noteq> []"
  using assms generated_says by (auto simp: summary_outcome_def summarise_def Let_def split: option.splits if_splits)


section \<open>Going on after a compaction\<close>

lemma nudge_replayed: "user_messages rd v [BText COMPACTION_CONTINUE_NUDGE] = [UserText COMPACTION_CONTINUE_NUDGE]"
proof -
  have "trim COMPACTION_CONTINUE_NUDGE = COMPACTION_CONTINUE_NUDGE" by code_simp
  moreover have "COMPACTION_CONTINUE_NUDGE \<noteq> []" by (simp add: COMPACTION_CONTINUE_NUDGE_def)
  ultimately show ?thesis by (simp add: user_messages_def attachments_of_def notices_of_def)
qed

lemma committed_row_simps [simp]:
  "r_author (committed_row t l now) = BySummary" "r_status (committed_row t l now) = RowComplete"
  "\<not> r_deleted (committed_row t l now)" "r_created (committed_row t l now) = now" "r_lamport (committed_row t l now) = l"
  "text_of (r_content (committed_row t l now)) = trim t" "row_order (committed_row t l now) = (l, now)"
  by (simp_all add: committed_row_def text_of_def row_order_def row_of_def)

lemma filter_one:
  assumes "x \<in> set xs" "P x" "\<forall>y\<in>set (remove1 x xs). \<not> P y"
  shows "filter P xs = [x]"
  using assms by (induction xs) (auto simp: filter_empty_conv split: if_splits)

lemma remove1_other: "y \<in> set xs \<Longrightarrow> y \<noteq> x \<Longrightarrow> y \<in> set (remove1 x xs)"
  by (induction xs) auto

text \<open>The summary one below a row: that row alone is replayed.\<close>

lemma ordered_kept:
  assumes c: "cutoff_before db r = Some l" and t: "trim t \<noteq> []" and live: "\<not> r_deleted r" "r_author r = ByUser"
    and made: "\<forall>q\<in>set db. r_author q = BySummary \<longrightarrow> r_created q < now"
  shows "history_window (db @ [committed_row t l now]) = (Some (trim t, l), [r])" "l = r_lamport r - 1" "r \<in> set db"
proof -
  have l: "l = r_lamport r - 1" "r \<in> set db" "newest_lamport (filter (\<lambda>q. \<not> r_deleted q) (remove1 r db)) \<le> l"
    using c by (auto simp: cutoff_before_def Let_def split: if_splits)
  then show "l = r_lamport r - 1" "r \<in> set db" by simp_all
  have below: "r_lamport q \<le> l" if "q \<in> set (remove1 r db)" "\<not> r_deleted q" for q
    using newest_lamport_ge [of q "filter (\<lambda>q. \<not> r_deleted q) (remove1 r db)"] that l(3) by simp
  have "\<forall>q\<in>set db. r_author q = BySummary \<and> \<not> r_deleted q \<longrightarrow> row_order q \<le> row_order (committed_row t l now)"
  proof (intro ballI impI)
    fix q assume q: "q \<in> set db" "r_author q = BySummary \<and> \<not> r_deleted q"
    then have "q \<noteq> r" using live(2) by auto
    then have "r_lamport q \<le> l" using below [of q] remove1_other q by metis
    then show "row_order q \<le> row_order (committed_row t l now)"
      using made q by (auto simp: row_order_def less_eq_prod_def)
  qed
  from window_new_summary [OF this]
  have w: "history_window (db @ [committed_row t l now]) = (Some (trim t, l), filter (\<lambda>q. \<not> r_deleted q \<and> l < r_lamport q) db)"
    using t by simp
  have "filter (\<lambda>q. \<not> r_deleted q \<and> l < r_lamport q) db = [r]"
    using filter_one [OF l(2), of "\<lambda>q. \<not> r_deleted q \<and> l < r_lamport q"] below live(1) l(1) by fastforce
  then show "history_window (db @ [committed_row t l now]) = (Some (trim t, l), [r])" using w by simp
qed

lemma load_one:
  assumes "history_window db = (Some (x, l), [r])" "r_author r = ByUser" "r_status r = RowComplete"
  shows "h_messages (load_history rd disk db) = user_messages rd (affordable disk [attachments_of (r_content r)]) (r_content r)"
    "h_summary (load_history rd disk db) = Some x" "ordered_rows db = [r]"
  using assms by (simp_all add: load_history_def Let_def ordered_rows_def replay_under_def row_messages_def attachment_turns_def)

lemma compacted_state:
  assumes clock: "clock_ahead db s" and made: "\<forall>q\<in>set (db @ l_rows s). r_author q = BySummary \<longrightarrow> r_created q < t1"
    and row: "\<forall>r. unanswered = Some r \<longrightarrow> r_author r = ByUser \<and> r_status r = RowComplete \<and> \<not> r_deleted r
      \<and> user_messages rd (affordable disk [attachments_of (r_content r)]) (r_content r) = [last (l_chat s)]"
    and c: "compact_within_run cp stopped unanswered summary t1 t2 db s = Compacted s' t r'"
  shows "clock_ahead db s'" "l_chat s' = h_messages (load_history rd disk (db @ l_rows s'))"
    "h_summary (load_history rd disk (db @ l_rows s')) = Some (trim t)" "ordered_rows (db @ l_rows s') = [r']"
    "r_author r' = ByUser" "r_status r' = RowComplete"
proof -
  have "clock_ahead db s' \<and> l_chat s' = h_messages (load_history rd disk (db @ l_rows s'))
    \<and> h_summary (load_history rd disk (db @ l_rows s')) = Some (trim t) \<and> ordered_rows (db @ l_rows s') = [r']
    \<and> r_author r' = ByUser \<and> r_status r' = RowComplete"
  proof (cases "kept_cutoff db unanswered s")
    case (Some p)
    then obtain r l where k: "unanswered = Some r" "cutoff_before (db @ l_rows s) r = Some l" "kept_cutoff db unanswered s = Some (r, l)"
      by (auto simp: kept_cutoff_def split: option.splits if_splits)
    have o: "summary_outcome cp (butlast (l_chat s)) summary = Some t" and r': "r' = r"
      and s': "s' = (push_row (committed_row t l t1) s)\<lparr>l_chat := [last (l_chat s)]\<rparr>"
      using c k(3) by (auto simp: compact_within_run_def split: if_splits option.splits)
    have r: "r_author r = ByUser" "r_status r = RowComplete" "\<not> r_deleted r"
      "user_messages rd (affordable disk [attachments_of (r_content r)]) (r_content r) = [last (l_chat s)]"
      using row k(1) by simp_all
    note w = ordered_kept [OF k(2) outcome_says [OF o] r(3,1) made]
    have rows: "db @ l_rows s' = (db @ l_rows s) @ [committed_row t l t1]" by (simp add: s' push_row_def)
    have "r_lamport r \<le> l_lamport s" using w(3) clock by (auto simp: clock_ahead_def)
    then have "clock_ahead db s'" using clock w(2) by (auto simp: clock_ahead_def s' push_row_def)
    then show ?thesis using load_one(1,2) [OF w(1) r(1,2), of rd disk] load_one(3) [OF w(1) r(1,2)] r rows by (simp add: r' s')
  next
    case None
    let ?l = "monotonic_lamport (l_lamport s) t1"
    let ?s1 = "push_row (committed_row t ?l t1) (s\<lparr>l_lamport := ?l\<rparr>)"
    let ?n = "row_of ByUser [BText COMPACTION_CONTINUE_NUDGE] RowComplete (monotonic_lamport ?l t2) t2"
    have o: "summary_outcome cp (l_chat s) summary = Some t" and r': "r' = ?n"
      and s': "s' = (write_row ByUser [BText COMPACTION_CONTINUE_NUDGE] RowComplete t2 ?s1)\<lparr>l_chat := [UserText COMPACTION_CONTINUE_NUDGE]\<rparr>"
      using c None by (auto simp: compact_within_run_def Let_def push_row_def split: if_splits option.splits)
    have newer: "\<forall>q\<in>set (db @ l_rows s). r_lamport q < ?l" using clock by (auto simp: clock_ahead_def lamport_grows)
    have t: "trim t \<noteq> []" by (rule outcome_says [OF o])
    have "ordered_rows ((db @ l_rows s) @ [committed_row t ?l t1]) = []"
      "fst (history_window ((db @ l_rows s) @ [committed_row t ?l t1])) = Some (trim t, ?l)"
      using ordered_summary [of "db @ l_rows s" "committed_row t ?l t1"] newer t by simp_all
    moreover have rows: "db @ l_rows ?s1 = (db @ l_rows s) @ [committed_row t ?l t1]" by (simp add: push_row_def)
    moreover have ahead: "clock_ahead db ?s1" using newer by (auto simp: clock_ahead_def push_row_def less_imp_le)
    moreover have lam: "l_lamport ?s1 = ?l" by (simp add: push_row_def)
    ultimately have ord: "ordered_rows (db @ l_rows s') = [?n]"
      and f: "fst (history_window (db @ l_rows s')) = Some (trim t, ?l)"
      using ordered_write [OF ahead, of ByUser "[BText COMPACTION_CONTINUE_NUDGE]" RowComplete t2]
      by (simp_all add: s' window_eq summaries_other Let_def flip: append_assoc)
    have "clock_ahead db s'" using clock_write [OF ahead] by (simp add: s' clock_ahead_def)
    moreover have "h_messages (load_history rd disk (db @ l_rows s')) = [UserText COMPACTION_CONTINUE_NUDGE]"
      using ord by (simp add: load_history_def Let_def replay_said nudge_replayed)
    moreover have "h_summary (load_history rd disk (db @ l_rows s')) = Some (trim t)"
      using f by (simp add: load_history_def Let_def)
    ultimately show ?thesis using ord by (simp add: r' s')
  qed
  then show "clock_ahead db s'" "l_chat s' = h_messages (load_history rd disk (db @ l_rows s'))"
    "h_summary (load_history rd disk (db @ l_rows s')) = Some (trim t)" "ordered_rows (db @ l_rows s') = [r']"
    "r_author r' = ByUser" "r_status r' = RowComplete" by simp_all
qed

text \<open>
  C7: A run that compacts between two requests goes on from what the next turn will replay: however it continues, the stored
  rows give its messages back exactly, behind the summary with the blanks at its edges removed. No call id is repeated after the
  compaction; the kept message, if there is one, replays alone as the run's last message; and it has no attachments or the run is
  not nudged.
\<close>

theorem compacted_run_replays:
  assumes "\<And>v. same_json v (store v)" "clock_ahead db s"
    and "\<forall>q\<in>set (db @ l_rows s). r_author q = BySummary \<longrightarrow> r_created q < t1"
    and "\<forall>r. unanswered = Some r \<longrightarrow> r_author r = ByUser \<and> r_status r = RowComplete \<and> \<not> r_deleted r
      \<and> user_messages rd (affordable disk [attachments_of (r_content r)]) (r_content r) = [last (l_chat s)]"
    and "compact_within_run cp stopped unanswered summary t1 t2 db s = Compacted s' t r'"
    and "list_all continues steps" "list_all step_fits steps" "fresh_steps {} steps"
    and "attachments_of (r_content r') = [] \<or> \<not> list_ex nudges steps"
  shows "h_messages (load_history rd disk (db @ l_rows (run_steps rd store parse steps s'))) = l_chat (run_steps rd store parse steps s')
    \<and> h_summary (load_history rd disk (db @ l_rows (run_steps rd store parse steps s'))) = Some (trim t)"
proof -
  note c = compacted_state [OF assms(2-5)]
  have "rows_ids (ordered_rows (db @ l_rows s')) = {}" using c(4,5) by (simp add: row_ids_def)
  moreover have "attachment_turns (ordered_rows (db @ l_rows s')) = [attachments_of (r_content r')]"
    using c(4-6) by (simp add: attachment_turns_def)
  ultimately show ?thesis using run_replays [OF assms(1) c(1,2) assms(6,7), of parse] assms(8,9) c(3) by simp
qed

section \<open>What a compaction sends\<close>

lemma prompt_of_append: "prompt_of system summary (xs @ ys) = prompt_of system summary xs @ map Turn ys"
  by (simp add: prompt_of_def)

text \<open>
  C22: A compaction that reuses the run's shape sends the run's own last request, whatever the end of the run added, and the
  instruction: nothing the backend has read changes. The run's call ids are new to the conversation, and it has no attachments or
  the run was not nudged.
\<close>

theorem compaction_extends_the_prompt:
  assumes "\<And>v. same_json v (store v)" "\<forall>r\<in>set db. r_lamport r \<le> clock"
    and "list_all continues steps" "ends step" "list_all step_fits (steps @ [step])"
    and "fresh_steps (rows_ids (ordered_rows db)) (steps @ [step])"
    and "list_all (\<lambda>t. t = []) (attachment_turns (ordered_rows db)) \<or> \<not> list_ex nudges steps"
    and "db' = db @ l_rows (run_steps rd store parse (steps @ [step]) (started rd disk db clock))"
    and "request = compaction_request (Some shape) (sh_model shape) (h_messages (load_history rd disk db'))
        (h_summary (load_history rd disk db')) instruction True"
  shows "rq_tools request = sh_tools shape \<and> rq_thinking request = Some (sh_thinking shape)
    \<and> (\<exists>ms. rq_messages request
      = prompt_of (sh_system shape) (h_summary (load_history rd disk db))
          (l_chat (run_steps rd store parse (steps @ [step]) (started rd disk db clock)))
        @ map Turn ms @ [Turn (UserText instruction)])"
proof -
  obtain ms where "h_messages (load_history rd disk db')
      = l_chat (run_steps rd store parse (steps @ [step]) (started rd disk db clock)) @ ms"
    "h_summary (load_history rd disk db') = h_summary (load_history rd disk db)"
    unfolding assms(8) by (rule run_extended [OF assms(1-7)])
  then show ?thesis unfolding assms(9) by (auto simp: compaction_request_def prompt_of_append)
qed

text \<open>The summary is trimmed when it is loaded and not when the run goes on from it.\<close>

lemma summary_front_moves:
  "trim t \<noteq> [] \<Longrightarrow> trim t \<noteq> t \<Longrightarrow> prompt_of system (Some (trim t)) ms \<noteq> prompt_of system (Some t) ms"
  by (auto simp: prompt_of_def summary_message_def)

section \<open>Instances\<close>

definition summariser :: compactor where
  "summariser = \<lparr>cp_answers = (\<lambda>_ _. Some (''S'', 5)), cp_shape = None, cp_model = ''m'', cp_guidance = [], cp_before = None,
     cp_window = None\<rparr>"

lemma summariser_outcome: "summary_outcome summariser h x = Some ''S''"
proof -
  have "trim ''S'' \<noteq> []" by code_simp
  then show ?thesis
    by (simp add: summary_outcome_def summarise_def summariser_def compaction_has_room_def compaction_request_def
        generate_summary_def request_parts_def ask_def NUL_def Let_def)
qed

definition asked :: "row list" where
  "asked = [row_of ByUser [BText ''a''] RowComplete 1 1, row_of ByUser [BText ''b''] RowComplete 2 2]"

definition asked_run :: live where
  "asked_run = \<lparr>l_rows = [], l_chat = [UserText ''a'', UserText ''b''], l_lamport = 2\<rparr>"

definition asked_compacted :: live where
  "asked_compacted = (push_row (committed_row ''S'' 1 5) asked_run)\<lparr>l_chat := [UserText ''b'']\<rparr>"

lemma asked_compacts:
  "compact_within_run summariser False (Some (row_of ByUser [BText ''b''] RowComplete 2 2)) None 5 6 asked asked_run
    = Compacted asked_compacted ''S'' (row_of ByUser [BText ''b''] RowComplete 2 2)"
proof -
  have "cutoff_before asked (row_of ByUser [BText ''b''] RowComplete 2 2) = Some 1"
    by (simp add: cutoff_before_def asked_def newest_lamport_def row_of_def)
  then show ?thesis
    by (simp add: compact_within_run_def kept_cutoff_def summariser_outcome asked_compacted_def asked_run_def)
qed

theorem compacted_run_replays_witness:
  "h_messages (load_history sample_reading sample_disk (asked @ l_rows (run_steps sample_reading jsonb_column sample_parse
      sample_steps asked_compacted))) = l_chat (run_steps sample_reading jsonb_column sample_parse sample_steps asked_compacted)
    \<and> h_summary (load_history sample_reading sample_disk (asked @ l_rows (run_steps sample_reading jsonb_column sample_parse
      sample_steps asked_compacted))) = Some (trim ''S'')"
proof (rule compacted_run_replays [OF jsonb_column_same _ _ _ asked_compacts sample_fits(1,2,3)])
  show "clock_ahead asked asked_run" by (simp add: clock_ahead_def asked_def asked_run_def)
  show "\<forall>q\<in>set (asked @ l_rows asked_run). r_author q = BySummary \<longrightarrow> r_created q < 5" by (simp add: asked_def asked_run_def)
  have "user_messages sample_reading v [BText ''b''] = [UserText ''b'']" for v
  proof -
    have "trim ''b'' = ''b''" by code_simp
    then show ?thesis by (simp add: user_messages_def attachments_of_def notices_of_def)
  qed
  then show "\<forall>r. Some (row_of ByUser [BText ''b''] RowComplete 2 2) = Some r \<longrightarrow> r_author r = ByUser \<and> r_status r = RowComplete
      \<and> \<not> r_deleted r \<and> user_messages sample_reading (affordable sample_disk [attachments_of (r_content r)]) (r_content r)
        = [last (l_chat asked_run)]"
    by (simp add: asked_run_def)
  show "attachments_of (r_content (row_of ByUser [BText ''b''] RowComplete 2 2)) = [] \<or> \<not> list_ex nudges sample_steps"
    by (simp add: attachments_of_def)
qed


definition sample_shape :: request_shape where
  "sample_shape = \<lparr>sh_model = ''m'', sh_system = Some ''Be brief.'', sh_tools = [], sh_thinking = JNull\<rparr>"

theorem compaction_extends_the_prompt_witness:
  "\<exists>ms. rq_messages (compaction_request (Some sample_shape) (sh_model sample_shape)
      (h_messages (load_history sample_reading sample_disk (sample_db @ l_rows (run_steps sample_reading jsonb_column sample_parse
        (sample_steps @ [Final [] ''Done.'' 4]) (started sample_reading sample_disk sample_db 1)))))
      (h_summary (load_history sample_reading sample_disk (sample_db @ l_rows (run_steps sample_reading jsonb_column sample_parse
        (sample_steps @ [Final [] ''Done.'' 4]) (started sample_reading sample_disk sample_db 1))))) ''Summarise.'' True)
    = prompt_of (sh_system sample_shape) (h_summary (load_history sample_reading sample_disk sample_db))
        (l_chat (run_steps sample_reading jsonb_column sample_parse (sample_steps @ [Final [] ''Done.'' 4])
          (started sample_reading sample_disk sample_db 1)))
      @ map Turn ms @ [Turn (UserText ''Summarise.'')]"
proof (rule conjunct2 [OF conjunct2 [OF compaction_extends_the_prompt [OF jsonb_column_same _ _ _ _ _ _ refl refl]]])
  show "\<forall>r\<in>set sample_db. r_lamport r \<le> 1" by (simp add: sample_db_def)
qed (simp_all add: sample_fits sample_ordered)

text \<open>
  Twenty refusals bury the summary: \<open>/compact\<close> on a conversation that was compacted writes a card and changes nothing, until the
  twentieth, after which the summary is not looked at and everything it replaced is replayed.
\<close>

definition compacted_conversation :: "row list" where
  "compacted_conversation =
     [row_of ByUser [BText ''a''] RowComplete 1 1, row_of ByAssistant [BText ''b''] RowComplete 2 2, committed_row ''S'' 3 3]"

definition asked_again :: "nat \<Rightarrow> row list" where
  "asked_again n = compacted_conversation @ map (\<lambda>i. skip_card (4 + int i) (4 + int i)) [0..<n]"

lemma asked_again_Suc: "asked_again (Suc n) = asked_again n @ [skip_card (4 + int n) (4 + int n)]"
  by (simp add: asked_again_def)

lemma asked_again_older: "\<forall>q\<in>set (asked_again n). r_lamport q < 4 + int n \<and> r_created q < 4 + int n"
  by (auto simp: asked_again_def compacted_conversation_def skip_card_def committed_row_def row_of_def)

lemma asked_again_order: "\<forall>q\<in>set (asked_again n). row_order q \<le> row_order (skip_card (4 + int n) (4 + int n))"
  using asked_again_older [of n] by (auto simp: row_order_def less_eq_prod_def skip_card_def)

lemma asked_again_cards: "cards_since (asked_again n) = n"
proof (induction n)
  case 0
  show ?case by code_simp
next
  case (Suc n)
  have "summaries_of (asked_again (Suc n)) = skip_card (4 + int n) (4 + int n) # summaries_of (asked_again n)"
    unfolding asked_again_Suc using asked_again_order [of n] by (intro summaries_snoc) (simp_all add: skip_card_def)
  then show ?case using Suc by (simp add: cards_since_def skip_card_def text_of_def)
qed

lemma asked_again_unchanged: "n < 20 \<Longrightarrow> load_history rd disk (asked_again n) = load_history rd disk (asked_again 0)"
proof (induction n)
  case (Suc n)
  have "cards_since (asked_again n) < 19" using Suc.prems by (simp add: asked_again_cards)
  then have "fst (history_window (asked_again (Suc n))) = fst (history_window (asked_again n))"
    unfolding asked_again_Suc using asked_again_order [of n] by (intro window_card) simp_all
  then have "load_history rd disk (asked_again (Suc n)) = load_history rd disk (asked_again n)"
    unfolding asked_again_Suc using asked_again_older [of n] by (intro load_unseen_summary) (simp_all add: skip_card_def)
  then show ?case using Suc by simp
qed simp

lemma fold_max_less: "a < k \<Longrightarrow> \<forall>x\<in>set xs. x < k \<Longrightarrow> fold max xs a < (k :: int)"
  by (induction xs arbitrary: a) auto

lemma asked_again_step:
  assumes "n < 20"
  shows "start_compact sample_reading sample_disk cp stopped (4 + int n) (asked_again n) = asked_again (Suc n)"
proof -
  have "compact_skip (load_history sample_reading sample_disk (asked_again 0)) = Some AlreadyCompacted" by code_simp
  moreover have "newest_lamport (asked_again n) < 4 + int n"
    unfolding newest_lamport_def using asked_again_older [of n]
    by (cases "asked_again n") (auto intro!: fold_max_less)
  ultimately show ?thesis
    by (simp add: start_compact_def Let_def asked_again_Suc asked_again_unchanged [OF assms] next_conversation_lamport_def)
qed

lemma twenty_refusals_bury_the_summary:
  "h_summary (load_history sample_reading sample_disk (asked_again 20)) = None"
  "length (h_messages (load_history sample_reading sample_disk (asked_again 20))) = 2"
  by code_simp+

end
