(* ===== verification/PromptReuse.thy ===== *)
theory PromptReuse
  imports Tokens Compaction ReplayFaithful "HOL-Library.Sublist"
begin

text \<open>
  How much of a prompt the backend can reuse (\<open>server/inference/prompt-reuse.ts\<close>), the estimate it gives of the next request
  (\<open>engine.ts\<close>: \<open>promptEstimate\<close>), and the last request's front (\<open>request-shape.ts\<close>). Both are kept for the conversations used
  last, in maps that forget the oldest. The hash is a parameter: a function of the text.
\<close>

section \<open>Maps that forget the oldest\<close>

text \<open>A \<open>Map\<close> is the list of its entries in the order of insertion.\<close>

type_synonym ('k, 'v) entries = "('k \<times> 'v) list"

definition forget_key :: "'k \<Rightarrow> ('k, 'v) entries \<Rightarrow> ('k, 'v) entries" where
  "forget_key k m = filter (\<lambda>e. fst e \<noteq> k) m"

locale recency =
  fixes put :: "'k \<Rightarrow> 'v \<Rightarrow> ('k, 'v) entries \<Rightarrow> ('k, 'v) entries" and cap :: nat
  assumes cap: "0 < cap"
    and put: "distinct (map fst m) \<Longrightarrow> length m \<le> cap \<Longrightarrow>
      put k v m = (if k \<notin> fst ` set m \<and> length m = cap then tl m else forget_key k m) @ [(k, v)]"
begin

definition kept :: "('k, 'v) entries \<Rightarrow> bool" where
  "kept m \<longleftrightarrow> distinct (map fst m) \<and> length m \<le> cap"

lemma forget_smaller: "k \<in> fst ` set m \<Longrightarrow> length (forget_key k m) < length m"
  by (induction m) (auto simp: forget_key_def le_imp_less_Suc)

lemma forget_length: "length (forget_key k m) \<le> length m"
  by (simp add: forget_key_def)

lemma kept_put: "kept m \<Longrightarrow> kept (put k v m)"
proof -
  assume m: "kept m"
  then have p: "put k v m = (if k \<notin> fst ` set m \<and> length m = cap then tl m else forget_key k m) @ [(k, v)]"
    by (intro put) (simp_all add: kept_def)
  have d: "distinct (map fst (forget_key k m))" using m by (simp add: kept_def forget_key_def distinct_map_filter)
  show ?thesis
  proof (cases "k \<notin> fst ` set m \<and> length m = cap")
    case True
    then have "tl m \<noteq> [] \<longrightarrow> k \<notin> fst ` set (tl m)" by (cases m) auto
    then show ?thesis using True m cap p by (cases m) (auto simp: kept_def)
  next
    case False
    then have "length (forget_key k m) < cap"
      using m forget_smaller [of k m] forget_length [of k m] by (fastforce simp: kept_def)
    then show ?thesis using False p d by (auto simp: kept_def forget_key_def)
  qed
qed

lemma put_found: "kept m \<Longrightarrow> map_of (put k v m) k = Some v"
proof -
  assume m: "kept m"
  then have p: "put k v m = (if k \<notin> fst ` set m \<and> length m = cap then tl m else forget_key k m) @ [(k, v)]"
    by (intro put) (simp_all add: kept_def)
  have "map_of (tl m) k = None" if "k \<notin> fst ` set m" using that by (cases m) (auto simp: map_of_eq_None_iff)
  moreover have "map_of (forget_key k m) k = None" by (auto simp: map_of_eq_None_iff forget_key_def)
  ultimately show ?thesis by (simp add: p map_add_def)
qed

text \<open>The entries after a key's: how many others were put since.\<close>

lemma put_after:
  assumes m: "kept (xs @ (k, v) # ys)" and other: "k' \<noteq> k" and room: "length ys + 1 < cap"
  shows "\<exists>xs' ys'. put k' v' (xs @ (k, v) # ys) = xs' @ (k, v) # ys' \<and> length ys' \<le> length ys + 1"
proof -
  let ?m = "xs @ (k, v) # ys"
  have p: "put k' v' ?m = (if k' \<notin> fst ` set ?m \<and> length ?m = cap then tl ?m else forget_key k' ?m) @ [(k', v')]"
    using m by (intro put) (simp_all add: kept_def)
  show ?thesis
  proof (cases "k' \<notin> fst ` set ?m \<and> length ?m = cap")
    case True
    then have "xs \<noteq> []" using room by auto
    then show ?thesis using p True by (intro exI [of _ "tl xs"] exI [of _ "ys @ [(k', v')]"]) simp
  next
    case False
    then have "put k' v' ?m = forget_key k' xs @ (k, v) # (forget_key k' ys @ [(k', v')])"
      unfolding p if_not_P [OF False] using other by (simp add: forget_key_def)
    then show ?thesis using forget_length [of k' ys]
      by (intro exI [of _ "forget_key k' xs"] exI [of _ "forget_key k' ys @ [(k', v')]"]) simp
  qed
qed

lemma survives_from:
  assumes "kept (xs @ (k, v) # ys)" "length ys + length kvs < cap" "k \<notin> fst ` set kvs"
  shows "map_of (fold (\<lambda>(k, v). put k v) kvs (xs @ (k, v) # ys)) k = Some v"
  using assms
proof (induction kvs arbitrary: xs ys)
  case Nil
  then have "map_of xs k = None" unfolding map_of_eq_None_iff by (auto simp: kept_def)
  then show ?case by (simp add: map_add_def)
next
  case (Cons e kvs)
  obtain k' v' where e: "e = (k', v')" by (cases e)
  have "k' \<noteq> k" "length ys + 1 < cap" using Cons.prems(2,3) by (auto simp: e)
  from put_after [OF Cons.prems(1) this] obtain xs' ys' where
    p: "put k' v' (xs @ (k, v) # ys) = xs' @ (k, v) # ys'" "length ys' \<le> length ys + 1" by blast
  have "kept (xs' @ (k, v) # ys')" using kept_put [OF Cons.prems(1), of k' v'] p(1) by simp
  from Cons.IH [OF this] Cons.prems(2,3) p show ?case by (simp add: e)
qed

lemma survives:
  assumes "kept m" "length kvs < cap" "k \<notin> fst ` set kvs"
  shows "map_of (fold (\<lambda>(k, v). put k v) kvs (put k v m)) k = Some v"
proof -
  obtain xs where p: "put k v m = xs @ [(k, v)]" using assms(1) put [of m k v] by (auto simp: kept_def)
  show ?thesis using survives_from [of xs k v "[]" kvs] kept_put [OF assms(1), of k v] assms(2,3) p by simp
qed

end

section \<open>Fingerprints\<close>

text \<open>\<open>JSON.stringify\<close> of a message, its members in the order the builders write them.\<close>

definition part_json :: "content_part \<Rightarrow> json" where
  "part_json p = (case p of
     TextPart s \<Rightarrow> JObj [(''type'', JStr ''text''), (''text'', JStr s)]
   | ImagePart u \<Rightarrow> JObj [(''type'', JStr ''image_url''), (''image_url'', JObj [(''url'', JStr u)])])"

fun message_json :: "message \<Rightarrow> json" where
  "message_json (UserText s) = JObj [(''role'', JStr ''user''), (''content'', JStr s)]"
| "message_json (UserParts ps) = JObj [(''role'', JStr ''user''), (''content'', JArr (map part_json ps))]"
| "message_json (AssistantMsg c calls) =
     JObj ([(''role'', JStr ''assistant''), (''content'', case c of Some s \<Rightarrow> JStr s | None \<Rightarrow> JNull)]
       @ (if calls \<noteq> [] then [(''tool_calls'', JArr (map wire_call_json calls))] else []))"
| "message_json (ToolMsg i n out) =
     JObj ([(''role'', JStr ''tool''), (''tool_call_id'', JStr i)]
       @ (case n of Some x \<Rightarrow> [(''name'', JStr x)] | None \<Rightarrow> []) @ [(''content'', JStr out)])"

definition prompt_json :: "prompt_message \<Rightarrow> json" where
  "prompt_json p = (case p of SystemMsg s \<Rightarrow> JObj [(''role'', JStr ''system''), (''content'', JStr s)] | Turn m \<Rightarrow> message_json m)"

definition message_text :: "prompt_message \<Rightarrow> js_string" where
  "message_text p = stringify (prompt_json p)"

record fingerprint =
  fp_model :: js_string
  fp_tools :: js_string
  fp_hashes :: "js_string list"

text \<open>\<open>carried\<close> are the hashes of the first messages, when they were computed before.\<close>

definition fingerprint_prompt :: "(js_string \<Rightarrow> js_string) \<Rightarrow> js_string \<Rightarrow> prompt_message list \<Rightarrow> json list \<Rightarrow> js_string list
    \<Rightarrow> fingerprint" where
  "fingerprint_prompt sha model ps tools carried =
     \<lparr>fp_model = model, fp_tools = sha (stringify (JArr tools)),
      fp_hashes = map (\<lambda>i. if i < length carried then carried ! i else sha (message_text (ps ! i))) [0..<length ps]\<rparr>"

record trace =
  tr_print :: fingerprint
  tr_tokens :: int

record reuse =
  ru_tokens :: "int option"
  ru_shared :: nat
  ru_previous :: nat

definition MAX_TRACES :: nat where "MAX_TRACES = 500"

fun common_prefix :: "js_string list \<Rightarrow> js_string list \<Rightarrow> nat" where
  "common_prefix (x # xs) (y # ys) = (if x = y then Suc (common_prefix xs ys) else 0)"
| "common_prefix _ _ = 0"

definition measure_reuse :: "js_string \<Rightarrow> fingerprint \<Rightarrow> (js_string, trace) entries \<Rightarrow> reuse" where
  "measure_reuse conv current traces =
     (case map_of traces conv of
        None \<Rightarrow> \<lparr>ru_tokens = None, ru_shared = 0, ru_previous = 0\<rparr>
      | Some previous \<Rightarrow>
          (let prev = tr_print previous in
           if fp_model prev \<noteq> fp_model current \<or> fp_tools prev \<noteq> fp_tools current
           then \<lparr>ru_tokens = Some 0, ru_shared = 0, ru_previous = length (fp_hashes prev)\<rparr>
           else
             (let shared = common_prefix (fp_hashes prev) (fp_hashes current) in
              \<lparr>ru_tokens = Some (if shared = length (fp_hashes prev) then tr_tokens previous else 0),
               ru_shared = shared, ru_previous = length (fp_hashes prev)\<rparr>)))"

definition put_trace :: "js_string \<Rightarrow> trace \<Rightarrow> (js_string, trace) entries \<Rightarrow> (js_string, trace) entries" where
  "put_trace conv tr traces =
     (let traces' = (if conv \<notin> fst ` set traces \<and> MAX_TRACES \<le> length traces then tl traces else traces)
      in forget_key conv traces' @ [(conv, tr)])"

definition record_prompt :: "js_string \<Rightarrow> fingerprint \<Rightarrow> int \<Rightarrow> (js_string, trace) entries \<Rightarrow> (js_string, trace) entries" where
  "record_prompt conv fp prompt_tokens traces =
     (if prompt_tokens \<le> 0 then traces else put_trace conv \<lparr>tr_print = fp, tr_tokens = prompt_tokens\<rparr> traces)"

definition MAX_SHAPES :: nat where "MAX_SHAPES = 500"

definition record_request_shape :: "js_string \<Rightarrow> request_shape \<Rightarrow> (js_string, request_shape) entries
    \<Rightarrow> (js_string, request_shape) entries" where
  "record_request_shape conv shape shapes =
     (let shapes' = forget_key conv shapes
      in (if MAX_SHAPES \<le> length shapes' then tl shapes' else shapes') @ [(conv, shape)])"

lemma forget_absent: "k \<notin> fst ` set m \<Longrightarrow> forget_key k m = m"
  by (force simp: forget_key_def intro: filter_True)

lemma forget_present: "k \<in> fst ` set m \<Longrightarrow> length (forget_key k m) < length m"
  by (induction m) (auto simp: forget_key_def le_imp_less_Suc)

lemma tl_keys: "k \<notin> fst ` set m \<Longrightarrow> k \<notin> fst ` set (tl m)"
  by (cases m) auto

interpretation traces: recency put_trace MAX_TRACES
proof
  fix m :: "(js_string, trace) entries" and k v
  assume "length m \<le> MAX_TRACES"
  then show "put_trace k v m = (if k \<notin> fst ` set m \<and> length m = MAX_TRACES then tl m else forget_key k m) @ [(k, v)]"
    using forget_absent [OF tl_keys, of k m] by (auto simp: put_trace_def Let_def)
qed (simp add: MAX_TRACES_def)

interpretation shapes: recency record_request_shape MAX_SHAPES
proof
  fix m :: "(js_string, request_shape) entries" and k v
  assume "length m \<le> MAX_SHAPES"
  then show "record_request_shape k v m = (if k \<notin> fst ` set m \<and> length m = MAX_SHAPES then tl m else forget_key k m) @ [(k, v)]"
    using forget_present [of k m] forget_absent [of k m]
    by (cases "k \<in> fst ` set m") (simp_all add: record_request_shape_def Let_def)
qed (simp add: MAX_SHAPES_def)

section \<open>Estimating the next request\<close>

definition is_strict_extension :: "reuse \<Rightarrow> bool" where
  "is_strict_extension r \<longleftrightarrow>
     (case ru_tokens r of Some n \<Rightarrow> 0 < n | None \<Rightarrow> False) \<and> 0 < ru_previous r \<and> ru_shared r = ru_previous r"

definition prompt_estimate :: "tally \<Rightarrow> prompt_message list \<Rightarrow> reuse \<Rightarrow> int" where
  "prompt_estimate t ps r =
     (if is_strict_extension r
      then the (ru_tokens r) + estimate_tally_tokens (tally_chat_messages (drop (ru_previous r) ps) [])
      else estimate_tally_tokens t)"

lemma common_prefix_full: "common_prefix xs ys = length xs \<longleftrightarrow> prefix xs ys"
  by (induction xs ys rule: common_prefix.induct) auto

abbreviation fingerprint_of :: "(js_string \<Rightarrow> js_string) \<Rightarrow> js_string \<Rightarrow> prompt_message list \<Rightarrow> json list \<Rightarrow> fingerprint" where
  "fingerprint_of sha model ps tools \<equiv> fingerprint_prompt sha model ps tools []"

lemma fingerprint_simps:
  "fp_model (fingerprint_of sha model ps tools) = model" "fp_tools (fingerprint_of sha model ps tools) = sha (stringify (JArr tools))"
  "fp_hashes (fingerprint_of sha model ps tools) = map (\<lambda>p. sha (message_text p)) ps"
proof -
  show "fp_hashes (fingerprint_of sha model ps tools) = map (\<lambda>p. sha (message_text p)) ps"
    unfolding fingerprint_prompt_def fingerprint.simps by (rule nth_equalityI) simp_all
qed (simp_all only: fingerprint_prompt_def fingerprint.simps)

text \<open>Hashes carried over from a request this one extends change nothing.\<close>

lemma carried_hashes:
  "prefix xs ps \<Longrightarrow> fingerprint_prompt sha model ps tools (map (\<lambda>p. sha (message_text p)) xs) = fingerprint_of sha model ps tools"
  by (auto simp: fingerprint_prompt_def prefix_def nth_append)


text \<open>The tokens reported as reusable are a measurement: they are the last request's, and only when this request has the same
  model, the same tools and begins with the same bytes, message by message.\<close>

theorem reuse_measures_a_prefix:
  assumes "traces.kept traces" "0 < n" "old \<noteq> []"
    and "inj_on sha (insert (stringify (JArr tools)) (insert (stringify (JArr tools')) (message_text ` (set old \<union> set new))))"
  shows "is_strict_extension (measure_reuse conv (fingerprint_of sha model' new tools')
      (record_prompt conv (fingerprint_of sha model old tools) n traces))
    \<longleftrightarrow> model = model' \<and> stringify (JArr tools) = stringify (JArr tools') \<and> prefix (map message_text old) (map message_text new)"
proof -
  let ?t = "record_prompt conv (fingerprint_of sha model old tools) n traces"
  have f: "map_of ?t conv = Some \<lparr>tr_print = fingerprint_of sha model old tools, tr_tokens = n\<rparr>"
    using traces.put_found [OF assms(1)] assms(2) by (simp add: record_prompt_def)
  have tools: "sha (stringify (JArr tools)) = sha (stringify (JArr tools')) \<longleftrightarrow> stringify (JArr tools) = stringify (JArr tools')"
    using inj_on_eq_iff [OF assms(4)] by blast
  have prefixes: "prefix (map (\<lambda>p. sha (message_text p)) old) (map (\<lambda>p. sha (message_text p)) new)
      \<longleftrightarrow> prefix (map message_text old) (map message_text new)"
  proof
    assume "prefix (map (\<lambda>p. sha (message_text p)) old) (map (\<lambda>p. sha (message_text p)) new)"
    then have e: "map sha (map message_text old) = map sha (take (length old) (map message_text new))"
      by (auto simp: prefix_def take_map comp_def) (metis append_eq_conv_conj length_map take_map)
    have "inj_on sha (set (map message_text old) \<union> set (take (length old) (map message_text new)))"
    proof (rule inj_on_subset [OF assms(4)])
      have "set (take (length old) (map message_text new)) \<subseteq> message_text ` set new"
        using set_take_subset [of "length old" "map message_text new"] by simp
      then show "set (map message_text old) \<union> set (take (length old) (map message_text new))
          \<subseteq> insert (stringify (JArr tools)) (insert (stringify (JArr tools')) (message_text ` (set old \<union> set new)))"
        unfolding set_map by blast
    qed
    from map_inj_on [OF e this] show "prefix (map message_text old) (map message_text new)"
      by (metis take_is_prefix)
  next
    assume "prefix (map message_text old) (map message_text new)"
    from map_mono_prefix [OF this, of sha]
    show "prefix (map (\<lambda>p. sha (message_text p)) old) (map (\<lambda>p. sha (message_text p)) new)" by (simp add: comp_def)
  qed
  show ?thesis
    unfolding prefixes [symmetric] tools [symmetric]
    using assms(2,3) common_prefix_full [of "map (\<lambda>p. sha (message_text p)) old" "map (\<lambda>p. sha (message_text p)) new"]
    by (auto simp: is_strict_extension_def measure_reuse_def f fingerprint_simps Let_def)
qed

section \<open>The next turn\<close>




section \<open>Instances\<close>

lemma no_traces: "traces.kept []"
  by (simp add: traces.kept_def)

theorem reuse_measures_a_prefix_witness:
  "is_strict_extension (measure_reuse ''c'' (fingerprint_of id ''m'' [SystemMsg ''s'', Turn (UserText ''a'')] [])
      (record_prompt ''c'' (fingerprint_of id ''m'' [SystemMsg ''s''] []) 7 []))"
  using reuse_measures_a_prefix [OF no_traces, of 7 "[SystemMsg ''s'']" id "[]" "[]" "[SystemMsg ''s'', Turn (UserText ''a'')]" "''c''" "''m''" "''m''"]
  by simp


end
