(* ===== verification/MakeRoom.thy ===== *)
theory MakeRoom
  imports Complex_Main Prelude
begin

text \<open>
  Room for a request (\<open>server/streams/runs/auto-compact.ts\<close>, and the loop of \<open>runToolLoop\<close> in \<open>engine.ts\<close> that acts on it before
  every request): a conversation that would not fit is extended, compacted or refused. What a stage switch and a compaction
  come to is a parameter, \<open>world\<close>: it is asked with the pass and with what the loop knows.
\<close>

section \<open>The policy\<close>

text \<open>\<open>AUTO_COMPACT_THRESHOLD\<close>: the environment's value as a number, none where it is not a finite one.\<close>

definition auto_compact_threshold :: "rat option \<Rightarrow> rat" where
  "auto_compact_threshold raw = (case raw of Some x \<Rightarrow> if 0 < x \<and> x \<le> 1 then x else 0 | None \<Rightarrow> 0)"

definition DEFAULT_THRESHOLD :: rat where "DEFAULT_THRESHOLD = 17 / 20"

definition AUTO_COMPACT_MIN_MESSAGES :: nat where "AUTO_COMPACT_MIN_MESSAGES = 8"

definition reply_reserve_tokens :: "int \<Rightarrow> int" where
  "reply_reserve_tokens window = min 1024 (window div 20)"

record stages =
  st_extend :: bool
  st_active :: nat
  st_count :: nat

record fill_input =
  fi_estimate :: "int option"
  fi_window :: "int option"
  fi_since :: nat
  fi_stages :: "stages option"
  fi_mid_run :: bool
  fi_compacted :: bool

datatype fill_verdict = Nothing | Extend nat | Compact | Cannot

definition is_full :: "rat \<Rightarrow> int \<Rightarrow> int \<Rightarrow> bool" where
  "is_full threshold window estimate \<longleftrightarrow>
     (if 0 < threshold then of_int window * threshold \<le> of_int estimate else window < estimate + reply_reserve_tokens window)"

definition larger_stage :: "stages option \<Rightarrow> nat option" where
  "larger_stage st =
     (case st of Some s \<Rightarrow> if st_extend s \<and> st_active s < st_count s then Some (st_active s + 1) else None | None \<Rightarrow> None)"

definition fill_decision :: "rat \<Rightarrow> fill_input \<Rightarrow> fill_verdict" where
  "fill_decision threshold i =
     (case (fi_window i, fi_estimate i) of
        (Some w, Some e) \<Rightarrow>
          if w \<le> 0 then Nothing
          else if \<not> is_full threshold w e then Nothing
          else
            (case larger_stage (fi_stages i) of
               Some t \<Rightarrow> Extend t
             | None \<Rightarrow>
                 if AUTO_COMPACT_MIN_MESSAGES \<le> fi_since i then Compact
                 else if \<not> fi_mid_run i then Nothing
                 else if e + reply_reserve_tokens w \<le> w then Nothing
                 else if 2 \<le> fi_since i \<and> \<not> fi_compacted i then Compact
                 else Cannot)
      | _ \<Rightarrow> Nothing)"

section \<open>Before a request\<close>

text \<open>What a run knows when it looks for room: the request's estimated size, the model's window, the messages after the
  summary, the stages, and what it has tried.\<close>

record filling =
  fl_estimate :: int
  fl_window :: "int option"
  fl_since :: nat
  fl_stages :: "stages option"
  fl_extension_failed :: bool
  fl_compaction_failed :: bool
  fl_compacted :: bool

text \<open>A switch that was applied or was not needed gives the window and the stages anew; every outcome measures the request again.\<close>

datatype extension = Switched "int option" "stages option" int | NotSwitched int
datatype compaction = CompactedTo int | SummaryFailed int | SummaryStopped

record fill_world =
  wl_extend :: "nat \<Rightarrow> filling \<Rightarrow> extension"
  wl_compact :: "nat \<Rightarrow> filling \<Rightarrow> compaction"

datatype room = Send filling | Refuse filling | Stop filling

definition fill_of :: "filling \<Rightarrow> fill_input" where
  "fill_of f =
     \<lparr>fi_estimate = Some (fl_estimate f), fi_window = fl_window f,
      fi_since = (if fl_compaction_failed f then 0 else fl_since f),
      fi_stages = (if fl_extension_failed f then None else fl_stages f),
      fi_mid_run = True, fi_compacted = fl_compacted f\<rparr>"

definition extend_step :: "extension \<Rightarrow> filling \<Rightarrow> filling" where
  "extend_step x f =
     (case x of
        Switched w st e \<Rightarrow> f\<lparr>fl_window := w, fl_stages := st, fl_estimate := e\<rparr>
      | NotSwitched e \<Rightarrow> f\<lparr>fl_extension_failed := True, fl_estimate := e\<rparr>)"

text \<open>The passes that are left; when none is, what there is is sent.\<close>

fun make_room :: "rat \<Rightarrow> fill_world \<Rightarrow> nat \<Rightarrow> filling \<Rightarrow> room" where
  "make_room threshold wd 0 f = Send f"
| "make_room threshold wd (Suc left) f =
     (case fill_decision threshold (fill_of f) of
        Nothing \<Rightarrow> Send f
      | Extend t \<Rightarrow> make_room threshold wd left (extend_step (wl_extend wd left f) f)
      | Compact \<Rightarrow>
          (case wl_compact wd left f of
             CompactedTo e \<Rightarrow> make_room threshold wd left (f\<lparr>fl_since := 1, fl_compacted := True, fl_estimate := e\<rparr>)
           | SummaryFailed e \<Rightarrow> make_room threshold wd left (f\<lparr>fl_compaction_failed := True, fl_estimate := e\<rparr>)
           | SummaryStopped \<Rightarrow> Stop f)
      | Cannot \<Rightarrow> Refuse f)"

definition PASSES :: nat where "PASSES = 4"

section \<open>What is sent fits\<close>

definition fits :: "filling \<Rightarrow> bool" where
  "fits f \<longleftrightarrow> (case fl_window f of None \<Rightarrow> True | Some w \<Rightarrow> w \<le> 0 \<or> fl_estimate f + reply_reserve_tokens w \<le> w)"



text \<open>What can still be tried, each of it once: the stages above, and a compaction.\<close>

definition stages_left :: "stages option \<Rightarrow> nat" where
  "stages_left st = (case st of Some s \<Rightarrow> if st_extend s then st_count s - st_active s else 0 | None \<Rightarrow> 0)"







text \<open>A request is refused only when it does not fit, no larger stage is left and the run has nothing left to summarise.\<close>

theorem refused_for_a_reason:
  assumes "make_room threshold wd n f = Refuse g"
  shows "\<not> fits g \<and> (fl_extension_failed g \<or> larger_stage (fl_stages g) = None)
    \<and> (fl_compaction_failed g \<or> fl_since g < 2 \<or> fl_compacted g)"
  using assms
proof (induction n arbitrary: f)
  case (Suc n)
  show ?case
  proof (cases "fill_decision threshold (fill_of f)")
    case Cannot
    then show ?thesis using Suc.prems
      by (auto simp: fill_decision_def fill_of_def fits_def larger_stage_def split: option.splits if_splits)
  qed (use Suc in \<open>auto split: compaction.splits\<close>)
qed simp

section \<open>Instances\<close>

definition big :: "int \<Rightarrow> nat \<Rightarrow> filling" where
  "big e count =
     \<lparr>fl_estimate = e, fl_window = Some 32768, fl_since = 1, fl_stages = Some \<lparr>st_extend = True, st_active = 0, st_count = count\<rparr>,
      fl_extension_failed = False, fl_compaction_failed = False, fl_compacted = False\<rparr>"

text \<open>Each stage doubles the window; the request stays as large as it is.\<close>

definition doubling :: fill_world where
  "doubling =
     \<lparr>wl_extend = (\<lambda>_ f. case fl_stages f of
          Some s \<Rightarrow> if st_extend s \<and> st_active s < st_count s then Switched (map_option ((*) 2) (fl_window f)) (Some (s\<lparr>st_active := st_active s + 1\<rparr>)) (fl_estimate f)
            else NotSwitched (fl_estimate f)
        | None \<Rightarrow> NotSwitched (fl_estimate f)),
      wl_compact = (\<lambda>_ f. SummaryFailed (fl_estimate f))\<rparr>"




lemma refused_example: "make_room DEFAULT_THRESHOLD doubling PASSES (big 200000 1) = Refuse ((big 200000 1)\<lparr>fl_window := Some 65536,
    fl_stages := Some \<lparr>st_extend = True, st_active = 1, st_count = 1\<rparr>\<rparr>)"
  by code_simp

theorem refused_for_a_reason_witness:
  "\<not> fits ((big 200000 1)\<lparr>fl_window := Some 65536, fl_stages := Some \<lparr>st_extend = True, st_active = 1, st_count = 1\<rparr>\<rparr>)"
  using refused_for_a_reason [OF refused_example] by blast

section \<open>Where a request is sent that does not fit\<close>

text \<open>A model may have six stages and the loop has four passes: a request that needs the fifth is sent at the fourth.\<close>

lemma fifth_stage_unreached:
  "\<exists>g. make_room DEFAULT_THRESHOLD doubling PASSES (big 800000 6) = Send g \<and> \<not> fits g \<and> stages_left (fl_stages g) = 2"
proof -
  have "make_room DEFAULT_THRESHOLD doubling PASSES (big 800000 6) = Send ((big 800000 6)\<lparr>fl_window := Some 524288,
      fl_stages := Some \<lparr>st_extend = True, st_active = 4, st_count = 6\<rparr>\<rparr>)" by code_simp
  moreover have "\<not> fits ((big 800000 6)\<lparr>fl_window := Some 524288, fl_stages := Some \<lparr>st_extend = True, st_active = 4, st_count = 6\<rparr>\<rparr>)"
    by code_simp
  ultimately show ?thesis by (intro exI conjI) (assumption, assumption, simp add: big_def stages_left_def)
qed

text \<open>A threshold above 0.95, which the environment may set, takes the place of the hard limit.\<close>

lemma high_threshold_overrides_the_limit:
  "auto_compact_threshold (Some 1) = 1 \<and> fill_decision 1 (fill_of ((big 32767 1)\<lparr>fl_stages := None\<rparr>)) = Nothing
   \<and> \<not> fits ((big 32767 1)\<lparr>fl_stages := None\<rparr>)"
  by code_simp

end
