(* ===== verification/LoadSettings.thy ===== *)
theory LoadSettings
  imports Json Complex_Main
begin

text \<open>
  The settings an admin may give a host model, checked against one table, and the lines they become in the router's preset
  (\<open>llama/load-settings.ts\<close>). A number is the text it prints as; what it is worth is read from that text, exactly.
\<close>

section \<open>Numbers\<close>

text \<open>
  A finite number as \<open>String(n)\<close> writes one: a sign, digits, a fraction, an exponent. \<open>Infinity\<close> and \<open>NaN\<close> have no value here.
\<close>

definition number_char :: "char \<Rightarrow> bool" where
  "number_char c \<longleftrightarrow> is_digit c \<or> c \<in> set ''-+.e''"

definition whole_of_digits :: "js_string \<Rightarrow> int" where
  "whole_of_digits ds = foldl (\<lambda>n c. 10 * n + (of_char c - 48)) 0 ds"

definition exponent_of :: "js_string \<Rightarrow> int option" where
  "exponent_of s =
     (case s of
        [] \<Rightarrow> Some 0
      | [_] \<Rightarrow> None
      | e # sign # ds \<Rightarrow>
          if e \<noteq> CHR ''e'' \<or> ds = [] \<or> \<not> list_all is_digit ds then None
          else if sign = CHR ''+'' then Some (whole_of_digits ds)
          else if sign = CHR ''-'' then Some (- whole_of_digits ds)
          else None)"

definition scale_by :: "int \<Rightarrow> rat \<Rightarrow> rat" where
  "scale_by e x = (if 0 \<le> e then x * 10 ^ nat e else x / 10 ^ nat (- e))"

definition unsigned_number :: "js_string \<Rightarrow> rat option" where
  "unsigned_number s =
     (let whole = takeWhile is_digit s; r = dropWhile is_digit s;
          dot = (r \<noteq> [] \<and> hd r = CHR ''.'');
          frac = (if dot then takeWhile is_digit (tl r) else []);
          rest = (if dot then dropWhile is_digit (tl r) else r)
      in if whole = [] \<or> (dot \<and> frac = []) then None
         else map_option (\<lambda>e. scale_by (e - int (length frac)) (of_int (whole_of_digits (whole @ frac)))) (exponent_of rest))"

definition numeral_of :: "js_string \<Rightarrow> rat option" where
  "numeral_of s =
     (if s \<noteq> [] \<and> hd s = CHR ''-'' then map_option uminus (unsigned_number (tl s)) else unsigned_number s)"

definition is_integer :: "rat \<Rightarrow> bool" where
  "is_integer x \<longleftrightarrow> x = of_int \<lfloor>x\<rfloor>"

section \<open>The table\<close>

datatype setting_group = Context | Offload | Performance | Speculative | Sampling | Other

text \<open>A ceiling is fixed or a fact of the model; a soft one is only advice.\<close>

datatype max_spec = MaxIs int | MaxCtxTrain | MaxLayers

datatype value_type =
    IntType int max_spec bool "js_string list"
  | FloatType rat rat
  | BoolType
  | EnumType "js_string list"

record load_spec =
  ls_key :: js_string
  ls_flag :: js_string
  ls_group :: setting_group
  ls_label :: js_string
  ls_type :: value_type

definition INT32_MAX :: int where "INT32_MAX = 2147483647"

definition CACHE_TYPES :: "js_string list" where
  "CACHE_TYPES = [''f32'', ''f16'', ''bf16'', ''q8_0'', ''q4_0'', ''q4_1'', ''iq4_nl'', ''q5_0'', ''q5_1'']"

abbreviation spec :: "js_string \<Rightarrow> js_string \<Rightarrow> setting_group \<Rightarrow> value_type \<Rightarrow> js_string \<Rightarrow> load_spec" where
  "spec k f g t l \<equiv> \<lparr>ls_key = k, ls_flag = f, ls_group = g, ls_label = l, ls_type = t\<rparr>"

text \<open>The help under a control is only shown_line and left out.\<close>

definition LOAD_SETTINGS :: "load_spec list" where
  "LOAD_SETTINGS = [
     spec ''ctxSize'' ''ctx-size'' Context (IntType 512 MaxCtxTrain True []) ''Context length'',
     spec ''ropeFreqBase'' ''rope-freq-base'' Context (FloatType 1 1000000000) ''RoPE frequency base'',
     spec ''ropeFreqScale'' ''rope-freq-scale'' Context (FloatType (1 / 100) 10) ''RoPE frequency scale'',
     spec ''gpuLayers'' ''n-gpu-layers'' Offload (IntType 0 MaxLayers False [''auto'', ''all'']) ''GPU offload'',
     spec ''cpuMoeLayers'' ''n-cpu-moe'' Offload (IntType 0 MaxLayers False []) ''MoE experts kept on CPU'',
     spec ''kvOffload'' ''kv-offload'' Offload BoolType ''Offload KV cache to GPU'',
     spec ''loadMode'' ''load-mode'' Offload (EnumType [''auto'', ''mmap'', ''mlock'', ''mmap+mlock'', ''none'']) ''Memory mapping'',
     spec ''tablePlacement'' ''lazy-mode'' Offload (EnumType [''auto'', ''ssd'', ''ram'']) ''Lookup table'',
     spec ''threads'' ''threads'' Performance (IntType 1 (MaxIs 256) False []) ''CPU threads'',
     spec ''threadsBatch'' ''threads-batch'' Performance (IntType 1 (MaxIs 256) False []) ''Batch threads'',
     spec ''batchSize'' ''batch-size'' Performance (IntType 32 (MaxIs 65536) False []) ''Evaluation batch size'',
     spec ''ubatchSize'' ''ubatch-size'' Performance (IntType 32 (MaxIs 65536) False []) ''Micro-batch size'',
     spec ''flashAttention'' ''flash-attn'' Performance (EnumType [''auto'', ''on'', ''off'']) ''Flash attention'',
     spec ''cacheTypeK'' ''cache-type-k'' Performance (EnumType CACHE_TYPES) ''K cache type'',
     spec ''cacheTypeV'' ''cache-type-v'' Performance (EnumType CACHE_TYPES) ''V cache type'',
     spec ''parallel'' ''parallel'' Performance (IntType 1 (MaxIs 64) False []) ''Max concurrent predictions'',
     spec ''kvUnified'' ''kv-unified'' Performance BoolType ''Unified KV cache'',
     spec ''temperature'' ''temp'' Sampling (FloatType 0 5) ''Temperature'',
     spec ''topK'' ''top-k'' Sampling (IntType 0 (MaxIs 1000) False []) ''Top-k'',
     spec ''topP'' ''top-p'' Sampling (FloatType 0 1) ''Top-p'',
     spec ''minP'' ''min-p'' Sampling (FloatType 0 1) ''Min-p'',
     spec ''repeatPenalty'' ''repeat-penalty'' Sampling (FloatType 0 5) ''Repeat penalty'',
     spec ''presencePenalty'' ''presence-penalty'' Sampling (FloatType (- 2) 2) ''Presence penalty'',
     spec ''frequencyPenalty'' ''frequency-penalty'' Sampling (FloatType (- 2) 2) ''Frequency penalty'',
     spec ''mtp'' ''spec-type'' Speculative BoolType ''Multi-token prediction'',
     spec ''mtpDraftMax'' ''spec-draft-n-max'' Speculative (IntType 1 (MaxIs 8) False []) ''Tokens drafted'',
     spec ''seed'' ''seed'' Other (IntType (- 1) (MaxIs 2147483647) False []) ''Seed'',
     spec ''vision'' ''mmproj'' Other BoolType ''Vision'']"

definition spec_of :: "js_string \<Rightarrow> load_spec option" where
  "spec_of k = find (\<lambda>s. ls_key s = k) LOAD_SETTINGS"

section \<open>Checking\<close>

text \<open>What the model's file says that bounds its settings. The lookup table is unread, absent, or so many bytes.\<close>

datatype lookup_table = Unread | NoTable | Table nat

record model_facts =
  n_layers :: "int option"
  n_ctx_train :: "int option"
  lookup_tbl :: lookup_table

text \<open>The messages, as what they say.\<close>

datatype settings_error =
    NotAnObject
  | UnknownKey js_string
  | NotOnOff js_string
  | NotOneOf js_string "js_string list"
  | NotANumber js_string rat rat
  | NotWhole js_string int int "js_string list"
  | UbatchTooLarge
  | NoMtpHead
  | DraftsWithoutMtp
  | NoLookupTable

type_synonym settings = "(js_string \<times> json) list"

definition ceiling_of :: "max_spec \<Rightarrow> bool \<Rightarrow> model_facts \<Rightarrow> int" where
  "ceiling_of m soft facts =
     (if soft then INT32_MAX
      else case m of
        MaxCtxTrain \<Rightarrow> (case n_ctx_train facts of Some n \<Rightarrow> n | None \<Rightarrow> 1048576)
      | MaxLayers \<Rightarrow> (case n_layers facts of Some n \<Rightarrow> n + 1 | None \<Rightarrow> 1024)
      | MaxIs n \<Rightarrow> n)"

definition whole_between :: "int \<Rightarrow> int \<Rightarrow> json \<Rightarrow> bool" where
  "whole_between lo hi v =
     (case v of
        JNum n \<Rightarrow> (case numeral_of n of Some x \<Rightarrow> is_integer x \<and> of_int lo \<le> x \<and> x \<le> of_int hi | None \<Rightarrow> False)
      | _ \<Rightarrow> False)"

definition number_between :: "rat \<Rightarrow> rat \<Rightarrow> json \<Rightarrow> bool" where
  "number_between lo hi v =
     (case v of
        JNum n \<Rightarrow> (case numeral_of n of Some x \<Rightarrow> lo \<le> x \<and> x \<le> hi | None \<Rightarrow> False)
      | _ \<Rightarrow> False)"

definition check_value :: "load_spec \<Rightarrow> json \<Rightarrow> model_facts \<Rightarrow> settings_error + json" where
  "check_value s v facts =
     (case ls_type s of
        BoolType \<Rightarrow> (case v of JBool _ \<Rightarrow> Inr v | _ \<Rightarrow> Inl (NotOnOff (ls_label s)))
      | EnumType vs \<Rightarrow>
          (case v of JStr x \<Rightarrow> if x \<in> set vs then Inr v else Inl (NotOneOf (ls_label s) vs)
           | _ \<Rightarrow> Inl (NotOneOf (ls_label s) vs))
      | FloatType lo hi \<Rightarrow> if number_between lo hi v then Inr v else Inl (NotANumber (ls_label s) lo hi)
      | IntType lo m soft ws \<Rightarrow>
          if (case v of JStr x \<Rightarrow> x \<in> set ws | _ \<Rightarrow> False) then Inr v
          else let hi = ceiling_of m soft facts
               in if whole_between lo hi v then Inr v else Inl (NotWhole (ls_label s) lo hi ws))"

fun check_settings :: "model_facts \<Rightarrow> settings \<Rightarrow> settings \<Rightarrow> settings_error + settings" where
  "check_settings facts out [] = Inr out"
| "check_settings facts out ((k, v) # ms) =
     (case spec_of k of
        None \<Rightarrow> Inl (UnknownKey k)
      | Some s \<Rightarrow>
          if v = JNull then check_settings facts out ms
          else seq_sum (check_value s v facts) (\<lambda>w. check_settings facts (assign k w out) ms))"

definition number_setting :: "settings \<Rightarrow> js_string \<Rightarrow> rat option" where
  "number_setting s k = (case map_of s k of Some (JNum n) \<Rightarrow> numeral_of n | _ \<Rightarrow> None)"

definition ubatch_too_large :: "settings \<Rightarrow> bool" where
  "ubatch_too_large s =
     (case (number_setting s ''batchSize'', number_setting s ''ubatchSize'') of
        (Some b, Some u) \<Rightarrow> b < u
      | _ \<Rightarrow> False)"

definition normalize_load_settings :: "json option \<Rightarrow> model_facts \<Rightarrow> settings_error + settings" where
  "normalize_load_settings raw facts =
     (case raw of
        None \<Rightarrow> Inr []
      | Some JNull \<Rightarrow> Inr []
      | Some (JObj ms) \<Rightarrow>
          seq_sum (check_settings facts [] (entries ms)) (\<lambda>out.
            if ubatch_too_large out then Inl UbatchTooLarge else Inr out)
      | Some _ \<Rightarrow> Inl NotAnObject)"

text \<open>Where a model's multi-token head would come from.\<close>

datatype mtp_source = Embedded | Head | HeadPending

definition check_mtp_setting :: "settings \<Rightarrow> mtp_source option \<Rightarrow> settings_error + unit" where
  "check_mtp_setting s source =
     (if map_of s ''mtp'' = Some (JBool True) \<and> source = None then Inl NoMtpHead
      else if map_of s ''mtpDraftMax'' \<noteq> None \<and> map_of s ''mtp'' \<noteq> Some (JBool True) then Inl DraftsWithoutMtp
      else Inr ())"

definition check_table_setting :: "settings \<Rightarrow> model_facts \<Rightarrow> settings_error + unit" where
  "check_table_setting s facts =
     (if map_of s ''tablePlacement'' \<noteq> None \<and> map_of s ''tablePlacement'' \<noteq> Some (JStr ''auto'') \<and> lookup_tbl facts = NoTable
      then Inl NoLookupTable else Inr ())"

section \<open>Rendering\<close>

definition setting_line :: "js_string \<Rightarrow> js_string \<Rightarrow> js_string" where
  "setting_line k v = k @ '' = '' @ v"

text \<open>\<open>mtp\<close> is the head to draft with, when there is one: a file, or none for a head inside the model's own.\<close>

definition preset_lines ::
    "settings \<Rightarrow> js_string option \<Rightarrow> model_facts \<Rightarrow> js_string option option \<Rightarrow> js_string list" where
  "preset_lines s mmproj facts mtp =
     (let valid = (case normalize_load_settings (Some (JObj s)) facts of Inr v \<Rightarrow> v | Inl _ \<Rightarrow> []);
          own = List.map_filter (\<lambda>sp.
            if ls_group sp = Speculative \<or> ls_key sp = ''vision'' \<or> ls_key sp = ''tablePlacement'' then None
            else map_option (\<lambda>v. setting_line (ls_flag sp) (js_text v)) (map_of valid (ls_key sp))) LOAD_SETTINGS;
          table = (case lookup_tbl facts of
              Table _ \<Rightarrow>
                (if map_of valid ''tablePlacement'' = Some (JStr ''ssd'') then [''lazy-mode = on'']
                 else if map_of valid ''tablePlacement'' = Some (JStr ''ram'')
                   then ''lazy-mode = off'' # (if map_of valid ''loadMode'' = None then [''load-mode = none''] else [])
                 else [])
            | _ \<Rightarrow> []);
          drafts = (case mtp of
              Some head \<Rightarrow>
                if map_of valid ''mtp'' = Some (JBool True)
                then ''spec-type = draft-mtp''
                     # (case head of Some f \<Rightarrow> if f = [] then [] else [setting_line ''spec-draft-model'' f] | None \<Rightarrow> [])
                     @ (case map_of valid ''mtpDraftMax'' of Some (JNum n) \<Rightarrow> [setting_line ''spec-draft-n-max'' n] | _ \<Rightarrow> [])
                else []
            | None \<Rightarrow> []);
          eyes = (case mmproj of
              Some f \<Rightarrow> if f \<noteq> [] \<and> map_of valid ''vision'' \<noteq> Some (JBool False) then [setting_line ''mmproj'' f] else []
            | None \<Rightarrow> [])
      in own @ table @ drafts @ eyes)"

text \<open>The window one request gets: the context is divided between the slots unless the cache is shared.\<close>

definition per_request_window :: "settings \<Rightarrow> rat \<Rightarrow> rat" where
  "per_request_window s ctx =
     (let parallel = number_setting s ''parallel'';
          unified = (case map_of s ''kvUnified'' of Some (JBool b) \<Rightarrow> b | _ \<Rightarrow> parallel = None)
      in case parallel of
           Some p \<Rightarrow> if unified \<or> p \<le> 1 then ctx else of_int \<lfloor>ctx / p\<rfloor>
         | None \<Rightarrow> ctx)"

section \<open>A number is one word\<close>

lemma exponent_chars: "exponent_of s = Some e \<Longrightarrow> list_all number_char s"
  by (auto simp: exponent_of_def number_char_def list_all_iff split: list.splits if_splits)

lemma number_marks: "number_char (CHR ''.'')" "number_char (CHR ''-'')"
  by (simp_all add: number_char_def)

lemma unsigned_chars: "unsigned_number s = Some v \<Longrightarrow> list_all number_char s"
proof -
  assume v: "unsigned_number s = Some v"
  define r where "r = dropWhile is_digit s"
  have s: "s = takeWhile is_digit s @ r" by (simp add: r_def)
  have ds: "list_all number_char (takeWhile is_digit t)" for t
    by (auto simp: list_all_iff number_char_def dest: set_takeWhileD)
  have r: "list_all number_char r"
  proof (cases "r \<noteq> [] \<and> hd r = CHR ''.''")
    case True
    then have "r = CHR ''.'' # takeWhile is_digit (tl r) @ dropWhile is_digit (tl r)" by (cases r) auto
    moreover have "list_all number_char (dropWhile is_digit (tl r))"
      using v True by (auto simp: unsigned_number_def r_def Let_def split: if_splits intro: exponent_chars)
    ultimately show ?thesis
      using ds [of "tl r"] number_marks(1) by (metis list_all_append list.pred_inject(2))
  next
    case False
    then show ?thesis
      using v by (auto simp: unsigned_number_def r_def Let_def split: if_splits intro: exponent_chars)
  qed
  show ?thesis by (subst s) (simp add: ds r)
qed

lemma number_chars: "numeral_of s = Some v \<Longrightarrow> list_all number_char s"
proof -
  assume v: "numeral_of s = Some v"
  show ?thesis
  proof (cases "s \<noteq> [] \<and> hd s = CHR ''-''")
    case True
    then have "s = CHR ''-'' # tl s" by (cases s) auto
    moreover have "list_all number_char (tl s)" using v True by (auto simp: numeral_of_def dest: unsigned_chars)
    ultimately show ?thesis using number_marks(2) by (metis list.pred_inject(2))
  next
    case False
    then show ?thesis using v by (auto simp: numeral_of_def dest: unsigned_chars split: if_splits)
  qed
qed

section \<open>What the check lets through\<close>

definition setting_ok :: "model_facts \<Rightarrow> js_string \<times> json \<Rightarrow> bool" where
  "setting_ok facts = (\<lambda>(k, v). case spec_of k of Some s \<Rightarrow> check_value s v facts = Inr v | None \<Rightarrow> False)"

lemma check_value_same: "check_value s v facts = Inr w \<Longrightarrow> w = v \<and> v \<noteq> JNull"
  by (auto simp: check_value_def whole_between_def number_between_def Let_def
      split: value_type.splits json.splits if_splits)

lemma setting_ok_not_null: "setting_ok facts (k, v) \<Longrightarrow> v \<noteq> JNull"
  using check_value_same by (force simp: setting_ok_def split: option.splits)

lemma check_settings_ok:
  "check_settings facts out ms = Inr r \<Longrightarrow> list_all (setting_ok facts) out \<Longrightarrow> distinct (map fst out) \<Longrightarrow>
   list_all (setting_ok facts) r \<and> distinct (map fst r)"
proof (induction facts out ms rule: check_settings.induct)
  case (2 facts out k v ms)
  show ?case
  proof (cases "spec_of k")
    case None
    then show ?thesis using "2.prems" by simp
  next
    case (Some s)
    show ?thesis
    proof (cases "v = JNull")
      case True
      then show ?thesis using "2.IH"(1) [OF Some True] "2.prems" Some by simp
    next
      case False
      then obtain w where w: "check_value s v facts = Inr w" "check_settings facts (assign k w out) ms = Inr r"
        using "2.prems"(1) Some by auto
      have "setting_ok facts (k, w)" using w(1) check_value_same Some by (force simp: setting_ok_def)
      then have "list_all (setting_ok facts) (assign k w out)"
        using "2.prems"(2) assign_members [of k w out] by (auto simp: list_all_iff)
      then show ?thesis using "2.IH"(2) [OF Some False w(1) w(2)] "2.prems"(3) by (simp add: assign_distinct)
    qed
  qed
qed simp

lemma check_settings_again:
  "list_all (setting_ok facts) ms \<Longrightarrow> distinct (map fst (out @ ms)) \<Longrightarrow> check_settings facts out ms = Inr (out @ ms)"
proof (induction ms arbitrary: out)
  case (Cons m ms)
  obtain k v where m: "m = (k, v)" by force
  obtain s where s: "spec_of k = Some s" "check_value s v facts = Inr v"
    using Cons.prems(1) by (auto simp: m setting_ok_def split: option.splits)
  have "v \<noteq> JNull" using s(2) check_value_same by blast
  moreover have "assign k v out = out @ [(k, v)]" using Cons.prems(2) by (simp add: assign_new m)
  ultimately show ?case using Cons.IH [of "out @ [(k, v)]"] Cons.prems by (simp add: m s)
qed simp

lemma normalized_ok:
  assumes "normalize_load_settings raw facts = Inr s"
  shows "list_all (setting_ok facts) s \<and> distinct (map fst s)"
proof -
  have "s = [] \<or> (\<exists>ms. check_settings facts [] (entries ms) = Inr s)"
    using assms by (auto simp: normalize_load_settings_def split: option.splits json.splits if_splits)
  then show ?thesis using check_settings_ok by fastforce
qed

text \<open>Settings that were stored are read back as they are.\<close>

lemma normalize_again:
  assumes "normalize_load_settings raw facts = Inr s"
  shows "normalize_load_settings (Some (JObj s)) facts = Inr s"
proof -
  have "check_settings facts [] (entries s) = Inr s"
    using normalized_ok [OF assms] check_settings_again [of facts s "[]"] by (simp add: entries_id)
  moreover have "s = [] \<or> \<not> ubatch_too_large s"
    using assms by (auto simp: normalize_load_settings_def split: option.splits json.splits if_splits)
  ultimately show ?thesis
    by (auto simp: normalize_load_settings_def ubatch_too_large_def number_setting_def)
qed

section \<open>Lines\<close>

abbreviation single_line :: "js_string \<Rightarrow> bool" where
  "single_line s \<equiv> NL \<notin> set s"

lemma number_one_line: "numeral_of s = Some v \<Longrightarrow> single_line s"
  using number_chars by (fastforce simp: list_all_iff number_char_def is_digit_def in_range_def)

definition word_ok :: "load_spec \<Rightarrow> bool" where
  "word_ok s =
     (single_line (ls_flag s) \<and>
      (case ls_type s of EnumType vs \<Rightarrow> list_all single_line vs | IntType _ _ _ ws \<Rightarrow> list_all single_line ws | _ \<Rightarrow> True))"

lemma table_words: "list_all word_ok LOAD_SETTINGS"
  by code_simp

lemma spec_of_in: "spec_of k = Some s \<Longrightarrow> s \<in> set LOAD_SETTINGS \<and> ls_key s = k"
  by (auto simp: spec_of_def find_Some_iff)

lemma checked_one_line: "s \<in> set LOAD_SETTINGS \<Longrightarrow> check_value s v facts = Inr v \<Longrightarrow> single_line (js_text v)"
proof -
  assume s: "s \<in> set LOAD_SETTINGS" and v: "check_value s v facts = Inr v"
  have "word_ok s" using table_words s by (simp only: list_all_iff)
  then show ?thesis
    using v by (auto simp: check_value_def word_ok_def list_all_iff whole_between_def number_between_def Let_def
        split: value_type.splits json.splits if_splits option.splits dest: number_one_line)
qed

end
