(* ===== verification/ExtraOptions.thy ===== *)
theory ExtraOptions
  imports LoadSettings "HOL-Library.Sublist"
begin

text \<open>
  Options an admin passes to llama.cpp as typed (\<open>llama/extra-options.ts\<close>): the reader of a build's \<open>--help\<close>, what may not be
  set, the check of the rows when they are saved and again when the preset is written. The groups are objects in the code;
  one is its place in the list here, so that two groups that read alike are still two.
\<close>

section \<open>The help text\<close>

record option_group =
  og_names :: "js_string list"
  takes_value :: bool
  og_description :: js_string

record option_list =
  groups :: "option_group list"
  by_name :: "(js_string \<times> nat) list"

definition MAX_EXTRA_OPTIONS :: nat where "MAX_EXTRA_OPTIONS = 32"
definition MAX_VALUE :: nat where "MAX_VALUE = 1024"
definition MAX_HELP_BYTES :: nat where "MAX_HELP_BYTES = 1048576"
definition MAX_LINE :: nat where "MAX_LINE = 4096"
definition MAX_DESCRIPTION :: nat where "MAX_DESCRIPTION = 600"

definition alnum :: "char \<Rightarrow> bool" where
  "alnum c \<longleftrightarrow> is_upper c \<or> is_lower c \<or> is_digit c"

definition key_char :: "char \<Rightarrow> bool" where
  "key_char c \<longleftrightarrow> alnum c \<or> c = CHR ''.'' \<or> c = CHR ''_'' \<or> c = CHR ''-''"

definition KEY :: "js_string \<Rightarrow> bool" where
  "KEY s \<longleftrightarrow> s \<noteq> [] \<and> alnum (hd s) \<and> list_all key_char (tl s) \<and> length (tl s) \<le> 63"

text \<open>How much of the line is names and placeholder; \<open>prev\<close> is the character before.\<close>

function head_end :: "char option \<Rightarrow> js_string \<Rightarrow> nat" where
  "head_end prev [] = 0"
| "head_end prev (c # s) =
     (if c = SP \<and> s \<noteq> [] \<and> hd s = SP then
        (if prev = Some (CHR '','')
         then length (takeWhile (\<lambda>x. x = SP) (c # s)) + head_end (Some SP) (dropWhile (\<lambda>x. x = SP) (c # s))
         else 0)
      else Suc (head_end (Some c) s))"
  by pat_completeness auto
termination
  by (relation "measure (\<lambda>(_, s). length s)") (auto intro: le_less_trans [OF length_dropWhile_le])

text \<open>\<open>split(/,\s+/)\<close>.\<close>

function split_names :: "js_string \<Rightarrow> js_string list" where
  "split_names [] = [[]]"
| "split_names (c # s) =
     (if c = CHR '','' \<and> s \<noteq> [] \<and> is_space (hd s) then [] # split_names (dropWhile is_space s)
      else (case split_names s of [] \<Rightarrow> [[c]] | w # ws \<Rightarrow> (c # w) # ws))"
  by pat_completeness auto
termination
  by (relation "measure length") (auto intro: le_less_trans [OF length_dropWhile_le])

definition no_dashes :: "js_string \<Rightarrow> js_string" where
  "no_dashes = dropWhile (\<lambda>c. c = CHR ''-'')"

definition head_piece :: "js_string \<Rightarrow> js_string list \<times> bool \<Rightarrow> js_string list \<times> bool" where
  "head_piece piece = (\<lambda>(names, tv).
     let t = trim piece in
     if \<not> starts_with t ''-'' then (names, tv \<or> names \<noteq> [] \<and> t \<noteq> [])
     else let flag = takeWhile (\<lambda>c. c \<noteq> SP) t; after = dropWhile (\<lambda>c. c \<noteq> SP) t; name = no_dashes flag
          in (if KEY name then names @ [name] else names, tv \<or> after \<noteq> [] \<and> trim after \<noteq> []))"

definition parse_head :: "js_string \<Rightarrow> option_group option" where
  "parse_head head =
     (case fold head_piece (split_names head) ([], False) of
        (names, tv) \<Rightarrow>
          if names = [] then None else Some \<lparr>og_names = names, takes_value = tv, og_description = []\<rparr>)"

definition add_names :: "js_string list \<Rightarrow> nat \<Rightarrow> (js_string \<times> nat) list \<Rightarrow> (js_string \<times> nat) list" where
  "add_names names i m = fold (\<lambda>n m. if map_of m n = None then m @ [(n, i)] else m) names m"

text \<open>
  \<open>current\<close>, when there is one, is the last of the groups: the flag says whether there is.
\<close>

definition clean_line :: "js_string \<Rightarrow> js_string" where
  "clean_line raw =
     (if MAX_LINE < length raw then take MAX_LINE raw else if ends_with raw [CR] then butlast raw else raw)"

definition help_line :: "js_string \<Rightarrow> option_list \<times> bool \<Rightarrow> option_list \<times> bool" where
  "help_line raw = (\<lambda>(ol, current).
     let line = clean_line raw
     in if starts_with line ''-----'' then (ol, False)
        else if starts_with line ''-'' then
          (let n = head_end None line in
           case parse_head (take n line) of
             None \<Rightarrow> (ol, False)
           | Some g \<Rightarrow>
               (\<lparr>groups = groups ol @ [g\<lparr>og_description := trim (drop n line)\<rparr>],
                 by_name = add_names (og_names g) (length (groups ol)) (by_name ol)\<rparr>, True))
        else if current \<and> line \<noteq> [] \<and> is_space (hd line) \<and> trim line \<noteq> [] then
          (let g = last (groups ol); d = og_description g in
           (if length d < MAX_DESCRIPTION
            then ol\<lparr>groups := butlast (groups ol) @
                   [g\<lparr>og_description := take MAX_DESCRIPTION (trim (d @ '' '' @ trim line))\<rparr>]\<rparr>
            else ol, True))
        else (ol, current \<and> trim line \<noteq> []))"

definition parse_help :: "js_string \<Rightarrow> option_list" where
  "parse_help text =
     fst (fold help_line (split_on NL (take MAX_HELP_BYTES text)) (\<lparr>groups = [], by_name = []\<rparr>, False))"

section \<open>What may not be set\<close>

definition LOG :: js_string where
  "LOG = ''Loxaic reads llama.cpp's log to explain failed loads and show where a model's memory went, and keeps prompts out of it.''"

definition NETWORK :: js_string where
  "NETWORK = ''It reaches outside this machine's model files (a download, a network service, or files written elsewhere).''"

definition WIRING :: js_string where
  "WIRING = ''Loxaic runs the llama.cpp router with this itself.''"

definition EXITS :: js_string where
  "EXITS = ''It makes llama.cpp print something and exit instead of serving.''"

definition SWITCHES_MODE :: js_string where
  "SWITCHES_MODE = ''It would stop the model answering chats.''"

abbreviation for_reason :: "js_string \<Rightarrow> js_string list \<Rightarrow> (js_string \<times> js_string) list" where
  "for_reason r ks \<equiv> map (\<lambda>k. (k, r)) ks"

text \<open>Of two entries for a name the later one counts.\<close>

definition RESERVED_OPTIONS :: "(js_string \<times> js_string) list" where
  "RESERVED_OPTIONS =
     map (\<lambda>s. (ls_flag s, ''Loxaic sets this from the model's '' @ [DQ] @ ls_label s @ [DQ] @ '' setting. Use that instead.'')) LOAD_SETTINGS
     @ [(''model'', ''Loxaic sets the model's file itself.''),
        (''mmproj'', ''Loxaic sets the vision projector itself. Use the model's Vision setting.''),
        (''jinja'', ''Loxaic needs the model's own chat template for tool calls.'')]
     @ for_reason ''Loxaic relies on the model's own chat template for tool calls and thinking levels, and sets the template's arguments on each request.''
         [''chat-template'', ''chat-template-file'', ''chat-template-kwargs'']
     @ [(''device'', ''Choose devices with '' @ [DQ] @ ''GPUs to use'' @ [DQ] @ '' on the runtime card.''),
        (''lazy-mode'', ''Loxaic sets this from the model's lookup-table setting.''),
        (''load-mode'', ''Loxaic sets this from the model's memory-mapping setting.'')]
     @ for_reason ''Loxaic sets this from the model's multi-token prediction setting.''
         [''spec-type'', ''spec-draft-model'', ''spec-draft-n-max'']
     @ for_reason ''Loxaic sets this from the model's context stages. Use those instead.''
         [''rope-scaling'', ''rope-scale'', ''yarn-orig-ctx'', ''yarn-ext-factor'', ''yarn-attn-factor'', ''yarn-beta-slow'', ''yarn-beta-fast'']
     @ for_reason WIRING
         [''host'', ''port'', ''models-preset'', ''models-max'', ''models-dir'', ''models-autoload'', ''api-key'', ''api-key-file'', ''alias'',
          ''api-prefix'', ''reuse-port'']
     @ for_reason SWITCHES_MODE [''embedding'', ''rerank'']
     @ for_reason NETWORK
         [''log-file'', ''log-prompts-dir'', ''slot-save-path'', ''lookup-cache-dynamic'', ''path'', ''media-path'', ''ssl-key-file'',
          ''ssl-cert-file'', ''hf-repo'', ''hf-file'', ''hf-token'', ''hf-repo-draft'', ''model-url'', ''mmproj-url'', ''docker-repo'', ''rpc'',
          ''tools'', ''tools-runtime'', ''agent'', ''mcp-servers-config'', ''mcp-servers-json'', ''ui-mcp-proxy'', ''video-ffmpeg-dir'']
     @ for_reason LOG [''verbose'', ''verbosity'']
     @ for_reason EXITS [''help'', ''version'', ''list-devices'', ''cache-list'', ''completion-bash'']"

fun reserved_name :: "js_string list \<Rightarrow> js_string option" where
  "reserved_name [] = None"
| "reserved_name (n # ns) =
     (case map_of (rev RESERVED_OPTIONS) n of
        Some reason \<Rightarrow> Some reason
      | None \<Rightarrow> if starts_with n ''log-'' then Some LOG else reserved_name ns)"

definition reserved_reason :: "option_group \<Rightarrow> js_string option" where
  "reserved_reason g =
     (case reserved_name (og_names g) of
        Some reason \<Rightarrow> Some reason
      | None \<Rightarrow>
          let d = lower (og_description g) in
          if contains d ''download'' then Some NETWORK
          else if contains d ''has been removed'' then Some ''llama.cpp has removed this option.''
          else None)"

section \<open>Checking and rendering the rows\<close>

record extra_option =
  eo_key :: js_string
  eo_value :: js_string

text \<open>Each of them with the row it is about.\<close>

datatype extra_error =
    NotAList
  | TooManyOptions
  | NeedsKeyAndValue nat
  | NoKey nat
  | BadKey js_string nat
  | NoSuchOption js_string nat
  | Reserved js_string js_string nat
  | SetTwice js_string js_string nat
  | NotOneLine nat
  | ValueTooLong nat
  | NotASwitchValue js_string nat
  | NeedsValue js_string nat

definition clean_key :: "js_string \<Rightarrow> js_string" where
  "clean_key raw = no_dashes (trim raw)"

definition breaks_line :: "js_string \<Rightarrow> bool" where
  "breaks_line s \<longleftrightarrow> CR \<in> set s \<or> NL \<in> set s \<or> CHR 0x00 \<in> set s"

definition check_option_value :: "js_string \<Rightarrow> option_group \<Rightarrow> js_string \<Rightarrow> nat \<Rightarrow> extra_error + js_string" where
  "check_option_value key g raw i =
     (let v = trim raw in
      if breaks_line raw then Inl (NotOneLine i)
      else if MAX_VALUE < length v then Inl (ValueTooLong i)
      else if \<not> takes_value g then
        (if lower v = ''true'' \<or> lower v = ''false'' then Inr (lower v) else Inl (NotASwitchValue key i))
      else if v = [] then Inl (NeedsValue key i)
      else Inr v)"

text \<open>The rows taken so far, with the groups and the unknown keys they used.\<close>

record taken =
  tk_rows :: "extra_option list"
  tk_groups :: "(nat \<times> js_string) list"
  tk_unknown :: "js_string list"

definition check_row ::
    "option_list \<Rightarrow> extra_option list \<Rightarrow> nat \<Rightarrow> json \<Rightarrow> taken \<Rightarrow> extra_error + taken" where
  "check_row ol kept i row t =
     (case (field_of row ''key'', field_of row ''value'') of
        (Some (JStr k), v) \<Rightarrow>
          (if (case v of None \<Rightarrow> False | Some (JStr _) \<Rightarrow> False | _ \<Rightarrow> True) then Inl (NeedsKeyAndValue i)
           else let raw = (case v of Some (JStr x) \<Rightarrow> x | _ \<Rightarrow> []); key = clean_key k in
             if key = [] then Inl (NoKey i)
             else if \<not> KEY key then Inl (BadKey key i)
             else case map_of (by_name ol) key of
               None \<Rightarrow>
                 let r = \<lparr>eo_key = key, eo_value = trim raw\<rparr> in
                 if r \<in> set kept \<and> key \<notin> set (tk_unknown t)
                 then Inr (t\<lparr>tk_rows := tk_rows t @ [r], tk_unknown := key # tk_unknown t\<rparr>)
                 else Inl (NoSuchOption key i)
             | Some g \<Rightarrow>
                 (case reserved_reason (groups ol ! g) of
                    Some reason \<Rightarrow> Inl (Reserved key reason i)
                  | None \<Rightarrow>
                      (case map_of (tk_groups t) g of
                         Some earlier \<Rightarrow> Inl (SetTwice key earlier i)
                       | None \<Rightarrow>
                           seq_sum (check_option_value key (groups ol ! g) raw i) (\<lambda>value.
                             Inr (t\<lparr>tk_rows := tk_rows t @ [\<lparr>eo_key = key, eo_value = value\<rparr>],
                                    tk_groups := (g, key) # tk_groups t\<rparr>)))))
      | _ \<Rightarrow> Inl (NeedsKeyAndValue i))"

fun check_rows :: "option_list \<Rightarrow> extra_option list \<Rightarrow> nat \<Rightarrow> json list \<Rightarrow> taken \<Rightarrow> extra_error + taken" where
  "check_rows ol kept i [] t = Inr t"
| "check_rows ol kept i (r # rs) t = seq_sum (check_row ol kept i r t) (check_rows ol kept (Suc i) rs)"

definition normalize_extra_options ::
    "json option \<Rightarrow> option_list \<Rightarrow> extra_option list \<Rightarrow> extra_error + extra_option list" where
  "normalize_extra_options raw ol kept =
     (case raw of
        None \<Rightarrow> Inr []
      | Some JNull \<Rightarrow> Inr []
      | Some (JArr rows) \<Rightarrow>
          if MAX_EXTRA_OPTIONS < length rows then Inl TooManyOptions
          else map_sum id tk_rows (check_rows ol kept 0 rows \<lparr>tk_rows = [], tk_groups = [], tk_unknown = []\<rparr>)
      | Some _ \<Rightarrow> Inl NotAList)"

definition line_of :: "extra_option \<Rightarrow> js_string" where
  "line_of r = setting_line (eo_key r) (eo_value r)"

definition row_accepted :: "option_list \<Rightarrow> nat list \<Rightarrow> extra_option \<Rightarrow> bool" where
  "row_accepted ol seen r =
     (case map_of (by_name ol) (eo_key r) of
        None \<Rightarrow> False
      | Some g \<Rightarrow>
          KEY (eo_key r) \<and> \<not> breaks_line (eo_value r) \<and> reserved_reason (groups ol ! g) = None \<and> g \<notin> set seen
          \<and> (if takes_value (groups ol ! g) then trim (eo_value r) \<noteq> [] else eo_value r = ''true'' \<or> eo_value r = ''false''))"

fun option_lines :: "option_list \<Rightarrow> nat list \<Rightarrow> extra_option list \<Rightarrow> js_string list \<times> js_string list" where
  "option_lines ol seen [] = ([], [])"
| "option_lines ol seen (r # rs) =
     (if row_accepted ol seen r
      then let (ls, sk) = option_lines ol (the (map_of (by_name ol) (eo_key r)) # seen) rs in (line_of r # ls, sk)
      else let (ls, sk) = option_lines ol seen rs in (ls, eo_key r # sk))"

text \<open>With no list of the build's options nothing is known.\<close>

definition extra_option_lines :: "extra_option list \<Rightarrow> option_list option \<Rightarrow> js_string list \<times> js_string list" where
  "extra_option_lines rows options =
     option_lines (case options of Some ol \<Rightarrow> ol | None \<Rightarrow> \<lparr>groups = [], by_name = []\<rparr>) [] rows"

definition option_of_json :: "json \<Rightarrow> extra_option option" where
  "option_of_json j =
     (case (field_of j ''key'', field_of j ''value'') of
        (Some (JStr k), Some (JStr v)) \<Rightarrow> Some \<lparr>eo_key = k, eo_value = v\<rparr>
      | _ \<Rightarrow> None)"

definition coerce_extra_options :: "json \<Rightarrow> extra_option list" where
  "coerce_extra_options raw =
     (case raw of JArr rows \<Rightarrow> take MAX_EXTRA_OPTIONS (List.map_filter option_of_json rows) | _ \<Rightarrow> [])"

text \<open>A row as it is stored, and what the client is shown_line of each option.\<close>

definition json_of_option :: "extra_option \<Rightarrow> json" where
  "json_of_option r = JObj [(''key'', JStr (eo_key r)), (''value'', JStr (eo_value r))]"

definition option_views :: "option_list \<Rightarrow> (option_group \<times> js_string option) list" where
  "option_views ol = map (\<lambda>g. (g, reserved_reason g)) (groups ol)"

section \<open>Reading the help\<close>

definition group_names :: "option_list \<Rightarrow> js_string list list" where
  "group_names ol = map og_names (groups ol)"

text \<open>A name leads to a group that has it, and is a key.\<close>

definition wf_options :: "option_list \<Rightarrow> bool" where
  "wf_options ol \<longleftrightarrow>
     list_all (\<lambda>(n, i). i < length (group_names ol) \<and> n \<in> set (group_names ol ! i)) (by_name ol) \<and>
     list_all (list_all KEY) (group_names ol)"

lemma head_piece_keys: "list_all KEY names \<Longrightarrow> list_all KEY (fst (head_piece p (names, tv)))"
  by (auto simp: head_piece_def Let_def)

lemma parse_head_keys: "parse_head h = Some g \<Longrightarrow> list_all KEY (og_names g)"
proof -
  have "list_all KEY (fst acc) \<Longrightarrow> list_all KEY (fst (fold head_piece ps acc))" for ps acc
  proof (induction ps arbitrary: acc)
    case (Cons p ps)
    then show ?case using head_piece_keys [of "fst acc" p "snd acc"] by simp
  qed simp
  from this [of "([], False)" "split_names h"] show "parse_head h = Some g \<Longrightarrow> list_all KEY (og_names g)"
    by (auto simp: parse_head_def split: prod.splits if_splits)
qed

lemma add_names_set: "set (add_names ns i m) \<subseteq> set m \<union> (\<lambda>n. (n, i)) ` set ns"
proof -
  have "set (fold (\<lambda>n m. if map_of m n = None then m @ [(n, i)] else m) ns m) \<subseteq> set m \<union> (\<lambda>n. (n, i)) ` set ns"
    by (induction ns arbitrary: m) (fastforce split: if_splits)+
  then show ?thesis by (simp add: add_names_def)
qed

lemma describe_names:
  "gs \<noteq> [] \<Longrightarrow> map og_names (butlast gs @ [(last gs)\<lparr>og_description := d\<rparr>]) = map og_names gs"
  by (cases gs rule: rev_cases) simp_all

lemma help_line_cases:
  "help_line raw (ol, cur) = (ol', cur') \<Longrightarrow>
     ol' = ol \<and> (cur' \<longrightarrow> cur)
   \<or> (\<exists>h g d. parse_head h = Some g \<and>
        ol' = \<lparr>groups = groups ol @ [g\<lparr>og_description := d\<rparr>],
               by_name = add_names (og_names g) (length (groups ol)) (by_name ol)\<rparr>)
   \<or> cur \<and> (\<exists>d. ol' = ol\<lparr>groups := butlast (groups ol) @ [(last (groups ol))\<lparr>og_description := d\<rparr>]\<rparr>)"
  by (simp add: help_line_def Let_def split: if_split_asm option.split_asm) (use conjI in \<open>blast+\<close>)

lemma new_group_wf:
  assumes "wf_options ol" "parse_head h = Some g"
  shows "wf_options \<lparr>groups = groups ol @ [g\<lparr>og_description := d\<rparr>],
     by_name = add_names (og_names g) (length (groups ol)) (by_name ol)\<rparr>"
  using assms(1) parse_head_keys [OF assms(2)] add_names_set [of "og_names g" "length (groups ol)" "by_name ol"]
  by (fastforce simp: wf_options_def group_names_def list_all_iff nth_append)

lemma described_wf:
  assumes "wf_options ol" "groups ol \<noteq> []"
  shows "wf_options (ol\<lparr>groups := butlast (groups ol) @ [(last (groups ol))\<lparr>og_description := d\<rparr>]\<rparr>)"
  using assms(1) describe_names [OF assms(2), of d] by (simp add: wf_options_def group_names_def)

lemma help_line_wf:
  assumes "wf_options ol" "cur \<longrightarrow> groups ol \<noteq> []" "help_line raw (ol, cur) = (ol', cur')"
  shows "wf_options ol' \<and> (cur' \<longrightarrow> groups ol' \<noteq> [])"
  using help_line_cases [OF assms(3)]
proof (elim disjE)
  assume "ol' = ol \<and> (cur' \<longrightarrow> cur)"
  then show ?thesis using assms by blast
next
  assume "\<exists>h g d. parse_head h = Some g \<and> ol' = \<lparr>groups = groups ol @ [g\<lparr>og_description := d\<rparr>],
    by_name = add_names (og_names g) (length (groups ol)) (by_name ol)\<rparr>"
  then show ?thesis using new_group_wf [OF assms(1)] by auto
next
  assume "cur \<and> (\<exists>d. ol' = ol\<lparr>groups := butlast (groups ol) @ [(last (groups ol))\<lparr>og_description := d\<rparr>]\<rparr>)"
  then show ?thesis using described_wf [OF assms(1)] assms(2) by auto
qed

lemma parse_help_wf: "wf_options (parse_help text)"
proof -
  have "wf_options (fst st) \<Longrightarrow> snd st \<longrightarrow> groups (fst st) \<noteq> [] \<Longrightarrow> wf_options (fst (fold help_line ls st))" for ls st
  proof (induction ls arbitrary: st)
    case (Cons l ls)
    obtain ol cur ol' cur' where st: "st = (ol, cur)" "help_line l st = (ol', cur')" by (metis prod.exhaust)
    then have "wf_options ol' \<and> (cur' \<longrightarrow> groups ol' \<noteq> [])" using help_line_wf [of ol cur l ol' cur'] Cons.prems by simp
    then show ?case using Cons.IH [of "(ol', cur')"] st(2) by simp
  qed simp
  moreover have "wf_options (fst (\<lparr>groups = [], by_name = []\<rparr> :: option_list, False))"
    by (simp add: wf_options_def group_names_def)
  ultimately show ?thesis unfolding parse_help_def by (metis snd_conv)
qed

section \<open>What reaches the preset\<close>

definition free_name :: "js_string \<Rightarrow> bool" where
  "free_name n \<longleftrightarrow> n \<notin> fst ` set RESERVED_OPTIONS \<and> \<not> starts_with n ''log-''"

text \<open>A row that names a group none of whose names is reserved, on one line.\<close>

definition settable :: "option_list \<Rightarrow> extra_option \<Rightarrow> bool" where
  "settable ol r =
     (case map_of (by_name ol) (eo_key r) of
        None \<Rightarrow> False
      | Some i \<Rightarrow>
          i < length (groups ol) \<and> eo_key r \<in> set (og_names (groups ol ! i)) \<and> list_all free_name (og_names (groups ol ! i))
          \<and> KEY (eo_key r) \<and> \<not> breaks_line (eo_value r))"

lemma reserved_name_free: "reserved_name ns = None \<Longrightarrow> list_all free_name ns"
  by (induction ns) (auto simp: free_name_def map_of_eq_None_iff split: option.splits if_splits)

lemma known_group:
  "wf_options ol \<Longrightarrow> map_of (by_name ol) k = Some i \<Longrightarrow> i < length (groups ol) \<and> k \<in> set (og_names (groups ol ! i))"
  by (auto simp: wf_options_def group_names_def list_all_iff dest!: map_of_SomeD)

lemma accepted_settable:
  assumes "wf_options ol" "row_accepted ol seen r"
  shows "settable ol r"
proof -
  obtain i where i: "map_of (by_name ol) (eo_key r) = Some i" "reserved_reason (groups ol ! i) = None"
    "KEY (eo_key r)" "\<not> breaks_line (eo_value r)"
    using assms(2) by (auto simp: row_accepted_def split: option.splits)
  then have "list_all free_name (og_names (groups ol ! i))"
    by (intro reserved_name_free) (simp add: reserved_reason_def split: option.splits)
  then show ?thesis using i known_group [OF assms(1) i(1)] by (simp add: settable_def)
qed

abbreviation group_no :: "option_list \<Rightarrow> extra_option \<Rightarrow> nat" where
  "group_no ol r \<equiv> the (map_of (by_name ol) (eo_key r))"

lemma option_lines_settable:
  assumes "wf_options ol"
  shows "\<exists>rs. fst (option_lines ol seen rows) = map line_of rs \<and> subseq rs rows \<and> list_all (settable ol) rs
     \<and> distinct (map (group_no ol) rs) \<and> set (map (group_no ol) rs) \<inter> set seen = {}"
proof (induction rows arbitrary: seen)
  case (Cons r rows)
  show ?case
  proof (cases "row_accepted ol seen r")
    case True
    obtain rs where rs: "fst (option_lines ol (group_no ol r # seen) rows) = map line_of rs" "subseq rs rows"
      "list_all (settable ol) rs" "distinct (map (group_no ol) rs)" "set (map (group_no ol) rs) \<inter> set (group_no ol r # seen) = {}"
      using Cons.IH by blast
    have "group_no ol r \<notin> set seen" using True by (auto simp: row_accepted_def split: option.splits)
    then show ?thesis
      using rs True accepted_settable [OF assms True] by (intro exI [of _ "r # rs"]) (auto split: prod.splits)
  next
    case False
    then show ?thesis using Cons.IH [of seen] by (auto split: prod.splits intro: subseq_Cons')
  qed
qed simp

section \<open>What was accepted is passed\<close>

fun all_pass :: "option_list \<Rightarrow> nat list \<Rightarrow> extra_option list \<Rightarrow> bool" where
  "all_pass ol seen [] = True"
| "all_pass ol seen (r # rs) =
     (case map_of (by_name ol) (eo_key r) of
        None \<Rightarrow> all_pass ol seen rs
      | Some g \<Rightarrow> row_accepted ol seen r \<and> all_pass ol (g # seen) rs)"

abbreviation known :: "option_list \<Rightarrow> extra_option \<Rightarrow> bool" where
  "known ol r \<equiv> map_of (by_name ol) (eo_key r) \<noteq> None"

lemma all_pass_lines:
  "all_pass ol seen rs \<Longrightarrow>
   option_lines ol seen rs = (map line_of (filter (known ol) rs), map eo_key (filter (\<lambda>r. \<not> known ol r) rs))"
  by (induction ol seen rs rule: all_pass.induct) (auto simp: row_accepted_def split: option.splits)

lemma trim_set: "set (trim s) \<subseteq> set s"
  by (auto simp: trim_def trim_left_def trim_right_def dest!: set_dropWhileD)

lemma trim_nonempty:
  assumes "trim s \<noteq> []"
  shows "trim (trim s) \<noteq> []"
proof -
  define r where "r = dropWhile is_space (rev (trim_left s))"
  have t: "trim s = rev r" by (simp add: r_def trim_def trim_right_def)
  then have "r \<noteq> []" using assms by simp
  then have "\<not> is_space (last (trim s))" using hd_dropWhile r_def t by (metis last_rev)
  moreover from this have left: "trim_left (trim s) \<noteq> []"
    unfolding trim_left_def using assms by (metis dropWhile_eq_Nil_conv last_in_set)
  moreover have "last (trim_left (trim s)) = last (trim s)"
    using left unfolding trim_left_def by (metis last_appendR takeWhile_dropWhile_id)
  ultimately have "trim_right (trim_left (trim s)) = trim_left (trim s)" by (simp add: trim_right_id)
  then show ?thesis using left trim_def [of "trim s"] by simp
qed

lemma value_passes:
  assumes "check_option_value key g raw i = Inr v"
  shows "\<not> breaks_line v \<and> (if takes_value g then trim v \<noteq> [] else v = ''true'' \<or> v = ''false'')"
proof (cases "takes_value g")
  case True
  then have v: "v = trim raw" "v \<noteq> []" "\<not> breaks_line raw"
    using assms by (auto simp: check_option_value_def Let_def split: if_splits)
  then show ?thesis using True trim_nonempty [of raw] trim_set [of raw] by (auto simp: breaks_line_def)
next
  case False
  then have "v = ''true'' \<or> v = ''false''"
    using assms by (simp add: check_option_value_def Let_def split: if_splits)
  then show ?thesis using False by (auto simp: breaks_line_def)
qed

lemma check_row_accepts:
  assumes "check_row ol kept i row t = Inr t'"
  shows "\<exists>r. tk_rows t' = tk_rows t @ [r] \<and>
     (case map_of (by_name ol) (eo_key r) of
        None \<Rightarrow> tk_groups t' = tk_groups t
      | Some g \<Rightarrow> row_accepted ol (map fst (tk_groups t)) r \<and> map fst (tk_groups t') = g # map fst (tk_groups t))"
proof -
  obtain k where k: "field_of row ''key'' = Some (JStr k)"
    using assms by (auto simp: check_row_def split: option.splits json.splits)
  define raw where "raw = (case field_of row ''value'' of Some (JStr x) \<Rightarrow> x | _ \<Rightarrow> [])"
  define key where "key = clean_key k"
  have c: "check_row ol kept i row t = Inr t'" "KEY key"
    using assms by (auto simp: check_row_def k key_def Let_def split: if_splits option.splits json.splits)
  show ?thesis
  proof (cases "map_of (by_name ol) key")
    case None
    then have "t' = t\<lparr>tk_rows := tk_rows t @ [\<lparr>eo_key = key, eo_value = trim raw\<rparr>], tk_unknown := key # tk_unknown t\<rparr>"
      using assms by (simp add: check_row_def k key_def [symmetric] raw_def [symmetric] Let_def split: if_split_asm)
    then show ?thesis using None by (intro exI [of _ "\<lparr>eo_key = key, eo_value = trim raw\<rparr>"]) simp
  next
    case (Some g)
    then have r: "reserved_reason (groups ol ! g) = None" "map_of (tk_groups t) g = None"
      using assms by (auto simp: check_row_def k key_def [symmetric] raw_def [symmetric] Let_def split: if_split_asm option.split_asm)
    then obtain v where v: "check_option_value key (groups ol ! g) raw i = Inr v"
      "t' = t\<lparr>tk_rows := tk_rows t @ [\<lparr>eo_key = key, eo_value = v\<rparr>], tk_groups := (g, key) # tk_groups t\<rparr>"
      using assms Some by (auto simp: check_row_def k key_def [symmetric] raw_def [symmetric] Let_def split: if_split_asm)
    have "g \<notin> fst ` set (tk_groups t)" using r(2) by (simp add: map_of_eq_None_iff)
    then have "row_accepted ol (map fst (tk_groups t)) \<lparr>eo_key = key, eo_value = v\<rparr>"
      using value_passes [OF v(1)] c(2) Some r(1) by (simp add: row_accepted_def)
    then show ?thesis using v(2) Some by (intro exI [of _ "\<lparr>eo_key = key, eo_value = v\<rparr>"]) simp
  qed
qed

lemma check_rows_pass:
  "check_rows ol kept i rows t = Inr t' \<Longrightarrow>
   \<exists>rs. tk_rows t' = tk_rows t @ rs \<and> length rs = length rows \<and> all_pass ol (map fst (tk_groups t)) rs"
proof (induction rows arbitrary: i t)
  case (Cons row rows)
  obtain t1 where t1: "check_row ol kept i row t = Inr t1" "check_rows ol kept (Suc i) rows t1 = Inr t'"
    using Cons.prems by auto
  obtain rs where rs: "tk_rows t' = tk_rows t1 @ rs" "length rs = length rows" "all_pass ol (map fst (tk_groups t1)) rs"
    using Cons.IH [OF t1(2)] by blast
  obtain r where r: "tk_rows t1 = tk_rows t @ [r]"
     "case map_of (by_name ol) (eo_key r) of
        None \<Rightarrow> tk_groups t1 = tk_groups t
      | Some g \<Rightarrow> row_accepted ol (map fst (tk_groups t)) r \<and> map fst (tk_groups t1) = g # map fst (tk_groups t)"
    using check_row_accepts [OF t1(1)] by blast
  have "all_pass ol (map fst (tk_groups t)) (r # rs)" using r(2) rs(3) by (auto split: option.splits)
  then show ?case using r(1) rs(1,2) by (intro exI [of _ "r # rs"]) simp
qed simp

lemma coerce_stored: "length rows \<le> MAX_EXTRA_OPTIONS \<Longrightarrow> coerce_extra_options (JArr (map json_of_option rows)) = rows"
proof -
  have "List.map_filter option_of_json (map json_of_option rows) = rows"
    by (induction rows) (auto simp: map_filter_simps option_of_json_def json_of_option_def)
  then show "length rows \<le> MAX_EXTRA_OPTIONS \<Longrightarrow> ?thesis" by (simp add: coerce_extra_options_def)
qed

text \<open>
  C29: What an admin saved is what llama.cpp is given: the rows the check accepted for a build are, read back from the row that
  stores them, all passed to that build, in order, but the kept ones it does not know, and those are the ones named as skipped.
\<close>

theorem accepted_rows_are_passed:
  assumes "normalize_extra_options (Some (JArr raw)) ol kept = Inr rows"
  shows "extra_option_lines (coerce_extra_options (JArr (map json_of_option rows))) (Some ol) =
     (map line_of (filter (known ol) rows), map eo_key (filter (\<lambda>r. \<not> known ol r) rows))"
proof -
  obtain t where t: "check_rows ol kept 0 raw \<lparr>tk_rows = [], tk_groups = [], tk_unknown = []\<rparr> = Inr t" "rows = tk_rows t"
    "length raw \<le> MAX_EXTRA_OPTIONS"
    using assms by (auto simp: normalize_extra_options_def map_sum_def split: if_splits sum.splits)
  then have "length rows \<le> MAX_EXTRA_OPTIONS" "all_pass ol [] rows" using check_rows_pass [OF t(1)] by auto
  then show ?thesis using coerce_stored all_pass_lines by (simp add: extra_option_lines_def)
qed

text \<open>The limits compared as binary numbers, for evaluation.\<close>

lemma clean_line_code [code]:
  "clean_line raw = (if 4096 < int (length raw) then take MAX_LINE raw else if ends_with raw [CR] then butlast raw else raw)"
  by (simp add: clean_line_def MAX_LINE_def)

definition all_help :: "js_string \<Rightarrow> js_string" where
  "all_help s = take MAX_HELP_BYTES s"

lemma all_help_code [code]: "all_help s = (if int (length s) \<le> 1048576 then s else take MAX_HELP_BYTES s)"
  by (simp add: all_help_def MAX_HELP_BYTES_def)

lemma parse_help_code [code]:
  "parse_help s = fst (fold help_line (split_on NL (all_help s)) (\<lparr>groups = [], by_name = []\<rparr>, False))"
  by (simp add: parse_help_def all_help_def)

definition too_long :: "js_string \<Rightarrow> bool" where
  "too_long v \<longleftrightarrow> MAX_VALUE < length v"

lemma too_long_code [code]: "too_long v \<longleftrightarrow> 1024 < int (length v)"
  by (simp add: too_long_def MAX_VALUE_def)

lemma check_option_value_code [code]:
  "check_option_value key g raw i =
     (let v = trim raw in
      if breaks_line raw then Inl (NotOneLine i)
      else if too_long v then Inl (ValueTooLong i)
      else if \<not> takes_value g then
        (if lower v = ''true'' \<or> lower v = ''false'' then Inr (lower v) else Inl (NotASwitchValue key i))
      else if v = [] then Inl (NeedsValue key i)
      else Inr v)"
  by (simp only: check_option_value_def too_long_def)

definition sample_help :: js_string where
  "sample_help =
     ''----- params'' @ [NL] @
     ''-c,   --ctx-size N   size of it'' @ [NL] @
     ''--keep N   how many'' @ [NL] @
     ''--warmup, --no-warmup   an empty'' @ [NL] @ ''    run'' @ [NL]"

lemma sample_groups:
  "parse_help sample_help =
     \<lparr>groups = [\<lparr>og_names = [''c'', ''ctx-size''], takes_value = True, og_description = ''size of it''\<rparr>,
        \<lparr>og_names = [''keep''], takes_value = True, og_description = ''how many''\<rparr>,
        \<lparr>og_names = [''warmup'', ''no-warmup''], takes_value = False,
          og_description = ''an empty run''\<rparr>],
      by_name = [(''c'', 0), (''ctx-size'', 0), (''keep'', 1), (''warmup'', 2), (''no-warmup'', 2)]\<rparr>"
  by code_simp

theorem accepted_rows_are_passed_witness:
  "let ol = parse_help sample_help;
       raw = [JObj [(''key'', JStr ''--keep''), (''value'', JStr '' 5 '')], JObj [(''key'', JStr ''no-warmup''), (''value'', JStr ''TRUE'')]];
       rows = [\<lparr>eo_key = ''keep'', eo_value = ''5''\<rparr>, \<lparr>eo_key = ''no-warmup'', eo_value = ''true''\<rparr>]
   in normalize_extra_options (Some (JArr raw)) ol [] = Inr rows
      \<and> extra_option_lines (coerce_extra_options (JArr (map json_of_option rows))) (Some ol)
          = ([''keep = 5'', ''no-warmup = true''], [])
      \<and> normalize_extra_options (Some (JArr [JObj [(''key'', JStr ''c''), (''value'', JStr ''1'')]])) ol []
          = Inl (Reserved ''c'' (''Loxaic sets this from the model's '' @ [DQ] @ ''Context length'' @ [DQ] @ '' setting. Use that instead.'') 0)"
proof -
  define raw where "raw = [JObj [(''key'', JStr ''--keep''), (''value'', JStr '' 5 '')], JObj [(''key'', JStr ''no-warmup''), (''value'', JStr ''TRUE'')]]"
  define rows where "rows = [\<lparr>eo_key = ''keep'', eo_value = ''5''\<rparr>, \<lparr>eo_key = ''no-warmup'', eo_value = ''true''\<rparr> :: extra_option]"
  have n: "normalize_extra_options (Some (JArr raw)) (parse_help sample_help) [] = Inr rows"
    unfolding raw_def rows_def sample_groups by code_simp
  have "extra_option_lines (coerce_extra_options (JArr (map json_of_option rows))) (Some (parse_help sample_help))
          = ([''keep = 5'', ''no-warmup = true''], [])"
    by (subst accepted_rows_are_passed [OF n]) (unfold rows_def sample_groups, code_simp)
  moreover have "normalize_extra_options (Some (JArr [JObj [(''key'', JStr ''c''), (''value'', JStr ''1'')]])) (parse_help sample_help) []
          = Inl (Reserved ''c'' (''Loxaic sets this from the model's '' @ [DQ] @ ''Context length'' @ [DQ] @ '' setting. Use that instead.'') 0)"
    unfolding sample_groups by code_simp
  ultimately show ?thesis using n unfolding raw_def rows_def Let_def by (intro conjI)
qed

text \<open>
  C16: Whatever rows are stored and whatever a build's help says, an option that reaches the preset is one of the rows, is named
  by a key that build lists, sits on one line, and belongs to a group none of whose names is reserved; and no two of them are
  the same option under different names.
\<close>

theorem reserved_never_set:
  "\<exists>rs. fst (extra_option_lines rows (Some (parse_help manual))) = map line_of rs \<and> subseq rs rows
     \<and> list_all (settable (parse_help manual)) rs \<and> distinct (map (group_no (parse_help manual)) rs)"
  using option_lines_settable [OF parse_help_wf, of manual "[]" rows] by (auto simp: extra_option_lines_def)

end
