(* ===== verification/ContextStages.thy ===== *)
theory ContextStages
  imports LoadSettings Rounding
begin

text \<open>
  The larger contexts a model can be reloaded at (\<open>llama/context-stages.ts\<close>): the check of an admin's stages, which of them
  is active, what each of them loads with, and the lines that turn YaRN on.
\<close>

section \<open>Stages\<close>

datatype who_may_change = Everyone | Admins
datatype when_full = WhenCompact | WhenExtend

definition MAX_STAGES :: nat where "MAX_STAGES = 6"

text \<open>A stage's numbers under their names; the caches' types under theirs.\<close>

record context_stage =
  ctx_size :: rat
  stage_numbers :: "(js_string \<times> js_string) list"
  cache_type_k :: "js_string option"
  cache_type_v :: "js_string option"

record stages_config =
  sc_enabled :: bool
  who_may :: who_may_change
  full_means :: when_full
  sc_stages :: "context_stage list"

record stage_range =
  sr_min :: rat
  sr_max :: rat
  sr_int :: bool
  sr_label :: js_string

definition STAGE_NUMBERS :: "(js_string \<times> stage_range) list" where
  "STAGE_NUMBERS = [
     (''ropeScale'', \<lparr>sr_min = 1, sr_max = 64, sr_int = False, sr_label = ''The YaRN factor''\<rparr>),
     (''yarnOrigCtx'', \<lparr>sr_min = 512, sr_max = 2147483647, sr_int = True, sr_label = ''The original context''\<rparr>),
     (''extFactor'', \<lparr>sr_min = - 1, sr_max = 1, sr_int = False, sr_label = ''The extrapolation mix''\<rparr>),
     (''attnFactor'', \<lparr>sr_min = - 1, sr_max = 10, sr_int = False, sr_label = ''The attention factor''\<rparr>),
     (''betaSlow'', \<lparr>sr_min = - 1, sr_max = 1024, sr_int = False, sr_label = ''Beta slow''\<rparr>),
     (''betaFast'', \<lparr>sr_min = - 1, sr_max = 1024, sr_int = False, sr_label = ''Beta fast''\<rparr>),
     (''ropeFreqBase'', \<lparr>sr_min = 1, sr_max = 10000000000, sr_int = False, sr_label = ''The RoPE frequency base''\<rparr>)]"

text \<open>The names every object has from its prototype: \<open>key in STAGE_NUMBERS\<close> holds of them too, and no bound of theirs fails.\<close>

definition OBJECT_MEMBERS :: "js_string list" where
  "OBJECT_MEMBERS = [''constructor'', ''__defineGetter__'', ''__defineSetter__'', ''hasOwnProperty'', ''__lookupGetter__'',
     ''__lookupSetter__'', ''isPrototypeOf'', ''propertyIsEnumerable'', ''toString'', ''valueOf'', ''__proto__'', ''toLocaleString'']"

definition stage_number :: "context_stage \<Rightarrow> js_string \<Rightarrow> rat option" where
  "stage_number s k = Option.bind (map_of (stage_numbers s) k) numeral_of"

definition trained_context :: "model_facts \<Rightarrow> rat option" where
  "trained_context meta = map_option of_int (n_ctx_train meta)"

definition standard_context :: "settings \<Rightarrow> model_facts \<Rightarrow> rat option" where
  "standard_context s meta =
     (case number_setting s ''ctxSize'' of Some n \<Rightarrow> Some n | None \<Rightarrow> trained_context meta)"

text \<open>The YaRN factor a stage loads with, to two decimals, and the one it stretches by.\<close>

definition original_context :: "context_stage \<Rightarrow> model_facts \<Rightarrow> rat option" where
  "original_context s meta =
     (case stage_number s ''yarnOrigCtx'' of Some n \<Rightarrow> Some n | None \<Rightarrow> trained_context meta)"

definition stage_factor :: "context_stage \<Rightarrow> model_facts \<Rightarrow> rat option" where
  "stage_factor s meta =
     (case stage_number s ''ropeScale'' of
        Some f \<Rightarrow> Some f
      | None \<Rightarrow>
          (case original_context s meta of
             Some c \<Rightarrow> if c = 0 then None else Some (of_int (js_round (ctx_size s / c * 100)) / 100)
           | None \<Rightarrow> None))"

definition yarn_factor_of :: "context_stage \<Rightarrow> model_facts \<Rightarrow> rat option" where
  "yarn_factor_of s meta = (case stage_factor s meta of Some f \<Rightarrow> if 1 < f then Some f else None | None \<Rightarrow> None)"

section \<open>Checking an admin's stages\<close>

datatype stages_error =
    StagesNotAnObject
  | NotAStageSetting js_string
  | EnabledNotBool
  | BadWho
  | BadWhenFull
  | StagesNotAList
  | TooManyStages
  | NoStages
  | ClearRopeScale
  | StageNotAnObject nat
  | BadContext nat
  | BadStageNumber nat js_string
  | BadCacheType settings_error
  | UnknownStageKey js_string
  | NeedsContext nat
  | NotLarger nat
  | NeedsFactor nat

text \<open>\<open>cacheTypeK\<close> and \<open>cacheTypeV\<close> go through the check of the load settings.\<close>

definition cache_value :: "js_string \<Rightarrow> json \<Rightarrow> model_facts \<Rightarrow> stages_error + js_string" where
  "cache_value k v meta =
     (case normalize_load_settings (Some (JObj [(k, v)])) meta of
        Inl e \<Rightarrow> Inl (BadCacheType e)
      | Inr s \<Rightarrow> Inr (case map_of s k of Some (JStr x) \<Rightarrow> x | _ \<Rightarrow> []))"

definition number_in_range :: "stage_range \<Rightarrow> json \<Rightarrow> bool" where
  "number_in_range r v =
     (case v of
        JNum n \<Rightarrow> (case numeral_of n of
            Some x \<Rightarrow> sr_min r \<le> x \<and> x \<le> sr_max r \<and> (sr_int r \<longrightarrow> is_integer x)
          | None \<Rightarrow> False)
      | _ \<Rightarrow> False)"

definition stage_entry :: "model_facts \<Rightarrow> nat \<Rightarrow> js_string \<times> json \<Rightarrow> context_stage \<Rightarrow> stages_error + context_stage" where
  "stage_entry meta n = (\<lambda>(k, v) s.
     if v = JNull then Inr s
     else if k = ''ctxSize'' then
       (if whole_between 512 INT32_MAX v
        then Inr (s\<lparr>ctx_size := (case v of JNum t \<Rightarrow> the (numeral_of t) | _ \<Rightarrow> 0)\<rparr>)
        else Inl (BadContext n))
     else if k = ''cacheTypeK'' then seq_sum (cache_value k v meta) (\<lambda>x. Inr (s\<lparr>cache_type_k := Some x\<rparr>))
     else if k = ''cacheTypeV'' then seq_sum (cache_value k v meta) (\<lambda>x. Inr (s\<lparr>cache_type_v := Some x\<rparr>))
     else case map_of STAGE_NUMBERS k of
       Some r \<Rightarrow>
         if number_in_range r v
         then Inr (s\<lparr>stage_numbers := stage_numbers s @ [(k, case v of JNum t \<Rightarrow> t | _ \<Rightarrow> [])]\<rparr>)
         else Inl (BadStageNumber n (sr_label r))
     | None \<Rightarrow>
         if k \<notin> set OBJECT_MEMBERS then Inl (UnknownStageKey k)
         else (case v of
             JNum t \<Rightarrow>
               if numeral_of t = None then Inl (BadStageNumber n ''undefined'')
               else if k = ''__proto__'' then Inr s
               else Inr (s\<lparr>stage_numbers := stage_numbers s @ [(k, t)]\<rparr>)
           | _ \<Rightarrow> Inl (BadStageNumber n ''undefined'')))"

fun stage_entries :: "model_facts \<Rightarrow> nat \<Rightarrow> settings \<Rightarrow> context_stage \<Rightarrow> stages_error + context_stage" where
  "stage_entries meta n [] s = Inr s"
| "stage_entries meta n (kv # kvs) s = seq_sum (stage_entry meta n kv s) (stage_entries meta n kvs)"

definition read_stage :: "model_facts \<Rightarrow> nat \<Rightarrow> rat \<Rightarrow> json \<Rightarrow> stages_error + context_stage" where
  "read_stage meta n previous entry =
     (case entry of
        JObj kvs \<Rightarrow>
          seq_sum (stage_entries meta n (entries kvs)
              \<lparr>ctx_size = 0, stage_numbers = [], cache_type_k = None, cache_type_v = None\<rparr>) (\<lambda>s.
            if ctx_size s = 0 then Inl (NeedsContext n)
            else if ctx_size s \<le> previous then Inl (NotLarger n)
            else if stage_number s ''ropeScale'' = None \<and> (case original_context s meta of Some c \<Rightarrow> c = 0 | None \<Rightarrow> True)
              then Inl (NeedsFactor n)
            else Inr s)
      | _ \<Rightarrow> Inl (StageNotAnObject n))"

fun read_stages :: "model_facts \<Rightarrow> nat \<Rightarrow> rat \<Rightarrow> json list \<Rightarrow> stages_error + context_stage list" where
  "read_stages meta n previous [] = Inr []"
| "read_stages meta n previous (e # es) =
     seq_sum (read_stage meta n previous e) (\<lambda>s.
       seq_sum (read_stages meta (Suc n) (ctx_size s) es) (\<lambda>ss. Inr (s # ss)))"

text \<open>\<open>obj.k ?? otherwise\<close>.\<close>

definition or_else :: "settings \<Rightarrow> js_string \<Rightarrow> json \<Rightarrow> json" where
  "or_else ms k d = (case field_of (JObj ms) k of None \<Rightarrow> d | Some JNull \<Rightarrow> d | Some v \<Rightarrow> v)"

definition who_of :: "json \<Rightarrow> stages_error + who_may_change" where
  "who_of v =
     (case v of
        JStr w \<Rightarrow> if w = ''everyone'' then Inr Everyone else if w = ''admins'' then Inr Admins else Inl BadWho
      | _ \<Rightarrow> Inl BadWho)"

definition when_full_of :: "json \<Rightarrow> stages_error + when_full" where
  "when_full_of v =
     (case v of
        JStr w \<Rightarrow> if w = ''compact'' then Inr WhenCompact else if w = ''extend'' then Inr WhenExtend else Inl BadWhenFull
      | _ \<Rightarrow> Inl BadWhenFull)"

definition stages_of :: "json \<Rightarrow> bool \<Rightarrow> model_facts \<Rightarrow> settings \<Rightarrow> stages_error + context_stage list" where
  "stages_of v enabled meta base =
     (case v of
        JArr raws \<Rightarrow>
          if MAX_STAGES < length raws then Inl TooManyStages
          else if enabled \<and> raws = [] then Inl NoStages
          else if enabled \<and> (case map_of base ''ropeFreqScale'' of Some (JNum _) \<Rightarrow> True | _ \<Rightarrow> False) then Inl ClearRopeScale
          else read_stages meta 1 (case standard_context base meta of Some c \<Rightarrow> c | None \<Rightarrow> 0) raws
      | _ \<Rightarrow> Inl StagesNotAList)"

definition CONFIG_KEYS :: "js_string list" where
  "CONFIG_KEYS = [''enabled'', ''whoMayChange'', ''whenFull'', ''stages'']"

definition normalize_context_stages ::
    "json option \<Rightarrow> model_facts \<Rightarrow> settings \<Rightarrow> stages_error + stages_config option" where
  "normalize_context_stages raw meta base =
     (case raw of
        None \<Rightarrow> Inr None
      | Some JNull \<Rightarrow> Inr None
      | Some (JObj ms) \<Rightarrow>
          (case find (\<lambda>k. k \<notin> set CONFIG_KEYS) (map fst (entries ms)) of
             Some k \<Rightarrow> Inl (NotAStageSetting k)
           | None \<Rightarrow>
             (case or_else ms ''enabled'' (JBool False) of
                JBool enabled \<Rightarrow>
                  seq_sum (who_of (or_else ms ''whoMayChange'' (JStr ''everyone''))) (\<lambda>who.
                  seq_sum (when_full_of (or_else ms ''whenFull'' (JStr ''compact''))) (\<lambda>full.
                  seq_sum (stages_of (or_else ms ''stages'' (JArr [])) enabled meta base) (\<lambda>ss.
                    Inr (Some \<lparr>sc_enabled = enabled, who_may = who, full_means = full, sc_stages = ss\<rparr>))))
              | _ \<Rightarrow> Inl EnabledNotBool))
      | Some _ \<Rightarrow> Inl StagesNotAnObject)"

section \<open>A model's row\<close>

text \<open>The part of a model's row the stages are read from; \<open>active_stage\<close> is a column of whole numbers.\<close>

record model_row =
  row_id :: js_string
  context_stages :: "json option"
  row_meta :: model_facts
  load_settings :: settings
  active_stage :: int

text \<open>What is stored and no longer holds reads as no stages.\<close>

definition row_stages :: "('a) model_row_scheme \<Rightarrow> stages_config option" where
  "row_stages row =
     (case normalize_context_stages (context_stages row) (row_meta row) (load_settings row) of
        Inr (Some c) \<Rightarrow> if sc_enabled c then Some c else None
      | _ \<Rightarrow> None)"

definition stage_count :: "('a) model_row_scheme \<Rightarrow> nat" where
  "stage_count row = (case row_stages row of Some c \<Rightarrow> length (sc_stages c) | None \<Rightarrow> 0)"

definition active_stage_index :: "('a) model_row_scheme \<Rightarrow> nat" where
  "active_stage_index row =
     (case row_stages row of
        None \<Rightarrow> 0
      | Some c \<Rightarrow> nat (max 0 (min (active_stage row) (int (length (sc_stages c))))))"

definition stage_contexts :: "('a) model_row_scheme \<Rightarrow> rat option list" where
  "stage_contexts row =
     standard_context (load_settings row) (row_meta row)
     # (case row_stages row of Some c \<Rightarrow> map (\<lambda>s. Some (ctx_size s)) (sc_stages c) | None \<Rightarrow> [])"

definition stage_at :: "('a) model_row_scheme \<Rightarrow> nat \<Rightarrow> context_stage option" where
  "stage_at row i =
     (case i of 0 \<Rightarrow> None | Suc j \<Rightarrow> Option.bind (row_stages row) (\<lambda>c. Prelude.at (sc_stages c) j))"

text \<open>
  The stage's context is written as a number with the digits it was given in; only its worth is kept here, so the setting is
  the whole number in decimal.
\<close>

definition whole_text :: "rat \<Rightarrow> js_string" where
  "whole_text x = digits (nat \<lfloor>x\<rfloor>)"

definition settings_for_stage :: "('a) model_row_scheme \<Rightarrow> nat \<Rightarrow> settings" where
  "settings_for_stage row i =
     (case stage_at row i of
        None \<Rightarrow> load_settings row
      | Some s \<Rightarrow>
          let put = (\<lambda>k v out. case v of None \<Rightarrow> out | Some x \<Rightarrow> if x = [] then out else assign k (JStr x) out);
              base = put ''cacheTypeV'' (cache_type_v s) (put ''cacheTypeK'' (cache_type_k s)
                (assign ''ctxSize'' (JNum (whole_text (ctx_size s))) (load_settings row)))
          in (case map_of (stage_numbers s) ''ropeFreqBase'' of None \<Rightarrow> base | Some n \<Rightarrow> assign ''ropeFreqBase'' (JNum n) base))"

definition effective_settings :: "('a) model_row_scheme \<Rightarrow> settings" where
  "effective_settings row = settings_for_stage row (active_stage_index row)"

text \<open>A number of at most two decimals, as it prints.\<close>

definition hundredths_text :: "int \<Rightarrow> js_string" where
  "hundredths_text h =
     (let w = digits (nat (h div 100)); f = nat (h mod 100) in
      if f = 0 then w
      else if f mod 10 = 0 then w @ ''.'' @ digits (f div 10)
      else w @ ''.'' @ (if f < 10 then ''0'' else []) @ digits f)"

definition yarn_lines :: "('a) model_row_scheme \<Rightarrow> nat \<Rightarrow> js_string list" where
  "yarn_lines row i =
     (case stage_at row i of
        None \<Rightarrow> []
      | Some s \<Rightarrow>
          (case yarn_factor_of s (row_meta row) of
             None \<Rightarrow> []
           | Some f \<Rightarrow>
               let given = (\<lambda>k flag. case map_of (stage_numbers s) k of None \<Rightarrow> [] | Some n \<Rightarrow> [setting_line flag n]) in
               [''rope-scaling = yarn'',
                setting_line ''rope-scale''
                  (case map_of (stage_numbers s) ''ropeScale'' of Some n \<Rightarrow> n | None \<Rightarrow> hundredths_text \<lfloor>f * 100\<rfloor>)]
               @ (case original_context s (row_meta row) of
                    None \<Rightarrow> []
                  | Some c \<Rightarrow> if c = 0 then [] else [setting_line ''yarn-orig-ctx'' (whole_text c)])
               @ given ''extFactor'' ''yarn-ext-factor'' @ given ''attnFactor'' ''yarn-attn-factor''
               @ given ''betaSlow'' ''yarn-beta-slow'' @ given ''betaFast'' ''yarn-beta-fast''))"

text \<open>The window one request gets at each stage.\<close>

definition stage_windows :: "('a) model_row_scheme \<Rightarrow> rat option list" where
  "stage_windows row =
     map (\<lambda>(i, ctx). map_option (per_request_window (settings_for_stage row i)) ctx)
       (zip [0..<length (stage_contexts row)] (stage_contexts row))"

section \<open>Stages grow\<close>

lemma map_of_assign: "map_of (assign k v ms) = (map_of ms)(k \<mapsto> v)"
  by (induction k v ms rule: assign.induct) (auto simp: fun_upd_twist)

lemma stage_settings_keep:
  "k \<noteq> ''ctxSize'' \<Longrightarrow> k \<noteq> ''cacheTypeK'' \<Longrightarrow> k \<noteq> ''cacheTypeV'' \<Longrightarrow> k \<noteq> ''ropeFreqBase'' \<Longrightarrow>
   map_of (settings_for_stage row i) k = map_of (load_settings row) k"
  by (simp add: settings_for_stage_def Let_def map_of_assign split: option.split)

lemma same_window: "per_request_window (settings_for_stage row i) ctx = per_request_window (load_settings row) ctx"
  by (simp add: per_request_window_def number_setting_def stage_settings_keep)

lemma window_mono: "c \<le> d \<Longrightarrow> per_request_window s c \<le> per_request_window s d"
  by (auto simp: per_request_window_def Let_def split: option.split intro!: floor_mono divide_right_mono)

lemma stage_windows_map: "stage_windows row = map (map_option (per_request_window (load_settings row))) (stage_contexts row)"
proof -
  have "map (\<lambda>(i, ctx). map_option (per_request_window (settings_for_stage row i)) ctx) (zip is cs)
      = map (map_option (per_request_window (load_settings row))) cs" if "length is = length cs" for "is" cs
    using that by (induction "is" cs rule: list_induct2) (simp_all add: same_window)
  from this [of "[0..<length (stage_contexts row)]" "stage_contexts row"] show ?thesis by (simp add: stage_windows_def)
qed

lemma read_stage_larger: "read_stage meta n previous e = Inr s \<Longrightarrow> previous < ctx_size s"
  by (auto simp: read_stage_def split: json.splits if_splits)

lemma read_stages_larger:
  "read_stages meta n previous es = Inr ss \<Longrightarrow> sorted_wrt (<) (previous # map ctx_size ss) \<and> length ss = length es"
proof (induction es arbitrary: n previous ss)
  case (Cons e es)
  obtain s ss' where s: "read_stage meta n previous e = Inr s" "read_stages meta (Suc n) (ctx_size s) es = Inr ss'" "ss = s # ss'"
    using Cons.prems by auto
  then show ?case using Cons.IH [OF s(2)] read_stage_larger [OF s(1)] by (auto intro: less_trans)
qed simp

lemma stages_of_read:
  "stages_of v enabled meta base = Inr ss \<Longrightarrow>
   \<exists>raws. read_stages meta 1 (case standard_context base meta of Some x \<Rightarrow> x | None \<Rightarrow> 0) raws = Inr ss \<and> length raws \<le> MAX_STAGES"
  by (cases v) (auto simp: stages_of_def not_less split: if_split_asm)

lemma normalized_stages:
  assumes "normalize_context_stages raw meta base = Inr (Some c)"
  shows "sorted_wrt (<) ((case standard_context base meta of Some x \<Rightarrow> x | None \<Rightarrow> 0) # map ctx_size (sc_stages c))
     \<and> length (sc_stages c) \<le> MAX_STAGES"
proof -
  have "\<exists>v enabled. stages_of v enabled meta base = Inr (sc_stages c)"
    using assms by (auto simp: normalize_context_stages_def split: option.split_asm json.split_asm) blast
  then obtain raws where "read_stages meta 1 (case standard_context base meta of Some x \<Rightarrow> x | None \<Rightarrow> 0) raws = Inr (sc_stages c)"
    "length raws \<le> MAX_STAGES"
    using stages_of_read by blast
  then show ?thesis using read_stages_larger by (metis (no_types, lifting))
qed

text \<open>A stage's numbers are numbers, whatever name they came under.\<close>

definition all_numbers :: "context_stage \<Rightarrow> bool" where
  "all_numbers s \<longleftrightarrow> list_all (\<lambda>(_, t). numeral_of t \<noteq> None) (stage_numbers s)"

lemma stage_entry_numbers: "stage_entry meta n kv s = Inr s' \<Longrightarrow> all_numbers s \<Longrightarrow> all_numbers s'"
  by (cases kv; cases "snd kv")
    (auto simp: stage_entry_def all_numbers_def number_in_range_def whole_between_def split: if_split_asm option.split_asm)

lemma read_stage_numbers:
  assumes "read_stage meta n previous e = Inr s"
  shows "all_numbers s"
proof -
  have "stage_entries meta n kvs s0 = Inr s' \<Longrightarrow> all_numbers s0 \<Longrightarrow> all_numbers s'" for kvs s0 s'
    by (induction kvs arbitrary: s0) (auto intro: stage_entry_numbers)
  moreover have "all_numbers \<lparr>ctx_size = 0, stage_numbers = [], cache_type_k = None, cache_type_v = None\<rparr>"
    by (simp add: all_numbers_def)
  ultimately show ?thesis using assms by (auto simp: read_stage_def split: json.split_asm if_split_asm)
qed

lemma read_stages_numbers: "read_stages meta n previous es = Inr ss \<Longrightarrow> list_all all_numbers ss"
  by (induction es arbitrary: n previous ss) (auto intro: read_stage_numbers)

lemma row_numbers: "row_stages row = Some c \<Longrightarrow> list_all all_numbers (sc_stages c)"
proof -
  assume "row_stages row = Some c"
  then have "normalize_context_stages (context_stages row) (row_meta row) (load_settings row) = Inr (Some c)"
    by (auto simp: row_stages_def split: sum.splits option.splits if_splits)
  then have "\<exists>v enabled. stages_of v enabled (row_meta row) (load_settings row) = Inr (sc_stages c)"
    by (auto simp: normalize_context_stages_def split: option.split_asm json.split_asm) blast
  then show ?thesis using stages_of_read read_stages_numbers by (metis (no_types, lifting))
qed

text \<open>The known ones of a list of figures.\<close>

definition known_values :: "'a option list \<Rightarrow> 'a list" where
  "known_values = List.map_filter id"

lemma known_values_simps [simp]: "known_values [] = []" "known_values (Some x # xs) = x # known_values xs"
  "known_values (None # xs) = known_values xs"
  by (simp_all add: known_values_def map_filter_simps)

lemma set_known_values [simp]: "x \<in> set (known_values xs) \<longleftrightarrow> Some x \<in> set xs"
  by (induction xs) (auto simp: known_values_def map_filter_simps split: option.split)

lemma known_values_all [simp]: "known_values (map (\<lambda>x. Some (f x)) xs) = map f xs"
  by (induction xs) simp_all

lemma contexts_grow: "sorted_wrt (<) (known_values (stage_contexts row))"
proof (cases "row_stages row")
  case None
  then show ?thesis by (cases "standard_context (load_settings row) (row_meta row)") (simp_all add: stage_contexts_def)
next
  case (Some c)
  then have "normalize_context_stages (context_stages row) (row_meta row) (load_settings row) = Inr (Some c)"
    by (auto simp: row_stages_def split: sum.splits option.splits if_splits)
  from normalized_stages [OF this] Some show ?thesis
    by (cases "standard_context (load_settings row) (row_meta row)") (simp_all add: stage_contexts_def)
qed

lemma known_map: "known_values (map (map_option f) xs) = map f (known_values xs)"
  by (induction xs) (auto simp: known_values_def map_filter_simps split: option.split)

text \<open>
  C30: The stages of a model, as they are read from its row whatever is stored there, are at most six, each with a larger context
  than the one before, the standard one included when it is known; the windows one request gets never shrink from one stage to
  the next; and the active stage is one of them.
\<close>

theorem stages_grow:
  "sorted_wrt (<) (known_values (stage_contexts row)) \<and> sorted (known_values (stage_windows row))
   \<and> length (stage_windows row) = Suc (stage_count row) \<and> stage_count row \<le> MAX_STAGES
   \<and> active_stage_index row \<le> stage_count row \<and> list_all (\<lambda>w. w \<noteq> None) (tl (stage_windows row))"
proof (intro conjI)
  show "sorted_wrt (<) (known_values (stage_contexts row))" by (rule contexts_grow)
  have "sorted (map f xs)" if "sorted_wrt (<) xs" "mono f" for f :: "rat \<Rightarrow> rat" and xs
    using that by (induction xs) (auto dest: monoD less_imp_le)
  then show "sorted (known_values (stage_windows row))"
    using contexts_grow [of row] window_mono by (simp add: stage_windows_map known_map mono_def)
  show "length (stage_windows row) = Suc (stage_count row)" "list_all (\<lambda>w. w \<noteq> None) (tl (stage_windows row))"
    by (auto simp: stage_windows_map stage_contexts_def stage_count_def list_all_iff split: option.split)
  show "stage_count row \<le> MAX_STAGES"
    by (auto simp: stage_count_def row_stages_def dest: normalized_stages split: sum.splits option.splits if_splits)
  show "active_stage_index row \<le> stage_count row"
    by (auto simp: active_stage_index_def stage_count_def split: option.split)
qed

text \<open>A key that every object has is taken for a number of the stage and kept, whatever it says.\<close>

lemma object_members_pass:
  "normalize_context_stages
     (Some (JObj [(''enabled'', JBool True), (''stages'', JArr [JObj [(''ctxSize'', JNum ''8192''), (''toString'', JNum ''7'')]])]))
     \<lparr>n_layers = None, n_ctx_train = Some 4, lookup_tbl = NoTable\<rparr> []
   = Inr (Some \<lparr>sc_enabled = True, who_may = Everyone, full_means = WhenCompact,
       sc_stages = [\<lparr>ctx_size = 8192, stage_numbers = [(''toString'', ''7'')], cache_type_k = None, cache_type_v = None\<rparr>]\<rparr>)"
  by code_simp

end
