(* ===== verification/Preset.thy ===== *)
theory Preset
  imports ExtraOptions ContextStages
begin

text \<open>
  The file the llama.cpp router reads its models from (\<open>llama/preset.ts\<close>, \<open>llama/paths.ts\<close>): one section a model, made of the
  settings, the stage and the admin's own options. Paths are those of a POSIX host.
\<close>

section \<open>Where a model's files are\<close>

datatype preset_error = LineBreak | OutsideModels | OutsideDir | BadRevision

text \<open>An absolute path as its segments, and \<open>path.resolve\<close> of one more.\<close>

definition resolve_segment :: "js_string \<Rightarrow> js_string list \<Rightarrow> js_string list" where
  "resolve_segment s segs =
     (if s = [] \<or> s = ''.'' then segs else if s = ''..'' then butlast segs else segs @ [s])"

definition resolve_path :: "js_string list \<Rightarrow> js_string \<Rightarrow> js_string list" where
  "resolve_path segs p = fold resolve_segment (split_on (CHR ''/'') p) segs"

definition path_text :: "js_string list \<Rightarrow> js_string" where
  "path_text segs = (if segs = [] then ''/'' else concat (map (\<lambda>s. CHR ''/'' # s) segs))"

definition repo_dir :: "js_string list \<Rightarrow> js_string \<Rightarrow> preset_error + js_string list" where
  "repo_dir base repo =
     (let dir = resolve_path base repo in
      if starts_with (path_text dir) (path_text base @ ''/'') then Inr dir else Inl OutsideModels)"

definition revision_char :: "char \<Rightarrow> bool" where
  "revision_char c \<longleftrightarrow> is_digit c \<or> in_range 97 102 c"

definition model_file_path :: "js_string list \<Rightarrow> js_string \<Rightarrow> js_string \<Rightarrow> js_string \<Rightarrow> preset_error + js_string" where
  "model_file_path base repo revision file =
     (if \<not> (list_all revision_char revision \<and> 7 \<le> length revision \<and> length revision \<le> 64) then Inl BadRevision
      else seq_sum (repo_dir base repo) (\<lambda>rd.
        let dir = rd @ [take 12 revision]; full = resolve_path dir file in
        if starts_with (path_text full) (path_text dir @ ''/'') then Inr (path_text full) else Inl OutsideDir))"

section \<open>Names\<close>

definition safe_value :: "js_string \<Rightarrow> preset_error + js_string" where
  "safe_value v = (if CR \<in> set v \<or> NL \<in> set v then Inl LineBreak else Inr v)"

text \<open>\<open>owner/repo:QUANT\<close>.\<close>

definition is_safe_section_name :: "js_string \<Rightarrow> bool" where
  "is_safe_section_name s \<longleftrightarrow>
     (let owner = takeWhile key_char s; r = dropWhile key_char s;
          repo = takeWhile key_char (tl r); q = dropWhile key_char (tl r)
      in owner \<noteq> [] \<and> r \<noteq> [] \<and> hd r = CHR ''/'' \<and> repo \<noteq> [] \<and> q \<noteq> [] \<and> hd q = CHR '':'' \<and> tl q \<noteq> []
         \<and> list_all key_char (tl q))"

fun replace_first :: "char \<Rightarrow> char \<Rightarrow> js_string \<Rightarrow> js_string" where
  "replace_first a b [] = []"
| "replace_first a b (c # s) = (if c = a then b # s else c # replace_first a b s)"

definition router_model_name :: "js_string \<Rightarrow> js_string" where
  "router_model_name i = replace_first (CHR '':'') (CHR ''@'') i"

definition model_id_from_router_name :: "js_string \<Rightarrow> js_string" where
  "model_id_from_router_name n = (if CHR '':'' \<in> set n then n else replace_first (CHR ''@'') (CHR '':'') n)"

section \<open>The file\<close>

record mtp_head =
  mh_path :: js_string
  mh_revision :: js_string
  mh_status :: js_string

text \<open>The rest of a model's row: its files, the projector, the head and the stored options.\<close>

record preset_row = model_row +
  row_repo :: js_string
  row_revision :: js_string
  row_files :: "js_string list"
  row_mmproj :: "js_string option"
  row_own_mtp :: bool
  row_mtp_head :: "mtp_head option"
  row_extra :: json

datatype devices = Unchosen | CpuOnly | Chosen "js_string list"

record preset_globals =
  pg_devices :: devices
  pg_placement_log :: bool
  pg_options :: "option_list option"
  pg_extra :: "extra_option list"
  pg_slot_path :: "js_string option"

definition mtp_source_of :: "('a) preset_row_scheme \<Rightarrow> mtp_source option" where
  "mtp_source_of row =
     (if row_own_mtp row then Some Embedded
      else case row_mtp_head row of
        None \<Rightarrow> None
      | Some h \<Rightarrow>
          if mh_status h = ''failed'' then None else Some (if mh_status h = ''ready'' then Head else HeadPending))"

definition mtp_draft :: "js_string list \<Rightarrow> ('a) preset_row_scheme \<Rightarrow> preset_error + js_string option option" where
  "mtp_draft base row =
     (case (mtp_source_of row, row_mtp_head row) of
        (Some Embedded, _) \<Rightarrow> Inr (Some None)
      | (Some Head, Some h) \<Rightarrow>
          seq_sum (model_file_path base (row_repo row) (mh_revision h) (mh_path h)) (\<lambda>p.
            map_sum id (\<lambda>v. Some (Some v)) (safe_value p))
      | _ \<Rightarrow> Inr None)"

definition stage_settings :: "preset_globals \<Rightarrow> ('a) preset_row_scheme \<Rightarrow> settings" where
  "stage_settings g row =
     (let s = settings_for_stage row (active_stage_index row) in
      if pg_devices g = CpuOnly then assign ''gpuLayers'' (JNum ''0'') s else s)"

definition model_section :: "js_string list \<Rightarrow> preset_globals \<Rightarrow> ('a) preset_row_scheme \<Rightarrow> preset_error + js_string list" where
  "model_section base g row =
     (if row_files row = [] \<or> \<not> is_safe_section_name (row_id row) then Inr []
      else seq_sum (seq_sum (model_file_path base (row_repo row) (row_revision row) (hd (row_files row))) safe_value) (\<lambda>f.
        seq_sum (case row_mmproj row of
            None \<Rightarrow> Inr None
          | Some m \<Rightarrow> map_sum id Some (seq_sum (model_file_path base (row_repo row) (row_revision row) m) safe_value)) (\<lambda>eyes.
        seq_sum (mtp_draft base row) (\<lambda>draft.
          Inr ([''['' @ router_model_name (row_id row) @ '']'', setting_line ''model'' f]
            @ preset_lines (stage_settings g row) eyes (row_meta row) draft
            @ yarn_lines row (active_stage_index row)
            @ fst (extra_option_lines (coerce_extra_options (row_extra row)) (pg_options g)))))))"

fun model_sections :: "js_string list \<Rightarrow> preset_globals \<Rightarrow> ('a) preset_row_scheme list \<Rightarrow> preset_error + js_string list" where
  "model_sections base g [] = Inr []"
| "model_sections base g (row # rows) =
     seq_sum (model_section base g row) (\<lambda>ls.
       map_sum id (\<lambda>more. (if ls = [] then [] else [] # ls) @ more) (model_sections base g rows))"

definition preset_head :: "preset_globals \<Rightarrow> js_string list" where
  "preset_head g =
     [''; Written by Loxaic '' @ [CHR 0x97] @ '' edits are overwritten. Change model settings in'',
      ''; Settings > Host models instead.'', ''version = 1'', [], ''[*]'', ''jinja = true'']
     @ (if pg_placement_log g then [''log-verbosity = 4''] else [])"

definition device_lines :: "preset_globals \<Rightarrow> js_string list" where
  "device_lines g =
     (case pg_devices g of
        CpuOnly \<Rightarrow> [''device = none'', ''n-gpu-layers = 0'']
      | Chosen ds \<Rightarrow> if ds = [] then [] else [setting_line ''device'' (join '','' ds)]
      | Unchosen \<Rightarrow> [])"

definition slot_lines :: "preset_globals \<Rightarrow> preset_error + js_string list" where
  "slot_lines g =
     (case pg_slot_path g of
        Some p \<Rightarrow> if p = [] then Inr [] else map_sum id (\<lambda>v. [setting_line ''slot-save-path'' v]) (safe_value p)
      | None \<Rightarrow> Inr [])"

definition preset_body :: "js_string list \<Rightarrow> preset_globals \<Rightarrow> ('a) preset_row_scheme list \<Rightarrow> preset_error + js_string list" where
  "preset_body base g rows =
     seq_sum (slot_lines g) (\<lambda>slots.
       map_sum id (\<lambda>sections.
           preset_head g @ slots @ device_lines g @ fst (extra_option_lines (pg_extra g) (pg_options g)) @ sections)
         (model_sections base g rows))"

definition render_preset :: "js_string list \<Rightarrow> preset_globals \<Rightarrow> ('a) preset_row_scheme list \<Rightarrow> preset_error + js_string" where
  "render_preset base g rows = map_sum id (\<lambda>ls. join [NL] ls @ [NL]) (preset_body base g rows)"

definition sections_by_id ::
    "js_string list \<Rightarrow> preset_globals \<Rightarrow> ('a) preset_row_scheme list \<Rightarrow> (js_string \<times> (preset_error + js_string)) list" where
  "sections_by_id base g rows = map (\<lambda>r. (row_id r, map_sum id (join [NL]) (model_section base g r))) rows"

section \<open>Names come back\<close>

lemma key_char_marks: "\<not> key_char (CHR '':'')" "\<not> key_char (CHR ''@'')" "\<not> key_char (CHR ''/'')" "\<not> key_char NL" "\<not> key_char SP"
  by (simp_all add: key_char_def alnum_def is_upper_def is_lower_def is_digit_def in_range_def)

lemma key_chars: "list_all key_char w \<Longrightarrow> CHR '':'' \<notin> set w \<and> CHR ''@'' \<notin> set w \<and> NL \<notin> set w"
  using key_char_marks by (auto simp: list_all_iff)

lemma safe_name_parts:
  assumes "is_safe_section_name i"
  obtains a b c where "i = a @ ''/'' @ b @ '':'' @ c" "list_all key_char a" "list_all key_char b" "list_all key_char c"
proof -
  define a r where "a = takeWhile key_char i" and "r = dropWhile key_char i"
  define b q where "b = takeWhile key_char (tl r)" and "q = dropWhile key_char (tl r)"
  have h: "r \<noteq> []" "hd r = CHR ''/''" "q \<noteq> []" "hd q = CHR '':''" "list_all key_char (tl q)"
    using assms by (simp_all add: is_safe_section_name_def Let_def a_def r_def b_def q_def)
  have "i = a @ r" "tl r = b @ q" by (simp_all add: a_def r_def b_def q_def)
  moreover have "r = CHR ''/'' # tl r" "q = CHR '':'' # tl q" using h by (metis list.collapse)+
  ultimately have "i = a @ ''/'' @ b @ '':'' @ tl q" by (metis append_Cons append_Nil)
  moreover have "list_all key_char a" "list_all key_char b" by (auto simp: a_def b_def list_all_iff dest: set_takeWhileD)
  ultimately show ?thesis using that h(5) by blast
qed

lemma replace_first_app: "x \<notin> set s \<Longrightarrow> replace_first x y (s @ x # t) = s @ y # t"
  by (induction s) auto

lemma router_name_of_safe:
  "list_all key_char a \<Longrightarrow> list_all key_char b \<Longrightarrow> router_model_name (a @ ''/'' @ b @ '':'' @ c) = a @ ''/'' @ b @ ''@'' @ c"
  using replace_first_app [of "CHR '':''" "a @ ''/'' @ b" "CHR ''@''" c] key_chars by (simp add: router_model_name_def)

text \<open>The router's name of a model leads back to it, so two models never share one.\<close>

lemma router_name_back: "is_safe_section_name i \<Longrightarrow> model_id_from_router_name (router_model_name i) = i"
proof (elim safe_name_parts)
  fix a b c assume i: "i = a @ ''/'' @ b @ '':'' @ c" and k: "list_all key_char a" "list_all key_char b" "list_all key_char c"
  have n: "router_model_name i = a @ ''/'' @ b @ ''@'' @ c" unfolding i by (rule router_name_of_safe [OF k(1,2)])
  show ?thesis
    unfolding n using replace_first_app [of "CHR ''@''" "a @ ''/'' @ b" "CHR '':''" c] key_chars [OF k(1)] key_chars [OF k(2)] key_chars [OF k(3)]
    by (simp add: i model_id_from_router_name_def)
qed

lemma router_name_one_line: "is_safe_section_name i \<Longrightarrow> single_line (router_model_name i)"
proof (elim safe_name_parts)
  fix a b c assume i: "i = a @ ''/'' @ b @ '':'' @ c" and k: "list_all key_char a" "list_all key_char b" "list_all key_char c"
  have n: "router_model_name i = a @ ''/'' @ b @ ''@'' @ c" unfolding i by (rule router_name_of_safe [OF k(1,2)])
  show ?thesis unfolding n using key_chars k by simp
qed

section \<open>Every line is one that was meant\<close>

definition OWN_KEYS :: "js_string list" where
  "OWN_KEYS = [''version'', ''jinja'', ''log-verbosity'', ''slot-save-path'', ''device'', ''n-gpu-layers'', ''model'', ''lazy-mode'', ''load-mode'',
     ''spec-type'', ''spec-draft-model'', ''spec-draft-n-max'', ''mmproj'', ''rope-scaling'', ''rope-scale'', ''yarn-orig-ctx'',
     ''yarn-ext-factor'', ''yarn-attn-factor'', ''yarn-beta-slow'', ''yarn-beta-fast''] @ map ls_flag LOAD_SETTINGS"

text \<open>A line that sets one of the keys the code writes itself, and one that sets a key an admin may.\<close>

lemma set_setting_line [simp]: "set (setting_line k v) = set k \<union> {SP, CHR ''=''} \<union> set v"
  by (auto simp: setting_line_def)

lemma map_sum_Inr [simp]: "map_sum id f m = Inr x \<longleftrightarrow> (\<exists>a. m = Inr a \<and> x = f a)"
  by (cases m) auto

definition own_line :: "js_string \<Rightarrow> bool" where
  "own_line l \<longleftrightarrow> (\<exists>k v. l = setting_line k v \<and> k \<in> set OWN_KEYS \<and> single_line k \<and> single_line v)"

definition free_line :: "js_string \<Rightarrow> bool" where
  "free_line l \<longleftrightarrow> (\<exists>k v. l = setting_line k v \<and> KEY k \<and> free_name k \<and> single_line v)"

lemma own_keys_reserved: "list_all (\<lambda>k. \<not> free_name k) OWN_KEYS"
  by code_simp

lemma own_lineI: "k \<in> set OWN_KEYS \<Longrightarrow> single_line k \<Longrightarrow> single_line v \<Longrightarrow> own_line (setting_line k v)"
  unfolding own_line_def by blast

lemma own_members: "list_all (\<lambda>k. k \<in> set OWN_KEYS \<and> single_line k) OWN_KEYS"
  by code_simp

lemma KEY_one_line: "KEY k \<Longrightarrow> single_line k"
proof -
  assume k: "KEY k"
  then have "list_all key_char (tl k)" "key_char (hd k)" "k = hd k # tl k" by (simp_all add: KEY_def key_char_def)
  then show ?thesis using key_chars [of k] by (metis list.pred_inject(2))
qed

lemma free_line_one_line: "free_line l \<Longrightarrow> single_line l"
  using KEY_one_line by (auto simp: free_line_def)

lemma own_line_one_line: "own_line l \<Longrightarrow> single_line l"
  by (auto simp: own_line_def)

lemma extra_lines_free: "list_all free_line (fst (extra_option_lines rows (map_option parse_help help_text)))"
proof (cases help_text)
  case None
  have "fst (option_lines \<lparr>groups = [], by_name = []\<rparr> seen rows) = []" for seen
  proof (induction rows arbitrary: seen)
    case (Cons r rows)
    have "\<not> row_accepted \<lparr>groups = [], by_name = []\<rparr> seen r" by (simp add: row_accepted_def)
    then show ?case using Cons [of seen] by (cases "option_lines \<lparr>groups = [], by_name = []\<rparr> seen rows") simp
  qed simp
  then show ?thesis by (simp add: None extra_option_lines_def)
next
  case (Some manual)
  have "free_line (line_of r)" if "settable (parse_help manual) r" for r
    using that by (auto simp: settable_def free_line_def line_of_def list_all_iff breaks_line_def split: option.splits)
  then show ?thesis
    using option_lines_settable [OF parse_help_wf, of manual "[]" rows]
    by (auto simp: Some extra_option_lines_def list_all_iff)
qed


lemma own_key [simp]: "k \<in> set OWN_KEYS \<Longrightarrow> single_line k"
  using own_members by (simp add: list_all_iff)

lemma setting_flag_own: "sp \<in> set LOAD_SETTINGS \<Longrightarrow> ls_flag sp \<in> set OWN_KEYS"
  by (simp add: OWN_KEYS_def)

lemma stored_one_line:
  assumes "list_all (setting_ok facts) valid" "map_of valid k = Some v"
  shows "single_line (js_text v)"
proof -
  have "setting_ok facts (k, v)" using assms map_of_SomeD by (fastforce simp: list_all_iff)
  then obtain s where "spec_of k = Some s" "check_value s v facts = Inr v" by (auto simp: setting_ok_def split: option.splits)
  then show ?thesis using checked_one_line spec_of_in by blast
qed

lemma fixed_lines_own:
  "list_all own_line [''lazy-mode = on'', ''lazy-mode = off'', ''load-mode = none'', ''spec-type = draft-mtp'', ''version = 1'',
     ''jinja = true'', ''log-verbosity = 4'', ''device = none'', ''n-gpu-layers = 0'', ''rope-scaling = yarn'']"
proof -
  have k: "list_all (\<lambda>k. k \<in> set OWN_KEYS)
     [''lazy-mode'', ''load-mode'', ''spec-type'', ''version'', ''jinja'', ''log-verbosity'', ''device'', ''n-gpu-layers'', ''rope-scaling'']"
    by code_simp
  show ?thesis
    using k
      own_lineI [of "''lazy-mode''" "''on''"] own_lineI [of "''lazy-mode''" "''off''"] own_lineI [of "''load-mode''" "''none''"]
      own_lineI [of "''spec-type''" "''draft-mtp''"] own_lineI [of "''version''" "''1''"] own_lineI [of "''jinja''" "''true''"]
      own_lineI [of "''log-verbosity''" "''4''"] own_lineI [of "''device''" "''none''"] own_lineI [of "''n-gpu-layers''" "''0''"]
      own_lineI [of "''rope-scaling''" "''yarn''"]
    by (simp add: setting_line_def)
qed


lemma more_own_keys:
  "list_all (\<lambda>k. k \<in> set OWN_KEYS) [''spec-draft-model'', ''spec-draft-n-max'', ''mmproj'', ''model'', ''slot-save-path'', ''device'',
     ''rope-scale'', ''yarn-orig-ctx'', ''yarn-ext-factor'', ''yarn-attn-factor'', ''yarn-beta-slow'', ''yarn-beta-fast'']"
  by code_simp

lemmas own_keys = more_own_keys [simplified list.pred_inject simp_thms]

lemma map_filter_all: "(\<And>x y. x \<in> set xs \<Longrightarrow> f x = Some y \<Longrightarrow> P y) \<Longrightarrow> list_all P (List.map_filter f xs)"
  by (induction xs) (auto simp: map_filter_simps split: option.split)

lemma preset_lines_own:
  assumes "\<And>f. eyes = Some f \<Longrightarrow> single_line f" "\<And>f. draft = Some (Some f) \<Longrightarrow> single_line f"
  shows "list_all own_line (preset_lines s eyes facts draft)"
proof -
  define valid where "valid = (case normalize_load_settings (Some (JObj s)) facts of Inr v \<Rightarrow> v | Inl _ \<Rightarrow> [])"
  have ok: "list_all (setting_ok facts) valid"
    using normalized_ok by (auto simp: valid_def split: sum.split)
  have own: "list_all own_line (List.map_filter (\<lambda>sp.
      if ls_group sp = Speculative \<or> ls_key sp = ''vision'' \<or> ls_key sp = ''tablePlacement'' then None
      else map_option (\<lambda>v. setting_line (ls_flag sp) (js_text v)) (map_of valid (ls_key sp))) LOAD_SETTINGS)"
    using setting_flag_own stored_one_line [OF ok] by (intro map_filter_all) (auto split: if_splits intro!: own_lineI)
  have number: "own_line (setting_line ''spec-draft-n-max'' n)" if "map_of valid ''mtpDraftMax'' = Some (JNum n)" for n
    using stored_one_line [OF ok that] own_keys by (intro own_lineI) auto
  have files: "own_line (setting_line ''mmproj'' f)" if "eyes = Some f" for f
    using assms(1) [OF that] own_keys by (intro own_lineI) auto
  have head: "own_line (setting_line ''spec-draft-model'' f)" if "draft = Some (Some f)" for f
    using assms(2) [OF that] own_keys by (intro own_lineI) auto
  note fixed = fixed_lines_own [simplified list.pred_inject]
  show ?thesis
    unfolding preset_lines_def Let_def valid_def [symmetric]
    using own fixed number files head
    by (auto split: lookup_table.split option.split json.split)
qed


lemma digits_one_line: "single_line (digits n)"
  using digits_digits [of n] by (auto simp: list_all_iff is_digit_def in_range_def)

lemma yarn_lines_own: "list_all own_line (yarn_lines row i)"
proof (cases "stage_at row i")
  case None
  then show ?thesis by (simp add: yarn_lines_def)
next
  case (Some s)
  then have "all_numbers s"
    using row_numbers by (fastforce simp: stage_at_def at_def list_all_iff split: nat.splits bind_splits if_splits)
  then have told: "single_line t" if "map_of (stage_numbers s) k = Some t" for k t
    using map_of_SomeD [OF that] number_one_line by (force simp: all_numbers_def list_all_iff)
  have given: "list_all own_line (case map_of (stage_numbers s) k of None \<Rightarrow> [] | Some n \<Rightarrow> [setting_line f n])"
    if "f \<in> set OWN_KEYS" for k f
    using that told by (auto split: option.split intro!: own_lineI)
  have h: "single_line (hundredths_text x)" "single_line (whole_text q)" for x q
    using digits_one_line by (simp_all add: hundredths_text_def whole_text_def Let_def)
  have scale: "own_line (setting_line ''rope-scale''
      (case map_of (stage_numbers s) ''ropeScale'' of Some n \<Rightarrow> n | None \<Rightarrow> hundredths_text x))" for x
    using told h own_keys by (intro own_lineI) (auto split: option.split)
  have orig: "own_line (setting_line ''yarn-orig-ctx'' (whole_text q))" for q
    using h own_keys by (intro own_lineI) auto
  note fixed = fixed_lines_own [simplified list.pred_inject]
  show ?thesis
    using scale orig given own_keys fixed
    by (simp add: yarn_lines_def Some Let_def split: option.split)
qed

lemma safe_value_one_line: "safe_value v = Inr w \<Longrightarrow> single_line w"
  by (auto simp: safe_value_def split: if_splits)

text \<open>What a section may hold, and that no line of it begins like a header but its first.\<close>

definition section_line :: "js_string \<Rightarrow> bool" where
  "section_line l \<longleftrightarrow> own_line l \<or> free_line l"

lemma own_first: "list_all (\<lambda>k. k \<noteq> [] \<and> hd k \<noteq> CHR ''['' \<and> hd k \<noteq> CHR '';'') OWN_KEYS"
  by code_simp

lemma setting_line_plain: "k \<noteq> [] \<Longrightarrow> hd k \<noteq> CHR ''['' \<Longrightarrow> \<not> starts_with (setting_line k v) ''[''"
  by (cases k) (simp_all add: starts_with_def setting_line_def)

lemma KEY_first: "KEY k \<Longrightarrow> k \<noteq> [] \<and> hd k \<noteq> CHR ''[''"
  by (auto simp: KEY_def alnum_def is_upper_def is_lower_def is_digit_def in_range_def)

lemma section_line_plain: "section_line l \<Longrightarrow> single_line l \<and> \<not> starts_with l ''[''"
  unfolding section_line_def
proof (elim disjE)
  assume l: "own_line l"
  then obtain k v where "l = setting_line k v" "k \<in> set OWN_KEYS" by (auto simp: own_line_def)
  then show ?thesis using own_first own_line_one_line [OF l] setting_line_plain [of k v] by (simp add: list_all_iff)
next
  assume l: "free_line l"
  then obtain k v where "l = setting_line k v" "KEY k" by (auto simp: free_line_def)
  then show ?thesis using free_line_one_line [OF l] setting_line_plain [of k v] KEY_first by blast
qed

definition shown_line :: "('a) preset_row_scheme \<Rightarrow> bool" where
  "shown_line row \<longleftrightarrow> row_files row \<noteq> [] \<and> is_safe_section_name (row_id row)"

definition header_of :: "('a) preset_row_scheme \<Rightarrow> js_string" where
  "header_of row = ''['' @ router_model_name (row_id row) @ '']''"

lemma mtp_draft_one_line: "mtp_draft base row = Inr (Some (Some f)) \<Longrightarrow> single_line f"
  by (auto simp: mtp_draft_def split: option.split_asm mtp_source.split_asm dest: safe_value_one_line)

lemma model_section_lines:
  assumes "model_section base g row = Inr ls" "pg_options g = map_option parse_help help_text"
  shows "if shown_line row then \<exists>more. ls = header_of row # more \<and> list_all section_line more else ls = []"
proof (cases "shown_line row")
  case False
  then show ?thesis using assms(1) by (auto simp: model_section_def shown_line_def)
next
  case True
  obtain p f eyes draft where f: "safe_value p = Inr f"
    and eyes: "(case row_mmproj row of None \<Rightarrow> Inr None
       | Some m \<Rightarrow> map_sum id Some (seq_sum (model_file_path base (row_repo row) (row_revision row) m) safe_value)) = Inr eyes"
    and draft: "mtp_draft base row = Inr draft"
    and ls: "ls = header_of row # setting_line ''model'' f
            # preset_lines (stage_settings g row) eyes (row_meta row) draft
            @ yarn_lines row (active_stage_index row)
            @ fst (extra_option_lines (coerce_extra_options (row_extra row)) (pg_options g))"
    using assms(1) True by (auto simp: model_section_def shown_line_def header_of_def)
  have "single_line q" if "eyes = Some q" for q
    using eyes that by (auto split: option.split_asm dest: safe_value_one_line)
  then have "list_all own_line (preset_lines (stage_settings g row) eyes (row_meta row) draft)"
    using draft mtp_draft_one_line by (intro preset_lines_own) auto
  moreover have "own_line (setting_line ''model'' f)"
    using safe_value_one_line [OF f] own_keys by (intro own_lineI) auto
  ultimately have "list_all section_line (tl ls)"
    using yarn_lines_own [of row "active_stage_index row"] extra_lines_free [of "coerce_extra_options (row_extra row)" help_text]
    by (auto simp: ls assms(2) section_line_def list_all_iff)
  then show ?thesis using True ls by simp
qed

abbreviation is_header :: "js_string \<Rightarrow> bool" where
  "is_header l \<equiv> starts_with l ''[''"

definition preset_line :: "js_string \<Rightarrow> bool" where
  "preset_line l \<longleftrightarrow> l = [] \<or> is_header l \<or> starts_with l '';'' \<or> section_line l"

lemma preset_line_simps [simp]: "preset_line []" "is_header l \<Longrightarrow> preset_line l" "\<not> is_header []"
  by (simp_all add: preset_line_def starts_with_def)

lemma header_plain: "shown_line row \<Longrightarrow> single_line (header_of row) \<and> is_header (header_of row)"
  using router_name_one_line by (simp add: header_of_def shown_line_def starts_with_def)

lemma plain_lines:
  "list_all section_line ls \<Longrightarrow> list_all single_line ls \<and> list_all preset_line ls \<and> filter is_header ls = []"
  using section_line_plain by (auto simp: list_all_iff preset_line_def filter_empty_conv)

lemma model_sections_lines:
  "model_sections base g rows = Inr ls \<Longrightarrow> pg_options g = map_option parse_help help_text \<Longrightarrow>
   list_all single_line ls \<and> list_all preset_line ls \<and> filter is_header ls = map header_of (filter shown_line rows)"
proof (induction rows arbitrary: ls)
  case (Cons row rows)
  obtain sec more where s: "model_section base g row = Inr sec" "model_sections base g rows = Inr more"
    "ls = (if sec = [] then [] else [] # sec) @ more"
    using Cons.prems(1) by auto
  have ih: "list_all single_line more \<and> list_all preset_line more \<and> filter is_header more = map header_of (filter shown_line rows)"
    by (rule Cons.IH [OF s(2) Cons.prems(2)])
  show ?case
  proof (cases "shown_line row")
    case True
    then obtain body where b: "sec = header_of row # body" "list_all section_line body"
      using model_section_lines [OF s(1) Cons.prems(2)] by auto
    then show ?thesis
      using ih plain_lines [OF b(2)] header_plain [OF True] True
      by (simp add: s(3))
  next
    case False
    then show ?thesis using ih model_section_lines [OF s(1) Cons.prems(2)] by (simp add: s(3))
  qed
qed simp


lemma join_lines_snoc: "ls \<noteq> [] \<Longrightarrow> join sep (ls @ [x]) = join sep ls @ sep @ x"
  by (induction sep ls rule: join.induct) simp_all

lemma split_rendered:
  assumes "ls \<noteq> []" "list_all single_line ls"
  shows "split_on NL (join [NL] ls @ [NL]) = ls @ [[]]"
proof -
  have "join [NL] ls @ [NL] = join [NL] (ls @ [[]])" using assms(1) by (simp add: join_lines_snoc)
  moreover have "\<forall>w\<in>set (ls @ [[]]). single_line w" using assms(2) by (simp add: list_all_iff)
  ultimately show ?thesis using split_on_join [of "ls @ [[]]" NL] by simp
qed

lemma join_set: "set (join sep xs) \<subseteq> set sep \<union> \<Union> (set ` set xs)"
  by (induction sep xs rule: join.induct) auto

definition device_names :: "preset_globals \<Rightarrow> js_string list" where
  "device_names g = (case pg_devices g of Chosen ds \<Rightarrow> ds | _ \<Rightarrow> [])"

lemma head_lines:
  "list_all single_line (preset_head g) \<and> list_all preset_line (preset_head g) \<and> filter is_header (preset_head g) = [''[*]'']"
proof -
  note fixed = fixed_lines_own [simplified list.pred_inject]
  have "section_line ''version = 1''" "section_line ''jinja = true''" "section_line ''log-verbosity = 4''"
    using fixed by (simp_all add: section_line_def)
  then show ?thesis by (simp add: preset_head_def preset_line_def starts_with_def)
qed

lemma device_lines_own: "list_all single_line (device_names g) \<Longrightarrow> list_all section_line (device_lines g)"
proof -
  assume d: "list_all single_line (device_names g)"
  have "own_line (setting_line ''device'' (join '','' ds))" if "pg_devices g = Chosen ds" for ds
    using d that join_set [of "'',''" ds] own_keys by (intro own_lineI) (auto simp: device_names_def list_all_iff)
  then show ?thesis
    using fixed_lines_own [simplified list.pred_inject] by (simp add: device_lines_def section_line_def split: devices.split)
qed

lemma slot_lines_own: "slot_lines g = Inr ls \<Longrightarrow> list_all section_line ls"
  using own_keys safe_value_one_line
  by (auto simp: slot_lines_def section_line_def split: option.split_asm if_split_asm intro!: own_lineI)

text \<open>
  C17: The file the router reads has, split at its line ends, no line but the ones that were meant: blank, a comment, the header of
  the defaults or of a model that is shown_line, in their order and each once, or \<open>key = value\<close> with a key the code writes itself or
  one an admin may set, and the two kinds of keys have none in common. Nothing an admin, a model's file or a repository is called
  can begin a line of its own.
\<close>

theorem preset_has_only_its_lines:
  assumes "render_preset base g rows = Inr written" "pg_options g = map_option parse_help manual" "list_all single_line (device_names g)"
  shows "list_all preset_line (split_on NL written)
     \<and> filter is_header (split_on NL written) = ''[*]'' # map header_of (filter shown_line rows)
     \<and> list_all (\<lambda>k. \<not> free_name k) OWN_KEYS"
proof -
  obtain slots sections where s: "slot_lines g = Inr slots" "model_sections base g rows = Inr sections"
    and w: "written = join [NL] (preset_head g @ (slots @ device_lines g @ fst (extra_option_lines (pg_extra g) (pg_options g))) @ sections) @ [NL]"
    using assms(1) by (auto simp: render_preset_def preset_body_def)
  define mid where "mid = slots @ device_lines g @ fst (extra_option_lines (pg_extra g) (pg_options g))"
  have "list_all section_line mid"
    using slot_lines_own [OF s(1)] device_lines_own [OF assms(3)] extra_lines_free [of "pg_extra g" manual]
    by (auto simp: mid_def assms(2) section_line_def list_all_iff)
  note mid = plain_lines [OF this]
  note sections = model_sections_lines [OF s(2) assms(2)]
  have "split_on NL written = (preset_head g @ mid @ sections) @ [[]]"
    unfolding w mid_def [symmetric] using mid sections head_lines [of g]
    by (intro split_rendered) (simp_all add: preset_head_def)
  then show ?thesis using mid sections head_lines [of g] own_keys_reserved by simp
qed

definition sample_row :: preset_row where
  "sample_row =
     \<lparr>row_id = ''o/r:Q4'', context_stages = None, row_meta = \<lparr>n_layers = None, n_ctx_train = None, lookup_tbl = Unread\<rparr>,
      load_settings = [(''ctxSize'', JNum ''4096'')], active_stage = 0, row_repo = ''o/r'', row_revision = ''0a1b2c3'',
      row_files = [''m.gguf''], row_mmproj = None, row_own_mtp = False, row_mtp_head = None,
      row_extra = JArr [JObj [(''key'', JStr ''keep''), (''value'', JStr ''5'')], JObj [(''key'', JStr ''x''), (''value'', JStr ([NL] @ ''[y]''))]]\<rparr>"

definition sample_globals :: preset_globals where
  "sample_globals =
     \<lparr>pg_devices = Chosen [''GPU0''], pg_placement_log = False, pg_options = Some (parse_help ''--keep N  x''), pg_extra = [], pg_slot_path = None\<rparr>"

theorem preset_has_only_its_lines_witness:
  "render_preset [''m''] sample_globals [sample_row] =
     Inr (join [NL] (preset_head sample_globals @ [''device = GPU0'', [], ''[o/r@Q4]'', ''model = /m/o/r/0a1b2c3/m.gguf'', ''ctx-size = 4096'',
       ''keep = 5'']) @ [NL])
   \<and> filter is_header (split_on NL (join [NL] (preset_head sample_globals @ [''device = GPU0'', [], ''[o/r@Q4]'',
       ''model = /m/o/r/0a1b2c3/m.gguf'', ''ctx-size = 4096'', ''keep = 5'']) @ [NL])) = [''[*]'', ''[o/r@Q4]'']"
proof -
  have r: "render_preset [''m''] sample_globals [sample_row] =
     Inr (join [NL] (preset_head sample_globals @ [''device = GPU0'', [], ''[o/r@Q4]'', ''model = /m/o/r/0a1b2c3/m.gguf'', ''ctx-size = 4096'',
       ''keep = 5'']) @ [NL])"
    by code_simp
  have "pg_options sample_globals = map_option parse_help (Some ''--keep N  x'')" "list_all single_line (device_names sample_globals)"
    by (simp_all add: sample_globals_def device_names_def)
  note h = preset_has_only_its_lines [OF r this]
  have "''[*]'' # map header_of (filter shown_line [sample_row]) = [''[*]'', ''[o/r@Q4]'']" by code_simp
  then show ?thesis using r h by (simp only:)
qed

end
