(* ===== verification/Fit.thy ===== *)
theory Fit
  imports ContextStages
begin

text \<open>
  What a model needs in memory (\<open>llama/shape.ts\<close>, \<open>llama/fit.ts\<close>): the attention layout read from the keys of a file's header,
  which anyone may have written, the cost of it at a context, and the label shown_line for it. Doubles are rationals.
\<close>

section \<open>The layout in a header\<close>

text \<open>A key's value: a number, finite or not, a list of either, or something else.\<close>

datatype scalar = Number "rat option" | Bool bool | Text js_string | Numbers "rat option list" | Bools "bool list"

type_synonym header = "(js_string \<times> scalar) list"

text \<open>KV heads, one figure or one a layer.\<close>

datatype kv_heads = Same rat | PerLayer "rat list"

record model_shape =
  ms_layers :: rat
  ms_heads :: "rat option"
  ms_kv_heads :: kv_heads
  key_length :: rat
  value_length :: rat
  key_length_swa :: "rat option"
  value_length_swa :: "rat option"
  sliding_window :: "rat option"
  swa_layers :: "bool list option"
  shared_kv_layers :: rat
  full_attention_interval :: "rat option"
  recurrent_bytes :: rat
  rope_scaling :: "(js_string option \<times> rat option \<times> rat option) option"

definition num :: "scalar option \<Rightarrow> rat option" where
  "num v = (case v of Some (Number (Some x)) \<Rightarrow> Some x | _ \<Rightarrow> None)"

definition pos :: "scalar option \<Rightarrow> rat option" where
  "pos v = (case num v of Some x \<Rightarrow> if 0 < x then Some x else None | None \<Rightarrow> None)"

definition nonneg :: "scalar option \<Rightarrow> rat option" where
  "nonneg v = (case num v of Some x \<Rightarrow> if 0 \<le> x then Some x else None | None \<Rightarrow> None)"

definition counts :: "scalar option \<Rightarrow> rat list option" where
  "counts v =
     (case v of
        Some (Numbers xs) \<Rightarrow> if list_all (\<lambda>x. case x of Some y \<Rightarrow> 0 \<le> y | None \<Rightarrow> False) xs then Some (List.map_filter id xs) else None
      | _ \<Rightarrow> None)"

definition or_value :: "'a option \<Rightarrow> 'a \<Rightarrow> 'a" where
  "or_value x d = (case x of Some y \<Rightarrow> y | None \<Rightarrow> d)"

definition first_of :: "'a option \<Rightarrow> 'a option \<Rightarrow> 'a option" where
  "first_of x y = (case x of Some _ \<Rightarrow> x | None \<Rightarrow> y)"

definition kv_heads_of :: "scalar option \<Rightarrow> kv_heads option" where
  "kv_heads_of v = (case counts v of Some xs \<Rightarrow> Some (PerLayer xs) | None \<Rightarrow> map_option Same (nonneg v))"

text \<open>\<open>(i + 1) % n !== 0\<close>.\<close>

definition not_every :: "rat \<Rightarrow> nat \<Rightarrow> bool" where
  "not_every n i \<longleftrightarrow> \<not> is_integer (of_nat (Suc i) / n)"

definition swa_layers_of :: "header \<Rightarrow> rat \<Rightarrow> rat option \<Rightarrow> bool list option" where
  "swa_layers_of k layers window =
     (if window = None then None
      else case map_of k ''attention.sliding_window_pattern'' of
        Some (Bools bs) \<Rightarrow> Some bs
      | Some (Numbers []) \<Rightarrow> Some []
      | v \<Rightarrow> map_option (\<lambda>n. map (not_every n) [0..<nat \<lfloor>layers\<rfloor>]) (pos v))"

definition recurrent_of :: "header \<Rightarrow> rat \<Rightarrow> rat" where
  "recurrent_of k layers =
     (case (pos (map_of k ''ssm.state_size''), pos (map_of k ''ssm.inner_size'')) of
        (Some state, Some inner) \<Rightarrow>
          let groups = or_value (pos (map_of k ''ssm.group_count'')) 1;
              recurrent = (case pos (map_of k ''full_attention_interval'') of
                  Some n \<Rightarrow> layers - of_int \<lfloor>layers / n\<rfloor> | None \<Rightarrow> layers);
              per_layer = state * inner * 4 + (case pos (map_of k ''ssm.conv_kernel'') of
                  Some c \<Rightarrow> (c - 1) * (inner + 2 * groups * state) * 4 | None \<Rightarrow> 0)
          in recurrent * per_layer
      | _ \<Rightarrow> 0)"

definition rope_scaling_of :: "header \<Rightarrow> (js_string option \<times> rat option \<times> rat option) option" where
  "rope_scaling_of k =
     (let ty = (case map_of k ''rope.scaling.type'' of Some (Text s) \<Rightarrow> Some s | _ \<Rightarrow> None);
          f = num (map_of k ''rope.scaling.factor''); orig = num (map_of k ''rope.scaling.original_context_length'');
          truthy = (\<lambda>x. x \<noteq> None \<and> x \<noteq> Some 0)
      in if (ty \<noteq> None \<and> ty \<noteq> Some []) \<or> truthy f \<or> truthy orig then Some (ty, f, orig) else None)"

definition key_size :: "header \<Rightarrow> rat option" where
  "key_size k =
     first_of (pos (map_of k ''attention.key_length''))
       (case (pos (map_of k ''embedding_length''), pos (map_of k ''attention.head_count'')) of
          (Some e, Some n) \<Rightarrow> Some (e / n) | _ \<Rightarrow> None)"

definition value_size :: "header \<Rightarrow> rat option" where
  "value_size k = first_of (pos (map_of k ''attention.value_length'')) (key_size k)"

definition shape_from_keys :: "header \<Rightarrow> model_shape option" where
  "shape_from_keys k =
     (case (pos (map_of k ''block_count''), kv_heads_of (map_of k ''attention.head_count_kv''), key_size k, value_size k) of
           (Some blocks, Some kv, Some kl, Some vl) \<Rightarrow>
             let layers = max 1 (blocks - or_value (nonneg (map_of k ''nextn_predict_layers'')) 0);
                 window = pos (map_of k ''attention.sliding_window'')
             in Some \<lparr>ms_layers = layers, ms_heads = pos (map_of k ''attention.head_count''), ms_kv_heads = kv, key_length = kl, value_length = vl,
                  key_length_swa = pos (map_of k ''attention.key_length_swa''),
                  value_length_swa = pos (map_of k ''attention.value_length_swa''),
                  sliding_window = window, swa_layers = swa_layers_of k layers window,
                  shared_kv_layers = or_value (nonneg (map_of k ''attention.shared_kv_layers'')) 0,
                  full_attention_interval = pos (map_of k ''full_attention_interval''),
                  recurrent_bytes = recurrent_of k layers, rope_scaling = rope_scaling_of k\<rparr>
         | _ \<Rightarrow> None)"

section \<open>What it costs\<close>

definition CACHE_BYTES :: "(js_string \<times> rat) list" where
  "CACHE_BYTES = [(''f32'', 4), (''f16'', 2), (''bf16'', 2), (''q8_0'', 17 / 16), (''q5_1'', 3 / 4), (''q5_0'', 11 / 16), (''q4_1'', 5 / 8),
     (''q4_0'', 9 / 16), (''iq4_nl'', 9 / 16)]"

definition cache_bytes :: "js_string \<Rightarrow> rat" where
  "cache_bytes t = or_value (map_of CACHE_BYTES t) 2"

definition DEFAULT_SLOTS :: rat where "DEFAULT_SLOTS = 4"
definition DEFAULT_UBATCH :: rat where "DEFAULT_UBATCH = 512"
definition FA_COMPUTE_BYTES_PER_TOKEN :: rat where "FA_COMPUTE_BYTES_PER_TOKEN = 5120"
definition COMPUTE_BASE_BYTES :: rat where "COMPUTE_BASE_BYTES = 67108864"
definition DEFAULT_DRAFT_MAX :: rat where "DEFAULT_DRAFT_MAX = 3"

record cost_input =
  ci_ctx :: rat
  ci_slots :: rat
  ci_ubatch :: rat
  ci_type_k :: js_string
  ci_type_v :: js_string
  ci_flash :: bool

definition layer_heads :: "kv_heads \<Rightarrow> nat \<Rightarrow> rat" where
  "layer_heads h i = (case h of Same n \<Rightarrow> n | PerLayer ns \<Rightarrow> or_value (Prelude.at ns i) 0)"

definition swa_cells :: "model_shape \<Rightarrow> cost_input \<Rightarrow> rat" where
  "swa_cells s c = (case sliding_window s of Some w \<Rightarrow> min (ci_ctx c) (w * ci_slots c + ci_ubatch c) | None \<Rightarrow> ci_ctx c)"

definition layer_kv :: "model_shape \<Rightarrow> cost_input \<Rightarrow> nat \<Rightarrow> rat" where
  "layer_kv s c i =
     (if (case full_attention_interval s of Some n \<Rightarrow> not_every n i | None \<Rightarrow> False) then 0
      else let swa = (case swa_layers s of Some bs \<Rightarrow> Prelude.at bs i = Some True | None \<Rightarrow> False);
               kl = (if swa then or_value (key_length_swa s) (key_length s) else key_length s);
               vl = (if swa then or_value (value_length_swa s) (value_length s) else value_length s);
               cells = (if swa then swa_cells s c else ci_ctx c)
           in cells * layer_heads (ms_kv_heads s) i * (kl * cache_bytes (ci_type_k c) + vl * cache_bytes (ci_type_v c)))"

definition kv_layers :: "model_shape \<Rightarrow> nat" where
  "kv_layers s = nat \<lceil>max 0 (ms_layers s - shared_kv_layers s)\<rceil>"

record shape_costs =
  kv_bytes :: rat
  state_bytes :: rat
  compute_bytes :: rat

definition per_token :: "model_shape \<Rightarrow> cost_input \<Rightarrow> rat" where
  "per_token s c =
     (if ci_flash c then FA_COMPUTE_BYTES_PER_TOKEN * (ci_ubatch c / DEFAULT_UBATCH)
      else or_value (ms_heads s) 32 * ci_ubatch c * 4 + FA_COMPUTE_BYTES_PER_TOKEN * (ci_ubatch c / DEFAULT_UBATCH))"

definition shape_cost :: "model_shape \<Rightarrow> cost_input \<Rightarrow> shape_costs" where
  "shape_cost s c =
     \<lparr>kv_bytes = of_int (js_round (sum_list (map (layer_kv s c) [0..<kv_layers s]))),
      state_bytes = recurrent_bytes s * ci_slots c,
      compute_bytes = of_int (js_round (COMPUTE_BASE_BYTES + per_token s c * ci_ctx c))\<rparr>"

text \<open>The head after the last layer; \<open>||\<close> passes over a width of zero for the widest of the first 4096.\<close>

definition head_width :: "model_shape \<Rightarrow> rat" where
  "head_width s =
     (case ms_kv_heads s of
        Same n \<Rightarrow> n
      | PerLayer ns \<Rightarrow>
          let own = (if is_integer (ms_layers s) then or_value (Prelude.at ns (nat \<lfloor>ms_layers s\<rfloor>)) 0 else 0)
          in if own \<noteq> 0 then own else fold max (take 4096 ns) 0)"

definition mtp_kv_bytes :: "model_shape \<Rightarrow> rat \<Rightarrow> rat \<Rightarrow> rat" where
  "mtp_kv_bytes s layers ctx = layers * ctx * head_width s * (key_length s * 2 + value_length s * 2)"

definition mtp_cost :: "model_shape \<Rightarrow> rat \<Rightarrow> rat \<Rightarrow> cost_input \<Rightarrow> rat" where
  "mtp_cost s layers draft_max c =
     of_int (js_round (mtp_kv_bytes s layers (ci_ctx c) + compute_bytes (shape_cost s c) + recurrent_bytes s * ci_slots c * draft_max))"

section \<open>The estimate\<close>

datatype fit_label = WillFit | MightFit | WontFit | Unknown

definition FIT_MIN_CTX :: rat where "FIT_MIN_CTX = 4096"
definition KV_DIM :: rat where "KV_DIM = 1024"
definition DEFAULT_LAYERS :: rat where "DEFAULT_LAYERS = 32"

record fit_input =
  weight_bytes :: rat
  fi_layers :: "rat option"
  fi_shape :: "model_shape option"
  fi_settings :: settings
  memory_bytes :: "rat option"
  fi_cpu :: bool
  fi_mtp :: "(rat \<times> rat) option"

record fit_estimate =
  fe_label :: fit_label
  required_bytes :: rat
  available_bytes :: "rat option"

definition cache_type :: "settings \<Rightarrow> js_string \<Rightarrow> js_string" where
  "cache_type s k = (case map_of s k of None \<Rightarrow> ''f16'' | Some JNull \<Rightarrow> ''f16'' | Some v \<Rightarrow> js_text v)"

definition kv_cache_bytes :: "rat \<Rightarrow> rat \<Rightarrow> settings \<Rightarrow> rat" where
  "kv_cache_bytes ctx layers s = ctx * layers * KV_DIM * (cache_bytes (cache_type s ''cacheTypeK'') + cache_bytes (cache_type s ''cacheTypeV''))"

definition label_for :: "rat \<Rightarrow> rat option \<Rightarrow> fit_label" where
  "label_for required memory =
     (case memory of
        None \<Rightarrow> Unknown
      | Some m \<Rightarrow>
          if m \<le> 0 then Unknown
          else if required / m \<le> 17 / 20 then WillFit
          else if required / m \<le> 11 / 10 then MightFit
          else WontFit)"

text \<open>The cache and the rest of what grows with the context.\<close>

definition context_costs :: "fit_input \<Rightarrow> rat \<Rightarrow> rat \<times> rat" where
  "context_costs i ctx =
     (let s = fi_settings i in
      case fi_shape i of
        Some shape \<Rightarrow>
          let c = \<lparr>ci_ctx = ctx, ci_slots = or_value (number_setting s ''parallel'') DEFAULT_SLOTS,
                ci_ubatch = or_value (number_setting s ''ubatchSize'') DEFAULT_UBATCH,
                ci_type_k = cache_type s ''cacheTypeK'', ci_type_v = cache_type s ''cacheTypeV'',
                ci_flash = (map_of s ''flashAttention'' \<noteq> Some (JStr ''off''))\<rparr>;
              cost = shape_cost shape c
          in (case fi_mtp i of
                None \<Rightarrow> (kv_bytes cost, state_bytes cost + compute_bytes cost)
              | Some (layers, _) \<Rightarrow>
                  let head = mtp_kv_bytes shape layers ctx;
                      draft = or_value (number_setting s ''mtpDraftMax'') DEFAULT_DRAFT_MAX
                  in (kv_bytes cost + head, state_bytes cost + compute_bytes cost + (mtp_cost shape layers draft c - head)))
      | None \<Rightarrow>
          let kv = kv_cache_bytes ctx (or_value (fi_layers i) DEFAULT_LAYERS) s; rest = 314572800 + weight_bytes i / 20
          in (case fi_mtp i of
                None \<Rightarrow> (kv, rest)
              | Some (layers, _) \<Rightarrow> (kv + kv_cache_bytes ctx layers [], rest + 314572800)))"

definition required_for :: "fit_input \<Rightarrow> rat \<Rightarrow> int" where
  "required_for i ctx =
     (let s = fi_settings i; (kv, rest) = context_costs i ctx;
          head = (case fi_mtp i of Some (_, b) \<Rightarrow> b | None \<Rightarrow> 0);
          layers = (case fi_shape i of Some shape \<Rightarrow> ms_layers shape | None \<Rightarrow> or_value (fi_layers i) DEFAULT_LAYERS)
      in js_round (if fi_cpu i then weight_bytes i + head + kv + rest
           else let share = (case number_setting s ''gpuLayers'' of Some n \<Rightarrow> min 1 (n / (layers + 1)) | None \<Rightarrow> 1);
                    on_gpu = (if map_of s ''kvOffload'' = Some (JBool False) then 0 else kv)
                in (weight_bytes i + head) * share + on_gpu + rest))"

definition estimate_fit :: "fit_input \<Rightarrow> fit_estimate" where
  "estimate_fit i =
     (let ctx = or_value (number_setting (fi_settings i) ''ctxSize'') FIT_MIN_CTX; required = of_int (required_for i ctx)
      in if (case memory_bytes i of None \<Rightarrow> True | Some m \<Rightarrow> m \<le> 0)
         then \<lparr>fe_label = Unknown, required_bytes = required, available_bytes = None\<rparr>
         else \<lparr>fe_label = label_for required (memory_bytes i), required_bytes = required, available_bytes = memory_bytes i\<rparr>)"

fun fit_rank :: "fit_label \<Rightarrow> nat" where
  "fit_rank WillFit = 3" | "fit_rank MightFit = 2" | "fit_rank Unknown = 1" | "fit_rank WontFit = 0"

definition best_fit :: "fit_label list \<Rightarrow> fit_label" where
  "best_fit ls =
     foldl (\<lambda>best l. if fit_rank best < fit_rank l then l else best) (if ls = [] then Unknown else WontFit) ls"

section \<open>A larger context never costs less\<close>

text \<open>Two counts the header states are at least one when they are there.\<close>

definition whole_counts :: "header \<Rightarrow> bool" where
  "whole_counts k \<longleftrightarrow>
     list_all (\<lambda>n. case pos (map_of k n) of Some x \<Rightarrow> 1 \<le> x | None \<Rightarrow> True) [''full_attention_interval'', ''ssm.conv_kernel'']"

definition heads_ok :: "kv_heads \<Rightarrow> bool" where
  "heads_ok h = (case h of Same n \<Rightarrow> 0 \<le> n | PerLayer ns \<Rightarrow> list_all (\<lambda>n. 0 \<le> n) ns)"

abbreviation at_least_0 :: "rat option \<Rightarrow> bool" where
  "at_least_0 x \<equiv> case x of Some y \<Rightarrow> 0 \<le> y | None \<Rightarrow> True"

definition shape_ok :: "model_shape \<Rightarrow> bool" where
  "shape_ok s \<longleftrightarrow> 1 \<le> ms_layers s \<and> heads_ok (ms_kv_heads s) \<and> 0 \<le> key_length s \<and> 0 \<le> value_length s
     \<and> at_least_0 (ms_heads s) \<and> at_least_0 (key_length_swa s) \<and> at_least_0 (value_length_swa s) \<and> at_least_0 (sliding_window s)
     \<and> 0 \<le> recurrent_bytes s"

lemma pos_SomeD: "pos v = Some x \<Longrightarrow> 0 < x"
  by (auto simp: pos_def split: option.splits if_splits)

lemma pos_ok: "at_least_0 (pos v)"
  by (auto split: option.split dest: pos_SomeD)

lemma or_value_ge: "at_least_0 x \<Longrightarrow> 0 \<le> d \<Longrightarrow> 0 \<le> or_value x d"
  by (auto simp: or_value_def split: option.splits)

lemma recurrent_ok:
  assumes "whole_counts k" "1 \<le> layers"
  shows "0 \<le> recurrent_of k layers"
proof -
  have n: "of_int \<lfloor>layers / n\<rfloor> \<le> layers" if "pos (map_of k ''full_attention_interval'') = Some n" for n
  proof -
    have "1 \<le> n" using assms(1) that by (simp add: whole_counts_def)
    then have "layers / n \<le> layers" using assms(2) by (simp add: divide_le_eq)
    then show ?thesis using of_int_floor_le [of "layers / n"] by linarith
  qed
  have c: "1 \<le> c" if "pos (map_of k ''ssm.conv_kernel'') = Some c" for c
    using assms(1) that by (simp add: whole_counts_def)
  have g: "0 \<le> or_value (pos (map_of k ''ssm.group_count'')) 1" by (intro or_value_ge pos_ok) simp
  have r: "0 \<le> (case pos (map_of k ''full_attention_interval'') of Some n \<Rightarrow> layers - of_int \<lfloor>layers / n\<rfloor> | None \<Rightarrow> layers)"
    using n assms(2) by (auto split: option.split)
  have p: "0 \<le> state * inner * 4 + (case pos (map_of k ''ssm.conv_kernel'') of
      Some c \<Rightarrow> (c - 1) * (inner + 2 * or_value (pos (map_of k ''ssm.group_count'')) 1 * state) * 4 | None \<Rightarrow> 0)"
    if "0 < state" "0 < inner" for state inner
    using that c g by (auto split: option.split intro!: add_nonneg_nonneg mult_nonneg_nonneg)
  show ?thesis
  proof (cases "pos (map_of k ''ssm.state_size'')")
    case (Some state)
    show ?thesis
    proof (cases "pos (map_of k ''ssm.inner_size'')")
      case inner: (Some inner)
      show ?thesis
        unfolding recurrent_of_def Let_def Some inner prod.case option.case
        by (rule mult_nonneg_nonneg [OF r p [OF pos_SomeD [OF Some] pos_SomeD [OF inner]]])
    qed (simp add: recurrent_of_def Some)
  qed (simp add: recurrent_of_def)
qed

lemma kv_heads_ok: "kv_heads_of v = Some h \<Longrightarrow> heads_ok h"
  by (auto simp: kv_heads_of_def counts_def heads_ok_def nonneg_def list_all_iff map_filter_def
      split: option.splits scalar.splits if_splits)

lemma sizes_ok: "at_least_0 (key_size k)" "at_least_0 (value_size k)"
proof -
  show "at_least_0 (key_size k)"
    using pos_ok [of "map_of k ''attention.key_length''"]
    by (auto simp: key_size_def first_of_def split: option.split dest!: pos_SomeD)
  then show "at_least_0 (value_size k)"
    using pos_ok [of "map_of k ''attention.value_length''"] by (auto simp: value_size_def first_of_def split: option.splits)
qed

lemma shape_from_keys_ok:
  assumes "shape_from_keys k = Some s" "whole_counts k"
  shows "shape_ok s"
proof -
  obtain blocks kv kl vl where b: "kv_heads_of (map_of k ''attention.head_count_kv'') = Some kv" "key_size k = Some kl" "value_size k = Some vl"
    and s: "ms_layers s = max 1 (blocks - or_value (nonneg (map_of k ''nextn_predict_layers'')) 0)" "ms_kv_heads s = kv"
      "key_length s = kl" "value_length s = vl" "ms_heads s = pos (map_of k ''attention.head_count'')"
      "key_length_swa s = pos (map_of k ''attention.key_length_swa'')" "value_length_swa s = pos (map_of k ''attention.value_length_swa'')"
      "sliding_window s = pos (map_of k ''attention.sliding_window'')" "recurrent_bytes s = recurrent_of k (ms_layers s)"
    using assms(1) by (auto simp: shape_from_keys_def Let_def split: option.split_asm)
  show ?thesis
    unfolding shape_ok_def s(2-8)
    using s(1,9) kv_heads_ok [OF b(1)] sizes_ok [of k] b(2,3) recurrent_ok [OF assms(2), of "ms_layers s"] pos_ok by simp
qed


section \<open>The estimate\<close>

lemma js_round_mono: "x \<le> y \<Longrightarrow> js_round x \<le> js_round y"
  by (simp add: js_round_def floor_mono)

lemma js_round_nonneg: "0 \<le> x \<Longrightarrow> 0 \<le> js_round x"
  using js_round_mono [of 0 x] by (simp add: js_round_def)

lemma cache_bytes_pos: "0 \<le> cache_bytes t"
proof -
  have "list_all (\<lambda>(_, b). 0 \<le> b) CACHE_BYTES" by (simp add: CACHE_BYTES_def)
  then show ?thesis by (auto simp: cache_bytes_def or_value_def list_all_iff split: option.split dest!: map_of_SomeD)
qed

lemma layer_heads_ok: "heads_ok h \<Longrightarrow> 0 \<le> layer_heads h i"
  by (auto simp: heads_ok_def layer_heads_def or_value_def at_def list_all_iff split: kv_heads.splits)

text \<open>Two inputs that differ in the context alone.\<close>

lemma layer_kv_mono:
  assumes "shape_ok s" "0 \<le> x" "x \<le> y" "0 \<le> ci_slots c" "0 \<le> ci_ubatch c"
  shows "0 \<le> layer_kv s (c\<lparr>ci_ctx := x\<rparr>) i \<and> layer_kv s (c\<lparr>ci_ctx := x\<rparr>) i \<le> layer_kv s (c\<lparr>ci_ctx := y\<rparr>) i"
proof -
  have swa: "0 \<le> swa_cells s (c\<lparr>ci_ctx := x\<rparr>) \<and> swa_cells s (c\<lparr>ci_ctx := x\<rparr>) \<le> swa_cells s (c\<lparr>ci_ctx := y\<rparr>)"
    using assms by (auto simp: swa_cells_def shape_ok_def min_le_iff_disj split: option.splits)
  have kl: "0 \<le> or_value (key_length_swa s) (key_length s)" "0 \<le> key_length s"
    and vl: "0 \<le> or_value (value_length_swa s) (value_length s)" "0 \<le> value_length s"
    and h: "0 \<le> layer_heads (ms_kv_heads s) i"
    using assms(1) or_value_ge layer_heads_ok by (simp_all add: shape_ok_def)
  have mono: "0 \<le> m * layer_heads (ms_kv_heads s) i * w \<and> m * layer_heads (ms_kv_heads s) i * w \<le> n * layer_heads (ms_kv_heads s) i * w"
    if "0 \<le> m" "m \<le> n" "0 \<le> w" for m n w
    using that h by (simp add: mult_right_mono)
  have w: "0 \<le> a * cache_bytes t + b * cache_bytes u" if "0 \<le> a" "0 \<le> b" for a b t u
    using that cache_bytes_pos by simp
  define skip is_swa wide narrow where
    "skip = (case full_attention_interval s of Some n \<Rightarrow> not_every n i | None \<Rightarrow> False)"
    and "is_swa = (case swa_layers s of Some bs \<Rightarrow> Prelude.at bs i = Some True | None \<Rightarrow> False)"
    and "wide = key_length s * cache_bytes (ci_type_k c) + value_length s * cache_bytes (ci_type_v c)"
    and "narrow = or_value (key_length_swa s) (key_length s) * cache_bytes (ci_type_k c)
      + or_value (value_length_swa s) (value_length s) * cache_bytes (ci_type_v c)"
  have kv: "layer_kv s (c\<lparr>ci_ctx := z\<rparr>) i =
      (if skip then 0 else if is_swa then swa_cells s (c\<lparr>ci_ctx := z\<rparr>) * layer_heads (ms_kv_heads s) i * narrow
       else z * layer_heads (ms_kv_heads s) i * wide)" for z
    by (simp add: layer_kv_def Let_def skip_def is_swa_def wide_def narrow_def)
  have "0 \<le> wide" "0 \<le> narrow" using w kl vl by (simp_all add: wide_def narrow_def)
  then show ?thesis
    unfolding kv using mono [of "swa_cells s (c\<lparr>ci_ctx := x\<rparr>)" "swa_cells s (c\<lparr>ci_ctx := y\<rparr>)" narrow] mono [of x y wide] swa assms(2,3)
    by (auto simp del: mult_cancel_right)
qed

lemma shape_cost_mono:
  assumes "shape_ok s" "0 \<le> x" "x \<le> y" "0 \<le> ci_slots c" "0 \<le> ci_ubatch c"
  shows "0 \<le> kv_bytes (shape_cost s (c\<lparr>ci_ctx := x\<rparr>)) \<and> kv_bytes (shape_cost s (c\<lparr>ci_ctx := x\<rparr>)) \<le> kv_bytes (shape_cost s (c\<lparr>ci_ctx := y\<rparr>))
     \<and> 0 \<le> state_bytes (shape_cost s (c\<lparr>ci_ctx := x\<rparr>)) \<and> state_bytes (shape_cost s (c\<lparr>ci_ctx := x\<rparr>)) = state_bytes (shape_cost s (c\<lparr>ci_ctx := y\<rparr>))
     \<and> 0 \<le> compute_bytes (shape_cost s (c\<lparr>ci_ctx := x\<rparr>)) \<and> compute_bytes (shape_cost s (c\<lparr>ci_ctx := x\<rparr>)) \<le> compute_bytes (shape_cost s (c\<lparr>ci_ctx := y\<rparr>))"
proof -
  note l = layer_kv_mono [OF assms]
  have kv: "0 \<le> sum_list (map (layer_kv s (c\<lparr>ci_ctx := x\<rparr>)) is)"
     "sum_list (map (layer_kv s (c\<lparr>ci_ctx := x\<rparr>)) is) \<le> sum_list (map (layer_kv s (c\<lparr>ci_ctx := y\<rparr>)) is)" for "is"
    using l by (intro sum_list_nonneg, force) (intro sum_list_mono, simp add: l)
  have p: "0 \<le> per_token s c"
    using assms or_value_ge [of "ms_heads s" 32]
    by (simp add: per_token_def shape_ok_def FA_COMPUTE_BYTES_PER_TOKEN_def DEFAULT_UBATCH_def)
  have same: "per_token s (c\<lparr>ci_ctx := z\<rparr>) = per_token s c" for z by (simp add: per_token_def)
  have "per_token s c * x \<le> per_token s c * y" using p assms(3) by (rule mult_left_mono [rotated])
  then show ?thesis
    using kv p assms by (simp add: shape_cost_def js_round_mono js_round_nonneg same COMPUTE_BASE_BYTES_def shape_ok_def)
qed

definition positive_settings :: "settings \<Rightarrow> bool" where
  "positive_settings s \<longleftrightarrow> list_all (\<lambda>k. at_least_0 (number_setting s k)) [''parallel'', ''ubatchSize'', ''gpuLayers'']"

lemma normalized_positive:
  assumes "normalize_load_settings raw facts = Inr s"
  shows "positive_settings s"
proof -
  have spec: "map_option ls_type (spec_of ''parallel'') = Some (IntType 1 (MaxIs 64) False [])"
    "map_option ls_type (spec_of ''ubatchSize'') = Some (IntType 32 (MaxIs 65536) False [])"
    "map_option ls_type (spec_of ''gpuLayers'') = Some (IntType 0 MaxLayers False [''auto'', ''all''])"
    by code_simp+
  have "0 \<le> x" if k: "map_option ls_type (spec_of k) = Some (IntType lo m soft ws)" "0 \<le> lo" and x: "number_setting s k = Some x" for k lo m soft ws x
  proof -
    obtain n where n: "map_of s k = Some (JNum n)" "numeral_of n = Some x"
      using x by (auto simp: number_setting_def split: option.splits json.splits)
    have "setting_ok facts (k, JNum n)" using normalized_ok [OF assms] map_of_SomeD [OF n(1)] by (auto simp: list_all_iff)
    then have "of_int lo \<le> x"
      using k(1) n(2) by (auto simp: setting_ok_def check_value_def whole_between_def Let_def split: option.splits if_splits)
    then show ?thesis using k(2) by (metis of_int_0_le_iff order_trans)
  qed
  from this [OF spec(1)] this [OF spec(2)] this [OF spec(3)] show ?thesis
    by (auto simp: positive_settings_def split: option.split)
qed


lemma context_costs_mono:
  assumes "shape_ok s" "positive_settings (fi_settings i)" "fi_shape i = Some s" "fi_mtp i = None" "0 \<le> x" "x \<le> y"
  shows "0 \<le> fst (context_costs i x) \<and> fst (context_costs i x) \<le> fst (context_costs i y)
     \<and> 0 \<le> snd (context_costs i x) \<and> snd (context_costs i x) \<le> snd (context_costs i y)"
proof -
  define c where "c = \<lparr>ci_ctx = 0, ci_slots = or_value (number_setting (fi_settings i) ''parallel'') DEFAULT_SLOTS,
      ci_ubatch = or_value (number_setting (fi_settings i) ''ubatchSize'') DEFAULT_UBATCH,
      ci_type_k = cache_type (fi_settings i) ''cacheTypeK'', ci_type_v = cache_type (fi_settings i) ''cacheTypeV'',
      ci_flash = (map_of (fi_settings i) ''flashAttention'' \<noteq> Some (JStr ''off''))\<rparr>"
  have e: "context_costs i z = (kv_bytes (shape_cost s (c\<lparr>ci_ctx := z\<rparr>)),
      state_bytes (shape_cost s (c\<lparr>ci_ctx := z\<rparr>)) + compute_bytes (shape_cost s (c\<lparr>ci_ctx := z\<rparr>)))" for z
    by (simp add: context_costs_def Let_def assms(3,4) c_def)
  have "0 \<le> ci_slots c" "0 \<le> ci_ubatch c"
    using assms(2) by (auto simp: c_def positive_settings_def DEFAULT_SLOTS_def DEFAULT_UBATCH_def intro!: or_value_ge)
  from shape_cost_mono [OF assms(1,5,6) this] show ?thesis unfolding e by simp
qed

lemma rank_of_ratio:
  "(p :: rat) \<le> q \<Longrightarrow> fit_rank (if q \<le> 17 / 20 then WillFit else if q \<le> 11 / 10 then MightFit else WontFit)
     \<le> fit_rank (if p \<le> 17 / 20 then WillFit else if p \<le> 11 / 10 then MightFit else WontFit)"
  by auto

text \<open>What a model whose header was read is estimated to need is never negative and never shrinks as the context grows, and its
  label never gets better, for settings that passed the check and a header whose two whole counts are at least one.
\<close>

theorem estimate_grows:
  assumes "shape_from_keys k = Some s" "whole_counts k" "normalize_load_settings raw facts = Inr (fi_settings i)"
    "fi_shape i = Some s" "fi_mtp i = None" "0 \<le> weight_bytes i" "0 \<le> c" "c \<le> d"
  shows "0 \<le> required_for i c \<and> required_for i c \<le> required_for i d
     \<and> fit_rank (label_for (of_int (required_for i d)) m) \<le> fit_rank (label_for (of_int (required_for i c)) m)"
proof -
  note s = shape_from_keys_ok [OF assms(1,2)]
  note p = normalized_positive [OF assms(3)]
  note cost = context_costs_mono [OF s p assms(4,5,7,8)]
  have share: "0 \<le> (case number_setting (fi_settings i) ''gpuLayers'' of Some n \<Rightarrow> min 1 (n / (ms_layers s + 1)) | None \<Rightarrow> 1)"
    using p s by (auto simp: positive_settings_def shape_ok_def split: option.split)
  have r: "0 \<le> required_for i c" "required_for i c \<le> required_for i d"
    using cost share assms(4,5,6)
    by (auto simp: required_for_def Let_def split_beta intro!: js_round_mono js_round_nonneg add_mono add_nonneg_nonneg mult_nonneg_nonneg)
  have q: "of_int (required_for i c) / x \<le> (of_int (required_for i d) / x :: rat)" if "0 < x" for x
    using r(2) that by (simp add: divide_right_mono)
  have "fit_rank (label_for (of_int (required_for i d)) m) \<le> fit_rank (label_for (of_int (required_for i c)) m)"
  proof (cases m)
    case (Some x)
    show ?thesis
    proof (cases "x \<le> 0")
      case False
      then have "0 < x" by simp
      from rank_of_ratio [OF q [OF this]] show ?thesis
        by (simp only: label_for_def Some option.case False if_False)
    qed (simp add: label_for_def Some)
  qed (simp add: label_for_def)
  then show ?thesis using r by simp
qed

definition sample_header :: header where
  "sample_header = [(''block_count'', Number (Some 4)), (''attention.head_count_kv'', Number (Some 2)), (''attention.key_length'', Number (Some 128)),
     (''ssm.state_size'', Number (Some 128)), (''ssm.inner_size'', Number (Some 1048576))]"

definition sample_fit :: "model_shape option \<Rightarrow> fit_input" where
  "sample_fit s = \<lparr>weight_bytes = 1000000, fi_layers = None, fi_shape = s, fi_settings = [(''parallel'', JNum ''2'')], memory_bytes = None,
     fi_cpu = False, fi_mtp = None\<rparr>"

theorem estimate_grows_witness:
  "\<exists>s. shape_from_keys sample_header = Some s \<and> required_for (sample_fit (Some s)) 4096 \<le> required_for (sample_fit (Some s)) 65536"
proof -
  have "shape_from_keys sample_header \<noteq> None" by code_simp
  then obtain s where s: "shape_from_keys sample_header = Some s" by auto
  have n: "normalize_load_settings (Some (JObj [(''parallel'', JNum ''2'')])) \<lparr>n_layers = None, n_ctx_train = None, lookup_tbl = NoTable\<rparr>
      = Inr (fi_settings (sample_fit (Some s)))"
    unfolding sample_fit_def fit_input.simps by code_simp
  have w: "whole_counts sample_header" by code_simp
  have "required_for (sample_fit (Some s)) 4096 \<le> required_for (sample_fit (Some s)) 65536"
    using estimate_grows [OF s w n, of 4096 65536 None] by (simp add: sample_fit_def)
  then show ?thesis using s by blast
qed

text \<open>
  A header that states its interval as one half, which a float may, has as many recurrent layers less than none: the model is
  estimated at less than nothing, and fits anywhere.
\<close>

lemma half_interval_fits_anywhere:
  "case shape_from_keys ((''full_attention_interval'', Number (Some (1 / 2))) # sample_header) of
     None \<Rightarrow> False
   | Some s \<Rightarrow> required_for (sample_fit (Some s)) 4096 < 0 \<and> label_for (of_int (required_for (sample_fit (Some s)) 4096)) (Some 1) = WillFit"
  by code_simp

end
