(* ===== verification/Room.thy ===== *)
theory Room
  imports Fit
begin

text \<open>
  Which models stay loaded (\<open>llama/room.ts\<close>): the plan before a load, the count of the requests under way on a model, and the
  loop that unloads one model at a time on what is measured each time. What the router answers, what is measured and what other
  requests do meanwhile are arguments.
\<close>

section \<open>The plan\<close>

record room_candidate =
  rc_id :: js_string
  rc_name :: js_string
  rc_pinned :: bool
  rc_busy :: bool
  last_used_at :: int
  est_bytes :: rat

datatype room_plan = Proceed | Evict "js_string list" | Refuse "(js_string \<times> js_string) list"

definition over_cap :: "int \<Rightarrow> int \<Rightarrow> bool" where
  "over_cap cap count \<longleftrightarrow> 0 < cap \<and> cap \<le> count"

definition needs_room :: "rat \<Rightarrow> int \<Rightarrow> rat option \<Rightarrow> int \<Rightarrow> bool" where
  "needs_room required cap available count \<longleftrightarrow>
     over_cap cap count \<or> (available \<noteq> None \<and> label_for required available \<noteq> WillFit)"

definition still_blocked :: "rat \<Rightarrow> int \<Rightarrow> rat option \<Rightarrow> int \<Rightarrow> bool" where
  "still_blocked required cap available count \<longleftrightarrow>
     over_cap cap count \<or> (available \<noteq> None \<and> label_for required available = WontFit)"

fun evict_loop :: "rat \<Rightarrow> int \<Rightarrow> rat option \<Rightarrow> int \<Rightarrow> room_candidate list \<Rightarrow> js_string list \<Rightarrow> rat option \<times> int \<times> js_string list" where
  "evict_loop required cap available count [] ids = (available, count, ids)"
| "evict_loop required cap available count (m # ms) ids =
     (if needs_room required cap available count
      then evict_loop required cap (map_option (\<lambda>a. a + est_bytes m) available) (count - 1) ms (ids @ [rc_id m])
      else (available, count, ids))"

definition evictable :: "room_candidate list \<Rightarrow> room_candidate list" where
  "evictable loaded = sort_key last_used_at (filter (\<lambda>m. \<not> rc_pinned m \<and> \<not> rc_busy m) loaded)"

definition plan_room :: "rat \<Rightarrow> rat option \<Rightarrow> room_candidate list \<Rightarrow> int \<Rightarrow> room_plan" where
  "plan_room required free loaded cap =
     (let (available, count, ids) = evict_loop required cap free (int (length loaded)) (evictable loaded) [];
          pinned = filter rc_pinned loaded
      in if still_blocked required cap available count \<and> pinned \<noteq> []
         then Refuse (map (\<lambda>m. (rc_id m, rc_name m)) pinned)
         else if ids \<noteq> [] then Evict ids
         else Proceed)"

section \<open>Requests under way\<close>

text \<open>
  The counts, the last uses, and the functions \<open>trackRequest\<close> returned that were not called yet, each with the model it is for;
  one that was called does nothing more.
\<close>

record use_state =
  in_flight :: "js_string \<Rightarrow> nat option"
  last_used :: "js_string \<Rightarrow> int option"
  open_requests :: "(nat \<times> js_string) list"
  next_request :: nat

definition no_uses :: use_state where
  "no_uses = \<lparr>in_flight = Map.empty, last_used = Map.empty, open_requests = [], next_request = 0\<rparr>"

definition flying :: "use_state \<Rightarrow> js_string \<Rightarrow> nat" where
  "flying u i = (case in_flight u i of Some n \<Rightarrow> n | None \<Rightarrow> 0)"

definition track_request :: "js_string \<Rightarrow> int \<Rightarrow> use_state \<Rightarrow> use_state" where
  "track_request i now u =
     u\<lparr>in_flight := (in_flight u)(i \<mapsto> flying u i + 1), last_used := (last_used u)(i \<mapsto> now),
       open_requests := (next_request u, i) # open_requests u, next_request := Suc (next_request u)\<rparr>"

definition end_request :: "nat \<Rightarrow> int \<Rightarrow> use_state \<Rightarrow> use_state" where
  "end_request r now u =
     (case map_of (open_requests u) r of
        None \<Rightarrow> u
      | Some i \<Rightarrow>
          let n = (case in_flight u i of Some m \<Rightarrow> int m | None \<Rightarrow> 1) - 1 in
          u\<lparr>in_flight := (if n \<le> 0 then (in_flight u)(i := None) else (in_flight u)(i \<mapsto> nat n)),
            last_used := (last_used u)(i \<mapsto> now), open_requests := filter (\<lambda>(q, _). q \<noteq> r) (open_requests u)\<rparr>)"

datatype use_event = Track js_string int | Ended nat int

fun use_step :: "use_event \<Rightarrow> use_state \<Rightarrow> use_state" where
  "use_step (Track i now) u = track_request i now u"
| "use_step (Ended r now) u = end_request r now u"

definition uses_after :: "use_event list \<Rightarrow> use_state" where
  "uses_after es = fold use_step es no_uses"

section \<open>Making room\<close>

text \<open>A model the router has loaded or is loading, as it was measured.\<close>

record footprint =
  fp_id :: js_string
  fp_name :: js_string
  fp_pinned :: bool
  fp_loading :: bool
  fp_bytes :: rat

definition candidates :: "use_state \<Rightarrow> footprint list \<Rightarrow> room_candidate list" where
  "candidates u fps =
     map (\<lambda>m. \<lparr>rc_id = fp_id m, rc_name = fp_name m, rc_pinned = fp_pinned m, rc_busy = (0 < flying u (fp_id m) \<or> fp_loading m),
        last_used_at = (case last_used u (fp_id m) of Some t \<Rightarrow> t | None \<Rightarrow> 0), est_bytes = fp_bytes m\<rparr>) fps"

text \<open>Free memory counts only on a GPU whose devices were listed.\<close>

definition plan_free_bytes :: "bool \<Rightarrow> rat option \<Rightarrow> rat option" where
  "plan_free_bytes cpu free = (if cpu then None else free)"

text \<open>What one pass sees: the model's own status, the measurement, the uses then and after the caches were saved, and aborts.\<close>

record pass =
  ps_loaded :: bool
  ps_free :: "rat option"
  ps_footprints :: "footprint list"
  ps_cap :: int
  ps_uses :: use_state
  ps_uses_after :: use_state
  ps_aborted :: bool
  ps_aborted_after :: bool

datatype pass_outcome = Enough | NoRoom "(js_string \<times> js_string) list" | Aborted | Again | Unload js_string

definition others_loaded :: "js_string \<Rightarrow> footprint list \<Rightarrow> footprint list" where
  "others_loaded i fps = filter (\<lambda>m. fp_id m \<noteq> i) fps"

definition ensure_pass :: "js_string \<Rightarrow> rat \<Rightarrow> pass \<Rightarrow> pass_outcome" where
  "ensure_pass i required p =
     (if ps_aborted p then Aborted
      else if ps_loaded p then Enough
      else case plan_room required (ps_free p) (candidates (ps_uses p) (others_loaded i (ps_footprints p))) (ps_cap p) of
        Proceed \<Rightarrow> Enough
      | Refuse blockers \<Rightarrow> NoRoom blockers
      | Evict ids \<Rightarrow>
          if ps_aborted_after p then Aborted
          else if 0 < flying (ps_uses_after p) (hd ids) then Again
          else Unload (hd ids))"

definition MAX_EVICTIONS :: nat where "MAX_EVICTIONS = 16"

text \<open>The victims in order, and what ended the loop, if not its bound.\<close>

fun ensure_loop :: "js_string \<Rightarrow> rat \<Rightarrow> pass list \<Rightarrow> js_string list \<times> pass_outcome option" where
  "ensure_loop i required [] = ([], None)"
| "ensure_loop i required (p # ps) =
     (case ensure_pass i required p of
        Unload v \<Rightarrow> map_prod (\<lambda>vs. v # vs) id (ensure_loop i required ps)
      | Again \<Rightarrow> ensure_loop i required ps
      | out \<Rightarrow> ([], Some out))"

definition ensure_room_locked :: "js_string \<Rightarrow> rat \<Rightarrow> (nat \<Rightarrow> pass) \<Rightarrow> js_string list \<times> pass_outcome option" where
  "ensure_room_locked i required ps = ensure_loop i required (map ps [0..<Suc MAX_EVICTIONS])"

text \<open>The check before a send and before a switch: the models that are busy will be idle by then.\<close>

definition check_room :: "js_string \<Rightarrow> rat \<Rightarrow> pass \<Rightarrow> (js_string \<times> js_string) list option" where
  "check_room i required p =
     (if ps_loaded p then None
      else case plan_room required (ps_free p)
          (map (\<lambda>m. m\<lparr>rc_busy := False\<rparr>) (candidates (ps_uses p) (others_loaded i (ps_footprints p)))) (ps_cap p) of
        Refuse blockers \<Rightarrow> Some blockers
      | _ \<Rightarrow> None)"

definition check_stage_room :: "bool \<Rightarrow> js_string \<Rightarrow> rat \<Rightarrow> pass \<Rightarrow> (js_string \<times> js_string) list option" where
  "check_stage_room running i required p =
     (if \<not> running then None else check_room i required (p\<lparr>ps_loaded := False\<rparr>))"

definition no_room_message :: "js_string \<Rightarrow> js_string list \<Rightarrow> js_string" where
  "no_room_message name pinned =
     (let q = (\<lambda>n. [DQ] @ n @ [DQ]);
          list = (if length pinned \<le> 1 then q (case pinned of p # _ \<Rightarrow> p | [] \<Rightarrow> ''another model'') @ '' is''
                  else join '', '' (map q (butlast pinned)) @ '' and '' @ q (last pinned) @ '' are'');
          which = (if 1 < length pinned then ''one of them'' else ''it'')
      in q name @ '' can't be loaded right now: there isn't enough GPU memory on this host while '' @ list @ '' pinned. ''
         @ ''Pick a model that is already loaded, or ask an admin to unpin '' @ which @ '' under Settings > Host models.'')"

section \<open>Unloading on request\<close>

datatype unload_refusal = KeptLoaded | StillLoading | Answering | StartedAnswering

text \<open>\<open>status\<close> is the router's, \<open>asked\<close> whether a load of it is under way; the uses are taken before and after its caches are saved.\<close>

definition request_unload ::
    "bool \<Rightarrow> bool \<Rightarrow> js_string option \<Rightarrow> bool \<Rightarrow> use_state \<Rightarrow> use_state \<Rightarrow> js_string \<Rightarrow> unload_refusal + bool" where
  "request_unload running pinned status asked u after i =
     (if \<not> running then Inr False
      else if pinned then Inl KeptLoaded
      else if status = Some ''loading'' \<or> asked then Inl StillLoading
      else if 0 < flying u i then Inl Answering
      else if status \<noteq> Some ''loaded'' then Inr False
      else if 0 < flying after i then Inl StartedAnswering
      else Inr True)"

section \<open>Least recently used first, and no more than needed\<close>

text \<open>What is free, and how many are loaded, once the first \<open>k\<close> of the models that may go are gone.\<close>

definition freed :: "rat option \<Rightarrow> room_candidate list \<Rightarrow> nat \<Rightarrow> rat option" where
  "freed free ms k = map_option (\<lambda>a. a + sum_list (map est_bytes (take k ms))) free"

definition needs_after :: "rat \<Rightarrow> int \<Rightarrow> rat option \<Rightarrow> int \<Rightarrow> room_candidate list \<Rightarrow> nat \<Rightarrow> bool" where
  "needs_after required cap free count ms k \<longleftrightarrow> needs_room required cap (freed free ms k) (count - int k)"

lemma freed_0: "freed free ms 0 = free"
  by (cases free) (simp_all add: freed_def)

lemma freed_Suc: "freed free (m # ms) (Suc k) = freed (map_option (\<lambda>a. a + est_bytes m) free) ms k"
  by (cases free) (simp_all add: freed_def add.assoc)

lemma evict_loop_spec:
  "\<exists>k\<le>length ms. evict_loop required cap free count ms ids = (freed free ms k, count - int k, ids @ map rc_id (take k ms))
     \<and> list_all (needs_after required cap free count ms) [0..<k]
     \<and> (k < length ms \<longrightarrow> \<not> needs_after required cap free count ms k)"
proof (induction ms arbitrary: free count ids)
  case Nil
  then show ?case by (simp add: freed_0)
next
  case (Cons m ms)
  show ?case
  proof (cases "needs_room required cap free count")
    case True
    obtain k where k: "k \<le> length ms"
      "evict_loop required cap (map_option (\<lambda>a. a + est_bytes m) free) (count - 1) ms (ids @ [rc_id m])
         = (freed (map_option (\<lambda>a. a + est_bytes m) free) ms k, count - 1 - int k, (ids @ [rc_id m]) @ map rc_id (take k ms))"
      "list_all (needs_after required cap (map_option (\<lambda>a. a + est_bytes m) free) (count - 1) ms) [0..<k]"
      "k < length ms \<longrightarrow> \<not> needs_after required cap (map_option (\<lambda>a. a + est_bytes m) free) (count - 1) ms k"
      using Cons.IH by blast
    have step: "needs_after required cap free count (m # ms) (Suc j)
        = needs_after required cap (map_option (\<lambda>a. a + est_bytes m) free) (count - 1) ms j" for j
      by (simp add: needs_after_def freed_Suc algebra_simps)
    have first: "needs_after required cap free count (m # ms) 0" using True by (simp add: needs_after_def freed_0)
    have "[0..<Suc k] = 0 # map Suc [0..<k]" by (simp add: map_Suc_upt upt_conv_Cons del: upt_Suc)
    then show ?thesis
      using k True first step
      by (intro exI [of _ "Suc k"]) (simp add: freed_Suc list.pred_map comp_def algebra_simps del: upt_Suc)
  next
    case False
    then show ?thesis by (intro exI [of _ 0]) (simp add: freed_0 needs_after_def)
  qed
qed

text \<open>
  C18: Models are unloaded in the order they were last used, only ones that are neither pinned nor busy, each of them because
  without it there was not room enough, and no further than that; and a load is refused exactly when, after those, it is still over
  the cap or labelled as one that will not fit, and a pinned model is loaded, however small, naming every such model. A device
  with no byte free is labelled unknown, and the load goes ahead (\<open>full_device_is_not_refused\<close>).
\<close>

theorem plan_room_exact:
  "\<exists>k\<le>length (evictable loaded).
     list_all (needs_after required cap free (int (length loaded)) (evictable loaded)) [0..<k]
     \<and> (k < length (evictable loaded) \<longrightarrow> \<not> needs_after required cap free (int (length loaded)) (evictable loaded) k)
     \<and> plan_room required free loaded cap =
         (if still_blocked required cap (freed free (evictable loaded) k) (int (length loaded) - int k) \<and> filter rc_pinned loaded \<noteq> []
          then Refuse (map (\<lambda>m. (rc_id m, rc_name m)) (filter rc_pinned loaded))
          else if k = 0 then Proceed else Evict (map rc_id (take k (evictable loaded))))
     \<and> sorted (map last_used_at (evictable loaded))
     \<and> set (evictable loaded) = {m \<in> set loaded. \<not> rc_pinned m \<and> \<not> rc_busy m}"
proof -
  obtain k where k: "k \<le> length (evictable loaded)"
    "evict_loop required cap free (int (length loaded)) (evictable loaded) [] =
      (freed free (evictable loaded) k, int (length loaded) - int k, map rc_id (take k (evictable loaded)))"
    "list_all (needs_after required cap free (int (length loaded)) (evictable loaded)) [0..<k]"
    "k < length (evictable loaded) \<longrightarrow> \<not> needs_after required cap free (int (length loaded)) (evictable loaded) k"
    using evict_loop_spec [of "evictable loaded" required cap free "int (length loaded)" "[]"] by auto
  have "map rc_id (take k (evictable loaded)) \<noteq> [] \<longleftrightarrow> k \<noteq> 0" using k(1) by auto
  then have p: "plan_room required free loaded cap =
         (if still_blocked required cap (freed free (evictable loaded) k) (int (length loaded) - int k) \<and> filter rc_pinned loaded \<noteq> []
          then Refuse (map (\<lambda>m. (rc_id m, rc_name m)) (filter rc_pinned loaded))
          else if k = 0 then Proceed else Evict (map rc_id (take k (evictable loaded))))"
    unfolding plan_room_def k(2) Let_def prod.case by (simp only: if_not_P split: if_split) simp
  show ?thesis
  proof (intro exI [of _ k] conjI)
    show "sorted (map last_used_at (evictable loaded))" "set (evictable loaded) = {m \<in> set loaded. \<not> rc_pinned m \<and> \<not> rc_busy m}"
      by (auto simp: evictable_def)
  qed (rule k p)+
qed

definition sample_candidate :: "js_string \<Rightarrow> bool \<Rightarrow> int \<Rightarrow> rat \<Rightarrow> room_candidate" where
  "sample_candidate i p t b = \<lparr>rc_id = i, rc_name = i, rc_pinned = p, rc_busy = False, last_used_at = t, est_bytes = b\<rparr>"

theorem plan_room_exact_witness:
  "let loaded = [sample_candidate ''a'' False 7 10, sample_candidate ''b'' True 1 50, sample_candidate ''c'' False 3 10] in
     plan_room 20 (Some 10) loaded 0 = Evict [''c'', ''a''] \<and> plan_room 60 (Some 10) loaded 0 = Refuse [(''b'', ''b'')]
     \<and> (\<exists>k\<le>2. list_all (needs_after 20 0 (Some 10) 3 (evictable loaded)) [0..<k])"
proof -
  define loaded where "loaded = [sample_candidate ''a'' False 7 10, sample_candidate ''b'' True 1 50, sample_candidate ''c'' False 3 10]"
  have l: "length (evictable loaded) = 2" "int (length loaded) = 3" unfolding loaded_def by code_simp+
  have "\<exists>k\<le>2. list_all (needs_after 20 0 (Some 10) 3 (evictable loaded)) [0..<k]"
    using plan_room_exact [of loaded 20 0 "Some 10"] unfolding l by blast
  moreover have "plan_room 20 (Some 10) loaded 0 = Evict [''c'', ''a'']" "plan_room 60 (Some 10) loaded 0 = Refuse [(''b'', ''b'')]"
    unfolding loaded_def by code_simp+
  ultimately show ?thesis by (simp add: loaded_def)
qed

text \<open>With nothing free at all the need has no label, and a load no room was made for goes ahead beside the pinned model.\<close>

lemma full_device_is_not_refused:
  "plan_room 60 (Some 1) [sample_candidate ''b'' True 1 50] 0 = Refuse [(''b'', ''b'')]"
  "plan_room 60 (Some 0) [sample_candidate ''b'' True 1 50] 0 = Proceed"
  by code_simp+

section \<open>The count is the requests under way\<close>

definition uses_exact :: "use_state \<Rightarrow> bool" where
  "uses_exact u \<longleftrightarrow> distinct (map fst (open_requests u)) \<and> list_all (\<lambda>(r, _). r < next_request u) (open_requests u)
     \<and> (\<forall>i. in_flight u i \<noteq> Some 0 \<and> flying u i = length (filter (\<lambda>(_, j). j = i) (open_requests u)))"

lemma track_exact: "uses_exact u \<Longrightarrow> uses_exact (track_request i now u)"
  by (auto simp: uses_exact_def track_request_def flying_def list_all_iff)

lemma remove_one:
  assumes "distinct (map fst xs)" "map_of xs r = Some i"
  shows "length (filter (\<lambda>(_, j). j = k) xs) =
    length (filter (\<lambda>(_, j). j = k) (filter (\<lambda>(q, _). q \<noteq> r) xs)) + (if k = i then 1 else 0)"
  using assms
proof (induction xs)
  case (Cons x xs)
  obtain q j where x: "x = (q, j)" by force
  show ?case
  proof (cases "q = r")
    case True
    then have "filter (\<lambda>(q, _). q \<noteq> r) xs = xs" using Cons.prems(1) by (force simp: x filter_id_conv)
    then show ?thesis using Cons.prems(2) True by (simp add: x)
  next
    case False
    then show ?thesis using Cons.IH Cons.prems by (auto simp: x conj_commute)
  qed
qed simp

lemma end_exact:
  assumes "uses_exact u"
  shows "uses_exact (end_request r now u)"
proof (cases "map_of (open_requests u) r")
  case None
  then show ?thesis using assms by (simp add: end_request_def)
next
  case (Some i)
  have d: "distinct (map fst (open_requests u))" using assms by (simp add: uses_exact_def)
  note n = remove_one [OF d Some]
  have f: "flying u k = length (filter (\<lambda>(_, j). j = k) (open_requests u))" "in_flight u k \<noteq> Some 0" for k
    using assms by (simp_all add: uses_exact_def)
  have "0 < flying u i" using n [of i] f(1) [of i] by simp
  then obtain m where m: "in_flight u i = Some m" "0 < m" by (auto simp: flying_def split: option.splits)
  have "distinct (map fst (filter (\<lambda>(q, _). q \<noteq> r) (open_requests u)))" using d by (simp add: distinct_map_filter)
  moreover have "list_all (\<lambda>(q, _). q < next_request u) (filter (\<lambda>(q, _). q \<noteq> r) (open_requests u))"
    using assms by (auto simp: uses_exact_def list_all_iff)
  moreover have "in_flight (end_request r now u) k \<noteq> Some 0
      \<and> flying (end_request r now u) k = length (filter (\<lambda>(_, j). j = k) (filter (\<lambda>(q, _). q \<noteq> r) (open_requests u)))" for k
    using n [of k] f [of k] m by (auto simp: end_request_def Some Let_def flying_def split: option.splits)
  ultimately show ?thesis by (simp add: uses_exact_def end_request_def Some Let_def)
qed

lemma uses_after_exact: "uses_exact (uses_after es)"
proof -
  have "uses_exact u \<Longrightarrow> uses_exact (fold use_step es u)" for u
  proof (induction es arbitrary: u)
    case (Cons e es)
    then show ?case by (cases e) (simp_all add: track_exact end_exact)
  qed simp
  then show ?thesis by (simp add: uses_after_def uses_exact_def no_uses_def flying_def)
qed

text \<open>However requests begin and end, a release called twice included, a model counts as answering exactly as many requests as
  were begun on it and not ended, so it is free to go when the last of them is over and never before.
\<close>

theorem busy_while_answering:
  "flying (uses_after es) i = length (filter (\<lambda>(_, j). j = i) (open_requests (uses_after es)))"
  using uses_after_exact by (simp add: uses_exact_def)

section \<open>What is unloaded\<close>

text \<open>
  A victim of one pass: measured as loaded, not the model the room is for, neither pinned nor loading, with no request under way
  when the plan was made nor once its caches were saved, and used no later than any other that might have gone.
\<close>

definition victim_ok :: "js_string \<Rightarrow> rat \<Rightarrow> pass \<Rightarrow> js_string \<Rightarrow> bool" where
  "victim_ok i required p v \<longleftrightarrow>
     \<not> ps_loaded p \<and> \<not> ps_aborted p \<and> \<not> ps_aborted_after p \<and> v \<noteq> i
     \<and> flying (ps_uses p) v = 0 \<and> flying (ps_uses_after p) v = 0
     \<and> (\<exists>m\<in>set (ps_footprints p). fp_id m = v \<and> \<not> fp_pinned m \<and> \<not> fp_loading m)
     \<and> needs_room required (ps_cap p) (ps_free p) (int (length (others_loaded i (ps_footprints p))))
     \<and> (\<forall>c\<in>set (candidates (ps_uses p) (others_loaded i (ps_footprints p))).
          rc_pinned c \<or> rc_busy c \<or> (case last_used (ps_uses p) v of Some t \<Rightarrow> t | None \<Rightarrow> 0) \<le> last_used_at c)"

lemma pass_victim:
  assumes "ensure_pass i required p = Unload v"
  shows "victim_ok i required p v"
proof -
  define cs where "cs = candidates (ps_uses p) (others_loaded i (ps_footprints p))"
  obtain ids where ids: "plan_room required (ps_free p) cs (ps_cap p) = Evict ids" "hd ids = v"
    "\<not> ps_loaded p" "\<not> ps_aborted p" "\<not> ps_aborted_after p" "flying (ps_uses_after p) v = 0"
    using assms by (auto simp: ensure_pass_def cs_def split: if_splits room_plan.splits)
  obtain k where k: "k \<le> length (evictable cs)" "list_all (needs_after required (ps_cap p) (ps_free p) (int (length cs)) (evictable cs)) [0..<k]"
    "ids = map rc_id (take k (evictable cs))" "k \<noteq> 0" "sorted (map last_used_at (evictable cs))"
    "set (evictable cs) = {m \<in> set cs. \<not> rc_pinned m \<and> \<not> rc_busy m}"
    using plan_room_exact [of cs required "ps_cap p" "ps_free p"] ids(1) by (auto split: if_splits)
  then obtain c rest where c: "evictable cs = c # rest" by (cases "evictable cs") auto
  then have v: "v = rc_id c" using ids(2) k(3,4) by (cases k) auto
  have "c \<in> set cs" "\<not> rc_pinned c" "\<not> rc_busy c" using k(6) c by auto
  then obtain m where m: "m \<in> set (others_loaded i (ps_footprints p))" "rc_id c = fp_id m" "\<not> fp_pinned m" "\<not> fp_loading m"
    "flying (ps_uses p) (fp_id m) = 0" "last_used_at c = (case last_used (ps_uses p) (fp_id m) of Some t \<Rightarrow> t | None \<Rightarrow> 0)"
    by (auto simp: cs_def candidates_def)
  have "needs_after required (ps_cap p) (ps_free p) (int (length cs)) (evictable cs) 0"
    using k(2,4) by (simp add: list_all_iff)
  then have need: "needs_room required (ps_cap p) (ps_free p) (int (length (others_loaded i (ps_footprints p))))"
    by (simp add: needs_after_def freed_0 cs_def candidates_def)
  have "last_used_at c \<le> last_used_at d" if "d \<in> set cs" "\<not> rc_pinned d" "\<not> rc_busy d" for d
    using k(5,6) c that by auto
  then show ?thesis
    using ids m need v unfolding victim_ok_def cs_def [symmetric] by (auto simp: others_loaded_def)
qed

text \<open>
  C19: Making room never unloads the model it is for, a pinned one, one that is loading or one with a request under way, before
  its caches are saved or after, and of the others takes the one that was used longest ago, on what was just measured; and it
  unloads at most seventeen.
\<close>

theorem room_spares_the_busy:
  assumes "ensure_room_locked i required ps = (victims, out)"
  shows "length victims \<le> Suc MAX_EVICTIONS \<and> (\<forall>v\<in>set victims. \<exists>j\<le>MAX_EVICTIONS. victim_ok i required (ps j) v)"
proof -
  have "fst (ensure_loop i required xs) = vs \<Longrightarrow> length vs \<le> length xs \<and> (\<forall>v\<in>set vs. \<exists>p\<in>set xs. victim_ok i required p v)" for xs vs
  proof (induction xs arbitrary: vs)
    case (Cons p xs)
    show ?case
    proof (cases "ensure_pass i required p")
      case (Unload v)
      then show ?thesis using Cons.IH [OF refl] Cons.prems pass_victim [OF Unload] by auto
    qed (use Cons in \<open>fastforce+\<close>)
  qed simp
  from this [of "map ps [0..<Suc MAX_EVICTIONS]" victims] show ?thesis
    using assms by (auto simp: ensure_room_locked_def simp del: upt_Suc) (meson atLeastLessThan_iff less_Suc_eq_le)
qed

definition sample_pass :: "nat \<Rightarrow> pass" where
  "sample_pass j =
     \<lparr>ps_loaded = False, ps_free = Some (if j = 0 then 10 else 100),
      ps_footprints = (if j = 0 then [\<lparr>fp_id = ''a'', fp_name = ''a'', fp_pinned = False, fp_loading = False, fp_bytes = 90\<rparr>] else []),
      ps_cap = 0, ps_uses = no_uses, ps_uses_after = no_uses, ps_aborted = False, ps_aborted_after = False\<rparr>"

lemma sample_pass_run: "ensure_room_locked ''c'' 60 sample_pass = ([''a''], Some Enough)"
proof -
  have "[0..<Suc MAX_EVICTIONS] = 0 # 1 # [2..<17]" by (simp add: MAX_EVICTIONS_def upt_rec)
  moreover have "ensure_pass ''c'' 60 (sample_pass 0) = Unload ''a''" "ensure_pass ''c'' 60 (sample_pass 1) = Enough"
    by code_simp+
  ultimately show ?thesis by (simp add: ensure_room_locked_def)
qed

theorem room_spares_the_busy_witness:
  "ensure_room_locked ''c'' 60 sample_pass = ([''a''], Some Enough) \<and> (\<exists>j\<le>MAX_EVICTIONS. victim_ok ''c'' 60 (sample_pass j) ''a'')"
  using room_spares_the_busy [OF sample_pass_run] sample_pass_run by simp

end
