(* ===== verification/StagePolicy.thy ===== *)
theory StagePolicy
  imports Room MakeRoom "HOL-Library.AList"
begin

text \<open>
  Who may move a model's context stage and to where (\<open>llama/context-stage-policy.ts\<close>, and what \<open>stageRun.ts\<close>, \<open>engine.ts\<close> and
  \<open>routes/context-stage.ts\<close> make of the answer). The usage records and the conversations are given as lists; token counts and
  windows are rational, times are milliseconds.
\<close>

section \<open>Who else needs the window\<close>

definition OTHERS_WINDOW_MS :: int where "OTHERS_WINDOW_MS = 7200000"

definition CONTEXT_STAGE_PROMPT_AT :: rat where "CONTEXT_STAGE_PROMPT_AT = 3 / 4"

definition fit_at :: "rat \<Rightarrow> rat" where
  "fit_at threshold = (if 0 < threshold then threshold else 17 / 20)"

definition holds :: "rat \<Rightarrow> rat \<Rightarrow> rat option \<Rightarrow> bool" where
  "holds share tokens w = (case w of Some x \<Rightarrow> tokens < x * share | None \<Rightarrow> False)"

fun stage_from :: "nat \<Rightarrow> rat \<Rightarrow> rat option list \<Rightarrow> rat \<Rightarrow> nat" where
  "stage_from i tokens [] share = i - 1"
| "stage_from i tokens (w # ws) share = (if holds share tokens w then i else stage_from (Suc i) tokens ws share)"

definition smallest_stage_for :: "rat \<Rightarrow> rat option list \<Rightarrow> rat \<Rightarrow> nat" where
  "smallest_stage_for tokens windows share = stage_from 0 tokens windows share"

record conversation_use =
  cu_conversation :: js_string
  cu_tokens :: rat
  cu_at :: int

definition needed_by_others :: "rat \<Rightarrow> conversation_use list \<Rightarrow> rat option list \<Rightarrow> nat" where
  "needed_by_others threshold uses windows =
     foldl (\<lambda>need u. max need (smallest_stage_for (cu_tokens u) windows (fit_at threshold))) 0 uses"

record use_row =
  ur_conversation :: "js_string option"
  ur_tokens :: rat
  ur_at :: int
  ur_parent :: "js_string option"

text \<open>An empty id is no thread.\<close>

definition thread_of :: "use_row \<Rightarrow> js_string option" where
  "thread_of r =
     (case (case ur_parent r of Some p \<Rightarrow> Some p | None \<Rightarrow> ur_conversation r) of
        Some t \<Rightarrow> if t = [] then None else Some t
      | None \<Rightarrow> None)"

definition add_use :: "(js_string \<times> conversation_use) list \<Rightarrow> use_row \<Rightarrow> (js_string \<times> conversation_use) list" where
  "add_use m r =
     (case thread_of r of
        None \<Rightarrow> m
      | Some t \<Rightarrow>
          AList.update t
            (case map_of m t of
               Some h \<Rightarrow> \<lparr>cu_conversation = t, cu_tokens = max (cu_tokens h) (ur_tokens r),
                 cu_at = (if ur_at r < cu_at h then cu_at h else ur_at r)\<rparr>
             | None \<Rightarrow> \<lparr>cu_conversation = t, cu_tokens = max 0 (ur_tokens r), cu_at = ur_at r\<rparr>) m)"

definition uses_by_thread :: "use_row list \<Rightarrow> conversation_use list" where
  "uses_by_thread rows = map snd (foldl add_use [] rows)"

section \<open>The records\<close>

record usage_record =
  us_conversation :: "js_string option"
  us_model :: js_string
  us_tokens :: rat
  us_at :: int
  us_purpose :: "js_string option"

record use_conversation =
  cr_id :: js_string
  cr_kind :: "js_string option"
  cr_parent :: "js_string option"
  cr_status :: "js_string option"
  cr_deleted :: bool

text \<open>The newest of a conversation's records, the first of those as new.\<close>

definition newest :: "usage_record list \<Rightarrow> usage_record option" where
  "newest us = foldl (\<lambda>best u. case best of Some b \<Rightarrow> if us_at b < us_at u then Some u else Some b | None \<Rightarrow> Some u) None us"

definition counts_for :: "js_string \<Rightarrow> int \<Rightarrow> js_string option \<Rightarrow> use_conversation list \<Rightarrow> usage_record \<Rightarrow> bool" where
  "counts_for model since except convs u \<longleftrightarrow>
     us_model u = model \<and> since < us_at u \<and> us_purpose u = None
     \<and> (case us_conversation u of
          None \<Rightarrow> False
        | Some i \<Rightarrow>
            except \<noteq> Some i
            \<and> (case find (\<lambda>c. cr_id c = i) convs of
                 None \<Rightarrow> False
               | Some c \<Rightarrow>
                   \<not> cr_deleted c \<and> (cr_kind c \<noteq> Some ''subagent'' \<or> cr_status c = Some ''running'')
                   \<and> (except = None \<or> cr_parent c \<noteq> except)))"

text \<open>One row a conversation, in the order they are met: the grouping that follows does not depend on it.\<close>

definition recent_rows ::
    "js_string \<Rightarrow> int \<Rightarrow> js_string option \<Rightarrow> use_conversation list \<Rightarrow> usage_record list \<Rightarrow> use_row list" where
  "recent_rows model now except convs us =
     (let mine = filter (counts_for model (now - OTHERS_WINDOW_MS) except convs) us in
      List.map_filter (\<lambda>i. map_option (\<lambda>u. \<lparr>ur_conversation = Some i, ur_tokens = us_tokens u, ur_at = us_at u,
          ur_parent = Option.bind (find (\<lambda>c. cr_id c = i) convs) cr_parent\<rparr>)
        (newest (filter (\<lambda>u. us_conversation u = Some i) mine)))
      (remdups (List.map_filter us_conversation mine)))"

definition recent_uses ::
    "js_string \<Rightarrow> int \<Rightarrow> js_string option \<Rightarrow> use_conversation list \<Rightarrow> usage_record list \<Rightarrow> conversation_use list" where
  "recent_uses model now except convs us = uses_by_thread (recent_rows model now except convs us)"

text \<open>The caller passes no empty id: \<open>exceptConversationId\<close> is looked at as a truth value.\<close>

definition conversation_tokens :: "js_string \<Rightarrow> usage_record list \<Rightarrow> rat option" where
  "conversation_tokens i us =
     map_option us_tokens (newest (filter (\<lambda>u. us_conversation u = Some i \<and> us_purpose u = None) us))"

section \<open>The request\<close>

text \<open>
  What the check reads besides the row: the wait left, who started the switch that waits, the other conversations' uses, this
  one's size, and the pinned models in the way of a stage.
\<close>

record stage_world =
  sw_cooldown :: int
  sw_pending :: "js_string option option"
  sw_uses :: "conversation_use list"
  sw_tokens :: "rat option"
  sw_blockers :: "nat \<Rightarrow> js_string list"

record stage_request =
  sr_target :: rat
  sr_admin :: bool
  sr_conversation :: "js_string option"
  sr_compact_first :: bool
  sr_auto :: bool
  sr_user :: "js_string option"

datatype stage_refusal =
    NotStaged
  | NoSuchStage
  | NotAllowed
  | TooSoon int
  | SwitchPending
  | OthersNeed nat
  | NoRoomFor nat "js_string list"
  | TooLarge rat nat

text \<open>Whether this may be asked at all, by this person, now.\<close>

definition asking_refused :: "('a) model_row_scheme \<Rightarrow> stages_config \<Rightarrow> stage_world \<Rightarrow> stage_request \<Rightarrow> stage_refusal option" where
  "asking_refused row config w r =
     (let free = (sr_auto r \<or> sr_admin r); moves = (sr_target r \<noteq> of_nat (active_stage_index row)) in
      if \<not> is_integer (sr_target r) \<or> sr_target r < 0 \<or> of_nat (length (stage_windows row)) \<le> sr_target r then Some NoSuchStage
      else if \<not> free \<and> who_may config = Admins then Some NotAllowed
      else if \<not> free \<and> moves \<and> 0 < sw_cooldown w then Some (TooSoon (\<lceil>of_int (sw_cooldown w) / 1000 :: rat\<rceil>))
      else if \<not> free \<and> moves \<and> (case sw_pending w of Some by \<Rightarrow> by \<noteq> sr_user r | None \<Rightarrow> False) then Some SwitchPending
      else None)"

text \<open>Whether the stage it comes to can be had.\<close>

definition target_refused :: "rat \<Rightarrow> ('a) model_row_scheme \<Rightarrow> stage_world \<Rightarrow> stage_request \<Rightarrow> nat \<Rightarrow> stage_refusal option" where
  "target_refused threshold row w r target =
     (if active_stage_index row < target \<and> sw_blockers w target \<noteq> [] then Some (NoRoomFor target (sw_blockers w target))
      else if sr_conversation r \<noteq> None \<and> \<not> sr_compact_first r then
        (case (sw_tokens w, Prelude.at (stage_windows row) target) of
           (Some n, Some (Some x)) \<Rightarrow> if x * fit_at threshold \<le> n then Some (TooLarge n target) else None
         | _ \<Rightarrow> None)
      else None)"

definition check_stage_request ::
    "rat \<Rightarrow> ('a) model_row_scheme \<Rightarrow> stage_world \<Rightarrow> stage_request \<Rightarrow> stage_refusal + nat \<times> nat option" where
  "check_stage_request threshold row w r =
     (case row_stages row of
        None \<Rightarrow> Inl NotStaged
      | Some config \<Rightarrow>
          (case asking_refused row config w r of
             Some e \<Rightarrow> Inl e
           | None \<Rightarrow>
               let wanted = nat \<lfloor>sr_target r\<rfloor>; need = needed_by_others threshold (sw_uses w) (stage_windows row);
                   limited = (wanted < active_stage_index row \<and> wanted < need); target = (if limited then need else wanted)
               in if limited \<and> \<not> sr_auto r then Inl (OthersNeed need)
                  else (case target_refused threshold row w r target of
                      Some e \<Rightarrow> Inl e
                    | None \<Rightarrow> Inr (target, if limited then Some need else None))))"

section \<open>What asks\<close>

definition auto_request :: "nat \<Rightarrow> js_string \<Rightarrow> stage_request" where
  "auto_request target conv =
     \<lparr>sr_target = of_nat target, sr_admin = True, sr_conversation = Some conv, sr_compact_first = False, sr_auto = True, sr_user = None\<rparr>"

definition plan_extension :: "rat \<Rightarrow> ('a) model_row_scheme \<Rightarrow> stage_world \<Rightarrow> js_string \<Rightarrow> nat option" where
  "plan_extension threshold row w conv =
     (case row_stages row of
        None \<Rightarrow> None
      | Some config \<Rightarrow>
          let next_stage = active_stage_index row + 1 in
          if full_means config \<noteq> WhenExtend \<or> length (sc_stages config) < next_stage then None
          else (case check_stage_request threshold row w (auto_request next_stage conv) of Inl _ \<Rightarrow> None | Inr _ \<Rightarrow> Some next_stage))"

definition LEFT_TO_PERSON_MAX :: nat where "LEFT_TO_PERSON_MAX = 5000"

text \<open>\<open>left\<close> is the map's keys in order: a conversation, a model, a stage.\<close>

definition leave_compaction_to_person ::
    "rat \<Rightarrow> ('a) model_row_scheme \<Rightarrow> stage_world \<Rightarrow> bool \<Rightarrow> js_string \<Rightarrow> js_string \<Rightarrow> js_string option option
     \<Rightarrow> (js_string \<times> js_string \<times> nat) list \<Rightarrow> bool \<times> (js_string \<times> js_string \<times> nat) list" where
  "leave_compaction_to_person threshold row w admin user conv kind left =
     (case row_stages row of
        None \<Rightarrow> (False, left)
      | Some config \<Rightarrow>
          let active = active_stage_index row; key = (conv, row_id row, active) in
          if full_means config \<noteq> WhenCompact \<or> length (sc_stages config) \<le> active then (False, left)
          else if kind = None \<or> kind = Some (Some ''routine'') then (False, left)
          else (case check_stage_request threshold row w
                    \<lparr>sr_target = of_nat (active + 1), sr_admin = admin, sr_conversation = Some conv, sr_compact_first = False,
                     sr_auto = False, sr_user = Some user\<rparr> of
                  Inl _ \<Rightarrow> (False, left)
                | Inr _ \<Rightarrow>
                    if key \<in> set left then (False, left)
                    else (True, if LEFT_TO_PERSON_MAX < length (left @ [key]) then tl (left @ [key]) else left @ [key])))"

text \<open>What a new conversation's first run does before its first request.\<close>

datatype new_conversation_stage = AsItIs | RefusedOnTheCard stage_refusal | Switch nat "nat option" bool

definition stage_for_new_conversation ::
    "rat \<Rightarrow> ('a) model_row_scheme \<Rightarrow> stage_world \<Rightarrow> bool \<Rightarrow> js_string \<Rightarrow> js_string \<Rightarrow> nat option \<Rightarrow> new_conversation_stage" where
  "stage_for_new_conversation threshold row w admin user conv chosen =
     (if row_stages row = None then AsItIs
      else let active = active_stage_index row; wanted = (case chosen of Some c \<Rightarrow> c | None \<Rightarrow> 0); auto = (chosen = None) in
        if wanted = active then AsItIs
        else (case check_stage_request threshold row w
                  \<lparr>sr_target = of_nat wanted, sr_admin = admin, sr_conversation = Some conv, sr_compact_first = False,
                   sr_auto = auto, sr_user = Some user\<rparr> of
                Inl e \<Rightarrow> RefusedOnTheCard e
              | Inr (target, limit) \<Rightarrow> if target = active then AsItIs else Switch target limit auto))"

text \<open>A stage claimed over a socket.\<close>

definition normalize_context_stage :: "rat option \<Rightarrow> nat option" where
  "normalize_context_stage raw =
     (case raw of Some x \<Rightarrow> if is_integer x \<and> 0 \<le> x \<and> x < 16 then Some (nat \<lfloor>x\<rfloor>) else None | None \<Rightarrow> None)"

text \<open>
  After a turn that ended full: an extension is started or not, and a compaction only if it is not left to the person. \<open>extended\<close>
  is whether the model's own extension started, \<open>left\<close> whether the crossing was left.
\<close>

definition compacts_after_turn :: "fill_verdict \<Rightarrow> bool \<Rightarrow> bool \<Rightarrow> bool \<Rightarrow> bool" where
  "compacts_after_turn decision can_compact extended left =
     (let compact = (case decision of Compact \<Rightarrow> True | Extend _ \<Rightarrow> \<not> extended \<and> can_compact | _ \<Rightarrow> False)
      in compact \<and> \<not> left)"

text \<open>\<open>compact_first\<close>: whether the switch goes ahead once the compaction is over.\<close>

definition fits_after_compaction :: "rat \<Rightarrow> ('a) model_row_scheme \<Rightarrow> nat \<Rightarrow> js_string \<Rightarrow> usage_record list \<Rightarrow> bool" where
  "fits_after_compaction threshold row target conv us =
     (case (conversation_tokens conv us, Prelude.at (stage_windows row) target) of
        (Some t, Some (Some x)) \<Rightarrow> t < x * fit_at threshold
      | _ \<Rightarrow> True)"

text \<open>Who may withdraw a switch that waits: \<open>editor\<close> says whether the asker may edit the conversation it was started from.\<close>

definition may_withdraw :: "('a) model_row_scheme \<Rightarrow> (js_string option \<times> js_string option) option \<Rightarrow> js_string \<Rightarrow> bool \<Rightarrow> bool \<Rightarrow> bool" where
  "may_withdraw row waiting user admin editor =
     (case row_stages row of
        None \<Rightarrow> False
      | Some config \<Rightarrow>
          (who_may config = Admins \<longrightarrow> admin)
          \<and> (case waiting of
               None \<Rightarrow> True
             | Some (by, conv) \<Rightarrow> by = Some user \<or> admin \<or> (conv \<noteq> None \<and> editor)))"

section \<open>A window others need is kept\<close>

lemma stage_from_ge: "ws \<noteq> [] \<Longrightarrow> i \<le> stage_from i tokens ws share"
proof (induction ws arbitrary: i)
  case (Cons w ws)
  show ?case using Cons.IH [of "Suc i"] by (cases ws) auto
qed simp

lemma stage_from_hit:
  "stage_from i tokens ws share = i + k \<Longrightarrow> Suc k < length ws \<Longrightarrow> holds share tokens (ws ! k)"
proof (induction ws arbitrary: i k)
  case (Cons w ws)
  show ?case
  proof (cases "holds share tokens w")
    case True
    then show ?thesis using Cons.prems by simp
  next
    case False
    then have s: "stage_from (Suc i) tokens ws share = i + k" using Cons.prems by simp
    have "k \<noteq> 0"
    proof
      assume "k = 0"
      then have "stage_from (Suc i) tokens ws share = i" "ws \<noteq> []" using s Cons.prems(2) by auto
      then show False using stage_from_ge [of ws "Suc i" tokens share] by simp
    qed
    then obtain j where "k = Suc j" by (cases k) auto
    then show ?thesis using Cons.IH [of "Suc i" j] s Cons.prems(2) by simp
  qed
qed simp

lemma smallest_hit: "Suc (smallest_stage_for tokens ws share) < length ws \<Longrightarrow> holds share tokens (ws ! smallest_stage_for tokens ws share)"
  using stage_from_hit [of 0] by (simp add: smallest_stage_for_def)

lemma needed_ge:
  "(u :: conversation_use) \<in> set uses \<Longrightarrow> smallest_stage_for (cu_tokens u) ws (fit_at threshold) \<le> needed_by_others threshold uses ws"
proof -
  define f where "f = (\<lambda>u :: conversation_use. smallest_stage_for (cu_tokens u) ws (fit_at threshold))"
  have "n \<le> foldl (\<lambda>need u. max need (f u)) n us \<and> (u \<in> set us \<longrightarrow> f u \<le> foldl (\<lambda>need u. max need (f u)) n us)" for n us
    by (induction us arbitrary: n) (auto, metis max.bounded_iff, metis max.bounded_iff)
  then show "u \<in> set uses \<Longrightarrow> ?thesis" by (simp add: needed_by_others_def f_def)
qed

lemma known_sorted_nth:
  "sorted (known_values ws) \<Longrightarrow> i < j \<Longrightarrow> j < length ws \<Longrightarrow> ws ! i = Some x \<Longrightarrow> ws ! j = Some y \<Longrightarrow> x \<le> y"
proof (induction ws arbitrary: i j)
  case (Cons w ws)
  obtain k where k: "j = Suc k" using Cons.prems(2) by (cases j) auto
  show ?case
  proof (cases i)
    case 0
    have "Some y \<in> set ws" using Cons.prems(3,5) k by (metis length_Cons nth_Cons_Suc nth_mem Suc_less_eq)
    then show ?thesis using Cons.prems 0 by simp
  next
    case (Suc l)
    have "sorted (known_values ws)" using Cons.prems(1) by (cases w) simp_all
    then show ?thesis using Cons.IH [of l k] Cons.prems(2-5) Suc k by simp
  qed
qed simp

lemma fit_at_pos: "0 < fit_at threshold"
  by (simp add: fit_at_def)

text \<open>What fits a stage fits every larger one.\<close>

lemma larger_stage_holds:
  assumes "holds (fit_at threshold) tokens (stage_windows row ! k)" "k \<le> t" "t < length (stage_windows row)"
  shows "holds (fit_at threshold) tokens (stage_windows row ! t)"
proof (cases "k = t")
  case True
  then show ?thesis using assms(1) by simp
next
  case False
  obtain x where x: "stage_windows row ! k = Some x" using assms(1) by (auto simp: holds_def split: option.splits)
  have "t - 1 < length (tl (stage_windows row))" "stage_windows row ! t = tl (stage_windows row) ! (t - 1)"
    using assms(2,3) False by (simp_all add: nth_tl)
  then obtain y where y: "stage_windows row ! t = Some y"
    using stages_grow [of row] by (auto simp: list_all_length)
  have "x \<le> y" using known_sorted_nth [of "stage_windows row" k t x y] x y stages_grow [of row] assms(2,3) False by simp
  then have "x * fit_at threshold \<le> y * fit_at threshold" using fit_at_pos [of threshold] by (simp add: mult_right_mono)
  then show ?thesis using assms(1) by (simp add: holds_def x y)
qed


lemma needed_on_step_down:
  assumes "check_stage_request threshold row w r = Inr (t, limit)" "t < active_stage_index row"
  shows "needed_by_others threshold (sw_uses w) (stage_windows row) \<le> t"
  using assms by (auto simp: check_stage_request_def Let_def split: option.splits if_splits)


lemma others_fit:
  assumes "check_stage_request threshold row w r = Inr (t, limit)" "t < active_stage_index row" "u \<in> set (sw_uses w)" "n \<le> cu_tokens u"
  shows "holds (fit_at threshold) n (stage_windows row ! t)"
proof -
  define k where "k = smallest_stage_for (cu_tokens u) (stage_windows row) (fit_at threshold)"
  have k: "k \<le> t" using needed_ge [OF assms(3)] needed_on_step_down [OF assms(1,2)] unfolding k_def by (metis order_trans)
  have len: "t < length (stage_windows row)" "Suc k < length (stage_windows row)"
    using stages_grow [of row] assms(2) k by auto
  have "holds (fit_at threshold) (cu_tokens u) (stage_windows row ! t)"
    using smallest_hit len k k_def by (intro larger_stage_holds [of threshold "cu_tokens u" row k t]) auto
  then show ?thesis using assms(4) by (auto simp: holds_def split: option.splits)
qed

lemma add_use_keeps:
  assumes "map_of m t = Some u"
  shows "\<exists>v. map_of (add_use m r) t = Some v \<and> cu_tokens u \<le> cu_tokens v"
  using assms by (auto simp: add_use_def update_conv' split: option.split)

lemma add_use_adds: "thread_of r = Some t \<Longrightarrow> \<exists>v. map_of (add_use m r) t = Some v \<and> ur_tokens r \<le> cu_tokens v"
  by (auto simp: add_use_def update_conv' split: option.split)

lemma uses_keep: "map_of m t = Some u \<Longrightarrow> \<exists>v. map_of (foldl add_use m rows) t = Some v \<and> cu_tokens u \<le> cu_tokens v"
proof (induction rows arbitrary: m u)
  case (Cons r rows)
  obtain v where v: "map_of (add_use m r) t = Some v" "cu_tokens u \<le> cu_tokens v" using add_use_keeps [OF Cons.prems] by blast
  then show ?case using Cons.IH [OF v(1)] by force
qed simp

text \<open>A use is reported under its thread, with a window as large as it needs.\<close>

lemma use_in_thread:
  assumes "r \<in> set rows" "thread_of r = Some t"
  shows "\<exists>u\<in>set (uses_by_thread rows). ur_tokens r \<le> cu_tokens u"
proof -
  obtain xs ys where rows: "rows = xs @ r # ys" using assms(1) by (meson split_list)
  obtain v where v: "map_of (add_use (foldl add_use [] xs) r) t = Some v" "ur_tokens r \<le> cu_tokens v"
    using add_use_adds [OF assms(2)] by blast
  obtain u where "map_of (foldl add_use [] rows) t = Some u" "cu_tokens v \<le> cu_tokens u"
    using uses_keep [OF v(1), of ys] by (auto simp: rows)
  then show ?thesis using v(2) by (auto simp: uses_by_thread_def dest!: map_of_SomeD intro!: bexI [of _ "(t, u)"])
qed

lemma newest_in: "newest us = Some u \<Longrightarrow> u \<in> set us"
proof -
  have "foldl (\<lambda>best u. case best of Some b \<Rightarrow> if us_at b < us_at u then Some u else Some b | None \<Rightarrow> Some u) best us = Some u \<Longrightarrow>
      u \<in> set us \<or> best = Some u" for best
    by (induction us arbitrary: best) (auto split: option.split_asm if_split_asm)
  from this [of None] show "newest us = Some u \<Longrightarrow> ?thesis" by (simp add: newest_def)
qed

text \<open>
  C12: A step down never shrinks the window under anyone: when a smaller stage is granted, the last request of every other
  conversation that used the model in the last two hours, a running sub-agent's under its thread included, is still below the
  share of the new window at which it would be compacted.
\<close>

theorem step_down_truncates_nobody:
  assumes "check_stage_request threshold row w r = Inr (t, limit)" "t < active_stage_index row"
    "sw_uses w = recent_uses (row_id row) now (sr_conversation r) convs us"
    "newest (filter (\<lambda>u. us_conversation u = Some i)
       (filter (counts_for (row_id row) (now - OTHERS_WINDOW_MS) (sr_conversation r) convs) us)) = Some u"
    "find (\<lambda>c. cr_id c = i) convs = Some c" "i \<noteq> []" "cr_parent c \<noteq> Some []"
  shows "\<exists>x. stage_windows row ! t = Some x \<and> us_tokens u < x * fit_at threshold"
proof -
  define mine where "mine = filter (counts_for (row_id row) (now - OTHERS_WINDOW_MS) (sr_conversation r) convs) us"
  define ur where "ur = \<lparr>ur_conversation = Some i, ur_tokens = us_tokens u, ur_at = us_at u, ur_parent = cr_parent c\<rparr>"
  have "u \<in> set mine" "us_conversation u = Some i" using newest_in [OF assms(4)] by (simp_all add: mine_def)
  then have "i \<in> set (remdups (List.map_filter us_conversation mine))" by (force simp: map_filter_def)
  then have "ur \<in> set (recent_rows (row_id row) now (sr_conversation r) convs us)"
    using assms(4,5) by (auto simp: recent_rows_def Let_def mine_def [symmetric] ur_def map_filter_def intro!: image_eqI [of _ _ i])
  moreover obtain th where "thread_of ur = Some th"
    using assms(6,7) by (cases "cr_parent c") (simp_all add: thread_of_def ur_def)
  ultimately obtain v where "v \<in> set (sw_uses w)" "ur_tokens ur \<le> cu_tokens v"
    unfolding assms(3) recent_uses_def using use_in_thread by blast
  then have "v \<in> set (sw_uses w)" "us_tokens u \<le> cu_tokens v" by (simp_all add: ur_def)
  from others_fit [OF assms(1,2) this] show ?thesis by (auto simp: holds_def split: option.splits)
qed


section \<open>Examples\<close>

text \<open>The windows evaluated without printing a context and reading it back.\<close>

declare stage_windows_map [code]

definition staged_row :: "int \<Rightarrow> model_row" where
  "staged_row active =
     \<lparr>row_id = ''o/r:Q'', context_stages = Some (JObj [(''enabled'', JBool True),
        (''stages'', JArr [JObj [(''ctxSize'', JNum ''16384'')], JObj [(''ctxSize'', JNum ''32768'')]])]),
      row_meta = \<lparr>n_layers = None, n_ctx_train = Some 8192, lookup_tbl = NoTable\<rparr>, load_settings = [], active_stage = active\<rparr>"

definition other_use :: "rat \<Rightarrow> usage_record" where
  "other_use n = \<lparr>us_conversation = Some ''b'', us_model = ''o/r:Q'', us_tokens = n, us_at = 9000000, us_purpose = None\<rparr>"

definition other_conversation :: use_conversation where
  "other_conversation = \<lparr>cr_id = ''b'', cr_kind = None, cr_parent = None, cr_status = None, cr_deleted = False\<rparr>"

definition idle_world :: "conversation_use list \<Rightarrow> stage_world" where
  "idle_world uses = \<lparr>sw_cooldown = 0, sw_pending = None, sw_uses = uses, sw_tokens = Some 100, sw_blockers = (\<lambda>_. [])\<rparr>"

definition down_to :: "rat \<Rightarrow> stage_request" where
  "down_to target =
     \<lparr>sr_target = target, sr_admin = False, sr_conversation = Some ''a'', sr_compact_first = False, sr_auto = False, sr_user = Some ''u''\<rparr>"

lemma sample_uses:
  "recent_uses ''o/r:Q'' 9000001 (Some ''a'') [other_conversation] [other_use n]
     = [\<lparr>cu_conversation = ''b'', cu_tokens = max 0 n, cu_at = 9000000\<rparr>]"
  by (simp add: recent_uses_def recent_rows_def Let_def counts_for_def other_use_def other_conversation_def OTHERS_WINDOW_MS_def
      newest_def uses_by_thread_def add_use_def thread_of_def map_filter_simps)


theorem step_down_truncates_nobody_witness:
  "check_stage_request (17 / 20) (staged_row 2) (idle_world (recent_uses ''o/r:Q'' 9000001 (Some ''a'') [other_conversation] [other_use 9000]))
     (down_to 1) = Inr (1, None)
   \<and> (\<exists>x. stage_windows (staged_row 2) ! 1 = Some x \<and> 9000 < x * fit_at (17 / 20))"
proof -
  have g: "check_stage_request (17 / 20) (staged_row 2) (idle_world (recent_uses ''o/r:Q'' 9000001 (Some ''a'') [other_conversation] [other_use 9000]))
     (down_to 1) = Inr (1, None)"
    unfolding sample_uses by code_simp
  have a: "1 < active_stage_index (staged_row 2)" by code_simp
  have n: "newest (filter (\<lambda>u. us_conversation u = Some ''b'')
       (filter (counts_for (row_id (staged_row 2)) (9000001 - OTHERS_WINDOW_MS) (sr_conversation (down_to 1)) [other_conversation])
         [other_use 9000])) = Some (other_use 9000)"
    by (simp add: counts_for_def other_use_def other_conversation_def OTHERS_WINDOW_MS_def newest_def staged_row_def down_to_def)
  have "\<exists>x. stage_windows (staged_row 2) ! 1 = Some x \<and> us_tokens (other_use 9000) < x * fit_at (17 / 20)"
    by (rule step_down_truncates_nobody [OF g a _ n, where c = other_conversation]) (simp_all add: idle_world_def staged_row_def down_to_def other_conversation_def)
  then show ?thesis using g by (simp add: other_use_def)
qed

text \<open>
  The step down a new conversation makes by itself is limited to what the others need even where that is more than there is: a
  conversation near the end of the middle window moves the model up, for everyone, on a model that is set to compact.
\<close>

lemma step_down_climbs:
  "stage_for_new_conversation (17 / 20) (staged_row 1) (idle_world [\<lparr>cu_conversation = ''b'', cu_tokens = 15000, cu_at = 0\<rparr>]) False ''u'' ''a'' None
     = Switch 2 (Some 2) True"
  by code_simp

text \<open>
  A compaction's own request is the newest record of its conversation, and as large as the history it read: a switch that was to
  follow the compaction is refused however short the summary.
\<close>

lemma compaction_counts_against_itself:
  "fits_after_compaction (17 / 20) (staged_row 2) 0 ''b'' [other_use 12000, (other_use 12400)\<lparr>us_at := 9000500\<rparr>] = False"
  by code_simp

end
