(* ===== verification/StageSwitch.thy ===== *)
theory StageSwitch
  imports ContextStages
begin

text \<open>
  Moving a model from one context stage to another (\<open>llama/context-stage-switch.ts\<close>). Any number of switches of one model are
  under way at once, each between two of its \<open>await\<close>s; a step takes one of them to its next. The whole backend, which
  \<open>acquireExclusiveSlot\<close> gives to one caller at a time, is \<open>holder\<close>; whether a load succeeds, and what throws, putting a
  stage back included, is any of the possibilities. An administrator who edits the model's stages under a switch is not among the
  steps.
\<close>

section \<open>State\<close>

text \<open>
  Where a switch is: in line, admitted, with its stage written over \<open>before\<close>, or loaded there; with the context it moved to. Or
  the load failed and the stage is written back, but the preset could not be rewritten.
\<close>

datatype switch_phase = Waiting | Admitted | Moved nat nat "rat option" | Reloaded nat nat "rat option" | WrittenBack nat

record switch =
  sw_id :: nat
  sw_target :: nat
  sw_by :: "js_string option"
  sw_conversation :: "js_string option"
  sw_aborted :: bool
  sw_phase :: switch_phase

text \<open>
  How one ended. One that threw is reported like a load that failed (\<open>failed\<close>), and one whose stage could not be put back after a
  stop like any that was stopped (\<open>cancelled\<close>); here they keep the stage they left behind.
\<close>

datatype stage_outcome = Applied nat | Unchanged nat | Cancelled | NotPutBack nat | LoadFailed | Broke "nat option" | Gone

record applied_switch =
  ap_at :: int
  ap_tokens :: "rat option"
  ap_conversation :: "js_string option"

record switches =
  the_row :: "model_row option"
  live :: "switch list"
  holder :: "nat option"
  pending :: "nat option"
  last_applied :: "applied_switch option"
  next_switch :: nat
  outcomes :: "stage_outcome list"

definition no_switches :: "model_row \<Rightarrow> switches" where
  "no_switches r = \<lparr>the_row = Some r, live = [], holder = None, pending = None, last_applied = None, next_switch = 0, outcomes = []\<rparr>"

definition find_switch :: "switches \<Rightarrow> nat \<Rightarrow> switch option" where
  "find_switch s i = find (\<lambda>w. sw_id w = i) (live s)"

definition change_switch :: "nat \<Rightarrow> (switch \<Rightarrow> switch) \<Rightarrow> switches \<Rightarrow> switches" where
  "change_switch i f s = s\<lparr>live := map (\<lambda>w. if sw_id w = i then f w else w) (live s)\<rparr>"

text \<open>The \<open>finally\<close> of a switch: the backend is let go, and the model's entry, if it is still its own.\<close>

definition finish :: "nat \<Rightarrow> stage_outcome \<Rightarrow> switches \<Rightarrow> switches" where
  "finish i out s =
     s\<lparr>live := filter (\<lambda>w. sw_id w \<noteq> i) (live s), holder := (if holder s = Some i then None else holder s),
       pending := (if pending s = Some i then None else pending s), outcomes := outcomes s @ [out]\<rparr>"

definition abort_switch :: "nat \<Rightarrow> switches \<Rightarrow> switches" where
  "abort_switch i = change_switch i (\<lambda>w. w\<lparr>sw_aborted := True\<rparr>)"

definition abort_pending :: "switches \<Rightarrow> switches" where
  "abort_pending s = (case pending s of Some p \<Rightarrow> abort_switch p s | None \<Rightarrow> s)"

definition write_stage :: "nat \<Rightarrow> switches \<Rightarrow> switches" where
  "write_stage n s = s\<lparr>the_row := map_option (\<lambda>r. r\<lparr>active_stage := int n\<rparr>) (the_row s)\<rparr>"

section \<open>Operations\<close>

text \<open>A call, up to the wait for the backend.\<close>

definition begin_switch :: "int \<Rightarrow> js_string option \<Rightarrow> js_string option \<Rightarrow> bool \<Rightarrow> switches \<Rightarrow> switches" where
  "begin_switch wanted by conv stopped s =
     (case the_row s of
        None \<Rightarrow> s\<lparr>outcomes := outcomes s @ [Gone]\<rparr>
      | Some r \<Rightarrow>
          let target = nat (max 0 (min wanted (int (stage_count r)))); from_stage = active_stage_index r in
          if target = from_stage \<and> pending s = None then s\<lparr>outcomes := outcomes s @ [Unchanged from_stage]\<rparr>
          else let s' = abort_pending s in
            s'\<lparr>live := live s' @ [\<lparr>sw_id = next_switch s, sw_target = target, sw_by = by, sw_conversation = conv, sw_aborted = stopped,
                 sw_phase = Waiting\<rparr>],
               pending := Some (next_switch s), next_switch := Suc (next_switch s)\<rparr>)"

definition pending_stage :: "switches \<Rightarrow> nat option" where
  "pending_stage s = map_option sw_target (Option.bind (pending s) (find_switch s))"

definition pending_switch :: "switches \<Rightarrow> (js_string option \<times> js_string option) option" where
  "pending_switch s = map_option (\<lambda>w. (sw_by w, sw_conversation w)) (Option.bind (pending s) (find_switch s))"

definition withdraw :: "switches \<Rightarrow> bool \<times> switches" where
  "withdraw s = (pending s \<noteq> None, abort_pending s)"

definition give_up :: "switch \<Rightarrow> switches \<Rightarrow> switches" where
  "give_up w s = finish (sw_id w) Cancelled s"

definition admit_switch :: "switch \<Rightarrow> switches \<Rightarrow> switches" where
  "admit_switch w s = (change_switch (sw_id w) (\<lambda>w. w\<lparr>sw_phase := Admitted\<rparr>) s)\<lparr>holder := Some (sw_id w)\<rparr>"

text \<open>Admitted: the row is read again, and the stage written.\<close>

definition move_stage :: "switch \<Rightarrow> switches \<Rightarrow> switches" where
  "move_stage w s =
     (case the_row s of
        None \<Rightarrow> finish (sw_id w) Gone s
      | Some r \<Rightarrow>
          let before = active_stage_index r; now = min (sw_target w) (stage_count r) in
          if now = before then finish (sw_id w) (Unchanged now) s
          else change_switch (sw_id w) (\<lambda>w. w\<lparr>sw_phase := Moved before now (Option.bind (Prelude.at (stage_contexts r) now) id)\<rparr>)
                 (write_stage now s))"

text \<open>How a load ends: loaded; not, and put back; or not, the row written back and then something threw.\<close>

datatype load_end = Loaded | NotLoaded | NotLoadedThrew

definition load_ended :: "load_end \<Rightarrow> switch \<Rightarrow> switches \<Rightarrow> switches" where
  "load_ended how w s =
     (case sw_phase w of
        Moved before now ctx \<Rightarrow>
          (case how of
             Loaded \<Rightarrow> change_switch (sw_id w) (\<lambda>w. w\<lparr>sw_phase := Reloaded before now ctx\<rparr>) s
           | NotLoaded \<Rightarrow> finish (sw_id w) LoadFailed (write_stage before s)
           | NotLoadedThrew \<Rightarrow> change_switch (sw_id w) (\<lambda>w. w\<lparr>sw_phase := WrittenBack before\<rparr>) (write_stage before s))
      | _ \<Rightarrow> s)"

text \<open>
  Something threw, the load on a stop among others: only a stop puts the stage back, and then the row may be written or
  not (\<open>written\<close>); what throws there is swallowed.
\<close>

definition threw :: "bool \<Rightarrow> switch \<Rightarrow> switches \<Rightarrow> switches" where
  "threw written w s =
     (if sw_aborted w
      then (case sw_phase w of
              Moved before now _ \<Rightarrow>
                if written then finish (sw_id w) Cancelled (write_stage before s) else finish (sw_id w) (NotPutBack now) s
            | WrittenBack before \<Rightarrow> finish (sw_id w) Cancelled (if written then write_stage before s else s)
            | _ \<Rightarrow> finish (sw_id w) Cancelled s)
      else finish (sw_id w) (Broke (case sw_phase w of Moved _ now _ \<Rightarrow> Some now | _ \<Rightarrow> None)) s)"

definition apply_switch :: "int \<Rightarrow> switch \<Rightarrow> switches \<Rightarrow> switches" where
  "apply_switch time w s =
     (case sw_phase w of
        Reloaded _ now ctx \<Rightarrow>
          finish (sw_id w) (Applied now)
            (s\<lparr>last_applied := Some \<lparr>ap_at = time, ap_tokens = ctx, ap_conversation = sw_conversation w\<rparr>\<rparr>)
      | _ \<Rightarrow> s)"

section \<open>After a switch\<close>

definition stage_cooldown_ms :: "rat option \<Rightarrow> rat" where
  "stage_cooldown_ms raw = (case raw of Some v \<Rightarrow> if 0 \<le> v then v else 30000 | None \<Rightarrow> 30000)"

definition stage_cooldown_remaining :: "rat \<Rightarrow> int \<Rightarrow> switches \<Rightarrow> rat" where
  "stage_cooldown_remaining cooldown now s =
     (case last_applied s of Some a \<Rightarrow> max 0 (of_int (ap_at a) + cooldown - of_int now) | None \<Rightarrow> 0)"

definition recent_switch :: "js_string \<Rightarrow> int \<Rightarrow> switches \<Rightarrow> rat option option" where
  "recent_switch conv now s =
     (case last_applied s of
        None \<Rightarrow> None
      | Some a \<Rightarrow> if ap_conversation a = Some conv \<or> 1800000 < now - ap_at a then None else Some (ap_tokens a))"

section \<open>Steps\<close>

inductive switch_step :: "switches \<Rightarrow> switches \<Rightarrow> bool" where
  begins: "switch_step s (begin_switch wanted by conv stopped s)"
| withdrawn: "switch_step s (snd (withdraw s))"
| stopped: "switch_step s (abort_switch i s)"
| gives_up: "w \<in> set (live s) \<Longrightarrow> sw_phase w = Waiting \<Longrightarrow> sw_aborted w \<Longrightarrow> switch_step s (give_up w s)"
| admits: "w \<in> set (live s) \<Longrightarrow> sw_phase w = Waiting \<Longrightarrow> \<not> sw_aborted w \<Longrightarrow> holder s = None \<Longrightarrow> switch_step s (admit_switch w s)"
| moves: "w \<in> set (live s) \<Longrightarrow> sw_phase w = Admitted \<Longrightarrow> switch_step s (move_stage w s)"
| loads: "w \<in> set (live s) \<Longrightarrow> sw_phase w = Moved b n c \<Longrightarrow> switch_step s (load_ended how w s)"
| throws: "w \<in> set (live s) \<Longrightarrow> sw_phase w = Admitted \<or> sw_phase w = Moved b n c \<or> sw_phase w = WrittenBack b \<Longrightarrow>
    switch_step s (threw written w s)"
| applies: "w \<in> set (live s) \<Longrightarrow> sw_phase w = Reloaded b n c \<Longrightarrow> switch_step s (apply_switch time w s)"
| uninstalled: "switch_step s (s\<lparr>the_row := None\<rparr>)"

inductive_cases switch_stepE: "switch_step s s'"

abbreviation switch_run :: "switches \<Rightarrow> switches \<Rightarrow> bool" where
  "switch_run \<equiv> switch_step\<^sup>*\<^sup>*"

section \<open>What a switch leaves\<close>

text \<open>The stage the outcomes so far come to.\<close>

definition settled :: "nat \<Rightarrow> stage_outcome list \<Rightarrow> nat" where
  "settled n outs = foldl (\<lambda>n out. case out of Applied m \<Rightarrow> m | Broke (Some m) \<Rightarrow> m | NotPutBack m \<Rightarrow> m | _ \<Rightarrow> n) n outs"

text \<open>What the row holds while a switch is where it is, and where it goes back to.\<close>

definition stage_left :: "nat \<Rightarrow> model_row \<Rightarrow> switch_phase \<Rightarrow> bool" where
  "stage_left n r ph \<longleftrightarrow>
     (case ph of
        Waiting \<Rightarrow> True
      | Admitted \<Rightarrow> active_stage_index r = n
      | Moved b m _ \<Rightarrow> b = n \<and> b \<le> stage_count r \<and> active_stage_index r = m
      | Reloaded b m _ \<Rightarrow> b = n \<and> b \<le> stage_count r \<and> active_stage_index r = m
      | WrittenBack b \<Rightarrow> b = n \<and> b \<le> stage_count r \<and> active_stage_index r = b)"

definition line_ok :: "switches \<Rightarrow> bool" where
  "line_ok s \<longleftrightarrow>
     distinct (map sw_id (live s)) \<and> (\<forall>w\<in>set (live s). sw_id w < next_switch s)
     \<and> (\<forall>w\<in>set (live s). sw_phase w \<noteq> Waiting \<longleftrightarrow> holder s = Some (sw_id w))
     \<and> (\<forall>h. holder s = Some h \<longrightarrow> h \<in> sw_id ` set (live s))
     \<and> (\<forall>w\<in>set (live s). \<not> sw_aborted w \<longrightarrow> pending s = Some (sw_id w))
     \<and> (\<forall>p. pending s = Some p \<longrightarrow> p \<in> sw_id ` set (live s))"

definition stages_kept :: "nat \<Rightarrow> switches \<Rightarrow> bool" where
  "stages_kept n s \<longleftrightarrow>
     (\<forall>r. the_row s = Some r \<longrightarrow>
        (holder s = None \<longrightarrow> active_stage_index r = settled n (outcomes s))
        \<and> (\<forall>w\<in>set (live s). stage_left (settled n (outcomes s)) r (sw_phase w)))"

lemma settled_snoc [simp]:
  "settled n (outs @ [out]) = (case out of Applied m \<Rightarrow> m | Broke (Some m) \<Rightarrow> m | NotPutBack m \<Rightarrow> m | _ \<Rightarrow> settled n outs)"
  by (simp add: settled_def split: stage_outcome.split option.split)

lemma row_stages_active [simp]: "row_stages (r\<lparr>active_stage := a\<rparr>) = row_stages r"
  by (simp add: row_stages_def)

lemma stage_count_active [simp]: "stage_count (r\<lparr>active_stage := a\<rparr>) = stage_count r"
  by (simp add: stage_count_def)

lemma active_written: "m \<le> stage_count r \<Longrightarrow> active_stage_index (r\<lparr>active_stage := int m\<rparr>) = m"
  by (simp add: active_stage_index_def stage_count_def split: option.splits)

lemma active_bound: "active_stage_index (r :: model_row) \<le> stage_count r"
  by (auto simp: active_stage_index_def stage_count_def split: option.split)

lemma finish_sel [simp]:
  "the_row (finish i out s) = the_row s" "live (finish i out s) = filter (\<lambda>w. sw_id w \<noteq> i) (live s)"
  "holder (finish i out s) = (if holder s = Some i then None else holder s)"
  "pending (finish i out s) = (if pending s = Some i then None else pending s)"
  "outcomes (finish i out s) = outcomes s @ [out]" "next_switch (finish i out s) = next_switch s"
  "last_applied (finish i out s) = last_applied s"
  by (simp_all add: finish_def)

lemma write_stage_sel [simp]:
  "the_row (write_stage n s) = map_option (\<lambda>r. r\<lparr>active_stage := int n\<rparr>) (the_row s)" "live (write_stage n s) = live s"
  "holder (write_stage n s) = holder s" "pending (write_stage n s) = pending s" "outcomes (write_stage n s) = outcomes s"
  "next_switch (write_stage n s) = next_switch s" "last_applied (write_stage n s) = last_applied s"
  by (simp_all add: write_stage_def)

lemma change_switch_sel [simp]:
  "the_row (change_switch i f s) = the_row s" "live (change_switch i f s) = map (\<lambda>w. if sw_id w = i then f w else w) (live s)"
  "holder (change_switch i f s) = holder s" "pending (change_switch i f s) = pending s"
  "outcomes (change_switch i f s) = outcomes s" "next_switch (change_switch i f s) = next_switch s"
  "last_applied (change_switch i f s) = last_applied s"
  by (simp_all add: change_switch_def)

lemma line_finish: "line_ok s \<Longrightarrow> line_ok (finish i out s)"
  by (auto simp: line_ok_def distinct_map inj_on_def)

lemma line_write [simp]: "line_ok (write_stage n s) = line_ok s"
  by (simp add: line_ok_def)

lemma changed_ids:
  assumes "\<And>w. sw_id (f w) = sw_id w"
  shows "map sw_id (live (change_switch i f s)) = map sw_id (live s)"
    "sw_id ` set (live (change_switch i f s)) = sw_id ` set (live s)"
proof -
  show m: "map sw_id (live (change_switch i f s)) = map sw_id (live s)" by (simp add: assms)
  then show "sw_id ` set (live (change_switch i f s)) = sw_id ` set (live s)" by (metis set_map)
qed

lemma line_change:
  assumes "line_ok s" "\<And>w. sw_id (f w) = sw_id w" "\<And>w. sw_aborted w \<Longrightarrow> sw_aborted (f w)"
    "\<And>w. w \<in> set (live s) \<Longrightarrow> sw_id w = i \<Longrightarrow> (sw_phase (f w) \<noteq> Waiting \<longleftrightarrow> sw_phase w \<noteq> Waiting)"
  shows "line_ok (change_switch i f s)"
  unfolding line_ok_def changed_ids [OF assms(2)]
  using assms by (auto simp: line_ok_def)

lemma same_switch: "line_ok s \<Longrightarrow> w \<in> set (live s) \<Longrightarrow> w' \<in> set (live s) \<Longrightarrow> sw_id w' = sw_id w \<Longrightarrow> w' = w"
  by (auto simp: line_ok_def distinct_map inj_on_def)

text \<open>The one that holds the backend ends: the others are in line.\<close>

lemma others_wait:
  "line_ok s \<Longrightarrow> w \<in> set (live s) \<Longrightarrow> sw_phase w \<noteq> Waiting \<Longrightarrow> w' \<in> set (live s) \<Longrightarrow> sw_id w' \<noteq> sw_id w \<Longrightarrow> sw_phase w' = Waiting"
  by (auto simp: line_ok_def)

lemma stage_left_waiting [simp]: "stage_left n r Waiting"
  by (simp add: stage_left_def)

lemma kept_finish:
  assumes "line_ok s" "w \<in> set (live s)" "sw_phase w \<noteq> Waiting" "live s' = live s" "holder s' = holder s"
    "\<And>r. the_row s' = Some r \<Longrightarrow> active_stage_index r = settled n (outcomes s' @ [out])"
  shows "stages_kept n (finish (sw_id w) out s')"
  using assms others_wait [OF assms(1-3)] by (auto simp: stages_kept_def)

lemma kept_phase:
  assumes "line_ok s" "w \<in> set (live s)" "sw_phase w \<noteq> Waiting" "live s' = live s" "holder s' = holder s"
    "\<And>r. the_row s' = Some r \<Longrightarrow> stage_left (settled n (outcomes s')) r ph"
  shows "stages_kept n (change_switch (sw_id w) (\<lambda>w. w\<lparr>sw_phase := ph\<rparr>) s')"
proof -
  have "holder s \<noteq> None" using assms(1-3) by (auto simp: line_ok_def)
  moreover have "sw_phase v = (if sw_id v = sw_id w then ph else Waiting)"
    if "v \<in> set (live (change_switch (sw_id w) (\<lambda>w. w\<lparr>sw_phase := ph\<rparr>) s'))" for v
    using that assms(4) others_wait [OF assms(1-3)] by (auto split: if_splits)
  ultimately show ?thesis using assms(5,6) by (auto simp: stages_kept_def simp del: change_switch_sel(2))
qed

lemma line_phase:
  assumes "line_ok s" "w \<in> set (live s)" "sw_phase w \<noteq> Waiting" "ph \<noteq> Waiting"
  shows "line_ok (change_switch (sw_id w) (\<lambda>w. w\<lparr>sw_phase := ph\<rparr>) s)"
  using assms by (intro line_change) (auto dest: same_switch)

lemma kept_left: "stages_kept n s \<Longrightarrow> the_row s = Some r \<Longrightarrow> w \<in> set (live s) \<Longrightarrow> stage_left (settled n (outcomes s)) r (sw_phase w)"
  by (simp add: stages_kept_def)

lemma kept_change:
  assumes "stages_kept n s" "\<And>w. sw_phase (f w) = sw_phase w"
  shows "stages_kept n (change_switch i f s)"
  using assms by (auto simp: stages_kept_def)

section \<open>Every step\<close>

definition switches_ok :: "nat \<Rightarrow> switches \<Rightarrow> bool" where
  "switches_ok n s \<longleftrightarrow> line_ok s \<and> stages_kept n s"

lemma abort_ok: "switches_ok n s \<Longrightarrow> switches_ok n (abort_switch i s)"
  by (auto simp: switches_ok_def abort_switch_def intro!: line_change kept_change)

lemma abort_pending_ok: "switches_ok n s \<Longrightarrow> switches_ok n (abort_pending s)"
  by (auto simp: abort_pending_def abort_ok split: option.split)

lemma abort_pending_sel [simp]:
  "the_row (abort_pending s) = the_row s" "holder (abort_pending s) = holder s" "pending (abort_pending s) = pending s"
  "outcomes (abort_pending s) = outcomes s" "next_switch (abort_pending s) = next_switch s"
  "last_applied (abort_pending s) = last_applied s"
  by (simp_all add: abort_pending_def abort_switch_def split: option.split)

lemma abort_pending_all: "line_ok s \<Longrightarrow> w \<in> set (live (abort_pending s)) \<Longrightarrow> sw_aborted w"
  by (auto simp: abort_pending_def abort_switch_def line_ok_def split: option.splits if_splits)

lemma join_ok:
  assumes "switches_ok n s" "\<And>w. w \<in> set (live s) \<Longrightarrow> sw_aborted w"
  shows "switches_ok n (s\<lparr>live := live s @ [\<lparr>sw_id = next_switch s, sw_target = t, sw_by = by, sw_conversation = conv, sw_aborted = stopped,
    sw_phase = Waiting\<rparr>], pending := Some (next_switch s), next_switch := Suc (next_switch s)\<rparr>)"
proof -
  have ok: "line_ok s" "stages_kept n s" using assms(1) by (simp_all add: switches_ok_def)
  have new: "next_switch s \<notin> sw_id ` set (live s)" using ok(1) by (auto simp: line_ok_def)
  then have "holder s \<noteq> Some (next_switch s)" using ok(1) by (auto simp: line_ok_def)
  then show ?thesis unfolding switches_ok_def
    using ok new assms(2) by (simp add: line_ok_def stages_kept_def ball_Un less_Suc_eq)
qed

lemma outcome_ok:
  assumes "switches_ok n s" "settled n (outcomes s @ [out]) = settled n (outcomes s)"
  shows "switches_ok n (s\<lparr>outcomes := outcomes s @ [out]\<rparr>)"
  using assms by (simp add: switches_ok_def line_ok_def stages_kept_def)

lemma begin_ok:
  assumes "switches_ok n s"
  shows "switches_ok n (begin_switch wanted by conv stopped s)"
proof -
  have "line_ok s" using assms by (simp add: switches_ok_def)
  then have "\<And>w. w \<in> set (live (abort_pending s)) \<Longrightarrow> sw_aborted w" by (rule abort_pending_all)
  from join_ok [OF abort_pending_ok [OF assms] this] outcome_ok [OF assms] show ?thesis
    by (simp add: begin_switch_def Let_def split: option.split)
qed

lemma admit_ok:
  assumes "switches_ok n s" "w \<in> set (live s)" "sw_phase w = Waiting" "holder s = None"
  shows "switches_ok n (admit_switch w s)"
proof -
  have ids: "map sw_id (live (admit_switch w s)) = map sw_id (live s)" by (simp add: admit_switch_def)
  then have img: "sw_id ` set (live (admit_switch w s)) = sw_id ` set (live s)" by (metis set_map)
  have each: "sw_id v < next_switch s \<and> (sw_phase v \<noteq> Waiting \<longleftrightarrow> sw_id w = sw_id v) \<and> (\<not> sw_aborted v \<longrightarrow> pending s = Some (sw_id v))"
    if new: "v \<in> set (live (admit_switch w s))" for v
  proof -
    obtain u where u: "u \<in> set (live s)" "v = (if sw_id u = sw_id w then u\<lparr>sw_phase := Admitted\<rparr> else u)"
      using new by (auto simp: admit_switch_def)
    then have "sw_id u < next_switch s" "sw_phase u = Waiting" "\<not> sw_aborted u \<Longrightarrow> pending s = Some (sw_id u)"
      using assms by (simp_all add: switches_ok_def line_ok_def)
    with u(2) show ?thesis by (cases "sw_id u = sw_id w") auto
  qed
  have sel: "holder (admit_switch w s) = Some (sw_id w)" "pending (admit_switch w s) = pending s"
    "next_switch (admit_switch w s) = next_switch s"
    by (simp_all add: admit_switch_def)
  have "line_ok (admit_switch w s)"
    unfolding line_ok_def ids img sel using assms each by (simp add: switches_ok_def line_ok_def)
  moreover have "stages_kept n (admit_switch w s)"
    using assms by (auto simp: admit_switch_def stages_kept_def stage_left_def switches_ok_def)
  ultimately show ?thesis by (simp add: switches_ok_def)
qed

lemma gives_up_ok: "switches_ok n s \<Longrightarrow> w \<in> set (live s) \<Longrightarrow> sw_phase w = Waiting \<Longrightarrow> switches_ok n (give_up w s)"
  by (auto simp: switches_ok_def give_up_def line_finish stages_kept_def) (auto simp: line_ok_def)

lemma moves_ok:
  assumes "switches_ok n s" "w \<in> set (live s)" "sw_phase w = Admitted"
  shows "switches_ok n (move_stage w s)"
proof (cases "the_row s")
  case None
  then show ?thesis using assms by (auto simp: move_stage_def switches_ok_def line_finish intro!: kept_finish)
next
  case (Some r)
  have ok: "line_ok s" "stages_kept n s" and now: "active_stage_index r = settled n (outcomes s)"
    using assms kept_left [OF _ Some assms(2)] by (auto simp: switches_ok_def stage_left_def)
  show ?thesis
  proof (cases "min (sw_target w) (stage_count r) = active_stage_index r")
    case True
    then show ?thesis using assms ok Some now
      by (auto simp: move_stage_def Let_def switches_ok_def line_finish intro!: kept_finish)
  next
    case False
    have "active_stage_index (r\<lparr>active_stage := int (min (sw_target w) (stage_count r))\<rparr>) = min (sw_target w) (stage_count r)"
      by (rule active_written) simp
    then show ?thesis
      using False Some ok assms(2,3) now active_bound [of r]
      by (auto simp: move_stage_def Let_def switches_ok_def stage_left_def intro!: kept_phase [OF ok(1)] line_phase)
  qed
qed

lemma loads_ok:
  assumes "switches_ok n s" "w \<in> set (live s)" "sw_phase w = Moved b m c"
  shows "switches_ok n (load_ended how w s)"
proof -
  have lk: "line_ok s" "stages_kept n s" using assms by (auto simp: switches_ok_def)
  have here: "b = settled n (outcomes s) \<and> b \<le> stage_count r \<and> active_stage_index r = m" if "the_row s = Some r" for r
    using kept_left [OF lk(2) that assms(2)] assms(3) by (simp add: stage_left_def)
  show ?thesis
  proof (cases how)
    case Loaded
    then show ?thesis
      using assms(2,3) lk here by (auto simp: load_ended_def switches_ok_def stage_left_def intro!: kept_phase [OF lk(1)] line_phase)
  next
    case NotLoaded
    then show ?thesis using assms lk here
      by (auto simp: load_ended_def switches_ok_def line_finish active_written intro!: kept_finish [OF lk(1)])
  next
    case NotLoadedThrew
    then show ?thesis using assms(2,3) lk here
      by (auto simp: load_ended_def switches_ok_def stage_left_def active_written intro!: kept_phase [OF lk(1)] line_phase)
  qed
qed

lemma throws_ok:
  assumes "switches_ok n s" "w \<in> set (live s)" "sw_phase w = Admitted \<or> sw_phase w = Moved b m c \<or> sw_phase w = WrittenBack b"
  shows "switches_ok n (threw written w s)"
proof -
  have lk: "line_ok s" "stages_kept n s" using assms by (auto simp: switches_ok_def)
  have here: "stage_left (settled n (outcomes s)) r (sw_phase w)" if "the_row s = Some r" for r
    using kept_left [OF lk(2) that assms(2)] .
  show ?thesis using assms(2,3) lk here
    by (auto simp: threw_def switches_ok_def line_finish active_written stage_left_def intro!: kept_finish [OF lk(1)])
qed

lemma line_applied [simp]: "line_ok (s\<lparr>last_applied := a\<rparr>) = line_ok s"
  by (simp add: line_ok_def)

lemma applies_ok:
  assumes "switches_ok n s" "w \<in> set (live s)" "sw_phase w = Reloaded b m c"
  shows "switches_ok n (apply_switch time w s)"
proof -
  have lk: "line_ok s" "stages_kept n s" using assms by (auto simp: switches_ok_def)
  have here: "stage_left (settled n (outcomes s)) r (sw_phase w)" if "the_row s = Some r" for r
    using kept_left [OF lk(2) that assms(2)] .
  show ?thesis using assms(2,3) lk here
    by (auto simp: apply_switch_def switches_ok_def line_finish stage_left_def intro!: kept_finish [OF lk(1)])
qed

lemma switch_step_ok: "switch_step s s' \<Longrightarrow> switches_ok n s \<Longrightarrow> switches_ok n s'"
proof (induction rule: switch_step.induct)
  case (uninstalled s)
  then show ?case by (simp add: switches_ok_def line_ok_def stages_kept_def)
next
  case (withdrawn s)
  then show ?case by (simp add: withdraw_def abort_pending_ok)
qed (simp_all add: begin_ok abort_ok gives_up_ok admit_ok moves_ok loads_ok throws_ok applies_ok)

lemma run_ok: "switch_run s s' \<Longrightarrow> switches_ok n s \<Longrightarrow> switches_ok n s'"
  by (induction rule: rtranclp_induct) (auto intro: switch_step_ok)

lemma start_ok: "switches_ok (active_stage_index r) (no_switches r)"
  by (simp add: switches_ok_def line_ok_def stages_kept_def no_switches_def settled_def)

text \<open>
  C13: Whatever switches of a model overlap, are replaced, withdrawn, fail or break, as long as no administrator edits its
  stages meanwhile: while none of them holds the backend, the active stage is the one the finished ones come to. A switch that was
  cancelled, one whose load failed and one with nothing to do leave the stage as they found it. Those that move it are the ones
  that applied; one that threw after its stage was written, reported as failed (\<open>failed_on_the_new_stage\<close>); and one stopped
  then whose stage could not be written back, reported as cancelled (\<open>cancelled_on_the_new_stage\<close>). At most one
  switch is past the line at any time, and only the model's pending one is not aborted.
\<close>

theorem cancelled_switch_changes_nothing:
  assumes "switch_run (no_switches r0) s"
  shows "(\<forall>r. holder s = None \<and> the_row s = Some r \<longrightarrow> active_stage_index r = settled (active_stage_index r0) (outcomes s))
    \<and> length (filter (\<lambda>w. sw_phase w \<noteq> Waiting) (live s)) \<le> 1
    \<and> (\<forall>w\<in>set (live s). sw_aborted w \<or> pending s = Some (sw_id w))"
proof -
  have ok: "line_ok s" "stages_kept (active_stage_index r0) s" using run_ok [OF assms start_ok] by (simp_all add: switches_ok_def)
  have "sw_id ` set (filter (\<lambda>w. sw_phase w \<noteq> Waiting) (live s)) \<subseteq> set_option (holder s)" using ok(1) by (auto simp: line_ok_def)
  then have "card (sw_id ` set (filter (\<lambda>w. sw_phase w \<noteq> Waiting) (live s))) \<le> card (set_option (holder s))" by (intro card_mono) auto
  moreover have "card (set_option (holder s)) \<le> 1" by (cases "holder s") auto
  moreover have "distinct (map sw_id (filter (\<lambda>w. sw_phase w \<noteq> Waiting) (live s)))"
    using ok(1) by (auto simp: line_ok_def distinct_map inj_on_def)
  ultimately have "length (filter (\<lambda>w. sw_phase w \<noteq> Waiting) (live s)) \<le> 1"
    by (metis distinct_card length_map set_map le_trans)
  with ok show ?thesis by (auto simp: line_ok_def stages_kept_def)
qed

text \<open>A model of two stages whose switch is stopped while it loads.\<close>

definition two_stages :: model_row where
  "two_stages =
     \<lparr>row_id = ''m'',
      context_stages = Some (JObj [(''enabled'', JBool True), (''stages'', JArr [JObj [(''ctxSize'', JNum ''8192'')]])]),
      row_meta = \<lparr>n_layers = None, n_ctx_train = Some 4096, lookup_tbl = NoTable\<rparr>, load_settings = [], active_stage = 0\<rparr>"

definition one_switch :: "bool \<Rightarrow> switch_phase \<Rightarrow> switch" where
  "one_switch stopped ph = \<lparr>sw_id = 0, sw_target = 1, sw_by = None, sw_conversation = None, sw_aborted = stopped, sw_phase = ph\<rparr>"

definition moved_switch :: switches where
  "moved_switch = move_stage (one_switch False Admitted)
     (admit_switch (one_switch False Waiting) (begin_switch 1 None None False (no_switches two_stages)))"

lemma moved_switch_live: "live moved_switch = [one_switch False (Moved 0 1 (Some 8192))]"
  by code_simp

lemma moved_switch_reached: "switch_run (no_switches two_stages) moved_switch"
proof -
  define s1 where "s1 = begin_switch 1 None None False (no_switches two_stages)"
  have s1: "live s1 = [one_switch False Waiting]" "holder s1 = None" unfolding s1_def by code_simp+
  define s2 where "s2 = admit_switch (one_switch False Waiting) s1"
  have s2: "live s2 = [one_switch False Admitted]" unfolding s2_def s1_def by code_simp
  have "switch_step (no_switches two_stages) s1" unfolding s1_def by (rule switch_step.begins)
  moreover have "switch_step s1 s2"
    unfolding s2_def by (rule switch_step.admits) (simp_all add: s1, simp_all add: one_switch_def)
  moreover have "switch_step s2 moved_switch"
    unfolding moved_switch_def s1_def [symmetric] s2_def [symmetric]
    by (rule switch_step.moves) (simp_all add: s2, simp_all add: one_switch_def)
  ultimately show ?thesis by (meson rtranclp.rtrancl_refl rtranclp.rtrancl_into_rtrancl)
qed

definition stopped_switch :: switches where
  "stopped_switch = threw True (one_switch True (Moved 0 1 (Some 8192))) (abort_switch 0 moved_switch)"

lemma stopped_switch_reached: "switch_run (no_switches two_stages) stopped_switch"
proof -
  have "live (abort_switch 0 moved_switch) = [one_switch True (Moved 0 1 (Some 8192))]"
    by (simp add: abort_switch_def moved_switch_live) (simp add: one_switch_def)
  then have "switch_step (abort_switch 0 moved_switch) stopped_switch"
    unfolding stopped_switch_def by (intro switch_step.throws [where b = 0 and n = 1 and c = "Some 8192"]) (simp_all add: one_switch_def)
  with moved_switch_reached switch_step.stopped [of moved_switch 0] show ?thesis
    by (meson rtranclp.rtrancl_into_rtrancl)
qed

lemma stopped_switch_idle: "holder stopped_switch = None" "outcomes stopped_switch = [Cancelled]" "the_row stopped_switch = Some two_stages"
  by code_simp+

theorem cancelled_switch_changes_nothing_witness:
  "active_stage_index two_stages = settled (active_stage_index two_stages) (outcomes stopped_switch)
   \<and> map_option active_stage_index (the_row stopped_switch) = Some 0 \<and> outcomes stopped_switch = [Cancelled]"
proof -
  have "active_stage_index two_stages = settled (active_stage_index two_stages) (outcomes stopped_switch)"
    using cancelled_switch_changes_nothing [OF stopped_switch_reached] stopped_switch_idle by simp
  moreover have "active_stage_index two_stages = 0" by code_simp
  ultimately show ?thesis by (simp add: stopped_switch_idle)
qed

text \<open>Something that throws after the stage is written, the preset's rewrite say, is reported as failed with the row on the new stage.\<close>

lemma failed_on_the_new_stage:
  "switch_step moved_switch (threw True (one_switch False (Moved 0 1 (Some 8192))) moved_switch)
   \<and> map_option active_stage_index (the_row (threw True (one_switch False (Moved 0 1 (Some 8192))) moved_switch)) = Some 1
   \<and> outcomes (threw True (one_switch False (Moved 0 1 (Some 8192))) moved_switch) = [Broke (Some 1)]"
proof (intro conjI)
  show "switch_step moved_switch (threw True (one_switch False (Moved 0 1 (Some 8192))) moved_switch)"
    by (rule switch_step.throws [where b = 0 and n = 1 and c = "Some 8192"]) (simp_all add: moved_switch_live, simp_all add: one_switch_def)
qed code_simp+

text \<open>And a stop whose stage cannot be written back ends as cancelled there, which the client takes for nothing changed.\<close>

lemma cancelled_on_the_new_stage:
  "switch_step (abort_switch 0 moved_switch) (threw False (one_switch True (Moved 0 1 (Some 8192))) (abort_switch 0 moved_switch))
   \<and> map_option active_stage_index (the_row (threw False (one_switch True (Moved 0 1 (Some 8192))) (abort_switch 0 moved_switch))) = Some 1
   \<and> outcomes (threw False (one_switch True (Moved 0 1 (Some 8192))) (abort_switch 0 moved_switch)) = [NotPutBack 1]"
proof (intro conjI)
  have "live (abort_switch 0 moved_switch) = [one_switch True (Moved 0 1 (Some 8192))]"
    by (simp add: abort_switch_def moved_switch_live) (simp add: one_switch_def)
  then show "switch_step (abort_switch 0 moved_switch) (threw False (one_switch True (Moved 0 1 (Some 8192))) (abort_switch 0 moved_switch))"
    by (intro switch_step.throws [where b = 0 and n = 1 and c = "Some 8192"]) (simp_all add: one_switch_def)
qed code_simp+

text \<open>The wait after a switch is the wait after one that applied: one stopped while it loads leaves nothing to wait for.\<close>

lemma stopped_switch_needs_no_wait: "stage_cooldown_remaining cooldown time stopped_switch = 0"
proof -
  have "last_applied stopped_switch = None" by code_simp
  then show ?thesis by (simp add: stage_cooldown_remaining_def)
qed

end
