(* ===== verification/Spec2Isabelle.thy ===== *)
theory Spec2Isabelle
  imports BashSafety Permissions Scheduler LoopGuard Todos Subagents StreamLog Snapshot Registry EgressRules AddressGuard
    RunActions DeliverySafe ToolGate
    Attachments McpSanitize CompactedRun PromptReuse MakeRoom
    Preset StagePolicy StageSwitch
begin

text \<open>
  A model of the server of Loxaic, a self-hosted chat and agent application written in TypeScript
  (\<open>apps/server/src\<close>, written \<open>server\<close> below, with the shared package \<open>packages/types\<close>). The server runs a tool loop for
  each conversation: a run waits its turn for the model, streams events to a durable log and to every device, asks people
  before it does something risky, and is watched for loops. What is modelled is the logic that decides: who may do what,
  what runs unasked, who is next, what a device is shown. What only talks to the outside is not.

  \<^bold>\<open>What runs unasked.\<close> \<open>BashParse\<close> is the shell reader (\<open>server/agent/bash-policy/parse.ts\<close>), a recursive descent on a
  suffix of the text with fuel; \<open>BashParseTotal\<close> shows that fuel of one more than the length never runs out.
  \<open>BashReadonly\<close> has the table of commands that only read (\<open>readonly.ts\<close>), \<open>BashRules\<close> the patterns people allow
  (\<open>rules.ts\<close>), \<open>BashPolicy\<close> the decision (\<open>index.ts\<close>), \<open>BashChain\<close> the round trip of chains of plain commands and
  \<open>BashSafety\<close> the properties: what runs unasked, that deny rules deny and that restrictions only restrict.
  \<open>Permissions\<close> has the check by a side call (\<open>permission-check.ts\<close>), isolation and the sensitive paths.

  \<^bold>\<open>Who may.\<close> \<open>Authz\<close> is \<open>server/streams/authz.ts\<close>: the access lookup over the tables, as maps, is equal to
  inductively given rules, and a soft delete revokes. \<open>RunActions\<close> composes it with \<open>Registry\<close> (\<open>streams/registry.ts\<close>, the
  runs that are going, one per conversation unless one is registered without a look) in the actions of a socket (\<open>ws/run-actions.ts\<close>).

  \<^bold>\<open>Runs.\<close> \<open>Scheduler\<close> is the inference queue (\<open>streams/runs\<close> and \<open>inference\<close>) as a step relation with its
  slots, its line and the returning runs; \<open>LoopGuard\<close> the loop detector, the step gate and the windows of a wait;
  \<open>Todos\<close> the list a run keeps and its staleness; \<open>Subagents\<close> the policy of sub-agents, their list and their result.
  \<open>Toolset\<close> has the tools a run is offered and the policies of MCP tools (\<open>agent\<close>, \<open>mcp/change-detection.ts\<close>), \<open>ToolGate\<close>
  what a tool call meets before it runs (\<open>engine.ts\<close>: the mode, the policy, the question to a person, the wait and its end).

  \<^bold>\<open>What the model reads.\<close> \<open>Json\<close> has JSON and its printing, \<open>Markers\<close> the markers around text of unknown authorship, with
  the locale \<open>marker\<close> of what every one of them must keep; it is interpreted for a sub-agent's report (\<open>Subagents\<close>), an MCP
  server's answer (\<open>McpSanitize\<close>, \<open>mcp/sanitize.ts\<close>) and an attached document (\<open>Attachments\<close>, \<open>files/storage.ts\<close>, with the
  budgets). \<open>Replay\<close> models both ways a prompt comes about: the messages a run appends, and what \<open>loadHistory\<close> rebuilds from the
  rows it stored; \<open>ReplayParts\<close> shows what one step leaves, \<open>ReplayFaithful\<close> that the two agree, that the next turn extends
  what was sent, and that a replay is well-formed. \<open>Tokens\<close> is \<open>inference/context.ts\<close>, \<open>PromptReuse\<close> the measurement of what the
  backend can reuse (\<open>prompt-reuse.ts\<close>, \<open>request-shape.ts\<close>), on the locale \<open>recency\<close> of maps that forget the oldest,
  interpreted for both maps.

  \<^bold>\<open>When a conversation fills its window.\<close> \<open>MakeRoom\<close> is the policy (\<open>auto-compact.ts\<close>) and the loop of the engine that extends,
  compacts, refuses or sends; its four passes are the code's own. \<open>Compaction\<close> is what a summary is asked with
  (\<open>compactRun.ts\<close>), in one request or in parts; \<open>SummaryParts\<close> shows that the parts leave nothing out and fit;
  \<open>CompactedRun\<close> is the row a compaction leaves, and shows that a run which compacts goes on from what will be replayed.

  \<^bold>\<open>What llama.cpp is started with.\<close> \<open>LoadSettings\<close> is the table of load settings and their check
  (\<open>llama/load-settings.ts\<close>), \<open>ExtraOptions\<close> the options an admin may add, read from the build's own help
  (\<open>llama/extra-options.ts\<close>), \<open>ContextStages\<close> the stages a model's context can be extended to (\<open>llama/context-stages.ts\<close>), and
  \<open>Preset\<close> the file they all end in (\<open>llama/preset.ts\<close>, \<open>paths.ts\<close>), with what may stand in it: an option that is accepted is
  passed, a reserved one never is, and no value starts a line of its own. \<open>Fit\<close> estimates the memory of a load
  (\<open>llama/shape.ts\<close>, \<open>fit.ts\<close>), \<open>Room\<close> decides what is unloaded for it (\<open>llama/room.ts\<close>): idle unpinned models, the one used
  longest ago first, on what is measured each time. \<open>StagePolicy\<close> is who may move a model to another stage
  (\<open>llama/context-stage-policy.ts\<close>), and that a step down truncates nobody; \<open>StageSwitch\<close> the switches themselves, any number
  of them overlapping, as a step relation whose invariant says what each end leaves
  (\<open>llama/context-stage-switch.ts\<close>).

  \<^bold>\<open>What devices are shown.\<close> \<open>StreamLog\<close> has the in-memory log driver and the producer that buffers, \<open>Snapshot\<close> the fold of
  a log into what a device shows, \<open>Delivery\<close> and \<open>DeliverySend\<close> one socket that catches up with one run and follows it
  (\<open>ws/delivery.ts\<close>), together with the cursor of the client, and \<open>DeliverySafe\<close> what the client has shown at any time.

  \<^bold>\<open>What leaves a sandbox.\<close> \<open>EgressPush\<close> reads and judges a git push on the wire, \<open>EgressGraphql\<close> reads GraphQL documents
  (\<open>egress/graphql.ts\<close>), \<open>EgressWritten\<close> has the documents of the grammar and the texts that spell them, and shows that the reader finds
  in a text what its document says; \<open>EgressRules\<close> judges requests to GitHub and picks their credentials, \<open>AddressGuard\<close> refuses addresses that are not public.

  \<^bold>\<open>Conventions.\<close> A string is a list of characters, one per code unit; a string that may hold other code units is a list of
  numbers. A thrown error is a constructor or \<^const>\<open>None\<close>, an object a record, a \<open>Map\<close> an association list where its order
  matters and a map otherwise. An \<open>await\<close> ends a step of a step relation, or takes what the rest of the server does as a
  parameter. Times are integers in milliseconds. Recursions with fuel have a theorem that theirs is enough; all others
  terminate. \<open>Systems\<close> has the locales of step relations and their invariants, \<open>Prelude\<close> the lemmas on lists and maps,
  \<open>Rounding\<close> the rounding of fractions, which are rational where the code has doubles.

  \<^bold>\<open>Not modelled.\<close> The database, Redis, Docker, the providers and llama processes, HTTP and the user interface; the help texts of the
  settings and the views made for a settings sheet; loading pinned models again and discarding one after a GPU reset; the engine's
  loop as one program, whose decisions are the theories above. Regular expressions are written out as recognisers. A parameter
  stands for what is outside: the resolver, URL parsing, \<open>JSON.parse\<close>, the \<open>jsonb\<close> column, the hash, the model's answers, the header of
  a model file, what memory is free.
\<close>

end
